(* ===== verification/Prelude.thy ===== *)
theory Prelude
  imports Main "HOL-Library.Word" "HOL-Library.Char_ord" "HOL-Library.List_Lexorder"
    "HOL-Library.Sublist" "HOL-Library.AList"
begin

text \<open>
  Shared material: Go byte strings and the parts of \<open>strings\<close>, \<open>strconv\<close>,
  \<open>sort\<close>, \<open>io\<close> and \<open>encoding/binary\<close> that several components call, the files of a
  data directory, and generic lemmas on sorted association lists.

  A Go \<open>string\<close> and a Go \<open>[]byte\<close> are both a list of bytes; a byte is a \<open>char\<close>.
  With \<open>Char_ord\<close> and \<open>List_Lexorder\<close> the order \<open><\<close> on strings is the byte-wise
  lexicographic order of \<open>bytes.Compare\<close> and of Go's \<open><\<close> on strings.
\<close>

type_synonym bytes = string

text \<open>Facts that evaluate or split the model's result types are collected under these names.\<close>

named_theorems codec_simps \<open>read-after-write equations of the binary codecs\<close>
named_theorems store_simps \<open>equations that evaluate store operations\<close>
named_theorems key_simps \<open>equations about the repository's storage keys\<close>

section \<open>Package strings\<close>

definition HasPrefix :: "string \<Rightarrow> string \<Rightarrow> bool" where
  "HasPrefix s p \<longleftrightarrow> prefix p s"

definition HasSuffix :: "string \<Rightarrow> string \<Rightarrow> bool" where
  "HasSuffix s p \<longleftrightarrow> suffix p s"

definition TrimPrefix :: "string \<Rightarrow> string \<Rightarrow> string" where
  "TrimPrefix s p = (if prefix p s then drop (length p) s else s)"

definition TrimSuffix :: "string \<Rightarrow> string \<Rightarrow> string" where
  "TrimSuffix s p = (if suffix p s then take (length s - length p) s else s)"

text \<open>\<open>strings.Cut\<close> around a one-byte separator: \<open>Some (before, after)\<close> when it is found.\<close>

fun Cut :: "string \<Rightarrow> char \<Rightarrow> (string \<times> string) option" where
  "Cut [] c = None"
| "Cut (x # xs) c =
     (if x = c then Some ([], xs)
      else map_option (\<lambda>(a, b). (x # a, b)) (Cut xs c))"

lemma HasPrefix_append [simp]: "HasPrefix (p @ s) p"
  by (simp add: HasPrefix_def)

lemma TrimPrefix_append [simp]: "TrimPrefix (p @ s) p = s"
  by (simp add: TrimPrefix_def)

lemma TrimSuffix_append [simp]: "TrimSuffix (s @ p) p = s"
  by (simp add: TrimSuffix_def suffix_def)

lemma Cut_append [simp]: "c \<notin> set a \<Longrightarrow> Cut (a @ c # b) c = Some (a, b)"
  by (induction a) auto

lemma Cut_None [simp]: "c \<notin> set a \<Longrightarrow> Cut a c = None"
  by (induction a) auto

lemma Cut_Some: "Cut s c = Some (a, b) \<Longrightarrow> s = a @ c # b \<and> c \<notin> set a"
  by (induction s arbitrary: a) (auto split: if_splits)

section \<open>Package strconv\<close>

definition digit :: "nat \<Rightarrow> char" where
  "digit n = char_of (48 + n)"

definition isDigit :: "char \<Rightarrow> bool" where
  "isDigit c \<longleftrightarrow> 48 \<le> (of_char c :: nat) \<and> (of_char c :: nat) \<le> 57"

definition digitVal :: "char \<Rightarrow> nat" where
  "digitVal c = of_char c - 48"

fun natDigits :: "nat \<Rightarrow> string" where
  "natDigits n = (if n < 10 then [digit n] else natDigits (n div 10) @ [digit (n mod 10)])"

declare natDigits.simps [simp del]

definition Itoa :: "int \<Rightarrow> string" where
  "Itoa i = (if i < 0 then CHR ''-'' # natDigits (nat (- i)) else natDigits (nat i))"

definition digitsVal :: "string \<Rightarrow> nat" where
  "digitsVal ds = foldl (\<lambda>a c. 10 * a + digitVal c) 0 ds"

text \<open>\<open>strconv.Atoi\<close>: an optional sign, at least one decimal digit and nothing else, and a
  value that fits Go's 64-bit \<open>int\<close>; \<open>None\<close> is its error.\<close>

definition Atoi :: "string \<Rightarrow> int option" where
  "Atoi s =
     (let (neg, ds) = (case s of [] \<Rightarrow> (False, [])
                       | c # cs \<Rightarrow> if c = CHR ''-'' then (True, cs)
                                   else if c = CHR ''+'' then (False, cs) else (False, s));
          v = (if neg then - int (digitsVal ds) else int (digitsVal ds))
      in if ds \<noteq> [] \<and> list_all isDigit ds \<and> - (2 ^ 63) \<le> v \<and> v < 2 ^ 63 then Some v else None)"

lemma of_char_digit [simp]: "n < 10 \<Longrightarrow> (of_char (digit n) :: nat) = 48 + n"
  by (simp add: digit_def)

lemma isDigit_digit [simp]: "n < 10 \<Longrightarrow> isDigit (digit n)"
  by (simp add: isDigit_def)

lemma digitVal_digit [simp]: "n < 10 \<Longrightarrow> digitVal (digit n) = n"
  by (simp add: digitVal_def)

lemma natDigits_nonempty [simp]: "natDigits n \<noteq> []"
  by (subst natDigits.simps) simp

lemma natDigits_digits: "list_all isDigit (natDigits n)"
proof (induction n rule: natDigits.induct)
  case (1 n)
  then show ?case by (subst natDigits.simps) (simp add: list_all_append)
qed

lemma digitsVal_natDigits [simp]: "digitsVal (natDigits n) = n"
proof (induction n rule: natDigits.induct)
  case (1 n)
  then show ?case
    by (subst natDigits.simps) (simp add: digitsVal_def)
qed

lemma not_isDigit_sign [simp]: "\<not> isDigit CHR ''-''" "\<not> isDigit CHR ''+''" "\<not> isDigit CHR ''/''"
  by (simp_all add: isDigit_def)

lemma natDigits_no_sign:
  "natDigits n = c # cs \<Longrightarrow> c \<noteq> CHR ''-'' \<and> c \<noteq> CHR ''+''"
  using natDigits_digits [of n] by auto

lemma Atoi_natDigits:
  assumes "int n < 2 ^ 63"
  shows "Atoi (natDigits n) = Some (int n)"
proof -
  obtain c cs where n: "natDigits n = c # cs"
    using natDigits_nonempty [of n] by (cases "natDigits n") auto
  then have "c \<noteq> CHR ''-''" "c \<noteq> CHR ''+''" using natDigits_no_sign by blast+
  moreover have "list_all isDigit (c # cs)" using natDigits_digits [of n] n by simp
  moreover have "digitsVal (c # cs) = n" using digitsVal_natDigits [of n] n by simp
  ultimately show ?thesis using assms n by (simp add: Atoi_def Let_def)
qed

lemma Atoi_Itoa [simp]:
  assumes "- (2 ^ 63) \<le> i" and "i < 2 ^ 63"
  shows "Atoi (Itoa i) = Some i"
proof (cases "i < 0")
  case True
  with assms show ?thesis
    using natDigits_digits [of "nat (- i)"] by (simp add: Itoa_def Atoi_def Let_def)
next
  case False
  with assms show ?thesis by (simp add: Itoa_def Atoi_natDigits)
qed

lemma Itoa_val:
  "i = (case Itoa i of [] \<Rightarrow> 0
        | c # cs \<Rightarrow> if c = CHR ''-'' then - int (digitsVal cs) else int (digitsVal (c # cs)))"
proof (cases "i < 0")
  case True
  then show ?thesis by (simp add: Itoa_def)
next
  case False
  obtain c cs where n: "natDigits (nat i) = c # cs"
    using natDigits_nonempty [of "nat i"] by (cases "natDigits (nat i)") auto
  then have "c \<noteq> CHR ''-''" using natDigits_no_sign by blast
  moreover have "digitsVal (c # cs) = nat i" using digitsVal_natDigits [of "nat i"] n by simp
  ultimately show ?thesis using False n by (simp add: Itoa_def)
qed

lemma Itoa_inj: "Itoa i = Itoa j \<longleftrightarrow> i = j"
  using Itoa_val [of i] Itoa_val [of j] by metis

lemma Itoa_no_slash [simp]: "CHR ''/'' \<notin> set (Itoa i)"
proof -
  have "CHR ''/'' \<notin> set (natDigits n)" for n
    using natDigits_digits [of n] by (auto simp: list_all_iff)
  then show ?thesis by (simp add: Itoa_def)
qed

end
