(* ===== verification/Binary.thy ===== *)
theory Binary
  imports Prelude
begin

text \<open>
  The byte-level interface of the storage files: \<open>encoding/binary\<close> big-endian words,
  \<open>io.ReadFull\<close> and \<open>io.CopyN\<close> on a reader (the bytes not read yet), the files of a data
  directory, and the binary search of \<open>sort.Search\<close>.
\<close>

section \<open>Big-endian 32-bit words\<close>

definition PutUint32 :: "32 word \<Rightarrow> bytes" where
  "PutUint32 v =
     [char_of (uint (drop_bit 24 v)), char_of (uint (drop_bit 16 v)),
      char_of (uint (drop_bit 8 v)), char_of (uint v)]"

definition Uint32 :: "bytes \<Rightarrow> 32 word" where
  "Uint32 b =
     or (push_bit 24 (of_char (b ! 0)))
       (or (push_bit 16 (of_char (b ! 1))) (or (push_bit 8 (of_char (b ! 2))) (of_char (b ! 3))))"

lemma length_PutUint32 [simp]: "length (PutUint32 v) = 4"
  by (simp add: PutUint32_def)

lemma of_char_word: "(of_char (char_of (uint w)) :: 32 word) = take_bit 8 w"
proof -
  have "(of_char (char_of (uint w)) :: 32 word) = of_int (of_char (char_of (uint w)))"
    by (simp only: of_int_of_char)
  also have "\<dots> = of_int (take_bit 8 (uint w))"
    by (simp add: take_bit_eq_mod)
  also have "\<dots> = take_bit 8 w"
    by (simp only: unsigned_take_bit_eq [symmetric]) simp
  finally show ?thesis .
qed

lemma word_of_bytes:
  "or (push_bit 24 (take_bit 8 (drop_bit 24 v)))
     (or (push_bit 16 (take_bit 8 (drop_bit 16 v)))
       (or (push_bit 8 (take_bit 8 (drop_bit 8 v))) (take_bit 8 v))) = (v :: 32 word)"
proof (rule bit_word_eqI)
  fix n assume "n < LENGTH(32)"
  then have "n < 8 \<or> (8 \<le> n \<and> n < 16) \<or> (16 \<le> n \<and> n < 24) \<or> (24 \<le> n \<and> n < 32)" by auto
  then show "bit (or (push_bit 24 (take_bit 8 (drop_bit 24 v)))
     (or (push_bit 16 (take_bit 8 (drop_bit 16 v)))
       (or (push_bit 8 (take_bit 8 (drop_bit 8 v))) (take_bit 8 v)))) n \<longleftrightarrow> bit v n"
    by (auto simp: bit_or_iff bit_push_bit_iff bit_take_bit_iff bit_drop_bit_eq)
qed

lemma Uint32_PutUint32 [simp, codec_simps]: "Uint32 (PutUint32 v) = v"
  unfolding Uint32_def PutUint32_def by (simp add: of_char_word word_of_bytes del: of_char_of)

section \<open>Readers\<close>

datatype ioerr = EOF | UnexpectedEOF | NotExist

text \<open>
  \<open>io.ReadFull\<close> into a buffer of \<open>n\<close> bytes: \<open>io.EOF\<close> when nothing could be read,
  \<open>io.ErrUnexpectedEOF\<close> when only a part could; an empty buffer is filled at once.
\<close>

definition ReadFull :: "nat \<Rightarrow> bytes \<Rightarrow> ioerr + bytes \<times> bytes" where
  "ReadFull n r =
     (if n \<le> length r then Inr (take n r, drop n r)
      else if r = [] then Inl EOF else Inl UnexpectedEOF)"

text \<open>\<open>io.CopyN(io.Discard, r, n)\<close>: skips \<open>n\<close> bytes, \<open>io.EOF\<close> when there are fewer.\<close>

definition Discard :: "nat \<Rightarrow> bytes \<Rightarrow> ioerr + bytes" where
  "Discard n r = (if n \<le> length r then Inr (drop n r) else Inl EOF)"

lemma ReadFull_append [simp, codec_simps]: "n = length b \<Longrightarrow> ReadFull n (b @ r) = Inr (b, r)"
  by (simp add: ReadFull_def)

lemma Discard_append [simp, codec_simps]: "n = length b \<Longrightarrow> Discard n (b @ r) = Inr r"
  by (simp add: Discard_def)

lemma ReadFull_Inr: "ReadFull n r = Inr (b, r') \<longleftrightarrow> r = b @ r' \<and> length b = n"
  by (auto simp: ReadFull_def)

lemma ReadFull_short: "length r < n \<Longrightarrow> \<exists>e. ReadFull n r = Inl e"
  by (auto simp: ReadFull_def)

lemma Discard_Inr: "Discard n r = Inr r' \<Longrightarrow> length r = n + length r'"
  by (auto simp: Discard_def split: if_splits)

section \<open>Files of the data directory\<close>

text \<open>A directory is its files in no particular order, each name once; a name is the path below
  \<open>dataDir\<close>.\<close>

type_synonym dir = "(string \<times> bytes) list"

definition ReadFile :: "dir \<Rightarrow> string \<Rightarrow> ioerr + bytes" where
  "ReadFile d p = (case map_of d p of None \<Rightarrow> Inl NotExist | Some b \<Rightarrow> Inr b)"

definition WriteFile :: "dir \<Rightarrow> string \<Rightarrow> bytes \<Rightarrow> dir" where
  "WriteFile d p b = AList.update p b d"

definition RemoveFile :: "dir \<Rightarrow> string \<Rightarrow> ioerr + dir" where
  "RemoveFile d p = (if p \<in> fst ` set d then Inr (AList.delete p d) else Inl NotExist)"

lemma ReadFile_WriteFile [simp]:
  "ReadFile (WriteFile d p b) q = (if q = p then Inr b else ReadFile d q)"
  by (simp add: ReadFile_def WriteFile_def update_conv')

lemma dom_WriteFile [simp]: "fst ` set (WriteFile d p b) = insert p (fst ` set d)"
  by (simp add: WriteFile_def dom_update)

lemma distinct_WriteFile [simp]:
  "distinct (map fst d) \<Longrightarrow> distinct (map fst (WriteFile d p b))"
  by (simp add: WriteFile_def distinct_update)

lemma ReadFile_delete [simp]:
  "ReadFile (AList.delete p d) q = (if q = p then Inl NotExist else ReadFile d q)"
  by (simp add: ReadFile_def delete_conv')

section \<open>sort.Search\<close>

text \<open>The smallest index in \<open>[i, j)\<close> where \<open>f\<close> holds, by bisection, \<open>j\<close> if there is none.\<close>

function searchLoop :: "(nat \<Rightarrow> bool) \<Rightarrow> nat \<Rightarrow> nat \<Rightarrow> nat" where
  "searchLoop f i j =
     (if i < j then
        let h = (i + j) div 2
        in if \<not> f h then searchLoop f (h + 1) j else searchLoop f i h
      else i)"
  by pat_completeness auto
termination
  by (relation "measure (\<lambda>(f, i, j). j - i)") auto

declare searchLoop.simps [simp del]

definition Search :: "nat \<Rightarrow> (nat \<Rightarrow> bool) \<Rightarrow> nat" where
  "Search n f = searchLoop f 0 n"

lemma searchLoop_correct:
  assumes "i \<le> j" and "j \<le> n" and mono: "\<And>a b. a \<le> b \<Longrightarrow> b < n \<Longrightarrow> f a \<Longrightarrow> f b"
    and "\<And>k. k < i \<Longrightarrow> \<not> f k" and "\<And>k. j \<le> k \<Longrightarrow> k < n \<Longrightarrow> f k"
  shows "searchLoop f i j \<le> n \<and> (\<forall>k < searchLoop f i j. \<not> f k)
    \<and> (\<forall>k. searchLoop f i j \<le> k \<longrightarrow> k < n \<longrightarrow> f k)"
  using assms
proof (induction f i j rule: searchLoop.induct)
  case (1 f i j)
  show ?case
  proof (cases "i < j")
    case False
    then have "searchLoop f i j = i" by (simp add: searchLoop.simps [of f i j])
    with False "1.prems" show ?thesis by auto
  next
    case True
    let ?h = "(i + j) div 2"
    have h: "i \<le> ?h" "?h < j" using True by auto
    show ?thesis
    proof (cases "f ?h")
      case True
      have eq: "searchLoop f i j = searchLoop f i ?h"
        using \<open>i < j\<close> True by (simp add: searchLoop.simps [of f i j] Let_def)
      have above: "f k" if "?h \<le> k" "k < n" for k
        using "1.prems"(3) [OF that True] .
      show ?thesis unfolding eq
        using h "1.prems"(2,4) above True \<open>i < j\<close>
        by (intro "1.IH"(2)) (auto intro: "1.prems"(3))
    next
      case False
      have eq: "searchLoop f i j = searchLoop f (?h + 1) j"
        using \<open>i < j\<close> False by (simp add: searchLoop.simps [of f i j] Let_def)
      have below: "\<not> f k" if "k < ?h + 1" for k
      proof
        assume "f k"
        moreover have "k \<le> ?h" "?h < n" using that h "1.prems"(2) by auto
        ultimately show False using "1.prems"(3) False by blast
      qed
      show ?thesis unfolding eq
        using h "1.prems"(2,5) below False \<open>i < j\<close>
        by (intro "1.IH"(1)) (auto intro: "1.prems"(3))
    qed
  qed
qed

lemma Search_correct:
  assumes "\<And>a b. a \<le> b \<Longrightarrow> b < n \<Longrightarrow> f a \<Longrightarrow> f b"
  shows "Search n f \<le> n" and "k < Search n f \<Longrightarrow> \<not> f k"
    and "Search n f \<le> k \<Longrightarrow> k < n \<Longrightarrow> f k"
  using searchLoop_correct [of 0 n n f] assms unfolding Search_def by auto

end
