(* ===== verification/Memtable.thy ===== *)
theory Memtable
  imports Prelude
begin

text \<open>
  The in-memory write buffer, \<open>src/api/queel/memtable.go\<close>: a skip list over explicit nodes. A
  node's address is its position in \<open>nodes\<close>, address 0 is \<open>m.head\<close>, and \<open>forward\<close> holds
  addresses, so the pointer structure, the search that fills \<open>update\<close> and the splice of \<open>Put\<close>
  are those of the code. The lemmas show that the structure represents a list of nodes sorted by
  key whatever levels the coin flips choose, and that \<open>Put\<close>, \<open>Get\<close> and \<open>Entries\<close> are update,
  lookup and enumeration of that sorted list.
\<close>

section \<open>State\<close>

definition maxSkipListLevel :: nat where
  "maxSkipListLevel = 16"

record skipListNode =
  nkey :: bytes
  nvalue :: bytes
  ntombstone :: bool
  forward :: "nat option list"

record memtable =
  nodes :: "skipListNode list"
  mlevel :: nat
  msize :: int
  entryCount :: int

record memtableEntry =
  ekey :: bytes
  evalue :: bytes
  etombstone :: bool

definition NewMemtable :: memtable where
  "NewMemtable =
     \<lparr>nodes = [\<lparr>nkey = [], nvalue = [], ntombstone = False,
                forward = replicate maxSkipListLevel None\<rparr>],
      mlevel = 1, msize = 0, entryCount = 0\<rparr>"

text \<open>\<open>randomLevel\<close>: one coin per comparison of \<open>rand.Float64()\<close> with \<open>skipListP\<close>; the coins
  not used are returned. A list that has run out gives tails.\<close>

fun randomLevelFrom :: "nat \<Rightarrow> bool list \<Rightarrow> nat \<times> bool list" where
  "randomLevelFrom lvl [] = (lvl, [])"
| "randomLevelFrom lvl (c # cs) =
     (if lvl < maxSkipListLevel then (if c then randomLevelFrom (lvl + 1) cs else (lvl, cs))
      else (lvl, c # cs))"

definition randomLevel :: "bool list \<Rightarrow> nat \<times> bool list" where
  "randomLevel coins = randomLevelFrom 1 coins"

section \<open>Operations\<close>

definition fwd :: "memtable \<Rightarrow> nat \<Rightarrow> nat \<Rightarrow> nat option" where
  "fwd m i n = forward (nodes m ! n) ! i"

definition setFwd :: "memtable \<Rightarrow> nat \<Rightarrow> nat \<Rightarrow> nat option \<Rightarrow> memtable" where
  "setFwd m i n p =
     m\<lparr>nodes := (nodes m)[n := (nodes m ! n)\<lparr>forward := (forward (nodes m ! n))[i := p]\<rparr>]\<rparr>"

text \<open>The inner loop: along level \<open>i\<close> while the next key is smaller. The first argument bounds the
  number of steps; \<open>advance_last\<close> shows that the number of nodes is enough.\<close>

fun advance :: "nat \<Rightarrow> memtable \<Rightarrow> bytes \<Rightarrow> nat \<Rightarrow> nat \<Rightarrow> nat" where
  "advance 0 m key i current = current"
| "advance (Suc fuel) m key i current =
     (case fwd m i current of
        None \<Rightarrow> current
      | Some next \<Rightarrow>
          if nkey (nodes m ! next) < key then advance fuel m key i next else current)"

text \<open>The outer loop of \<open>Put\<close>, for the levels below the first argument, recording \<open>update\<close>.\<close>

fun descend ::
    "nat \<Rightarrow> memtable \<Rightarrow> bytes \<Rightarrow> nat \<Rightarrow> nat option list \<Rightarrow> nat \<times> nat option list" where
  "descend 0 m key current update = (current, update)"
| "descend (Suc i) m key current update =
     (let c = advance (length (nodes m)) m key i current
      in descend i m key c (update[i := Some c]))"

text \<open>The same loop in \<open>Get\<close>, which records nothing.\<close>

fun seek :: "nat \<Rightarrow> memtable \<Rightarrow> bytes \<Rightarrow> nat \<Rightarrow> nat" where
  "seek 0 m key current = current"
| "seek (Suc i) m key current = seek i m key (advance (length (nodes m)) m key i current)"

definition linkLevel :: "nat option list \<Rightarrow> nat \<Rightarrow> memtable \<Rightarrow> nat \<Rightarrow> memtable" where
  "linkLevel update node m i =
     (let u = the (update ! i); m' = setFwd m i node (fwd m i u) in setFwd m' i u (Some node))"

text \<open>The second half of \<open>Put\<close>: a new node of height \<open>newLevel\<close> behind the nodes of \<open>update\<close>.\<close>

definition insertNode ::
    "memtable \<Rightarrow> nat option list \<Rightarrow> bytes \<Rightarrow> bytes \<Rightarrow> bool \<Rightarrow> nat \<Rightarrow> memtable" where
  "insertNode m update key val tombstone newLevel =
     (let update' = foldl (\<lambda>u i. u[i := Some 0]) update [mlevel m..<newLevel];
          m1 = (if newLevel > mlevel m then m\<lparr>mlevel := newLevel\<rparr> else m);
          node = length (nodes m1);
          m2 = m1\<lparr>nodes := nodes m1 @ [\<lparr>nkey = key, nvalue = val, ntombstone = tombstone,
                                        forward = replicate newLevel None\<rparr>]\<rparr>;
          m3 = foldl (linkLevel update' node) m2 [0..<newLevel]
      in m3\<lparr>msize := msize m3 + (int (length key) + int (length val)),
            entryCount := entryCount m3 + 1\<rparr>)"

definition overwriteNode :: "memtable \<Rightarrow> nat \<Rightarrow> bytes \<Rightarrow> bool \<Rightarrow> memtable" where
  "overwriteNode m n val tombstone =
     m\<lparr>msize := msize m + (int (length val) - int (length (nvalue (nodes m ! n)))),
       nodes := (nodes m)[n := (nodes m ! n)\<lparr>nvalue := val, ntombstone := tombstone\<rparr>]\<rparr>"

definition MemPut :: "memtable \<Rightarrow> bytes \<Rightarrow> bytes \<Rightarrow> bool \<Rightarrow> bool list \<Rightarrow> memtable \<times> bool list" where
  "MemPut m key val tombstone coins =
     (let (current, update) = descend (mlevel m) m key 0 (replicate maxSkipListLevel None);
          insert' = (let (newLevel, coins') = randomLevel coins
                     in (insertNode m update key val tombstone newLevel, coins'))
      in case fwd m 0 current of
           None \<Rightarrow> insert'
         | Some n \<Rightarrow> if nkey (nodes m ! n) = key then (overwriteNode m n val tombstone, coins)
                     else insert')"

text \<open>\<open>Get\<close>: value and tombstone flag when the key was found.\<close>

definition MemGet :: "memtable \<Rightarrow> bytes \<Rightarrow> (bytes \<times> bool) option" where
  "MemGet m key =
     (case fwd m 0 (seek (mlevel m) m key 0) of
        None \<Rightarrow> None
      | Some n \<Rightarrow> if nkey (nodes m ! n) = key
                  then Some (nvalue (nodes m ! n), ntombstone (nodes m ! n)) else None)"

definition MemSize :: "memtable \<Rightarrow> int" where
  "MemSize m = msize m"

definition entryOf :: "memtable \<Rightarrow> nat \<Rightarrow> memtableEntry" where
  "entryOf m n = \<lparr>ekey = nkey (nodes m ! n), evalue = nvalue (nodes m ! n),
                  etombstone = ntombstone (nodes m ! n)\<rparr>"

text \<open>\<open>Entries\<close> walks level 0; again the number of nodes bounds the walk.\<close>

fun walkEntries :: "nat \<Rightarrow> memtable \<Rightarrow> nat option \<Rightarrow> memtableEntry list" where
  "walkEntries 0 m p = []"
| "walkEntries (Suc fuel) m p =
     (case p of None \<Rightarrow> [] | Some n \<Rightarrow> entryOf m n # walkEntries fuel m (fwd m 0 n))"

definition MemEntries :: "memtable \<Rightarrow> memtableEntry list" where
  "MemEntries m = walkEntries (length (nodes m)) m (fwd m 0 0)"

section \<open>Representation\<close>

text \<open>\<open>chain f p ns\<close>: following \<open>f\<close> from the pointer \<open>p\<close> visits exactly \<open>ns\<close>.\<close>

fun chain :: "(nat \<Rightarrow> nat option) \<Rightarrow> nat option \<Rightarrow> nat list \<Rightarrow> bool" where
  "chain f p [] \<longleftrightarrow> p = None"
| "chain f p (n # ns) \<longleftrightarrow> p = Some n \<and> chain f (f n) ns"

definition height :: "memtable \<Rightarrow> nat \<Rightarrow> nat" where
  "height m n = length (forward (nodes m ! n))"

definition onLevel :: "memtable \<Rightarrow> nat \<Rightarrow> nat list \<Rightarrow> nat list" where
  "onLevel m i ns = filter (\<lambda>n. i < height m n) ns"

definition keyOf :: "memtable \<Rightarrow> nat \<Rightarrow> bytes" where
  "keyOf m n = nkey (nodes m ! n)"

text \<open>\<open>repr m ns\<close>: the skip list \<open>m\<close> represents the nodes \<open>ns\<close>, in ascending key order, and level
  \<open>i\<close> links exactly those of them that are higher than \<open>i\<close>.\<close>

definition repr :: "memtable \<Rightarrow> nat list \<Rightarrow> bool" where
  "repr m ns \<longleftrightarrow>
     nodes m \<noteq> [] \<and> height m 0 = maxSkipListLevel \<and> 1 \<le> mlevel m \<and> mlevel m \<le> maxSkipListLevel
     \<and> distinct ns \<and> set ns = {1..<length (nodes m)}
     \<and> sorted_wrt (<) (map (keyOf m) ns)
     \<and> (\<forall>n \<in> set ns. 1 \<le> height m n \<and> height m n \<le> mlevel m)
     \<and> (\<forall>i < maxSkipListLevel. chain (fwd m i) (fwd m i 0) (onLevel m i ns))"

definition skipInv :: "memtable \<Rightarrow> bool" where
  "skipInv m \<longleftrightarrow> (\<exists>ns. repr m ns)"

lemma chain_cong: "chain f p ns \<Longrightarrow> (\<And>n. n \<in> set ns \<Longrightarrow> f n = g n) \<Longrightarrow> chain g p ns"
  by (induction ns arbitrary: p) auto

lemma chain_after: "chain f p (xs @ n # ys) \<Longrightarrow> chain f (f n) ys"
  by (induction xs arbitrary: p) auto

lemma chain_last: "chain f (f c) (A @ B) \<Longrightarrow> chain f (f (last (c # A))) B"
  by (induction A arbitrary: c) auto

lemma chain_head: "chain f p ns \<Longrightarrow> p = (case ns of [] \<Rightarrow> None | n # _ \<Rightarrow> Some n)"
  by (cases ns) auto

text \<open>Inserting \<open>new\<close> behind the last node of \<open>A\<close> (the start \<open>c\<close> when \<open>A\<close> is empty).\<close>

lemma chain_splice:
  assumes "chain f (f c) (A @ B)" and "distinct (c # A @ B)" and "new \<notin> set (c # A @ B)"
    and "g = f(last (c # A) := Some new, new := f (last (c # A)))"
  shows "chain g (g c) (A @ new # B)"
  using assms
proof (induction A arbitrary: c)
  case Nil
  then have "chain g (f c) B" by (auto intro: chain_cong)
  with Nil show ?case by auto
next
  case (Cons a A)
  then have "g c = Some a" by auto
  moreover have "chain g (g a) (A @ new # B)" using Cons by (intro Cons.IH) auto
  ultimately show ?case by simp
qed

lemma advance_last:
  assumes "chain (fwd m i) (fwd m i c) (A @ B)" and "\<forall>n \<in> set A. keyOf m n < key"
    and "B = [] \<or> \<not> keyOf m (hd B) < key" and "length A \<le> fuel"
  shows "advance fuel m key i c = last (c # A)"
  using assms
proof (induction A arbitrary: c fuel)
  case Nil
  then show ?case by (cases fuel; cases B) (auto simp: keyOf_def)
next
  case (Cons a A)
  then obtain f where "fuel = Suc f" by (cases fuel) auto
  with Cons show ?case by (simp add: keyOf_def)
qed

lemma sorted_split:
  "sorted_wrt (<) (map f xs) \<Longrightarrow>
    xs = filter (\<lambda>x. f x < (k :: 'b :: linorder)) xs @ filter (\<lambda>x. \<not> f x < k) xs"
proof (induction xs)
  case (Cons x xs)
  show ?case
  proof (cases "f x < k")
    case False
    with Cons.prems have "\<forall>y \<in> set xs. \<not> f y < k" by force
    with False Cons.prems show ?thesis by (simp add: filter_True filter_False)
  qed (use Cons in simp)
qed simp

text \<open>The nodes of level \<open>i\<close> before and from \<open>key\<close> on, and the node after which \<open>key\<close> belongs.\<close>

definition before :: "memtable \<Rightarrow> nat list \<Rightarrow> bytes \<Rightarrow> nat \<Rightarrow> nat list" where
  "before m ns key i = filter (\<lambda>n. keyOf m n < key) (onLevel m i ns)"

definition from_on :: "memtable \<Rightarrow> nat list \<Rightarrow> bytes \<Rightarrow> nat \<Rightarrow> nat list" where
  "from_on m ns key i = filter (\<lambda>n. \<not> keyOf m n < key) (onLevel m i ns)"

definition pred :: "memtable \<Rightarrow> nat list \<Rightarrow> bytes \<Rightarrow> nat \<Rightarrow> nat" where
  "pred m ns key i = last (0 # before m ns key i)"

lemma level_split:
  assumes "repr m ns"
  shows "onLevel m i ns = before m ns key i @ from_on m ns key i"
proof -
  have "sorted_wrt (<) (map (keyOf m) (onLevel m i ns))"
    using assms by (auto simp: repr_def onLevel_def sorted_wrt_map intro: sorted_wrt_filter)
  then show ?thesis unfolding before_def from_on_def by (rule sorted_split)
qed

lemma from_on_hd: "from_on m ns key i = [] \<or> \<not> keyOf m (hd (from_on m ns key i)) < key"
  using hd_in_set [of "from_on m ns key i"] by (auto simp: from_on_def)

lemma repr_chain:
  assumes "repr m ns" and "i < maxSkipListLevel"
  shows "chain (fwd m i) (fwd m i 0) (before m ns key i @ from_on m ns key i)"
  using assms level_split [OF assms(1), of i key] by (auto simp: repr_def)

lemma pred_next:
  assumes "repr m ns" and "i < maxSkipListLevel"
  shows "chain (fwd m i) (fwd m i (pred m ns key i)) (from_on m ns key i)"
  unfolding pred_def using repr_chain [OF assms] by (rule chain_last)

lemma repr_length: "repr m ns \<Longrightarrow> length (nodes m) = Suc (length ns)"
proof -
  assume r: "repr m ns"
  then have "card (set ns) = length ns" unfolding repr_def by (blast intro: distinct_card)
  moreover have "card (set ns) = length (nodes m) - 1" using r by (simp add: repr_def)
  moreover have "length (nodes m) > 0" using r by (simp add: repr_def)
  ultimately show ?thesis by linarith
qed

lemma advance_pred:
  assumes r: "repr m ns" and i: "i < maxSkipListLevel"
    and c: "c = 0 \<or> c \<in> set (before m ns key i)"
  shows "advance (length (nodes m)) m key i c = pred m ns key i"
proof -
  have fuel: "length (before m ns key i) \<le> length (nodes m)"
    using repr_length [OF r] by (simp add: before_def onLevel_def) (metis le_SucI le_trans length_filter_le)
  have small: "\<forall>n \<in> set (before m ns key i). keyOf m n < key" by (simp add: before_def)
  note ch = repr_chain [OF r i, of key]
  from c show ?thesis
  proof
    assume "c = 0"
    with advance_last [OF ch small from_on_hd fuel] show ?thesis by (simp add: pred_def)
  next
    assume "c \<in> set (before m ns key i)"
    then obtain xs ys where xy: "before m ns key i = xs @ c # ys" by (meson split_list)
    have "chain (fwd m i) (fwd m i c) (ys @ from_on m ns key i)"
      using ch xy by (auto intro: chain_after)
    then have "advance (length (nodes m)) m key i c = last (c # ys)"
      using xy small fuel by (intro advance_last [OF _ _ from_on_hd]) auto
    then show ?thesis using xy by (simp add: pred_def)
  qed
qed

lemma pred_valid: "pred m ns key i = 0 \<or> pred m ns key i \<in> set (before m ns key i)"
  unfolding pred_def using last_in_set [of "0 # before m ns key i"] by auto

lemma before_mono: "i \<le> j \<Longrightarrow> set (before m ns key j) \<subseteq> set (before m ns key i)"
  by (auto simp: before_def onLevel_def)

lemma descend_pred:
  assumes r: "repr m ns" and "i \<le> maxSkipListLevel"
    and "c = 0 \<or> i = 0 \<or> c \<in> set (before m ns key (i - 1))"
    and "length update = maxSkipListLevel"
  shows "fst (descend i m key c update) = (if i = 0 then c else pred m ns key 0)
    \<and> length (snd (descend i m key c update)) = maxSkipListLevel
    \<and> (\<forall>j < maxSkipListLevel. snd (descend i m key c update) ! j =
        (if j < i then Some (pred m ns key j) else update ! j))"
  using assms(2-)
proof (induction i arbitrary: c update)
  case (Suc i)
  let ?c = "advance (length (nodes m)) m key i c"
  have c: "?c = pred m ns key i" using Suc.prems by (intro advance_pred [OF r]) auto
  have "?c = 0 \<or> i = 0 \<or> ?c \<in> set (before m ns key (i - 1))"
    unfolding c using pred_valid [of m ns key i] before_mono [of "i - 1" i m ns key] by auto
  then show ?case
    using Suc.IH [of ?c "update[i := Some ?c]"] Suc.prems by (auto simp: Let_def c nth_list_update less_Suc_eq)
qed auto

lemma seek_pred:
  assumes r: "repr m ns" and "i \<le> maxSkipListLevel"
    and "c = 0 \<or> i = 0 \<or> c \<in> set (before m ns key (i - 1))"
  shows "seek i m key c = (if i = 0 then c else pred m ns key 0)"
  using assms(2-)
proof (induction i arbitrary: c)
  case (Suc i)
  let ?c = "advance (length (nodes m)) m key i c"
  have c: "?c = pred m ns key i" using Suc.prems by (intro advance_pred [OF r]) auto
  have "?c = 0 \<or> i = 0 \<or> ?c \<in> set (before m ns key (i - 1))"
    unfolding c using pred_valid [of m ns key i] before_mono [of "i - 1" i m ns key] by auto
  then show ?case using Suc.IH [of ?c] Suc.prems by (auto simp: c)
qed auto

section \<open>Enumeration and lookup\<close>

definition entryMap :: "memtableEntry list \<Rightarrow> bytes \<Rightarrow> (bytes \<times> bool) option" where
  "entryMap es = map_of (map (\<lambda>e. (ekey e, (evalue e, etombstone e))) es)"

definition entriesSize :: "memtableEntry list \<Rightarrow> int" where
  "entriesSize es = (\<Sum>e\<leftarrow>es. int (length (ekey e)) + int (length (evalue e)))"

definition sortedEntries :: "memtableEntry list \<Rightarrow> bool" where
  "sortedEntries es \<longleftrightarrow> sorted_wrt (<) (map ekey es)"

definition memInv :: "memtable \<Rightarrow> bool" where
  "memInv m \<longleftrightarrow> skipInv m \<and> msize m = entriesSize (MemEntries m)
     \<and> entryCount m = int (length (MemEntries m))"

lemma ekey_entryOf [simp]: "ekey (entryOf m n) = keyOf m n"
  by (simp add: entryOf_def keyOf_def)

lemma walkEntries_chain:
  "chain (fwd m 0) p ns \<Longrightarrow> length ns \<le> fuel \<Longrightarrow> walkEntries fuel m p = map (entryOf m) ns"
proof (induction ns arbitrary: p fuel)
  case Nil
  then show ?case by (cases fuel) auto
next
  case (Cons n ns)
  then show ?case by (cases fuel) auto
qed

lemma onLevel_0: "repr m ns \<Longrightarrow> onLevel m 0 ns = ns"
proof -
  assume "repr m ns"
  then have "\<forall>n \<in> set ns. 1 \<le> height m n" unfolding repr_def by blast
  then show ?thesis by (auto simp: onLevel_def filter_id_conv dest: bspec)
qed

lemma repr_entries:
  assumes r: "repr m ns"
  shows "MemEntries m = map (entryOf m) ns"
proof -
  have "chain (fwd m 0) (fwd m 0 0) (onLevel m 0 ns)"
    using r unfolding repr_def maxSkipListLevel_def by simp
  then show ?thesis
    unfolding MemEntries_def onLevel_0 [OF r] using repr_length [OF r] by (intro walkEntries_chain) auto
qed

lemma repr_sorted: "repr m ns \<Longrightarrow> sortedEntries (MemEntries m)"
  by (simp add: repr_entries sortedEntries_def) (simp add: repr_def comp_def)

lemma entryMap_append: "entryMap (es @ fs) = entryMap fs ++ entryMap es"
  by (simp add: entryMap_def)

lemma entryMap_Nil [simp]: "entryMap [] = Map.empty"
  by (simp add: entryMap_def)

lemma entryMap_Cons:
  "entryMap (e # es) = (entryMap es)(ekey e \<mapsto> (evalue e, etombstone e))"
  by (simp add: entryMap_def)

lemma entryMap_None: "entryMap es k = None \<longleftrightarrow> k \<notin> ekey ` set es"
  by (force simp: entryMap_def map_of_eq_None_iff)

lemma pred_fwd:
  assumes "repr m ns"
  shows "fwd m 0 (pred m ns key 0) =
    (case filter (\<lambda>n. \<not> keyOf m n < key) ns of [] \<Rightarrow> None | n # _ \<Rightarrow> Some n)"
  using chain_head [OF pred_next [OF assms, of 0 key]] onLevel_0 [OF assms]
  by (simp add: from_on_def maxSkipListLevel_def)

lemma seek_head: "repr m ns \<Longrightarrow> seek (mlevel m) m key 0 = pred m ns key 0"
  by (subst seek_pred) (auto simp: repr_def)

lemma repr_split:
  assumes "repr m ns"
  shows "ns = filter (\<lambda>n. keyOf m n < key) ns @ filter (\<lambda>n. \<not> keyOf m n < key) ns"
  using assms sorted_split [of "keyOf m" ns key] by (simp add: repr_def)

text \<open>The node that the search ends in front of is the one with the key, or there is none.\<close>

lemma repr_at:
  assumes r: "repr m ns" and e: "filter (\<lambda>n. \<not> keyOf m n < key) ns = n # rest"
  shows "ns = filter (\<lambda>n. keyOf m n < key) ns @ n # rest" and "n \<in> set ns"
    and "keyOf m n = key \<or> (\<forall>x \<in> set ns. keyOf m x \<noteq> key)"
    and "\<forall>x \<in> set rest. keyOf m n < keyOf m x" and "\<not> keyOf m n < key"
proof -
  show ns: "ns = filter (\<lambda>n. keyOf m n < key) ns @ n # rest" using repr_split [OF r, of key] e by simp
  then show "n \<in> set ns" by (metis in_set_conv_decomp)
  have sorted: "sorted_wrt (<) (map (keyOf m) (filter (\<lambda>n. keyOf m n < key) ns @ n # rest))"
    using r ns unfolding repr_def by metis
  then show gt: "\<forall>x \<in> set rest. keyOf m n < keyOf m x" by (simp add: sorted_wrt_append)
  have "n \<in> set (filter (\<lambda>n. \<not> keyOf m n < key) ns)" unfolding e by simp
  then show "\<not> keyOf m n < key" by simp
  then have ge: "key \<le> keyOf m n" by simp
  show "keyOf m n = key \<or> (\<forall>x \<in> set ns. keyOf m x \<noteq> key)"
  proof (rule disjCI)
    assume "\<not> (\<forall>x \<in> set ns. keyOf m x \<noteq> key)"
    then obtain x where "x \<in> set (filter (\<lambda>n. \<not> keyOf m n < key) ns)" "keyOf m x = key" by auto
    with gt ge show "keyOf m n = key" unfolding e by fastforce
  qed
qed

lemma repr_absent:
  assumes r: "repr m ns" and e: "filter (\<lambda>n. \<not> keyOf m n < key) ns = []"
  shows "\<forall>x \<in> set ns. keyOf m x \<noteq> key"
  using e by (auto simp: filter_empty_conv)

lemma entryMap_nodes:
  assumes "sorted_wrt (<) (map (keyOf m) ns)" and "n \<in> set ns"
  shows "entryMap (map (entryOf m) ns) (keyOf m n) = Some (nvalue (nodes m ! n), ntombstone (nodes m ! n))"
  using assms by (induction ns) (auto simp: entryMap_Cons entryOf_def keyOf_def)

lemma MemGet_entryMap:
  assumes "skipInv m"
  shows "MemGet m key = entryMap (MemEntries m) key"
proof -
  obtain ns where r: "repr m ns" using assms by (auto simp: skipInv_def)
  let ?R = "filter (\<lambda>n. \<not> keyOf m n < key) ns"
  have g: "MemGet m key = (case ?R of [] \<Rightarrow> None | n # _ \<Rightarrow>
      if keyOf m n = key then Some (nvalue (nodes m ! n), ntombstone (nodes m ! n)) else None)"
    by (simp add: MemGet_def seek_head [OF r] pred_fwd [OF r] keyOf_def split: list.split)
  show ?thesis
  proof (cases ?R)
    case Nil
    then show ?thesis
      using g repr_absent [OF r Nil] entryMap_None [of "MemEntries m" key] by (auto simp: repr_entries [OF r])
  next
    case (Cons n rest)
    note at = repr_at [OF r Cons]
    show ?thesis
    proof (cases "keyOf m n = key")
      case True
      then show ?thesis
        using g Cons at(2) entryMap_nodes [of m ns n] r by (simp add: repr_entries [OF r] repr_def)
    next
      case False
      then show ?thesis
        using g Cons at(3) entryMap_None [of "MemEntries m" key] by (auto simp: repr_entries [OF r])
    qed
  qed
qed

section \<open>Put\<close>

lemma setFwd_simps [simp]:
  "length (nodes (setFwd m i n p)) = length (nodes m)" "mlevel (setFwd m i n p) = mlevel m"
  "msize (setFwd m i n p) = msize m" "entryCount (setFwd m i n p) = entryCount m"
  "entryOf (setFwd m i n p) x = entryOf m x" "height (setFwd m i n p) x = height m x"
proof -
  have *: "nkey (nodes (setFwd m i n p) ! x) = nkey (nodes m ! x)
    \<and> nvalue (nodes (setFwd m i n p) ! x) = nvalue (nodes m ! x)
    \<and> ntombstone (nodes (setFwd m i n p) ! x) = ntombstone (nodes m ! x)
    \<and> length (forward (nodes (setFwd m i n p) ! x)) = length (forward (nodes m ! x))"
    by (cases "n = x"; cases "n < length (nodes m)") (auto simp: setFwd_def list_update_beyond)
  then show "entryOf (setFwd m i n p) x = entryOf m x" "height (setFwd m i n p) x = height m x"
    by (auto simp: entryOf_def height_def)
qed (simp_all add: setFwd_def)

lemma fwd_setFwd:
  "n < length (nodes m) \<Longrightarrow> i < height m n \<Longrightarrow>
    fwd (setFwd m i n p) j x = (if x = n \<and> j = i then p else fwd m j x)"
  by (cases "x = n"; cases "j = i") (auto simp: fwd_def setFwd_def height_def)

lemma linkLevel_step:
  assumes "update ! l = Some u" "node < length (nodes m)" "l < height m node"
    "u < length (nodes m)" "l < height m u" "u \<noteq> node"
  shows "length (nodes (linkLevel update node m l)) = length (nodes m)"
    "mlevel (linkLevel update node m l) = mlevel m" "msize (linkLevel update node m l) = msize m"
    "entryCount (linkLevel update node m l) = entryCount m"
    "entryOf (linkLevel update node m l) x = entryOf m x"
    "height (linkLevel update node m l) x = height m x"
    "fwd (linkLevel update node m l) j =
      (if j = l then (fwd m l)(u := Some node, node := fwd m l u) else fwd m j)"
  using assms by (auto simp: linkLevel_def Let_def fwd_setFwd fun_eq_iff)

definition linkable :: "memtable \<Rightarrow> (nat \<Rightarrow> nat) \<Rightarrow> nat \<Rightarrow> nat \<Rightarrow> bool" where
  "linkable m u node l \<longleftrightarrow> node < length (nodes m)
     \<and> (\<forall>i < l. i < height m node \<and> u i < length (nodes m) \<and> i < height m (u i) \<and> u i \<noteq> node)"

lemma link_fold:
  assumes "linkable m u node l" and "\<forall>i < l. update ! i = Some (u i)"
  shows "let m' = foldl (linkLevel update node) m [0..<l] in
    length (nodes m') = length (nodes m) \<and> mlevel m' = mlevel m \<and> msize m' = msize m
    \<and> entryCount m' = entryCount m \<and> (\<forall>x. entryOf m' x = entryOf m x)
    \<and> (\<forall>x. height m' x = height m x)
    \<and> (\<forall>j. fwd m' j = (if j < l then (fwd m j)(u j := Some node, node := fwd m j (u j)) else fwd m j))"
  using assms
proof (induction l)
  case (Suc l)
  let ?m = "foldl (linkLevel update node) m [0..<l]"
  have IH: "length (nodes ?m) = length (nodes m)" "mlevel ?m = mlevel m" "msize ?m = msize m"
    "entryCount ?m = entryCount m" "entryOf ?m x = entryOf m x" "height ?m x = height m x"
    "fwd ?m j = (if j < l then (fwd m j)(u j := Some node, node := fwd m j (u j)) else fwd m j)" for x j
    using Suc by (auto simp: Let_def linkable_def)
  have l: "update ! l = Some (u l)" "node < length (nodes m)" "l < height m node"
    "u l < length (nodes m)" "l < height m (u l)" "u l \<noteq> node"
    using Suc.prems by (auto simp: linkable_def)
  have eq: "foldl (linkLevel update node) m [0..<Suc l] = linkLevel update node ?m l" by simp
  have step: "update ! l = Some (u l)" "node < length (nodes ?m)" "l < height ?m node"
    "u l < length (nodes ?m)" "l < height ?m (u l)" "u l \<noteq> node" unfolding IH using l by auto
  show ?case unfolding eq Let_def linkLevel_step [OF step] IH by (auto simp: less_Suc_eq)
qed (simp add: Let_def)

lemma foldl_update_range:
  "length (foldl (\<lambda>u i. u[i := c]) us [a..<b]) = length us
    \<and> (i < length us \<longrightarrow> foldl (\<lambda>u i. u[i := c]) us [a..<b] ! i = (if a \<le> i \<and> i < b then c else us ! i))"
proof (induction b)
  case (Suc b)
  then show ?case by (cases "i = b") (auto simp: nth_list_update less_Suc_eq)
qed simp

text \<open>The state in which \<open>Put\<close> has allocated the node but linked nothing yet.\<close>

definition allocNode :: "memtable \<Rightarrow> bytes \<Rightarrow> bytes \<Rightarrow> bool \<Rightarrow> nat \<Rightarrow> memtable" where
  "allocNode m key val tombstone lvl =
     m\<lparr>mlevel := max (mlevel m) lvl,
       nodes := nodes m @ [\<lparr>nkey = key, nvalue = val, ntombstone = tombstone,
                             forward = replicate lvl None\<rparr>]\<rparr>"

lemma allocNode_simps [simp]:
  "length (nodes (allocNode m k v t l)) = Suc (length (nodes m))"
  "mlevel (allocNode m k v t l) = max (mlevel m) l" "msize (allocNode m k v t l) = msize m"
  "entryCount (allocNode m k v t l) = entryCount m"
  "x < length (nodes m) \<Longrightarrow> entryOf (allocNode m k v t l) x = entryOf m x"
  "x < length (nodes m) \<Longrightarrow> height (allocNode m k v t l) x = height m x"
  "x < length (nodes m) \<Longrightarrow> fwd (allocNode m k v t l) i x = fwd m i x"
  "entryOf (allocNode m k v t l) (length (nodes m)) = \<lparr>ekey = k, evalue = v, etombstone = t\<rparr>"
  "height (allocNode m k v t l) (length (nodes m)) = l"
  by (simp_all add: allocNode_def entryOf_def height_def fwd_def nth_append)

lemma insertNode_alloc:
  "insertNode m update key val t lvl =
    (let m3 = foldl (linkLevel (foldl (\<lambda>u i. u[i := Some 0]) update [mlevel m..<lvl]) (length (nodes m)))
                (allocNode m key val t lvl) [0..<lvl]
     in m3\<lparr>msize := msize m3 + (int (length key) + int (length val)), entryCount := entryCount m3 + 1\<rparr>)"
proof -
  have "lvl \<le> mlevel m \<Longrightarrow> m\<lparr>mlevel := max (mlevel m) lvl\<rparr> = m" by (simp add: max_def)
  then show ?thesis by (auto simp: insertNode_def allocNode_def Let_def max_def)
qed

lemma repr_node: "repr m ns \<Longrightarrow> n \<in> set ns \<longleftrightarrow> 1 \<le> n \<and> n < length (nodes m)"
  by (simp add: repr_def)

lemma repr_height: "repr m ns \<Longrightarrow> n \<in> set ns \<Longrightarrow> 1 \<le> height m n \<and> height m n \<le> mlevel m"
  unfolding repr_def by blast

lemma pred_bound:
  assumes r: "repr m ns" and "i < maxSkipListLevel"
  shows "pred m ns key i < length (nodes m) \<and> i < height m (pred m ns key i)"
proof -
  have "0 < length (nodes m)" "height m 0 = maxSkipListLevel" using r by (auto simp: repr_def)
  moreover have "n < length (nodes m) \<and> i < height m n" if "n \<in> set (before m ns key i)" for n
    using that repr_node [OF r] by (auto simp: before_def onLevel_def)
  ultimately show ?thesis using pred_valid [of m ns key i] assms(2) by auto
qed

lemma pred_high: "repr m ns \<Longrightarrow> mlevel m \<le> i \<Longrightarrow> pred m ns key i = 0"
proof -
  assume r: "repr m ns" and i: "mlevel m \<le> i"
  have "\<not> i < height m n" if "n \<in> set ns" for n using repr_height [OF r that] i by simp
  then have "onLevel m i ns = []" by (simp add: onLevel_def filter_empty_conv)
  then show ?thesis by (simp add: pred_def before_def)
qed

lemma keyOf_eq: "entryOf m x = entryOf m' y \<Longrightarrow> keyOf m x = keyOf m' y"
  by (metis ekey_entryOf)

lemma sorted_insert:
  assumes "sorted_wrt (<) (map f xs)" and "\<forall>x \<in> set xs. f x \<noteq> k" and "f new = (k :: 'b :: linorder)"
  shows "sorted_wrt (<) (map f (filter (\<lambda>x. f x < k) xs @ new # filter (\<lambda>x. \<not> f x < k) xs))"
  using assms
  by (auto simp: sorted_wrt_append sorted_wrt_map intro: sorted_wrt_filter)

lemma insertNode_repr:
  assumes r: "repr m ns" and lvl: "1 \<le> lvl" "lvl \<le> maxSkipListLevel"
    and absent: "\<forall>x \<in> set ns. keyOf m x \<noteq> key"
    and update: "length update = maxSkipListLevel"
      "\<forall>j < mlevel m. update ! j = Some (pred m ns key j)"
    and m': "m' = insertNode m update key val t lvl"
    and ns': "ns' = filter (\<lambda>n. keyOf m n < key) ns @ length (nodes m) # filter (\<lambda>n. \<not> keyOf m n < key) ns"
  shows "repr m' ns'" and "map (entryOf m') ns' =
      map (entryOf m) (filter (\<lambda>n. keyOf m n < key) ns)
        @ \<lparr>ekey = key, evalue = val, etombstone = t\<rparr> # map (entryOf m) (filter (\<lambda>n. \<not> keyOf m n < key) ns)"
    and "msize m' = msize m + (int (length key) + int (length val))"
    and "entryCount m' = entryCount m + 1"
proof -
  let ?node = "length (nodes m)" and ?a = "allocNode m key val t lvl" and ?u = "pred m ns key"
  let ?up = "foldl (\<lambda>u i. u[i := Some 0]) update [mlevel m..<lvl]"
  let ?m = "foldl (linkLevel ?up ?node) ?a [0..<lvl]"
  note bound = pred_bound [OF r]
  have up: "\<forall>i < lvl. ?up ! i = Some (?u i)"
    using update lvl pred_high [OF r] foldl_update_range [of "Some 0" update "mlevel m" lvl] by auto
  have linkable: "linkable ?a ?u ?node lvl"
    unfolding linkable_def
  proof (intro conjI allI impI)
    fix i assume "i < lvl"
    then have "?u i < ?node" "i < height m (?u i)" using bound [of i key] lvl by auto
    then show "?u i < length (nodes ?a)" "i < height ?a (?u i)" "?u i \<noteq> ?node" by auto
  qed auto
  have m: "length (nodes ?m) = Suc ?node" "mlevel ?m = max (mlevel m) lvl" "msize ?m = msize m"
    "entryCount ?m = entryCount m" "entryOf ?m x = entryOf ?a x" "height ?m x = height ?a x"
    "fwd ?m j = (if j < lvl then (fwd ?a j)(?u j := Some ?node, ?node := fwd ?a j (?u j)) else fwd ?a j)" for x j
    using link_fold [OF linkable up] by (simp_all add: Let_def)
  have eq: "m' = ?m\<lparr>msize := msize ?m + (int (length key) + int (length val)), entryCount := entryCount ?m + 1\<rparr>"
    unfolding m' insertNode_alloc Let_def ..
  have m'_eq: "nodes m' = nodes ?m" "mlevel m' = mlevel ?m" "fwd m' j = fwd ?m j" "height m' x = height ?m x"
    "entryOf m' x = entryOf ?m x" for j x
    unfolding eq by (simp_all add: fwd_def height_def entryOf_def fun_eq_iff)
  show "msize m' = msize m + (int (length key) + int (length val))" "entryCount m' = entryCount m + 1"
    unfolding eq by (simp_all add: m)
  have inns: "x < ?node" "x \<noteq> ?node" if "x \<in> set ns" for x using that repr_node [OF r] by auto
  have entry: "entryOf m' x = entryOf m x" "height m' x = height m x" if "x < ?node" for x
    using that by (simp_all add: m'_eq m)
  show "map (entryOf m') ns' = map (entryOf m) (filter (\<lambda>n. keyOf m n < key) ns)
        @ \<lparr>ekey = key, evalue = val, etombstone = t\<rparr> # map (entryOf m) (filter (\<lambda>n. \<not> keyOf m n < key) ns)"
    unfolding ns' using inns by (simp add: entry) (simp add: m'_eq m)
  have key: "keyOf m' x = keyOf m x" if "x \<in> set ns" for x using keyOf_eq entry(1) inns(1) that by blast
  have knode: "keyOf m' ?node = key" using ekey_entryOf [of m' ?node] by (simp add: m'_eq m)
  have split: "ns = filter (\<lambda>n. keyOf m n < key) ns @ filter (\<lambda>n. \<not> keyOf m n < key) ns"
    by (rule repr_split [OF r])
  have set': "set ns' = insert ?node (set ns)" unfolding ns' by auto
  have lev: "onLevel m' i ns' = before m ns key i @ (if i < lvl then [?node] else []) @ from_on m ns key i" for i
  proof -
    have "filter (\<lambda>n. i < height m' n \<and> P n) ns = filter (\<lambda>n. P n \<and> i < height m n) ns" for P
      using inns entry(2) by (auto intro!: filter_cong)
    then show ?thesis
      unfolding ns' onLevel_def before_def from_on_def
      by (auto simp: m'_eq m conj_commute)
  qed
  show "repr m' ns'"
    unfolding repr_def
  proof (intro conjI)
    show "nodes m' \<noteq> []" using m(1) m'_eq(1) by auto
    have "0 < ?node" "height m 0 = maxSkipListLevel" "1 \<le> mlevel m" "mlevel m \<le> maxSkipListLevel"
      using r by (auto simp: repr_def)
    then show "height m' 0 = maxSkipListLevel" "1 \<le> mlevel m'" "mlevel m' \<le> maxSkipListLevel"
      using lvl by (auto simp: m'_eq m)
    have "distinct ns" using r by (simp add: repr_def)
    then show "distinct ns'" unfolding ns' using inns by auto
    have "set ns = {1..<?node}" "0 < ?node" using r by (auto simp: repr_def)
    then show "set ns' = {1..<length (nodes m')}" unfolding set' m'_eq m by (auto simp: Suc_le_eq)
    have "sorted_wrt (<) (map (keyOf m) ns)" using r by (simp add: repr_def)
    moreover have "map (keyOf m') ns = map (keyOf m) ns" using key by simp
    ultimately have "sorted_wrt (<) (map (keyOf m') ns)" by (simp only:)
    moreover have "filter (\<lambda>n. keyOf m n < key) ns = filter (\<lambda>n. keyOf m' n < key) ns"
      "filter (\<lambda>n. \<not> keyOf m n < key) ns = filter (\<lambda>n. \<not> keyOf m' n < key) ns"
      using key by (auto intro: filter_cong)
    ultimately show "sorted_wrt (<) (map (keyOf m') ns')"
      unfolding ns' using absent key knode by (simp only:) (intro sorted_insert, auto)
    show "\<forall>n \<in> set ns'. 1 \<le> height m' n \<and> height m' n \<le> mlevel m'"
      unfolding set' using repr_height [OF r] inns lvl by (auto simp: m'_eq m le_max_iff_disj)
    show "\<forall>i < maxSkipListLevel. chain (fwd m' i) (fwd m' i 0) (onLevel m' i ns')"
    proof (intro allI impI)
      fix i assume i: "i < maxSkipListLevel"
      let ?A = "before m ns key i" and ?B = "from_on m ns key i"
      have sub: "set (?A @ ?B) \<subseteq> set ns" by (auto simp: before_def from_on_def onLevel_def)
      have node0: "0 < ?node" "0 \<notin> set ns" using r repr_node [OF r] by (auto simp: repr_def)
      have "chain (fwd ?a i) (fwd m i 0) (?A @ ?B)"
      proof (rule chain_cong [OF repr_chain [OF r i, of key]])
        fix n assume "n \<in> set (?A @ ?B)"
        then have "n < ?node" using sub inns by blast
        then show "fwd m i n = fwd ?a i n" by simp
      qed
      then have ch: "chain (fwd ?a i) (fwd ?a i 0) (?A @ ?B)" using node0 by simp
      show "chain (fwd m' i) (fwd m' i 0) (onLevel m' i ns')"
      proof (cases "i < lvl")
        case False
        with ch show ?thesis by (simp add: lev m'_eq m)
      next
        case True
        have "distinct (?A @ ?B)"
          using r level_split [OF r, of i key] by (metis distinct_filter onLevel_def repr_def)
        then have d: "distinct (0 # ?A @ ?B)" using sub node0 by auto
        have n: "?node \<notin> set (0 # ?A @ ?B)" using sub node0 inns by auto
        have "chain (fwd m' i) (fwd m' i 0) (?A @ ?node # ?B)"
          using True by (intro chain_splice [OF ch d n]) (simp add: m'_eq m pred_def)
        then show ?thesis using True by (simp add: lev)
      qed
    qed
  qed
qed

lemma overwriteNode_simps [simp]:
  "length (nodes (overwriteNode m n v t)) = length (nodes m)"
  "mlevel (overwriteNode m n v t) = mlevel m" "entryCount (overwriteNode m n v t) = entryCount m"
  "fwd (overwriteNode m n v t) = fwd m" "height (overwriteNode m n v t) = height m"
  "keyOf (overwriteNode m n v t) = keyOf m"
proof -
  have "nkey (nodes (overwriteNode m n v t) ! x) = nkey (nodes m ! x)
    \<and> forward (nodes (overwriteNode m n v t) ! x) = forward (nodes m ! x)" for x
    by (cases "n = x"; cases "n < length (nodes m)") (auto simp: overwriteNode_def list_update_beyond)
  then show "fwd (overwriteNode m n v t) = fwd m" "height (overwriteNode m n v t) = height m"
    "keyOf (overwriteNode m n v t) = keyOf m"
    by (simp_all add: fwd_def height_def keyOf_def fun_eq_iff)
qed (simp_all add: overwriteNode_def)

lemma entryOf_overwriteNode:
  "n < length (nodes m) \<Longrightarrow> entryOf (overwriteNode m n v t) x =
    (if x = n then \<lparr>ekey = keyOf m n, evalue = v, etombstone = t\<rparr> else entryOf m x)"
  by (simp add: entryOf_def overwriteNode_def keyOf_def)

lemma overwriteNode_repr: "repr m ns \<Longrightarrow> repr (overwriteNode m n v t) ns"
proof -
  have "nodes (overwriteNode m n v t) \<noteq> [] \<longleftrightarrow> nodes m \<noteq> []"
    by (metis length_0_conv overwriteNode_simps(1))
  then show "repr m ns \<Longrightarrow> repr (overwriteNode m n v t) ns"
    by (simp add: repr_def onLevel_def)
qed

lemma randomLevelFrom_bounds:
  "lvl \<le> maxSkipListLevel \<Longrightarrow>
    lvl \<le> fst (randomLevelFrom lvl cs) \<and> fst (randomLevelFrom lvl cs) \<le> maxSkipListLevel"
  by (induction lvl cs rule: randomLevelFrom.induct) (auto simp: le_Suc_eq intro: Suc_leD)

lemma randomLevel_bounds: "1 \<le> fst (randomLevel cs) \<and> fst (randomLevel cs) \<le> maxSkipListLevel"
  using randomLevelFrom_bounds [of 1 cs] by (simp add: randomLevel_def maxSkipListLevel_def)

definition putEntry :: "memtableEntry \<Rightarrow> memtableEntry list \<Rightarrow> memtableEntry list" where
  "putEntry e es = filter (\<lambda>x. ekey x < ekey e) es @ e # filter (\<lambda>x. ekey e < ekey x) es"

lemma entriesSize_simps [simp]:
  "entriesSize [] = 0" "entriesSize (es @ fs) = entriesSize es + entriesSize fs"
  "entriesSize (e # es) = int (length (ekey e)) + int (length (evalue e)) + entriesSize es"
  by (simp_all add: entriesSize_def)

lemma descend_head:
  assumes r: "repr m ns"
    and d: "descend (mlevel m) m key 0 (replicate maxSkipListLevel None) = (current, update)"
  shows "current = pred m ns key 0" and "length update = maxSkipListLevel"
    and "\<forall>j < mlevel m. update ! j = Some (pred m ns key j)"
proof -
  have l: "1 \<le> mlevel m" "mlevel m \<le> maxSkipListLevel" using r by (auto simp: repr_def)
  from descend_pred [OF r l(2), of 0 key "replicate maxSkipListLevel None"] d l
  show "current = pred m ns key 0" "length update = maxSkipListLevel"
    "\<forall>j < mlevel m. update ! j = Some (pred m ns key j)" by auto
qed

text \<open>The insert branch of \<open>Put\<close>, in terms of the represented entries.\<close>

lemma insertNode_inv:
  assumes i: "memInv m" and r: "repr m ns" and lvl: "1 \<le> lvl" "lvl \<le> maxSkipListLevel"
    and absent: "\<forall>x \<in> set ns. keyOf m x \<noteq> key"
    and update: "length update = maxSkipListLevel"
      "\<forall>j < mlevel m. update ! j = Some (pred m ns key j)"
  shows "memInv (insertNode m update key val t lvl) \<and> MemEntries (insertNode m update key val t lvl) =
    putEntry \<lparr>ekey = key, evalue = val, etombstone = t\<rparr> (MemEntries m)"
proof -
  let ?m = "insertNode m update key val t lvl"
  let ?ns = "filter (\<lambda>n. keyOf m n < key) ns @ length (nodes m) # filter (\<lambda>n. \<not> keyOf m n < key) ns"
  note ins = insertNode_repr [OF r lvl absent update refl refl, of val t]
  have "filter (\<lambda>n. \<not> keyOf m n < key) ns = filter (\<lambda>n. key < keyOf m n) ns"
    using absent by (auto intro!: filter_cong)
  then have e: "MemEntries ?m = putEntry \<lparr>ekey = key, evalue = val, etombstone = t\<rparr> (MemEntries m)"
    unfolding repr_entries [OF ins(1)] ins(2) by (simp add: putEntry_def repr_entries [OF r] filter_map comp_def)
  have "entryOf m ` set ns = set (MemEntries m)" by (simp add: repr_entries [OF r])
  have es: "MemEntries m = map (entryOf m) (filter (\<lambda>n. keyOf m n < key) ns)
      @ map (entryOf m) (filter (\<lambda>n. \<not> keyOf m n < key) ns)"
    using repr_split [OF r, of key] by (simp add: repr_entries [OF r] flip: map_append)
  have "entriesSize (MemEntries ?m) = entriesSize (MemEntries m) + (int (length key) + int (length val))"
    "length (MemEntries ?m) = length (MemEntries m) + 1"
    unfolding repr_entries [OF ins(1)] ins(2) es by simp_all
  then have "memInv ?m" using i ins(1,3,4) by (auto simp: memInv_def skipInv_def)
  with e show ?thesis by simp
qed

lemma overwriteNode_inv:
  assumes i: "memInv m" and r: "repr m ns"
    and at: "filter (\<lambda>n. \<not> keyOf m n < key) ns = n # rest" and key: "keyOf m n = key"
  shows "memInv (overwriteNode m n val t) \<and> MemEntries (overwriteNode m n val t) =
    putEntry \<lparr>ekey = key, evalue = val, etombstone = t\<rparr> (MemEntries m)"
proof -
  let ?m = "overwriteNode m n val t" and ?L = "filter (\<lambda>n. keyOf m n < key) ns"
  note at = repr_at [OF r at]
  have n: "n < length (nodes m)" using at(2) repr_node [OF r] by simp
  have d: "distinct (?L @ n # rest)" using at(1) r unfolding repr_def by metis
  have es: "MemEntries m = map (entryOf m) ?L @ entryOf m n # map (entryOf m) rest"
    unfolding repr_entries [OF r] by (subst at(1)) simp
  have es': "MemEntries ?m = map (entryOf m) ?L @ \<lparr>ekey = key, evalue = val, etombstone = t\<rparr> # map (entryOf m) rest"
    unfolding repr_entries [OF overwriteNode_repr [OF r]]
    by (subst at(1)) (use d key in \<open>auto simp: entryOf_overwriteNode [OF n]\<close>)
  have rest: "\<forall>x \<in> set rest. key < keyOf m x" using at(4) key by simp
  have "filter (\<lambda>x. keyOf m x < key) rest = []" "filter (\<lambda>x. key < keyOf m x) rest = rest"
    "filter (\<lambda>x. key < keyOf m x) ?L = []"
    using rest by (auto simp: filter_empty_conv filter_id_conv)
  then have "MemEntries ?m = putEntry \<lparr>ekey = key, evalue = val, etombstone = t\<rparr> (MemEntries m)"
    unfolding es' unfolding es using key by (simp add: putEntry_def filter_map comp_def)
  moreover have "memInv ?m"
  proof -
    have "msize ?m = msize m + (int (length val) - int (length (evalue (entryOf m n))))"
      by (simp add: overwriteNode_def entryOf_def)
    moreover have "entriesSize (MemEntries ?m) =
        entriesSize (MemEntries m) + (int (length val) - int (length (evalue (entryOf m n))))"
      unfolding es' es using key by simp
    moreover have "length (MemEntries ?m) = length (MemEntries m)" unfolding es' es by simp
    ultimately show ?thesis
      using i overwriteNode_repr [OF r] by (auto simp: memInv_def skipInv_def)
  qed
  ultimately show ?thesis by simp
qed

lemma MemPut_correct:
  assumes i: "memInv m" and put: "MemPut m key val t coins = (m', coins')"
  shows "memInv m' \<and> MemEntries m' = putEntry \<lparr>ekey = key, evalue = val, etombstone = t\<rparr> (MemEntries m)"
proof -
  obtain ns where r: "repr m ns" using i by (auto simp: memInv_def skipInv_def)
  obtain current update where d:
    "descend (mlevel m) m key 0 (replicate maxSkipListLevel None) = (current, update)" by fastforce
  note dh = descend_head [OF r d]
  obtain lvl cs where lvl: "randomLevel coins = (lvl, cs)" by fastforce
  have lb: "1 \<le> lvl" "lvl \<le> maxSkipListLevel" using randomLevel_bounds [of coins] lvl by auto
  let ?R = "filter (\<lambda>n. \<not> keyOf m n < key) ns"
  have m': "m' = (case ?R of [] \<Rightarrow> insertNode m update key val t lvl
      | n # _ \<Rightarrow> if keyOf m n = key then overwriteNode m n val t else insertNode m update key val t lvl)"
    using put by (simp add: MemPut_def d lvl dh(1) pred_fwd [OF r] keyOf_def split: list.splits)
      (auto split: if_splits)
  show ?thesis
  proof (cases ?R)
    case Nil
    then show ?thesis
      using m' insertNode_inv [OF i r lb repr_absent [OF r Nil] dh(2,3)] by simp
  next
    case (Cons n rest)
    show ?thesis
    proof (cases "keyOf m n = key")
      case True
      then show ?thesis using m' Cons overwriteNode_inv [OF i r Cons True] by simp
    next
      case False
      then have "\<forall>x \<in> set ns. keyOf m x \<noteq> key" using repr_at(3) [OF r Cons] by blast
      then show ?thesis using m' Cons False insertNode_inv [OF i r lb _ dh(2,3)] by simp
    qed
  qed
qed

lemma NewMemtable_repr: "repr NewMemtable []"
  by (auto simp: repr_def NewMemtable_def height_def fwd_def onLevel_def maxSkipListLevel_def)

lemma NewMemtable_inv [simp]: "memInv NewMemtable" and MemEntries_NewMemtable [simp]: "MemEntries NewMemtable = []"
proof -
  show "MemEntries NewMemtable = []" using repr_entries [OF NewMemtable_repr] by simp
  then show "memInv NewMemtable"
    using NewMemtable_repr by (auto simp: memInv_def skipInv_def NewMemtable_def)
qed

lemma memInv_sorted: "memInv m \<Longrightarrow> sortedEntries (MemEntries m)"
  by (auto simp: memInv_def skipInv_def intro: repr_sorted)

lemma entryMap_filter:
  "entryMap (filter (\<lambda>e. P (ekey e)) es) k = (if P k then entryMap es k else None)"
  by (induction es) (auto simp: entryMap_Cons)

lemma entryMap_putEntry:
  "entryMap (putEntry e es) = (entryMap es)(ekey e \<mapsto> (evalue e, etombstone e))"
proof (rule ext)
  fix k
  have "entryMap (filter (\<lambda>x. ekey x < ekey e) es) k = (if k < ekey e then entryMap es k else None)"
    "entryMap (filter (\<lambda>x. ekey e < ekey x) es) k = (if ekey e < k then entryMap es k else None)"
    using entryMap_filter [of "\<lambda>k. k < ekey e" es k] entryMap_filter [of "\<lambda>k. ekey e < k" es k] by simp_all
  then show "entryMap (putEntry e es) k = ((entryMap es)(ekey e \<mapsto> (evalue e, etombstone e))) k"
    by (cases "entryMap es k") (auto simp: putEntry_def entryMap_append entryMap_Cons map_add_def not_less_iff_gr_or_eq)
qed

lemma MemPut_entryMap:
  assumes "memInv m" and "MemPut m key val t coins = (m', coins')"
  shows "entryMap (MemEntries m') = (entryMap (MemEntries m))(key \<mapsto> (val, t))"
  using MemPut_correct [OF assms] by (simp add: entryMap_putEntry)

section \<open>Properties\<close>

text \<open>C15: \<open>Put\<close> on the skip list, whatever levels the coin flips choose, keeps the structure's
  invariant, leaves its entries sorted by key with each key once, and is a map update for \<open>Get\<close>:
  the written key reads back its value and tombstone flag, every other key reads as before. The
  size that decides about flushing and the entry count stay exact.\<close>

theorem memtable_put:
  assumes "memInv m" and "MemPut m key val t coins = (m', coins')"
  shows "memInv m' \<and> sortedEntries (MemEntries m')
    \<and> MemGet m' k = (if k = key then Some (val, t) else MemGet m k)
    \<and> MemSize m' = entriesSize (MemEntries m') \<and> entryCount m' = int (length (MemEntries m'))"
proof -
  have i: "memInv m'" using MemPut_correct [OF assms] by simp
  moreover have "skipInv m" "skipInv m'" using i assms(1) by (simp_all add: memInv_def)
  ultimately show ?thesis
    using memInv_sorted [OF i] MemPut_entryMap [OF assms] by (simp add: MemGet_entryMap memInv_def MemSize_def)
qed

lemma memtable_put_witness:
  "\<exists>m' cs. MemPut NewMemtable ''k'' ''v'' False [True, True, False] = (m', cs) \<and> memInv m'
    \<and> MemGet m' ''k'' = Some (''v'', False)"
proof -
  obtain m' cs where m': "MemPut NewMemtable ''k'' ''v'' False [True, True, False] = (m', cs)" by fastforce
  show ?thesis using memtable_put [OF NewMemtable_inv m', of "''k''"] m' by simp
qed

end
