(* ===== verification/SSTable.thy ===== *)
theory SSTable
  imports Binary Memtable
begin

text \<open>
  Sorted tables on disk, \<open>src/api/queel/sstable.go\<close>: the file format written by
  \<open>WriteSSTable\<close>, the index that \<open>OpenSSTable\<close> rebuilds by scanning the file, \<open>Entries\<close>, and
  \<open>Get\<close> by binary search over the index and one seek. The lemmas show that a table written and
  opened again has the index it was written with, that \<open>Entries\<close> returns what was written, and
  that \<open>Get\<close> is lookup in it, for keys and values whose lengths the 32-bit header fields hold.
\<close>

section \<open>State and operations\<close>

definition tombstoneMarker :: "32 word" where
  "tombstoneMarker = 0xFFFFFFFF"

record ssTableIndexEntry =
  ikey :: bytes
  ioffset :: nat

record ssTable =
  spath :: string
  sindex :: "ssTableIndexEntry list"

definition sstHeader :: "memtableEntry \<Rightarrow> bytes" where
  "sstHeader e =
     PutUint32 (of_nat (length (ekey e)))
       @ PutUint32 (if etombstone e then tombstoneMarker else of_nat (length (evalue e)))"

definition sstRecord :: "memtableEntry \<Rightarrow> bytes" where
  "sstRecord e = sstHeader e @ ekey e @ (if etombstone e then [] else evalue e)"

text \<open>One round of the writing loop: the writer, the index and the offset.\<close>

definition writeStep ::
    "bytes \<times> ssTableIndexEntry list \<times> nat \<Rightarrow> memtableEntry \<Rightarrow> bytes \<times> ssTableIndexEntry list \<times> nat" where
  "writeStep st e =
     (case st of (w, index, offset) \<Rightarrow>
        (w @ sstRecord e, index @ [\<lparr>ikey = ekey e, ioffset = offset\<rparr>], offset + length (sstRecord e)))"

definition WriteSSTable :: "dir \<Rightarrow> string \<Rightarrow> memtableEntry list \<Rightarrow> ssTable \<times> dir" where
  "WriteSSTable d path entries =
     (let (w, index, _) = foldl writeStep ([], [], 0) (sort_key ekey entries)
      in (\<lparr>spath = path, sindex = index\<rparr>, WriteFile d path w))"

text \<open>The scanning loop of \<open>OpenSSTable\<close>.\<close>

function openLoop :: "bytes \<Rightarrow> ssTableIndexEntry list \<Rightarrow> nat \<Rightarrow> ioerr + ssTableIndexEntry list" where
  "openLoop r index offset =
     (case ReadFull 8 r of
        Inl e \<Rightarrow> if e = EOF then Inr index else Inl e
      | Inr (header, r1) \<Rightarrow>
          let keyLen = Uint32 (take 4 header); valueLen = Uint32 (drop 4 header)
          in (case ReadFull (unat keyLen) r1 of
                Inl e \<Rightarrow> Inl e
              | Inr (key, r2) \<Rightarrow>
                  let index' = index @ [\<lparr>ikey = key, ioffset = offset\<rparr>];
                      recordLen = 8 + length key
                  in if valueLen \<noteq> tombstoneMarker
                     then (case Discard (unat valueLen) r2 of
                             Inl e \<Rightarrow> Inl e
                           | Inr r3 \<Rightarrow> openLoop r3 index' (offset + (recordLen + unat valueLen)))
                     else openLoop r2 index' (offset + recordLen)))"
  by pat_completeness auto
termination
  by (relation "measure (\<lambda>(r, index, offset). length r)") (auto simp: ReadFull_Inr dest: Discard_Inr)

declare openLoop.simps [simp del]

definition OpenSSTable :: "dir \<Rightarrow> string \<Rightarrow> ioerr + ssTable" where
  "OpenSSTable d path =
     (case ReadFile d path of
        Inl e \<Rightarrow> Inl e
      | Inr f \<Rightarrow> (case openLoop f [] 0 of
                    Inl e \<Rightarrow> Inl e
                  | Inr index \<Rightarrow> Inr \<lparr>spath = path, sindex = index\<rparr>))"

text \<open>The reading loop of \<open>Entries\<close>.\<close>

function entriesLoop :: "bytes \<Rightarrow> memtableEntry list \<Rightarrow> ioerr + memtableEntry list" where
  "entriesLoop r entries =
     (case ReadFull 8 r of
        Inl e \<Rightarrow> if e = EOF then Inr entries else Inl e
      | Inr (header, r1) \<Rightarrow>
          let keyLen = Uint32 (take 4 header); valueLen = Uint32 (drop 4 header)
          in (case ReadFull (unat keyLen) r1 of
                Inl e \<Rightarrow> Inl e
              | Inr (key, r2) \<Rightarrow>
                  if valueLen = tombstoneMarker
                  then entriesLoop r2 (entries @ [\<lparr>ekey = key, evalue = [], etombstone = True\<rparr>])
                  else (case ReadFull (unat valueLen) r2 of
                          Inl e \<Rightarrow> Inl e
                        | Inr (val, r3) \<Rightarrow>
                            entriesLoop r3 (entries @ [\<lparr>ekey = key, evalue = val, etombstone = False\<rparr>]))))"
  by pat_completeness auto
termination
  by (relation "measure (\<lambda>(r, entries). length r)") (auto simp: ReadFull_Inr)

declare entriesLoop.simps [simp del]

definition SSTEntries :: "dir \<Rightarrow> ssTable \<Rightarrow> ioerr + memtableEntry list" where
  "SSTEntries d s = (case ReadFile d (spath s) of Inl e \<Rightarrow> Inl e | Inr f \<Rightarrow> entriesLoop f [])"

definition SSTGet :: "dir \<Rightarrow> ssTable \<Rightarrow> bytes \<Rightarrow> ioerr + (bytes \<times> bool) option" where
  "SSTGet d s key =
     (let i = Search (length (sindex s)) (\<lambda>i. \<not> ikey (sindex s ! i) < key)
      in if i \<ge> length (sindex s) \<or> ikey (sindex s ! i) \<noteq> key then Inr None
         else (case ReadFile d (spath s) of
                 Inl e \<Rightarrow> Inl e
               | Inr f \<Rightarrow>
                   (case ReadFull 8 (drop (ioffset (sindex s ! i)) f) of
                      Inl e \<Rightarrow> Inl e
                    | Inr (header, r1) \<Rightarrow>
                        let keyLen = Uint32 (take 4 header); valueLen = Uint32 (drop 4 header);
                            r2 = drop (unat keyLen) r1
                        in if valueLen = tombstoneMarker then Inr (Some ([], True))
                           else (case ReadFull (unat valueLen) r2 of
                                   Inl e \<Rightarrow> Inl e
                                 | Inr (val, _) \<Rightarrow> Inr (Some (val, False))))))"

section \<open>Reading back what was written\<close>

text \<open>Lengths that the header can represent. A value of \<open>2^32 - 1\<close> bytes would read as a
  tombstone.\<close>

definition kvFits :: "bytes \<Rightarrow> bytes \<Rightarrow> bool" where
  "kvFits k v \<longleftrightarrow> length k < 2 ^ 32 \<and> length v < 2 ^ 32 - 1"

text \<open>An entry as it is read back: fitting, and without a value when it is a tombstone.\<close>

definition entryOk :: "memtableEntry \<Rightarrow> bool" where
  "entryOk e \<longleftrightarrow> kvFits (ekey e) (evalue e) \<and> (etombstone e \<longrightarrow> evalue e = [])"

definition sstBytes :: "memtableEntry list \<Rightarrow> bytes" where
  "sstBytes es = concat (map sstRecord es)"

fun indexFrom :: "nat \<Rightarrow> memtableEntry list \<Rightarrow> ssTableIndexEntry list" where
  "indexFrom offset [] = []"
| "indexFrom offset (e # es) =
     \<lparr>ikey = ekey e, ioffset = offset\<rparr> # indexFrom (offset + length (sstRecord e)) es"

lemma sstBytes_simps [simp]:
  "sstBytes [] = []" "sstBytes (e # es) = sstRecord e @ sstBytes es"
  "sstBytes (es @ fs) = sstBytes es @ sstBytes fs"
  by (simp_all add: sstBytes_def)

lemma length_sstHeader [simp]: "length (sstHeader e) = 8"
  by (simp add: sstHeader_def)

lemma writeStep_fold:
  "foldl writeStep (w, index, offset) es =
    (w @ sstBytes es, index @ indexFrom offset es, offset + length (sstBytes es))"
  by (induction es arbitrary: w index offset) (auto simp: writeStep_def)

lemma WriteSSTable_eq:
  "WriteSSTable d path es = (\<lparr>spath = path, sindex = indexFrom 0 (sort_key ekey es)\<rparr>,
    WriteFile d path (sstBytes (sort_key ekey es)))"
  by (simp add: WriteSSTable_def writeStep_fold)

lemma valueLen_not_marker:
  assumes "length v < 2 ^ 32 - 1"
  shows "(of_nat (length v) :: 32 word) \<noteq> tombstoneMarker"
proof
  assume "(of_nat (length v) :: 32 word) = tombstoneMarker"
  then have "unat (of_nat (length v) :: 32 word) = unat tombstoneMarker" by simp
  then show False using assms by (simp add: tombstoneMarker_def unat_of_nat)
qed

lemma sstHeader_read [codec_simps]:
  assumes "entryOk e"
  shows "unat (Uint32 (take 4 (sstHeader e))) = length (ekey e)"
    and "Uint32 (drop 4 (sstHeader e)) = tombstoneMarker \<longleftrightarrow> etombstone e"
    and "\<not> etombstone e \<Longrightarrow> unat (Uint32 (drop 4 (sstHeader e))) = length (evalue e)"
  using assms valueLen_not_marker [of "evalue e"]
  by (auto simp: sstHeader_def entryOk_def kvFits_def unat_of_nat)

lemma openLoop_record:
  assumes "entryOk e"
  shows "openLoop (sstRecord e @ r) index offset =
    openLoop r (index @ [\<lparr>ikey = ekey e, ioffset = offset\<rparr>]) (offset + length (sstRecord e))"
  using assms by (subst openLoop.simps) (simp add: Let_def sstHeader_read sstRecord_def add.assoc)

lemma openLoop_Nil: "openLoop [] index offset = Inr index"
  by (simp add: openLoop.simps [of "[]"] ReadFull_def)

lemma openLoop_sstBytes:
  "list_all entryOk es \<Longrightarrow> openLoop (sstBytes es) index offset = Inr (index @ indexFrom offset es)"
  by (induction es arbitrary: index offset) (auto simp: openLoop_Nil openLoop_record)

lemma entriesLoop_record:
  assumes "entryOk e"
  shows "entriesLoop (sstRecord e @ r) entries = entriesLoop r (entries @ [e])"
proof (cases "etombstone e")
  case True
  then have "e = \<lparr>ekey = ekey e, evalue = [], etombstone = True\<rparr>" using assms by (simp add: entryOk_def)
  then show ?thesis using assms True
    by (subst entriesLoop.simps) (simp add: Let_def sstHeader_read sstRecord_def)
next
  case False
  have "entriesLoop (sstRecord e @ r) entries =
      entriesLoop r (entries @ [\<lparr>ekey = ekey e, evalue = evalue e, etombstone = False\<rparr>])"
    using assms False by (subst entriesLoop.simps) (simp add: Let_def sstHeader_read sstRecord_def)
  then show ?thesis using False by (cases e) simp
qed

lemma entriesLoop_Nil: "entriesLoop [] entries = Inr entries"
  by (simp add: entriesLoop.simps [of "[]"] ReadFull_def)

lemma entriesLoop_sstBytes:
  "list_all entryOk es \<Longrightarrow> entriesLoop (sstBytes es) entries = Inr (entries @ es)"
  by (induction es arbitrary: entries) (auto simp: entriesLoop_Nil entriesLoop_record)

text \<open>\<open>table d s es\<close>: the open table \<open>s\<close> on the directory \<open>d\<close> holds \<open>es\<close>.\<close>

definition table :: "dir \<Rightarrow> ssTable \<Rightarrow> memtableEntry list \<Rightarrow> bool" where
  "table d s es \<longleftrightarrow> ReadFile d (spath s) = Inr (sstBytes es) \<and> sindex s = indexFrom 0 es
     \<and> list_all entryOk es \<and> sortedEntries es"

lemma sort_key_sorted: "sortedEntries es \<Longrightarrow> sort_key ekey es = es"
  unfolding sortedEntries_def
  by (intro sort_key_id_if_sorted) (auto simp: sorted_wrt_map intro: sorted_wrt_mono_rel [rotated])

lemma sort_key_sortedEntries: "distinct (map ekey es) \<Longrightarrow> sortedEntries (sort_key ekey es)"
proof -
  assume "distinct (map ekey es)"
  then have "distinct (map ekey (sort_key ekey es))"
    by (simp add: distinct_map)
  moreover have "sorted (map ekey (sort_key ekey es))" by (rule sorted_sort_key)
  ultimately show ?thesis unfolding sortedEntries_def by (simp add: strict_sorted_iff)
qed

lemma table_written:
  assumes "list_all entryOk es" and "sortedEntries es" and "WriteSSTable d path es = (s, d')"
  shows "table d' s es" and "spath s = path" and "d' = WriteFile d path (sstBytes es)"
  using assms by (auto simp: WriteSSTable_eq sort_key_sorted table_def)

lemma table_opened:
  assumes "list_all entryOk es" and "sortedEntries es" and "ReadFile d path = Inr (sstBytes es)"
  shows "OpenSSTable d path = Inr \<lparr>spath = path, sindex = indexFrom 0 es\<rparr>"
  using assms by (simp add: OpenSSTable_def openLoop_sstBytes)

lemma table_entries: "table d s es \<Longrightarrow> SSTEntries d s = Inr es"
  by (simp add: table_def SSTEntries_def entriesLoop_sstBytes)

lemma indexFrom_nth:
  "i < length es \<Longrightarrow> indexFrom offset es ! i =
    \<lparr>ikey = ekey (es ! i), ioffset = offset + length (sstBytes (take i es))\<rparr>"
  by (induction es arbitrary: i offset) (auto simp: nth_Cons' take_Cons')

lemma length_indexFrom [simp]: "length (indexFrom offset es) = length es"
  by (induction es arbitrary: offset) auto

lemma sortedEntries_nth: "sortedEntries es \<Longrightarrow> i < j \<Longrightarrow> j < length es \<Longrightarrow> ekey (es ! i) < ekey (es ! j)"
  by (simp add: sortedEntries_def sorted_wrt_iff_nth_less)

lemma entryMap_nth:
  "sortedEntries es \<Longrightarrow> i < length es \<Longrightarrow>
    entryMap es (ekey (es ! i)) = Some (evalue (es ! i), etombstone (es ! i))"
  unfolding entryMap_def sortedEntries_def
  by (intro map_of_is_SomeI) (force simp: strict_sorted_iff comp_def)+

text \<open>The seek to the offset of entry \<open>i\<close> lands on its record.\<close>

lemma sstBytes_drop:
  assumes "i < length es"
  shows "drop (length (sstBytes (take i es))) (sstBytes es) = sstRecord (es ! i) @ sstBytes (drop (Suc i) es)"
proof -
  have "es = take i es @ es ! i # drop (Suc i) es" using assms by (simp add: id_take_nth_drop)
  then have "sstBytes es = sstBytes (take i es) @ sstRecord (es ! i) @ sstBytes (drop (Suc i) es)"
    by (metis sstBytes_simps(2,3))
  then show ?thesis by simp
qed

lemma table_get:
  assumes t: "table d s es"
  shows "SSTGet d s key = Inr (entryMap es key)"
proof -
  let ?P = "\<lambda>i. \<not> ikey (sindex s ! i) < key" and ?n = "length es"
  have len: "length (sindex s) = ?n" and sorted: "sortedEntries es"
    and key: "ikey (sindex s ! i) = ekey (es ! i)" "ioffset (sindex s ! i) = length (sstBytes (take i es))"
    if "i < ?n" for i using t that by (auto simp: table_def indexFrom_nth)
  have len: "length (sindex s) = ?n" and sorted: "sortedEntries es" using t by (auto simp: table_def)
  have mono: "?P b" if "a \<le> b" "b < ?n" "?P a" for a b
  proof (cases "a = b")
    case False
    then have "ekey (es ! a) < ekey (es ! b)" using that sortedEntries_nth [OF sorted] by simp
    then show ?thesis using that key(1) [of a] key(1) [of b] by simp
  qed (use that in simp)
  define i where "i = Search ?n ?P"
  have i: "i \<le> ?n" "\<And>k. k < i \<Longrightarrow> \<not> ?P k" "\<And>k. i \<le> k \<Longrightarrow> k < ?n \<Longrightarrow> ?P k"
    unfolding i_def using Search_correct [of ?n ?P] mono by blast+
  show ?thesis
  proof (cases "i < ?n \<and> ekey (es ! i) = key")
    case True
    then have "entryOk (es ! i)" using t by (simp add: table_def list_all_length)
    moreover have "entryMap es key = Some (evalue (es ! i), etombstone (es ! i))"
      using entryMap_nth [OF sorted, of i] True by auto
    moreover have "ReadFile d (spath s) = Inr (sstBytes es)" using t by (simp add: table_def)
    ultimately show ?thesis
      using True by (simp add: SSTGet_def Let_def len i_def [symmetric] key sstBytes_drop sstRecord_def
          sstHeader_read) (auto simp: entryOk_def)
  next
    case False
    have "ekey (es ! k) \<noteq> key" if k: "k < ?n" for k
    proof (cases "k < i")
      case True
      then show ?thesis using i(2) [OF True] key(1) [OF k] by auto
    next
      case ge: False
      then have "i < ?n" "\<not> ekey (es ! i) < key" using i(3) [of i] k key(1) [of i] by auto
      then show ?thesis using False ge sortedEntries_nth [OF sorted, of i k] k by (cases "k = i") auto
    qed
    then have "entryMap es key = None" by (force simp: entryMap_None in_set_conv_nth)
    moreover have "i \<ge> ?n \<or> ikey (sindex s ! i) \<noteq> key" using False key(1) [of i] by auto
    ultimately show ?thesis by (auto simp: SSTGet_def Let_def len i_def [symmetric])
  qed
qed

section \<open>Properties\<close>

text \<open>C16: a table written with \<open>WriteSSTable\<close> and opened again with \<open>OpenSSTable\<close> is the same
  table (the index rebuilt by scanning is the index built while writing); \<open>Entries\<close> returns the
  entries sorted by key, and \<open>Get\<close>, by bisection over the index and one seek, is lookup of the
  key's entry, for distinct keys and lengths that the 32-bit header fields can hold.\<close>

theorem sstable_roundtrip:
  assumes "list_all entryOk es" and "distinct (map ekey es)" and "WriteSSTable d path es = (s, d')"
  shows "OpenSSTable d' path = Inr s \<and> SSTEntries d' s = Inr (sort_key ekey es)
    \<and> SSTGet d' s key = Inr (entryMap (sort_key ekey es) key)"
proof (intro conjI)
  let ?es = "sort_key ekey es"
  have es: "list_all entryOk ?es" "sortedEntries ?es"
    using assms(1) sort_key_sortedEntries [OF assms(2)] by (simp_all add: list_all_iff)
  have "WriteSSTable d path ?es = (s, d')"
    using assms(3) sort_key_sorted [OF es(2)] by (simp add: WriteSSTable_eq)
  note t = table_written [OF es this]
  show "OpenSSTable d' path = Inr s"
    using table_opened [OF es, of d' path] t assms(3) by (auto simp: WriteSSTable_eq)
  show "SSTEntries d' s = Inr ?es" by (rule table_entries [OF t(1)])
  show "SSTGet d' s key = Inr (entryMap ?es key)" by (rule table_get [OF t(1)])
qed

lemma sstable_roundtrip_witness:
  "\<exists>s d'. WriteSSTable [] ''sstable-0.db'' [\<lparr>ekey = ''b'', evalue = ''2'', etombstone = False\<rparr>,
      \<lparr>ekey = ''a'', evalue = [], etombstone = True\<rparr>] = (s, d')
    \<and> OpenSSTable d' ''sstable-0.db'' = Inr s
    \<and> SSTGet d' s ''b'' = Inr (Some (''2'', False)) \<and> SSTGet d' s ''a'' = Inr (Some ([], True))"
proof -
  let ?es = "[\<lparr>ekey = ''b'', evalue = ''2'', etombstone = False\<rparr>, \<lparr>ekey = ''a'', evalue = [], etombstone = True\<rparr>]"
  obtain s d' where w: "WriteSSTable [] ''sstable-0.db'' ?es = (s, d')" by fastforce
  have es: "list_all entryOk ?es" "distinct (map ekey ?es)" by (simp_all add: entryOk_def kvFits_def)
  have "sort_key ekey ?es = [\<lparr>ekey = ''a'', evalue = [], etombstone = True\<rparr>, \<lparr>ekey = ''b'', evalue = ''2'', etombstone = False\<rparr>]"
    by code_simp
  then show ?thesis
    using sstable_roundtrip [OF es w] w by (auto simp: entryMap_def)
qed

end
