(* ===== verification/Wal.thy ===== *)
theory Wal
  imports Binary
begin

text \<open>
  The write-ahead log, \<open>src/api/queel/wal.go\<close>: the record written by \<open>Append\<close>, \<open>OpenWAL\<close>,
  \<open>Reset\<close>, and the loop of \<open>ReplayWAL\<close>. The log is a file of the data directory; the
  buffered writer is flushed and the file synced inside every \<open>Append\<close>, so after an \<open>Append\<close>
  the whole record is in the file. A crash in the middle of one leaves a strict prefix of it.
\<close>

section \<open>Records and operations\<close>

definition walRecord :: "bytes \<Rightarrow> bytes \<Rightarrow> bool \<Rightarrow> bytes" where
  "walRecord key val tombstone =
     PutUint32 (of_nat (length key)) @ PutUint32 (of_nat (length val))
       @ [char_of (if tombstone then 1 else 0 :: nat)] @ key @ val"

definition OpenWAL :: "dir \<Rightarrow> string \<Rightarrow> dir" where
  "OpenWAL d path = (case ReadFile d path of Inl _ \<Rightarrow> WriteFile d path [] | Inr _ \<Rightarrow> d)"

definition WalAppend :: "dir \<Rightarrow> string \<Rightarrow> bytes \<Rightarrow> bytes \<Rightarrow> bool \<Rightarrow> ioerr + dir" where
  "WalAppend d path key val tombstone =
     (case ReadFile d path of
        Inl e \<Rightarrow> Inl e
      | Inr old \<Rightarrow> Inr (WriteFile d path (old @ walRecord key val tombstone)))"

definition WalReset :: "dir \<Rightarrow> string \<Rightarrow> ioerr + dir" where
  "WalReset d path =
     (case ReadFile d path of Inl e \<Rightarrow> Inl e | Inr _ \<Rightarrow> Inr (WriteFile d path []))"

text \<open>
  The loop of \<open>ReplayWAL\<close>: \<open>r\<close> is what the reader has not consumed, \<open>fn\<close> the callback and \<open>s\<close>
  the state it has built so far. Only an end of file on a record boundary ends the loop normally.
\<close>

function replayLoop ::
    "('s \<Rightarrow> bytes \<Rightarrow> bytes \<Rightarrow> bool \<Rightarrow> ioerr + 's) \<Rightarrow> 's \<Rightarrow> bytes \<Rightarrow> ioerr + 's" where
  "replayLoop fn s r =
     (case ReadFull 9 r of
        Inl e \<Rightarrow> if e = EOF then Inr s else Inl e
      | Inr (header, r1) \<Rightarrow>
          let keyLen = Uint32 (take 4 header);
              valueLen = Uint32 (take 4 (drop 4 header));
              tombstone = ((of_char (header ! 8) :: nat) = 1)
          in (case ReadFull (unat keyLen) r1 of
                Inl e \<Rightarrow> Inl e
              | Inr (key, r2) \<Rightarrow>
                  (case ReadFull (unat valueLen) r2 of
                     Inl e \<Rightarrow> Inl e
                   | Inr (val, r3) \<Rightarrow>
                       (case fn s key val tombstone of
                          Inl e \<Rightarrow> Inl e
                        | Inr s' \<Rightarrow> replayLoop fn s' r3))))"
  by pat_completeness auto
termination
  by (relation "measure (\<lambda>(fn, s, r). length r)") (auto simp: ReadFull_Inr)

declare replayLoop.simps [simp del]

definition ReplayWAL ::
    "dir \<Rightarrow> string \<Rightarrow> ('s \<Rightarrow> bytes \<Rightarrow> bytes \<Rightarrow> bool \<Rightarrow> ioerr + 's) \<Rightarrow> 's \<Rightarrow> ioerr + 's" where
  "ReplayWAL d path fn s =
     (case ReadFile d path of
        Inl e \<Rightarrow> if e = NotExist then Inr s else Inl e
      | Inr file \<Rightarrow> replayLoop fn s file)"

section \<open>Replaying what was appended\<close>

type_synonym logrec = "bytes \<times> bytes \<times> bool"

text \<open>Records whose lengths the header's 32-bit fields can hold.\<close>

definition walFits :: "logrec \<Rightarrow> bool" where
  "walFits r = (case r of (k, v, t) \<Rightarrow> length k < 2 ^ 32 \<and> length v < 2 ^ 32)"

definition walBytes :: "logrec list \<Rightarrow> bytes" where
  "walBytes rs = concat (map (\<lambda>(k, v, t). walRecord k v t) rs)"

lemma walBytes_simps [simp]:
  "walBytes [] = []" "walBytes ((k, v, t) # rs) = walRecord k v t @ walBytes rs"
  "walBytes (rs @ ss) = walBytes rs @ walBytes ss"
  by (simp_all add: walBytes_def)

definition foldLog :: "('s \<Rightarrow> bytes \<Rightarrow> bytes \<Rightarrow> bool \<Rightarrow> 's) \<Rightarrow> 's \<Rightarrow> logrec list \<Rightarrow> 's" where
  "foldLog g s rs = foldl (\<lambda>s (k, v, t). g s k v t) s rs"

lemma foldLog_simps [simp]:
  "foldLog g s [] = s" "foldLog g s ((k, v, t) # rs) = foldLog g (g s k v t) rs"
  "foldLog g s (rs @ ss) = foldLog g (foldLog g s rs) ss"
  by (simp_all add: foldLog_def)

lemma walHeader [codec_simps]:
  assumes "length k < 2 ^ 32" and "length v < 2 ^ 32"
  shows "\<exists>h. walRecord k v t = h @ k @ v \<and> length h = 9
    \<and> unat (Uint32 (take 4 h)) = length k \<and> unat (Uint32 (take 4 (drop 4 h))) = length v
    \<and> ((of_char (h ! 8) :: nat) = 1) = t"
proof -
  let ?h = "PutUint32 (of_nat (length k)) @ PutUint32 (of_nat (length v))
    @ [char_of (if t then 1 else 0 :: nat)]"
  have "?h ! 8 = char_of (if t then 1 else 0 :: nat)" by (simp add: nth_append)
  then show ?thesis
    using assms by (intro exI [of _ ?h]) (simp add: walRecord_def unat_of_nat)
qed

lemma walRecord_nonempty [simp]: "walRecord k v t \<noteq> []"
  by (simp add: walRecord_def PutUint32_def)

lemma replayLoop_Nil [simp]: "replayLoop fn s [] = Inr s"
  by (simp add: replayLoop.simps [of fn s "[]"] ReadFull_def)

lemma replayLoop_record:
  assumes "length k < 2 ^ 32" and "length v < 2 ^ 32"
  shows "replayLoop fn s (walRecord k v t @ r) =
    (case fn s k v t of Inl e \<Rightarrow> Inl e | Inr s' \<Rightarrow> replayLoop fn s' r)"
proof -
  obtain h where h: "walRecord k v t = h @ k @ v" "length h = 9"
    "unat (Uint32 (take 4 h)) = length k" "unat (Uint32 (take 4 (drop 4 h))) = length v"
    "((of_char (h ! 8) :: nat) = 1) = t"
    using walHeader [OF assms, of t] by blast
  then show ?thesis
    by (simp add: replayLoop.simps [of fn s "h @ k @ v @ r"] Let_def)
qed

lemma replayLoop_walBytes:
  assumes "list_all walFits rs"
  shows "replayLoop (\<lambda>s k v t. Inr (g s k v t)) s (walBytes rs @ r) =
    replayLoop (\<lambda>s k v t. Inr (g s k v t)) (foldLog g s rs) r"
  using assms
  by (induction rs arbitrary: s) (auto simp: walFits_def replayLoop_record)

text \<open>A strict, non-empty prefix of a record, which a crash inside \<open>Append\<close> leaves, is an error.\<close>

lemma replayLoop_torn:
  assumes "length k < 2 ^ 32" and "length v < 2 ^ 32"
    and "strict_prefix torn (walRecord k v t)" and "torn \<noteq> []"
  shows "\<exists>e. replayLoop fn s torn = Inl e"
proof -
  obtain h where h: "walRecord k v t = h @ k @ v" "length h = 9"
    "unat (Uint32 (take 4 h)) = length k" "unat (Uint32 (take 4 (drop 4 h))) = length v"
    using walHeader [OF assms(1,2), of t] by blast
  obtain rest where rest: "walRecord k v t = torn @ rest" "rest \<noteq> []"
    using assms(3) by (auto simp: strict_prefix_def prefix_def)
  have len: "length torn < 9 + length k + length v"
    using rest h(1,2) by (metis add.assoc length_append length_greater_0_conv less_add_same_cancel1)
  show ?thesis
  proof (cases "length torn < 9")
    case True
    then have "ReadFull 9 torn = Inl UnexpectedEOF" using assms(4) by (simp add: ReadFull_def)
    then show ?thesis by (simp add: replayLoop.simps [of fn s torn])
  next
    case False
    then have "take 9 torn = h" using rest h by (metis append_eq_append_conv_if append_eq_conv_conj not_less take_all_iff take_append)
    then obtain b where b: "torn = h @ b" by (metis append_take_drop_id)
    have kv: "b @ rest = k @ v" using b rest h(1) by simp
    show ?thesis
    proof (cases "length b < length k")
      case True
      then obtain e where "ReadFull (length k) b = Inl e" using ReadFull_short by blast
      then have "replayLoop fn s torn = Inl e"
        unfolding b using h(2-4) by (simp add: replayLoop.simps [of fn s "h @ b"] Let_def)
      then show ?thesis ..
    next
      case False
      then obtain c where c: "b = k @ c" using kv by (metis append_eq_append_conv2 append_eq_append_conv_if append_take_drop_id leI take_all)
      have "length c < length v" using len b c h(2) by simp
      then obtain e where "ReadFull (length v) c = Inl e" using ReadFull_short by blast
      then have "replayLoop fn s torn = Inl e"
        unfolding b c using h(2-4) by (simp add: replayLoop.simps [of fn s "h @ k @ c"] Let_def)
      then show ?thesis ..
    qed
  qed
qed

section \<open>Properties\<close>

text \<open>The log after a sequence of appends, each on the file the previous one left.\<close>

fun appendAll :: "dir \<Rightarrow> string \<Rightarrow> logrec list \<Rightarrow> ioerr + dir" where
  "appendAll d path [] = Inr d"
| "appendAll d path ((k, v, t) # rs) =
     (case WalAppend d path k v t of Inl e \<Rightarrow> Inl e | Inr d' \<Rightarrow> appendAll d' path rs)"

lemma appendAll_bytes:
  "ReadFile d path = Inr old \<Longrightarrow>
    \<exists>d'. appendAll d path rs = Inr d' \<and> ReadFile d' path = Inr (old @ walBytes rs)"
proof (induction rs arbitrary: d old)
  case (Cons r rs)
  obtain k v t where r: "r = (k, v, t)" by (cases r) auto
  have "WalAppend d path k v t = Inr (WriteFile d path (old @ walRecord k v t))"
    using Cons.prems by (simp add: WalAppend_def)
  then show ?case using Cons.IH [of "WriteFile d path (old @ walRecord k v t)" "old @ walRecord k v t"] by (simp add: r)
qed simp

text \<open>C17: replaying a log gives the appended records back, in order and complete: on a file opened
  fresh, \<open>Append\<close> of any records followed by \<open>ReplayWAL\<close> folds the callback over exactly these
  records, for lengths below \<open>2^32\<close>.\<close>

theorem wal_roundtrip:
  assumes "list_all walFits rs" and "ReadFile d path = Inl NotExist"
  shows "\<exists>d'. appendAll (OpenWAL d path) path rs = Inr d'
    \<and> ReplayWAL d' path (\<lambda>s k v t. Inr (s @ [(k, v, t)])) [] = Inr rs"
proof -
  have "ReadFile (OpenWAL d path) path = Inr []" using assms(2) by (simp add: OpenWAL_def)
  from appendAll_bytes [OF this, of rs] obtain d' where d': "appendAll (OpenWAL d path) path rs = Inr d'"
    "ReadFile d' path = Inr (walBytes rs)" by auto
  have "foldLog (\<lambda>s k v t. s @ [(k, v, t)]) s rs = s @ rs" for s
    by (induction rs arbitrary: s) auto
  then have "ReplayWAL d' path (\<lambda>s k v t. Inr (s @ [(k, v, t)])) [] = Inr rs"
    using d'(2) replayLoop_walBytes [OF assms(1), of "\<lambda>s k v t. s @ [(k, v, t)]" "[]" "[]"]
    by (simp add: ReplayWAL_def)
  then show ?thesis using d'(1) by blast
qed

lemma wal_roundtrip_witness:
  "\<exists>d'. appendAll (OpenWAL [] ''wal.log'') ''wal.log'' [(''k'', ''v'', False), (''k'', [], True)] = Inr d'
    \<and> ReplayWAL d' ''wal.log'' (\<lambda>s k v t. Inr (s @ [(k, v, t)])) [] = Inr [(''k'', ''v'', False), (''k'', [], True)]"
  by (rule wal_roundtrip) (simp_all add: walFits_def ReadFile_def)

end
