(* ===== verification/Engine.thy ===== *)
theory Engine
  imports SSTable Wal
begin

text \<open>
  The storage engine, \<open>src/api/queel/engine.go\<close> and \<open>compaction.go\<close>: write-ahead log, memtable
  and sorted tables, newest first. The state holds the engine's fields and the files of its data
  directory; \<open>coins\<close> are the random draws the skip list has still to make. The mutex makes every
  operation one step. An operation returns its error, if any, beside the state it leaves.

  The abstraction of an engine is the map of its live keys. The lemmas show that every operation
  is the corresponding operation on that map, that \<open>Open\<close> on the directory of a running engine
  gives an engine with the same map, and what a stop between the steps of an operation leaves.
\<close>

section \<open>State\<close>

record engine =
  disk :: dir
  stops :: "dir list"
  memt :: memtable
  sstables :: "ssTable list"
  nextSSTableSeq :: int
  memtableSizeLimit :: int
  coins :: "bool list"

record writeOp =
  wkey :: bytes
  wvalue :: bytes
  wtombstone :: bool

type_synonym kv = "bytes \<times> bytes"

definition defaultMemtableSizeLimit :: int where
  "defaultMemtableSizeLimit = 4 * 1024 * 1024"

definition walPath :: string where
  "walPath = ''wal.log''"

definition sstName :: "int \<Rightarrow> string" where
  "sstName seq = ''sstable-'' @ Itoa seq @ ''.db''"

text \<open>Every file operation goes through \<open>setDisk\<close>. The field \<open>stops\<close> is not in the code: it keeps the
  directories that the file operations have left since the engine was opened, latest first, which are
  those that a stop of the process may leave behind.\<close>

definition setDisk :: "dir \<Rightarrow> engine \<Rightarrow> engine" where
  "setDisk d e = e\<lparr>disk := d, stops := d # stops e\<rparr>"

lemma setDisk_simps [simp]:
  "disk (setDisk d e) = d" "stops (setDisk d e) = d # stops e" "memt (setDisk d e) = memt e"
  "sstables (setDisk d e) = sstables e" "nextSSTableSeq (setDisk d e) = nextSSTableSeq e"
  "memtableSizeLimit (setDisk d e) = memtableSizeLimit e" "coins (setDisk d e) = coins e"
  by (simp_all add: setDisk_def)

section \<open>Open\<close>

definition sstSeq :: "string \<Rightarrow> int option" where
  "sstSeq name =
     (if \<not> HasPrefix name ''sstable-'' \<or> \<not> HasSuffix name ''.db'' then None
      else Atoi (TrimSuffix (TrimPrefix name ''sstable-'') ''.db''))"

definition existingSSTables :: "dir \<Rightarrow> string list" where
  "existingSSTables d = map sstName (sort (List.map_filter sstSeq (map fst d)))"

fun openAll :: "dir \<Rightarrow> string list \<Rightarrow> ssTable list \<Rightarrow> ioerr + ssTable list" where
  "openAll d [] acc = Inr acc"
| "openAll d (p # ps) acc =
     (case OpenSSTable d p of Inl e \<Rightarrow> Inl e | Inr s \<Rightarrow> openAll d ps (s # acc))"

definition replayPut :: "memtable \<times> bool list \<Rightarrow> bytes \<Rightarrow> bytes \<Rightarrow> bool \<Rightarrow> memtable \<times> bool list" where
  "replayPut st key val tombstone = MemPut (fst st) key val tombstone (snd st)"

definition OpenEngine :: "dir \<Rightarrow> int \<Rightarrow> bool list \<Rightarrow> ioerr + engine" where
  "OpenEngine d limit cs =
     (let paths = existingSSTables d
      in case openAll d paths [] of
           Inl e \<Rightarrow> Inl e
         | Inr ss \<Rightarrow>
             (case ReplayWAL d walPath (\<lambda>st k v t. Inr (replayPut st k v t)) (NewMemtable, cs) of
                Inl e \<Rightarrow> Inl e
              | Inr (m, cs') \<Rightarrow>
                  Inr \<lparr>disk = OpenWAL d walPath, stops = [], memt = m, sstables = ss,
                       nextSSTableSeq = int (length paths), memtableSizeLimit = limit, coins = cs'\<rparr>))"

section \<open>Writing\<close>

text \<open>The two halves of \<open>maybeFlush\<close>: the new table first, then the reset of the log.\<close>

definition flushTable :: "engine \<Rightarrow> engine" where
  "flushTable e =
     (let (s, d) = WriteSSTable (disk e) (sstName (nextSSTableSeq e)) (MemEntries (memt e))
      in setDisk d (e\<lparr>nextSSTableSeq := nextSSTableSeq e + 1, sstables := s # sstables e, memt := NewMemtable\<rparr>))"

definition maybeFlush :: "engine \<Rightarrow> ioerr option \<times> engine" where
  "maybeFlush e =
     (if MemSize (memt e) < memtableSizeLimit e then (None, e)
      else let e' = flushTable e
           in case WalReset (disk e') walPath of
                Inl err \<Rightarrow> (Some err, e')
              | Inr d \<Rightarrow> (None, setDisk d e'))"

definition memWrite :: "engine \<Rightarrow> bytes \<Rightarrow> bytes \<Rightarrow> bool \<Rightarrow> engine" where
  "memWrite e key val tombstone =
     (let (m, cs) = MemPut (memt e) key val tombstone (coins e) in e\<lparr>memt := m, coins := cs\<rparr>)"

definition EngPut :: "engine \<Rightarrow> bytes \<Rightarrow> bytes \<Rightarrow> ioerr option \<times> engine" where
  "EngPut e key val =
     (case WalAppend (disk e) walPath key val False of
        Inl err \<Rightarrow> (Some err, e)
      | Inr d \<Rightarrow> maybeFlush (memWrite (setDisk d e) key val False))"

definition EngDelete :: "engine \<Rightarrow> bytes \<Rightarrow> ioerr option \<times> engine" where
  "EngDelete e key =
     (case WalAppend (disk e) walPath key [] True of
        Inl err \<Rightarrow> (Some err, e)
      | Inr d \<Rightarrow> maybeFlush (memWrite (setDisk d e) key [] True))"

fun EngWriteBatch :: "engine \<Rightarrow> writeOp list \<Rightarrow> ioerr option \<times> engine" where
  "EngWriteBatch e [] = (None, e)"
| "EngWriteBatch e (op # ops) =
     (case (if wtombstone op then EngDelete e (wkey op) else EngPut e (wkey op) (wvalue op)) of
        (Some err, e') \<Rightarrow> (Some err, e')
      | (None, e') \<Rightarrow> EngWriteBatch e' ops)"

section \<open>Reading\<close>

definition liveValue :: "(bytes \<times> bool) \<Rightarrow> bytes option" where
  "liveValue vt = (if snd vt then None else Some (fst vt))"

fun getTables :: "dir \<Rightarrow> ssTable list \<Rightarrow> bytes \<Rightarrow> ioerr + bytes option" where
  "getTables d [] key = Inr None"
| "getTables d (s # ss) key =
     (case SSTGet d s key of
        Inl e \<Rightarrow> Inl e
      | Inr (Some vt) \<Rightarrow> Inr (liveValue vt)
      | Inr None \<Rightarrow> getTables d ss key)"

definition EngGet :: "engine \<Rightarrow> bytes \<Rightarrow> ioerr + bytes option" where
  "EngGet e key =
     (case MemGet (memt e) key of
        Some vt \<Rightarrow> Inr (liveValue vt)
      | None \<Rightarrow> getTables (disk e) (sstables e) key)"

text \<open>The Go map \<open>latest\<close> of \<open>Scan\<close> and \<open>mergeSSTables\<close>, filled from the oldest table on. Its
  iteration order is not used: both callers sort by key.\<close>

type_synonym latest = "(bytes \<times> memtableEntry) list"

definition setLatest :: "latest \<Rightarrow> memtableEntry list \<Rightarrow> latest" where
  "setLatest l es = foldl (\<lambda>l e. AList.update (ekey e) e l) l es"

fun collect :: "dir \<Rightarrow> ssTable list \<Rightarrow> latest \<Rightarrow> ioerr + latest" where
  "collect d [] l = Inr l"
| "collect d (s # ss) l =
     (case SSTEntries d s of Inl e \<Rightarrow> Inl e | Inr es \<Rightarrow> collect d ss (setLatest l es))"

definition EngScan :: "engine \<Rightarrow> bytes \<Rightarrow> ioerr + kv list" where
  "EngScan e pre =
     (case collect (disk e) (rev (sstables e)) [] of
        Inl err \<Rightarrow> Inl err
      | Inr l \<Rightarrow>
          let latest = setLatest l (MemEntries (memt e));
              result = map (\<lambda>(k, x). (ekey x, evalue x))
                         (filter (\<lambda>(k, x). \<not> etombstone x \<and> HasPrefix k pre) latest)
          in Inr (sort_key fst result))"

section \<open>Compaction\<close>

definition mergeSSTables :: "dir \<Rightarrow> ssTable list \<Rightarrow> ioerr + memtableEntry list" where
  "mergeSSTables d ss =
     (case collect d (rev ss) [] of
        Inl e \<Rightarrow> Inl e
      | Inr latest \<Rightarrow> Inr (map snd (filter (\<lambda>(k, x). \<not> etombstone x) latest)))"

fun removeAll :: "engine \<Rightarrow> string list \<Rightarrow> ioerr option \<times> engine" where
  "removeAll e [] = (None, e)"
| "removeAll e (p # ps) =
     (case RemoveFile (disk e) p of Inl err \<Rightarrow> (Some err, e) | Inr d \<Rightarrow> removeAll (setDisk d e) ps)"

text \<open>\<open>Compact\<close> up to the removal of the old tables, and the whole of it.\<close>

definition compactWrite :: "engine \<Rightarrow> memtableEntry list \<Rightarrow> engine" where
  "compactWrite e merged =
     (let (s, d) = WriteSSTable (disk e) (sstName (nextSSTableSeq e)) merged
      in setDisk d (e\<lparr>nextSSTableSeq := nextSSTableSeq e + 1, sstables := [s]\<rparr>))"

definition Compact :: "engine \<Rightarrow> ioerr option \<times> engine" where
  "Compact e =
     (if length (sstables e) < 2 then (None, e)
      else case mergeSSTables (disk e) (sstables e) of
             Inl err \<Rightarrow> (Some err, e)
           | Inr merged \<Rightarrow> removeAll (compactWrite e merged) (map spath (sstables e)))"

section \<open>Abstraction and invariant\<close>

definition entriesOf :: "dir \<Rightarrow> ssTable \<Rightarrow> memtableEntry list" where
  "entriesOf d s = (case SSTEntries d s of Inl _ \<Rightarrow> [] | Inr es \<Rightarrow> es)"

text \<open>The layers of an engine, newest first, the map they make, and its live part.\<close>

definition layers :: "engine \<Rightarrow> memtableEntry list list" where
  "layers e = MemEntries (memt e) # map (entriesOf (disk e)) (sstables e)"

fun layered :: "memtableEntry list list \<Rightarrow> bytes \<Rightarrow> (bytes \<times> bool) option" where
  "layered [] = Map.empty"
| "layered (es # ls) = layered ls ++ entryMap es"

definition live :: "(bytes \<Rightarrow> (bytes \<times> bool) option) \<Rightarrow> bytes \<Rightarrow> bytes option" where
  "live m k = Option.bind (m k) liveValue"

definition absMap :: "engine \<Rightarrow> bytes \<Rightarrow> bytes option" where
  "absMap e = live (layered (layers e))"

definition logMap :: "logrec list \<Rightarrow> bytes \<Rightarrow> (bytes \<times> bool) option" where
  "logMap rs = foldLog (\<lambda>m k v t. m(k \<mapsto> (v, t))) Map.empty rs"

definition logOk :: "logrec \<Rightarrow> bool" where
  "logOk r = (case r of (k, v, t) \<Rightarrow> kvFits k v \<and> (t \<longrightarrow> v = []))"

definition tablesOk :: "dir \<Rightarrow> ssTable list \<Rightarrow> bool" where
  "tablesOk d ss \<longleftrightarrow> list_all (\<lambda>s. table d s (entriesOf d s)) ss"

text \<open>The tables' files: their numbers descend from the newest on, the next number is free, and no
  other file has a table's name.\<close>

definition namesOk :: "dir \<Rightarrow> string list \<Rightarrow> int \<Rightarrow> bool" where
  "namesOk d paths next \<longleftrightarrow>
     (\<exists>seqs. paths = map sstName seqs \<and> sorted_wrt (>) seqs
        \<and> (\<forall>s \<in> set seqs. 0 \<le> s \<and> s < next)
        \<and> (\<forall>n \<in> fst ` set d. HasPrefix n ''sstable-'' \<longrightarrow> n \<in> set paths))"

definition walOk :: "dir \<Rightarrow> memtable \<Rightarrow> bool" where
  "walOk d m \<longleftrightarrow>
     (\<exists>rs. ReadFile d walPath = Inr (walBytes rs) \<and> list_all logOk rs \<and> logMap rs = entryMap (MemEntries m))"

definition engInv :: "engine \<Rightarrow> bool" where
  "engInv e \<longleftrightarrow> memInv (memt e) \<and> list_all entryOk (MemEntries (memt e))
     \<and> tablesOk (disk e) (sstables e) \<and> walOk (disk e) (memt e)
     \<and> distinct (map fst (disk e)) \<and> 0 \<le> nextSSTableSeq e
     \<and> namesOk (disk e) (map spath (sstables e)) (nextSSTableSeq e)"

text \<open>No number has been skipped, which is so until the first compaction.\<close>

definition contiguous :: "engine \<Rightarrow> bool" where
  "contiguous e \<longleftrightarrow> nextSSTableSeq e = int (length (sstables e))"

section \<open>File names\<close>

lemma sstName_inj [simp]: "sstName a = sstName b \<longleftrightarrow> a = b"
  by (simp add: sstName_def Itoa_inj)

lemma sstName_wal [simp]: "sstName a \<noteq> walPath" "walPath \<noteq> sstName a"
  by (simp_all add: sstName_def walPath_def)

lemma walPath_prefix [simp]: "\<not> HasPrefix walPath ''sstable-''"
  by (simp add: walPath_def HasPrefix_def)

lemma sstName_prefix [simp]: "HasPrefix (sstName a) ''sstable-''"
  unfolding sstName_def by (rule HasPrefix_append)

lemma sstSeq_sstName:
  assumes "0 \<le> a" and "a < 2 ^ 63"
  shows "sstSeq (sstName a) = Some a"
proof -
  have "HasSuffix (sstName a) ''.db''" by (simp add: sstName_def HasSuffix_def suffix_def)
  moreover have "TrimPrefix (sstName a) ''sstable-'' = Itoa a @ ''.db''" unfolding sstName_def by (rule TrimPrefix_append)
  ultimately show ?thesis using assms by (simp add: sstSeq_def)
qed

section \<open>Reading\<close>

lemma layered_append: "layered (ks @ ls) = layered ls ++ layered ks"
  by (induction ks) (auto simp: map_add_assoc)

lemma live_simps [simp]:
  "live m k = None \<longleftrightarrow> (\<forall>v. m k \<noteq> Some (v, False))" "live Map.empty = Map.empty"
  "live (m(k \<mapsto> (v, t))) = (live m)(k := if t then None else Some v)"
proof -
  show "live m k = None \<longleftrightarrow> (\<forall>v. m k \<noteq> Some (v, False))"
    by (cases "m k") (auto simp: live_def liveValue_def)
qed (auto simp: live_def liveValue_def fun_eq_iff)

lemma live_add: "live (a ++ m) k = (case m k of None \<Rightarrow> live a k | Some vt \<Rightarrow> liveValue vt)"
  by (cases "m k") (simp_all add: live_def map_add_def)

lemma getTables_layered:
  "tablesOk d ss \<Longrightarrow> getTables d ss key = Inr (live (layered (map (entriesOf d) ss)) key)"
  by (induction ss)
    (auto simp: tablesOk_def live_def table_get map_add_def split: option.split)

lemma EngGet_layers:
  assumes "memInv (memt e)" and "tablesOk (disk e) (sstables e)"
  shows "EngGet e key = Inr (absMap e key)"
proof -
  have "MemGet (memt e) key = entryMap (MemEntries (memt e)) key"
    using assms by (simp add: memInv_def MemGet_entryMap)
  then show ?thesis
    using assms getTables_layered [of "disk e" "sstables e" key]
    by (auto simp: EngGet_def absMap_def layers_def live_def map_add_def split: option.split)
qed

lemma EngGet_abs: "engInv e \<Longrightarrow> EngGet e key = Inr (absMap e key)"
  by (simp add: engInv_def EngGet_layers)

text \<open>\<open>latest\<close> as a map: its entries are stored under their keys, each key once.\<close>

definition latestOk :: "latest \<Rightarrow> bool" where
  "latestOk l \<longleftrightarrow> distinct (map fst l) \<and> (\<forall>(k, x) \<in> set l. ekey x = k)"

definition latestMap :: "latest \<Rightarrow> bytes \<Rightarrow> (bytes \<times> bool) option" where
  "latestMap l k = map_option (\<lambda>x. (evalue x, etombstone x)) (map_of l k)"

lemma latestOk_update: "latestOk l \<Longrightarrow> latestOk (AList.update (ekey x) x l)"
proof -
  have "set (AList.update k x l) \<subseteq> insert (k, x) (set l)" for k by (induction l) auto
  then show "latestOk l \<Longrightarrow> latestOk (AList.update (ekey x) x l)"
    by (fastforce simp: latestOk_def distinct_update)
qed

lemma latestMap_update:
  "latestMap (AList.update (ekey x) x l) = (latestMap l)(ekey x \<mapsto> (evalue x, etombstone x))"
  by (simp add: latestMap_def fun_eq_iff update_conv')

lemma setLatest_ok:
  "latestOk l \<Longrightarrow> sortedEntries es \<Longrightarrow> latestOk (setLatest l es) \<and> latestMap (setLatest l es) = latestMap l ++ entryMap es"
proof (induction es arbitrary: l)
  case Nil
  then show ?case by (simp add: setLatest_def)
next
  case (Cons x es)
  have s: "sortedEntries es" "ekey x \<notin> ekey ` set es"
    using Cons.prems(2) by (auto simp: sortedEntries_def)
  have "setLatest l (x # es) = setLatest (AList.update (ekey x) x l) es" by (simp add: setLatest_def)
  moreover note Cons.IH [OF latestOk_update [OF Cons.prems(1)] s(1)]
  moreover have "(latestMap l)(ekey x \<mapsto> (evalue x, etombstone x)) ++ entryMap es = latestMap l ++ entryMap (x # es)"
    using s(2) entryMap_None [of es "ekey x"] by (simp add: entryMap_Cons map_add_upd_left domIff)
  ultimately show ?case by (simp only: latestMap_update)
qed

lemma collect_layered:
  assumes "tablesOk d ss" and "latestOk l"
  shows "\<exists>l'. collect d ss l = Inr l' \<and> latestOk l'
    \<and> latestMap l' = latestMap l ++ layered (map (entriesOf d) (rev ss))"
  using assms
proof (induction ss arbitrary: l)
  case (Cons s ss)
  let ?es = "entriesOf d s"
  have s: "table d s ?es" "tablesOk d ss" using Cons.prems by (auto simp: tablesOk_def)
  then have ok: "latestOk (setLatest l ?es)" "latestMap (setLatest l ?es) = latestMap l ++ entryMap ?es"
    using setLatest_ok [OF Cons.prems(2), of ?es] by (auto simp: table_def)
  from Cons.IH [OF s(2) ok(1)] show ?case
    by (simp add: table_entries [OF s(1)] ok(2) layered_append map_add_assoc)
qed simp

lemma collect_all:
  assumes "tablesOk d ss"
  shows "\<exists>l. collect d (rev ss) [] = Inr l \<and> latestOk l \<and> latestMap l = layered (map (entriesOf d) ss)"
proof -
  have "latestMap [] = Map.empty" "latestOk []" by (simp_all add: latestMap_def fun_eq_iff latestOk_def)
  moreover have "tablesOk d (rev ss)" using assms by (simp add: tablesOk_def)
  ultimately show ?thesis using collect_layered [of d "rev ss" "[]"] by simp
qed

text \<open>What a scan returns: the bindings of a map under a prefix, in ascending key order.\<close>

definition scanOf :: "(bytes \<Rightarrow> bytes option) \<Rightarrow> bytes \<Rightarrow> kv list \<Rightarrow> bool" where
  "scanOf m pre kvs \<longleftrightarrow> sorted_wrt (<) (map fst kvs)
     \<and> (\<forall>k v. (k, v) \<in> set kvs \<longleftrightarrow> m k = Some v \<and> HasPrefix k pre)"

lemma latestOk_live:
  assumes "latestOk l"
  shows "(k, x) \<in> set l \<longleftrightarrow> map_of l k = Some x" and "(k, x) \<in> set l \<Longrightarrow> ekey x = k"
  using assms by (auto simp: latestOk_def)

lemma live_latestMap: "live (latestMap l) k = Some v \<longleftrightarrow> (\<exists>x. map_of l k = Some x \<and> \<not> etombstone x \<and> evalue x = v)"
  by (cases "map_of l k") (auto simp: live_def latestMap_def liveValue_def)

lemma latestOk_filter:
  assumes "latestOk l"
  shows "map (ekey \<circ> snd) (filter P l) = map fst (filter P l)" and "distinct (map fst (filter P l))"
  using assms by (auto simp: latestOk_def distinct_map_filter)

lemma EngScan_abs:
  assumes i: "engInv e"
  shows "\<exists>kvs. EngScan e pre = Inr kvs \<and> scanOf (absMap e) pre kvs"
proof -
  obtain l where l: "collect (disk e) (rev (sstables e)) [] = Inr l" "latestOk l"
    "latestMap l = layered (map (entriesOf (disk e)) (sstables e))"
    using collect_all [of "disk e" "sstables e"] i by (auto simp: engInv_def)
  define m where "m = setLatest l (MemEntries (memt e))"
  have m: "latestOk m" "live (latestMap m) = absMap e"
    using setLatest_ok [OF l(2), of "MemEntries (memt e)"] i l(3)
    by (auto simp: m_def engInv_def memInv_sorted absMap_def layers_def)
  define r where "r = map (\<lambda>(k, x). (ekey x, evalue x))
    (filter (\<lambda>(k, x). \<not> etombstone x \<and> HasPrefix k pre) m)"
  have "map fst r = map (ekey \<circ> snd) (filter (\<lambda>(k, x). \<not> etombstone x \<and> HasPrefix k pre) m)"
    unfolding r_def by (auto simp: comp_def)
  then have "distinct (map fst r)" using latestOk_filter [OF m(1)] by simp
  then have "sorted_wrt (<) (map fst (sort_key fst r))"
    by (simp add: strict_sorted_iff distinct_map)
  moreover have "(k, v) \<in> set r \<longleftrightarrow> absMap e k = Some v \<and> HasPrefix k pre" for k v
  proof -
    have "absMap e k = Some v \<longleftrightarrow> (\<exists>x. (k, x) \<in> set m \<and> \<not> etombstone x \<and> evalue x = v)"
      unfolding m(2) [symmetric] live_latestMap latestOk_live(1) [OF m(1)] ..
    then show ?thesis unfolding r_def using latestOk_live(2) [OF m(1)] by fastforce
  qed
  ultimately have "scanOf (absMap e) pre (sort_key fst r)" by (simp add: scanOf_def)
  then show ?thesis using l(1) by (simp add: EngScan_def m_def [symmetric] r_def [symmetric] Let_def)
qed

section \<open>Writing\<close>

lemma tables_agree:
  assumes "\<forall>s \<in> set ss. ReadFile d' (spath s) = ReadFile d (spath s)"
  shows "tablesOk d' ss \<longleftrightarrow> tablesOk d ss" and "layered (map (entriesOf d') ss) = layered (map (entriesOf d) ss)"
proof -
  have e: "entriesOf d' s = entriesOf d s" if "s \<in> set ss" for s
    using assms that by (simp add: entriesOf_def SSTEntries_def)
  then show "layered (map (entriesOf d') ss) = layered (map (entriesOf d) ss)" by (simp cong: map_cong)
  show "tablesOk d' ss \<longleftrightarrow> tablesOk d ss"
    using assms e by (auto simp: tablesOk_def list_all_iff table_def)
qed

lemma namesOk_wal:
  "namesOk d paths next \<Longrightarrow> fst ` set d' = insert walPath (fst ` set d) \<Longrightarrow> namesOk d' paths next"
  unfolding namesOk_def by auto

lemma namesOk_not_wal: "namesOk d (map spath ss) next \<Longrightarrow> s \<in> set ss \<Longrightarrow> spath s \<noteq> walPath"
  unfolding namesOk_def by (metis (no_types, lifting) imageE image_eqI list.set_map sstName_wal(1))

lemma putEntry_ok: "list_all entryOk es \<Longrightarrow> entryOk x \<Longrightarrow> list_all entryOk (putEntry x es)"
  by (auto simp: putEntry_def list_all_iff)

lemma logMap_snoc: "logMap (rs @ [(k, v, t)]) = (logMap rs)(k \<mapsto> (v, t))"
  by (simp add: logMap_def)

text \<open>A write that is in the log and in the memtable.\<close>

lemma logged_write:
  assumes i: "engInv e" and ok: "logOk (k, v, t)"
  obtains d where "WalAppend (disk e) walPath k v t = Inr d"
    and "engInv (memWrite (setDisk d e) k v t)"
    and "layered (layers (memWrite (setDisk d e) k v t)) = (layered (layers e))(k \<mapsto> (v, t))"
    and "sstables (memWrite (setDisk d e) k v t) = sstables e"
    and "nextSSTableSeq (memWrite (setDisk d e) k v t) = nextSSTableSeq e"
proof -
  obtain rs where rs: "ReadFile (disk e) walPath = Inr (walBytes rs)" "list_all logOk rs"
    "logMap rs = entryMap (MemEntries (memt e))" using i by (auto simp: engInv_def walOk_def)
  let ?d = "WriteFile (disk e) walPath (walBytes (rs @ [(k, v, t)]))"
  obtain m cs where m: "MemPut (memt e) k v t (coins e) = (m, cs)" by fastforce
  let ?e = "memWrite (setDisk ?d e) k v t"
  have e: "?e = (setDisk ?d e)\<lparr>memt := m, coins := cs\<rparr>" by (simp add: memWrite_def m)
  have inv: "memInv (memt e)" "list_all entryOk (MemEntries (memt e))" "tablesOk (disk e) (sstables e)"
    "distinct (map fst (disk e))" "0 \<le> nextSSTableSeq e"
    "namesOk (disk e) (map spath (sstables e)) (nextSSTableSeq e)" using i by (auto simp: engInv_def)
  note put = MemPut_correct [OF inv(1) m] and map = MemPut_entryMap [OF inv(1) m]
  have entry: "entryOk \<lparr>ekey = k, evalue = v, etombstone = t\<rparr>" using ok by (simp add: entryOk_def logOk_def)
  have agree: "\<forall>s \<in> set (sstables e). ReadFile ?d (spath s) = ReadFile (disk e) (spath s)"
    using namesOk_not_wal [OF inv(6)] by simp
  have "walOk ?d m"
    unfolding walOk_def using rs ok map by (intro exI [of _ "rs @ [(k, v, t)]"]) (simp add: logMap_snoc)
  then have "engInv ?e"
    unfolding e using inv put putEntry_ok [OF inv(2) entry] tables_agree(1) [OF agree] namesOk_wal [OF inv(6), of ?d]
    by (simp add: engInv_def)
  moreover have "layered (layers ?e) = (layered (layers e))(k \<mapsto> (v, t))"
    unfolding e using tables_agree(2) [OF agree] by (simp add: layers_def map)
  moreover have "WalAppend (disk e) walPath k v t = Inr ?d" using rs(1) by (simp add: WalAppend_def)
  moreover have "sstables ?e = sstables e" "nextSSTableSeq ?e = nextSSTableSeq e" unfolding e by simp_all
  ultimately show ?thesis by (intro that [of ?d])
qed

text \<open>Flushing moves the memtable into a new table, put in front of the others, whose name must be free.\<close>

lemma flushTable_core:
  assumes inv: "memInv (memt e)" "list_all entryOk (MemEntries (memt e))" "tablesOk (disk e) (sstables e)"
    "distinct (map fst (disk e))" and new: "sstName (nextSSTableSeq e) \<notin> set (map spath (sstables e))"
  obtains s d where "flushTable e = setDisk d (e\<lparr>nextSSTableSeq := nextSSTableSeq e + 1, sstables := s # sstables e,
      memt := NewMemtable\<rparr>)"
    and "spath s = sstName (nextSSTableSeq e)" and "entriesOf d s = MemEntries (memt e)" and "tablesOk d (s # sstables e)"
    and "layered (map (entriesOf d) (sstables e)) = layered (map (entriesOf (disk e)) (sstables e))"
    and "fst ` set d = insert (sstName (nextSSTableSeq e)) (fst ` set (disk e))" and "distinct (map fst d)"
    and "ReadFile d walPath = ReadFile (disk e) walPath"
proof -
  let ?es = "MemEntries (memt e)" and ?p = "sstName (nextSSTableSeq e)"
  obtain s d where w: "WriteSSTable (disk e) ?p ?es = (s, d)" by fastforce
  note t = table_written [OF inv(2) memInv_sorted [OF inv(1)] w]
  have agree: "\<forall>q \<in> set (sstables e). ReadFile d (spath q) = ReadFile (disk e) (spath q)"
    using new by (metis ReadFile_WriteFile image_eqI list.set_map t(3))
  have s: "entriesOf d s = ?es" using table_entries [OF t(1)] by (simp add: entriesOf_def)
  show ?thesis
    by (rule that [of d s])
      (use inv t s tables_agree [OF agree] in \<open>simp_all add: flushTable_def w tablesOk_def\<close>)
qed

lemma flushTable_layers:
  assumes i: "engInv e"
  shows "memInv (memt (flushTable e))" and "MemEntries (memt (flushTable e)) = []"
    and "tablesOk (disk (flushTable e)) (sstables (flushTable e))"
    and "layered (layers (flushTable e)) = layered (layers e)"
    and "namesOk (disk (flushTable e)) (map spath (sstables (flushTable e))) (nextSSTableSeq (flushTable e))"
    and "distinct (map fst (disk (flushTable e)))"
    and "ReadFile (disk (flushTable e)) walPath = ReadFile (disk e) walPath"
    and "nextSSTableSeq (flushTable e) = nextSSTableSeq e + 1"
    and "length (sstables (flushTable e)) = length (sstables e) + 1"
proof -
  have inv: "memInv (memt e)" "list_all entryOk (MemEntries (memt e))" "tablesOk (disk e) (sstables e)"
    "distinct (map fst (disk e))" "0 \<le> nextSSTableSeq e"
    "namesOk (disk e) (map spath (sstables e)) (nextSSTableSeq e)" using i by (auto simp: engInv_def)
  obtain seqs where seqs: "map spath (sstables e) = map sstName seqs" "sorted_wrt (>) seqs"
    "\<forall>q \<in> set seqs. 0 \<le> q \<and> q < nextSSTableSeq e"
    "\<forall>n \<in> fst ` set (disk e). HasPrefix n ''sstable-'' \<longrightarrow> n \<in> set (map spath (sstables e))"
    using inv(6) unfolding namesOk_def by blast
  have new: "sstName (nextSSTableSeq e) \<notin> set (map spath (sstables e))" unfolding seqs(1) using seqs(3) by auto
  obtain s d where f: "flushTable e = setDisk d (e\<lparr>nextSSTableSeq := nextSSTableSeq e + 1, sstables := s # sstables e,
      memt := NewMemtable\<rparr>)" "spath s = sstName (nextSSTableSeq e)" "entriesOf d s = MemEntries (memt e)"
    "tablesOk d (s # sstables e)" "layered (map (entriesOf d) (sstables e)) = layered (map (entriesOf (disk e)) (sstables e))"
    "fst ` set d = insert (sstName (nextSSTableSeq e)) (fst ` set (disk e))" "distinct (map fst d)"
    "ReadFile d walPath = ReadFile (disk e) walPath"
    by (rule flushTable_core [OF inv(1-4) new])
  show "namesOk (disk (flushTable e)) (map spath (sstables (flushTable e))) (nextSSTableSeq (flushTable e))"
    unfolding namesOk_def f(1) using seqs f(2,6) inv(5)
    by (intro exI [of _ "nextSSTableSeq e # seqs"]) auto
  show "layered (layers (flushTable e)) = layered (layers e)" using f by (simp add: layers_def)
  show "memInv (memt (flushTable e))" "MemEntries (memt (flushTable e)) = []"
    "tablesOk (disk (flushTable e)) (sstables (flushTable e))" "distinct (map fst (disk (flushTable e)))"
    "ReadFile (disk (flushTable e)) walPath = ReadFile (disk e) walPath"
    "nextSSTableSeq (flushTable e) = nextSSTableSeq e + 1" "length (sstables (flushTable e)) = length (sstables e) + 1"
    using f by simp_all
qed

lemma maybeFlush_ok:
  assumes i: "engInv e"
  obtains e' where "maybeFlush e = (None, e')" and "engInv e'" and "layered (layers e') = layered (layers e)"
    and "contiguous e \<longrightarrow> contiguous e'" and "nextSSTableSeq e' \<le> nextSSTableSeq e + 1"
proof (cases "MemSize (memt e) < memtableSizeLimit e")
  case True
  then show ?thesis using i that [of e] by (simp add: maybeFlush_def)
next
  case False
  let ?f = "flushTable e" and ?d = "WriteFile (disk (flushTable e)) walPath []"
  note f = flushTable_layers [OF i]
  obtain b where b: "ReadFile (disk e) walPath = Inr b" using i by (auto simp: engInv_def walOk_def)
  then have eq: "maybeFlush e = (None, setDisk ?d ?f)"
    using False f(7) by (simp add: maybeFlush_def Let_def WalReset_def)
  have agree: "\<forall>s \<in> set (sstables ?f). ReadFile ?d (spath s) = ReadFile (disk ?f) (spath s)"
    using namesOk_not_wal [OF f(5)] by simp
  have "walOk ?d (memt ?f)" unfolding walOk_def by (intro exI [of _ "[]"]) (simp add: f(2) logMap_def)
  then have "engInv (setDisk ?d ?f)"
    using f i tables_agree(1) [OF agree] namesOk_wal [OF f(5), of ?d] by (simp add: engInv_def)
  moreover have "layered (layers (setDisk ?d ?f)) = layered (layers e)"
    using tables_agree(2) [OF agree] f(4) by (simp add: layers_def)
  moreover have "contiguous e \<longrightarrow> contiguous (setDisk ?d ?f)"
    using f(8,9) by (simp add: contiguous_def)
  moreover have "nextSSTableSeq (setDisk ?d ?f) \<le> nextSSTableSeq e + 1" using f(8) by simp
  ultimately show ?thesis using that [OF eq] by blast
qed

lemma absMap_update:
  "layered (layers e') = (layered (layers e))(k \<mapsto> (v, t)) \<Longrightarrow>
    absMap e' = (absMap e)(k := if t then None else Some v)"
  by (simp add: absMap_def)

lemma EngPut_abs:
  assumes "engInv e" and "kvFits k v"
  obtains e' where "EngPut e k v = (None, e')" and "engInv e'" and "absMap e' = (absMap e)(k \<mapsto> v)"
    and "contiguous e \<longrightarrow> contiguous e'" and "nextSSTableSeq e' \<le> nextSSTableSeq e + 1"
proof -
  have ok: "logOk (k, v, False)" using assms(2) by (simp add: logOk_def)
  obtain d where d: "WalAppend (disk e) walPath k v False = Inr d"
    "engInv (memWrite (setDisk d e) k v False)"
    "layered (layers (memWrite (setDisk d e) k v False)) = (layered (layers e))(k \<mapsto> (v, False))"
    "sstables (memWrite (setDisk d e) k v False) = sstables e"
    "nextSSTableSeq (memWrite (setDisk d e) k v False) = nextSSTableSeq e"
    by (rule logged_write [OF assms(1) ok])
  obtain e' where e': "maybeFlush (memWrite (setDisk d e) k v False) = (None, e')" "engInv e'"
    "layered (layers e') = layered (layers (memWrite (setDisk d e) k v False))"
    "contiguous (memWrite (setDisk d e) k v False) \<longrightarrow> contiguous e'"
    "nextSSTableSeq e' \<le> nextSSTableSeq (memWrite (setDisk d e) k v False) + 1"
    by (rule maybeFlush_ok [OF d(2)])
  show ?thesis
    using that [of e'] e' d absMap_update [of e' e k v False] by (simp add: EngPut_def contiguous_def)
qed

lemma EngDelete_abs:
  assumes "engInv e" and "kvFits k []"
  obtains e' where "EngDelete e k = (None, e')" and "engInv e'" and "absMap e' = (absMap e)(k := None)"
    and "contiguous e \<longrightarrow> contiguous e'" and "nextSSTableSeq e' \<le> nextSSTableSeq e + 1"
proof -
  have ok: "logOk (k, [], True)" using assms(2) by (simp add: logOk_def)
  obtain d where d: "WalAppend (disk e) walPath k [] True = Inr d"
    "engInv (memWrite (setDisk d e) k [] True)"
    "layered (layers (memWrite (setDisk d e) k [] True)) = (layered (layers e))(k \<mapsto> ([], True))"
    "sstables (memWrite (setDisk d e) k [] True) = sstables e"
    "nextSSTableSeq (memWrite (setDisk d e) k [] True) = nextSSTableSeq e"
    by (rule logged_write [OF assms(1) ok])
  obtain e' where e': "maybeFlush (memWrite (setDisk d e) k [] True) = (None, e')" "engInv e'"
    "layered (layers e') = layered (layers (memWrite (setDisk d e) k [] True))"
    "contiguous (memWrite (setDisk d e) k [] True) \<longrightarrow> contiguous e'"
    "nextSSTableSeq e' \<le> nextSSTableSeq (memWrite (setDisk d e) k [] True) + 1"
    by (rule maybeFlush_ok [OF d(2)])
  show ?thesis
    using that [of e'] e' d absMap_update [of e' e k "[]" True] by (simp add: EngDelete_def contiguous_def)
qed

text \<open>The effect of a write, and of a batch of writes, on the abstract map.\<close>

definition applyOp :: "(bytes \<Rightarrow> bytes option) \<Rightarrow> writeOp \<Rightarrow> bytes \<Rightarrow> bytes option" where
  "applyOp m op = m(wkey op := if wtombstone op then None else Some (wvalue op))"

definition opFits :: "writeOp \<Rightarrow> bool" where
  "opFits op \<longleftrightarrow> kvFits (wkey op) (if wtombstone op then [] else wvalue op)"

lemma EngWriteBatch_abs:
  assumes "engInv e" and "list_all opFits ops"
  obtains e' where "EngWriteBatch e ops = (None, e')" and "engInv e'"
    and "absMap e' = foldl applyOp (absMap e) ops" and "contiguous e \<longrightarrow> contiguous e'"
proof -
  have "\<exists>e'. EngWriteBatch e ops = (None, e') \<and> engInv e' \<and> absMap e' = foldl applyOp (absMap e) ops
      \<and> (contiguous e \<longrightarrow> contiguous e')"
    using assms
  proof (induction ops arbitrary: e)
    case (Cons op ops)
    obtain e1 where e1: "(if wtombstone op then EngDelete e (wkey op) else EngPut e (wkey op) (wvalue op)) = (None, e1)"
      "engInv e1" "absMap e1 = applyOp (absMap e) op" "contiguous e \<longrightarrow> contiguous e1"
    proof (cases "wtombstone op")
      case True
      then have "kvFits (wkey op) []" using Cons.prems by (simp add: opFits_def)
      from EngDelete_abs [OF Cons.prems(1) this] show ?thesis using True that by (metis applyOp_def)
    next
      case False
      then have "kvFits (wkey op) (wvalue op)" using Cons.prems by (simp add: opFits_def)
      from EngPut_abs [OF Cons.prems(1) this] show ?thesis using False that by (metis applyOp_def)
    qed
    show ?case using Cons.IH [OF e1(2)] Cons.prems(2) e1 by auto
  qed auto
  then show ?thesis using that by blast
qed

section \<open>Compaction\<close>

lemma removeAll_append:
  "removeAll e (ps @ qs) = (case removeAll e ps of (Some err, e') \<Rightarrow> (Some err, e') | (None, e') \<Rightarrow> removeAll e' qs)"
  by (induction ps arbitrary: e) (auto split: sum.split)

lemma removeAll_stops: "removeAll e ps = (r, e') \<Longrightarrow> \<exists>ds. stops e' = ds @ stops e \<and> disk e' \<in> insert (disk e) (set ds)"
proof (induction ps arbitrary: e)
  case (Cons p ps)
  show ?case
  proof (cases "RemoveFile (disk e) p")
    case (Inr d)
    then have "removeAll (setDisk d e) ps = (r, e')" using Cons.prems by simp
    from Cons.IH [OF this] obtain ds where "stops e' = ds @ d # stops e" "disk e' \<in> insert d (set ds)" by auto
    then show ?thesis by (intro exI [of _ "ds @ [d]"]) auto
  qed (use Cons.prems in auto)
qed simp

lemma removeAll_ok:
  assumes "distinct ps" and "set ps \<subseteq> fst ` set (disk e)"
  shows "\<exists>d ss. removeAll e ps = (None, e\<lparr>disk := d, stops := ss\<rparr>) \<and> fst ` set d = fst ` set (disk e) - set ps
    \<and> (distinct (map fst (disk e)) \<longrightarrow> distinct (map fst d))
    \<and> (\<forall>q. q \<notin> set ps \<longrightarrow> ReadFile d q = ReadFile (disk e) q)"
  using assms
proof (induction ps arbitrary: e)
  case Nil
  then show ?case by (intro exI [of _ "disk e"] exI [of _ "stops e"]) simp
next
  case (Cons p ps)
  let ?d = "AList.delete p (disk e)" and ?e = "setDisk (AList.delete p (disk e)) e"
  have dom: "fst ` set ?d = fst ` set (disk e) - {p}" by (force simp: AList.delete_eq)
  have "distinct ps" "set ps \<subseteq> fst ` set (disk ?e)" using Cons.prems unfolding setDisk_simps dom by auto
  from Cons.IH [OF this] obtain d ss where d: "removeAll ?e ps = (None, ?e\<lparr>disk := d, stops := ss\<rparr>)"
    "fst ` set d = fst ` set ?d - set ps" "distinct (map fst ?d) \<longrightarrow> distinct (map fst d)"
    "\<forall>q. q \<notin> set ps \<longrightarrow> ReadFile d q = ReadFile ?d q" unfolding setDisk_simps by blast
  have "RemoveFile (disk e) p = Inr ?d" using Cons.prems(2) by (simp add: RemoveFile_def)
  then have "removeAll e (p # ps) = (None, e\<lparr>disk := d, stops := ss\<rparr>)" using d(1) by (simp add: setDisk_def)
  moreover have "fst ` set d = fst ` set (disk e) - set (p # ps)" unfolding d(2) dom by auto
  moreover have "distinct (map fst (disk e)) \<longrightarrow> distinct (map fst d)" using d(3) distinct_delete [of "disk e" p] by blast
  moreover have "\<forall>q. q \<notin> set (p # ps) \<longrightarrow> ReadFile d q = ReadFile (disk e) q" using d(4) by simp
  ultimately show ?case by blast
qed

lemma merge_ok:
  assumes t: "tablesOk d ss"
  shows "\<exists>es. mergeSSTables d ss = Inr es \<and> list_all entryOk es \<and> distinct (map ekey es)
    \<and> live (entryMap es) = live (layered (map (entriesOf d) ss))
    \<and> (\<forall>k. live (layered (map (entriesOf d) ss)) k = None \<longrightarrow> entryMap es k = None)"
proof -
  obtain l where l: "collect d (rev ss) [] = Inr l" "latestOk l" "latestMap l = layered (map (entriesOf d) ss)"
    using collect_all [OF t] by blast
  define es where "es = map snd (filter (\<lambda>(k, x). \<not> etombstone x) l)"
  have keys: "map ekey es = map fst (filter (\<lambda>(k, x). \<not> etombstone x) l)" "distinct (map ekey es)"
    using latestOk_filter [OF l(2), of "\<lambda>(k, x). \<not> etombstone x"] unfolding es_def map_map by metis+
  have kv: "map (\<lambda>x. (ekey x, (evalue x, etombstone x))) es
      = map (\<lambda>(k, x). (k, (evalue x, etombstone x))) (filter (\<lambda>(k, x). \<not> etombstone x) l)"
    using l(2) by (auto simp: es_def latestOk_def)
  have "entryMap es k = (if live (latestMap l) k = None then None else latestMap l k)" for k
  proof -
    have "distinct (map fst l)" using l(2) by (simp add: latestOk_def)
    then show ?thesis
      unfolding entryMap_def kv latestMap_def live_def
      by (induction l) (auto simp: liveValue_def map_of_eq_None_iff image_iff)
  qed
  then have es': "live (latestMap l) k = None \<longrightarrow> entryMap es k = None" "live (entryMap es) k = live (latestMap l) k" for k
    unfolding live_def by (simp_all add: live_def split: if_splits)
  then have "live (entryMap es) = live (latestMap l)" by (intro ext)
  moreover have "list_all entryOk es"
  proof -
    have "entryOk x" if "(k, x) \<in> set l" for k x
    proof -
      have "ekey x = k" "latestMap l k = Some (evalue x, etombstone x)"
        using that latestOk_live [OF l(2)] by (auto simp: latestMap_def)
      then have "layered (map (entriesOf d) ss) k = Some (evalue x, etombstone x)" "ekey x = k" using l(3) by auto
      then show "entryOk x" using t
      proof (induction ss)
        case (Cons s ss)
        then show ?case
        proof (cases "entryMap (entriesOf d s) k")
          case (Some vt)
          then have "entryMap (entriesOf d s) k = Some (evalue x, etombstone x)" using Cons.prems by simp
          then have "(k, (evalue x, etombstone x)) \<in> set (map (\<lambda>e. (ekey e, (evalue e, etombstone e))) (entriesOf d s))"
            unfolding entryMap_def by (rule map_of_SomeD)
          then obtain y where "y \<in> set (entriesOf d s)" "ekey y = k" "evalue y = evalue x" "etombstone y = etombstone x"
            by auto
          moreover have "list_all entryOk (entriesOf d s)" using Cons.prems by (simp add: tablesOk_def table_def)
          ultimately show ?thesis using Cons.prems(2) by (auto simp: list_all_iff entryOk_def)
        qed (use Cons in \<open>auto simp: tablesOk_def map_add_def\<close>)
      qed simp
    qed
    then show ?thesis by (auto simp: es_def list_all_iff)
  qed
  moreover have "mergeSSTables d ss = Inr es" using l(1) by (simp add: mergeSSTables_def es_def)
  ultimately show ?thesis using keys(2) es'(1) unfolding l(3) by blast
qed

text \<open>The engine in the middle of a compaction: the merged table \<open>s\<close> is there, of the old ones those
  that are not yet removed.\<close>

lemma compact_midway:
  assumes i: "engInv e" and split: "sstables e = newer @ older"
  obtains es d ss s where "mergeSSTables (disk e) (sstables e) = Inr es"
    and "removeAll (compactWrite e es) (map spath newer) =
      (None, e\<lparr>disk := d, stops := ss, nextSSTableSeq := nextSSTableSeq e + 1, sstables := [s]\<rparr>)"
    and "spath s = sstName (nextSSTableSeq e)"
    and "tablesOk d (s # older)" and "namesOk d (map spath (s # older)) (nextSSTableSeq e + 1)" and "distinct (map fst d)"
    and "ReadFile d walPath = ReadFile (disk e) walPath"
    and "layered (map (entriesOf d) (s # older)) = layered (map (entriesOf (disk e)) older) ++ entryMap es"
    and "live (entryMap es) = live (layered (map (entriesOf (disk e)) (sstables e)))"
    and "\<And>k. live (layered (map (entriesOf (disk e)) (sstables e))) k = None \<Longrightarrow> entryMap es k = None"
proof -
  let ?p = "sstName (nextSSTableSeq e)" and ?old = "map spath (sstables e)" and ?new = "map spath newer"
  have inv: "tablesOk (disk e) (sstables e)" "distinct (map fst (disk e))" "0 \<le> nextSSTableSeq e"
    "namesOk (disk e) ?old (nextSSTableSeq e)" using i by (auto simp: engInv_def)
  obtain es where es: "mergeSSTables (disk e) (sstables e) = Inr es" "list_all entryOk es"
    "distinct (map ekey es)" "live (entryMap es) = live (layered (map (entriesOf (disk e)) (sstables e)))"
    "\<And>k. live (layered (map (entriesOf (disk e)) (sstables e))) k = None \<Longrightarrow> entryMap es k = None"
    using merge_ok [OF inv(1)] by blast
  define fs where "fs = sort_key ekey es"
  have fs: "list_all entryOk fs" "sortedEntries fs" "entryMap fs = entryMap es"
  proof -
    show "list_all entryOk fs" using es(2) by (simp add: fs_def list_all_iff)
    show "sortedEntries fs" unfolding fs_def by (rule sort_key_sortedEntries [OF es(3)])
    have "distinct (map fst (map (\<lambda>e. (ekey e, evalue e, etombstone e)) es))"
      "distinct (map fst (map (\<lambda>e. (ekey e, evalue e, etombstone e)) fs))"
      using es(3) by (simp_all add: fs_def comp_def distinct_map)
    then show "entryMap fs = entryMap es" unfolding entryMap_def
      by (intro map_of_inject_set [THEN iffD2]) (simp_all add: fs_def)
  qed
  let ?s = "\<lparr>spath = ?p, sindex = indexFrom 0 fs\<rparr>" and ?d = "WriteFile (disk e) ?p (sstBytes fs)"
  have w: "WriteSSTable (disk e) ?p es = (?s, ?d)" by (simp add: WriteSSTable_eq fs_def)
  let ?c = "setDisk ?d (e\<lparr>nextSSTableSeq := nextSSTableSeq e + 1, sstables := [?s]\<rparr>)"
  have c: "compactWrite e es = ?c" by (simp add: compactWrite_def w)
  obtain seqs where seqs: "?old = map sstName seqs" "sorted_wrt (>) seqs"
    "\<forall>q \<in> set seqs. 0 \<le> q \<and> q < nextSSTableSeq e"
    "\<forall>n \<in> fst ` set (disk e). HasPrefix n ''sstable-'' \<longrightarrow> n \<in> set ?old"
    using inv(4) unfolding namesOk_def by blast
  have new: "?p \<notin> set ?old" and walp: "walPath \<notin> set ?old" unfolding seqs(1) using seqs(3) by auto
  have "distinct seqs" using seqs(2) by (induction seqs) auto
  then have dist: "distinct ?old" unfolding seqs(1) by (simp add: distinct_map inj_on_def)
  have "set ?old \<subseteq> fst ` set ?d"
    using inv(1) by (auto simp: tablesOk_def list_all_iff table_def ReadFile_def split: option.splits)
      (metis domI dom_map_of_conv_image_fst)
  then have "distinct ?new" "set ?new \<subseteq> fst ` set (disk ?c)" using dist unfolding split by auto
  from removeAll_ok [OF this] obtain d ss where d: "removeAll ?c ?new = (None, ?c\<lparr>disk := d, stops := ss\<rparr>)"
    "fst ` set d = fst ` set ?d - set ?new" "distinct (map fst d)" "\<And>q. q \<notin> set ?new \<Longrightarrow> ReadFile d q = ReadFile ?d q"
    using distinct_WriteFile [OF inv(2)] by auto
  have out: "?p \<notin> set ?new" "walPath \<notin> set ?new" "\<forall>x \<in> set older. spath x \<notin> set ?new"
    using new walp dist unfolding split by auto
  have agree: "\<forall>x \<in> set older. ReadFile d (spath x) = ReadFile (disk e) (spath x)"
    using out(3) d(4) new unfolding split by auto (metis image_eqI)
  have t: "table d ?s fs" using fs d(4) [OF out(1)] by (simp add: table_def)
  then have s: "entriesOf d ?s = fs" using table_entries [OF t] by (simp add: entriesOf_def)
  show ?thesis
  proof (rule that [OF es(1), where d = d and ss = ss and s = ?s])
    show "removeAll (compactWrite e es) ?new =
        (None, e\<lparr>disk := d, stops := ss, nextSSTableSeq := nextSSTableSeq e + 1, sstables := [?s]\<rparr>)"
      unfolding c d(1) by (simp add: setDisk_def)
    show "tablesOk d (?s # older)" using inv(1) t s tables_agree(1) [OF agree] by (simp add: split tablesOk_def)
    have "map spath older = map sstName (drop (length newer) seqs)"
      using seqs(1) unfolding split by (metis append_eq_conv_conj drop_map length_map map_append)
    moreover have "sorted_wrt (>) (nextSSTableSeq e # drop (length newer) seqs)"
      using seqs(2,3) by (auto simp: sorted_wrt_drop dest: in_set_dropD)
    moreover have "\<forall>q \<in> set (drop (length newer) seqs). 0 \<le> q \<and> q < nextSSTableSeq e" using seqs(3) by (meson in_set_dropD)
    moreover have "n \<in> set (map spath (?s # older))" if n: "n \<in> fst ` set d" "HasPrefix n ''sstable-''" for n
      using n seqs(4) unfolding d(2) split by auto
    ultimately show "namesOk d (map spath (?s # older)) (nextSSTableSeq e + 1)"
      unfolding namesOk_def using inv(3) by (intro exI [of _ "nextSSTableSeq e # drop (length newer) seqs"]) auto
    show "layered (map (entriesOf d) (?s # older)) = layered (map (entriesOf (disk e)) older) ++ entryMap es"
      using tables_agree(2) [OF agree] s fs(3) by simp
    show "ReadFile d walPath = ReadFile (disk e) walPath" using d(4) [OF out(2)] by simp
  qed (use d(3) es(4,5) in auto)
qed

lemma Compact_abs:
  assumes i: "engInv e"
  obtains e' where "Compact e = (None, e')" and "engInv e'" and "absMap e' = absMap e"
    and "length (sstables e) < 2 \<or> map spath (sstables e') = [sstName (nextSSTableSeq e)]
      \<and> memt e' = memt e \<and> nextSSTableSeq e' = nextSSTableSeq e + 1"
proof (cases "length (sstables e) < 2")
  case True
  then show ?thesis using that [of e] i by (simp add: Compact_def)
next
  case False
  obtain es d ss s where m: "mergeSSTables (disk e) (sstables e) = Inr es"
    "removeAll (compactWrite e es) (map spath (sstables e)) =
      (None, e\<lparr>disk := d, stops := ss, nextSSTableSeq := nextSSTableSeq e + 1, sstables := [s]\<rparr>)"
    "spath s = sstName (nextSSTableSeq e)" "tablesOk d [s]" "namesOk d (map spath [s]) (nextSSTableSeq e + 1)" "distinct (map fst d)"
    "ReadFile d walPath = ReadFile (disk e) walPath" "layered (map (entriesOf d) [s]) = entryMap es"
    "live (entryMap es) = live (layered (map (entriesOf (disk e)) (sstables e)))"
    by (rule compact_midway [OF i, of "sstables e" "[]"]) simp_all
  let ?e = "e\<lparr>disk := d, stops := ss, nextSSTableSeq := nextSSTableSeq e + 1, sstables := [s]\<rparr>"
  have "Compact e = (None, ?e)" using False m(1,2) by (simp add: Compact_def)
  moreover have "walOk d (memt e)" using i m(7) by (simp add: engInv_def walOk_def)
  then have "engInv ?e" using i m(4-6) by (simp add: engInv_def)
  moreover have "absMap ?e = absMap e"
  proof (rule ext)
    fix k
    show "absMap ?e k = absMap e k"
      using fun_cong [OF m(9), of k] m(8) by (simp add: absMap_def layers_def live_add split: option.split)
  qed
  ultimately show ?thesis using that [of ?e] m(3) by simp
qed

section \<open>Recovery\<close>

text \<open>A directory that \<open>Open\<close> can read: tables \<open>paths\<close>, newest first, and the log of \<open>rs\<close>.\<close>

definition dirOk :: "dir \<Rightarrow> string list \<Rightarrow> logrec list \<Rightarrow> bool" where
  "dirOk d paths rs \<longleftrightarrow> distinct (map fst d)
     \<and> (\<exists>seqs. paths = map sstName seqs \<and> sorted_wrt (>) seqs \<and> (\<forall>s \<in> set seqs. 0 \<le> s \<and> s < 2 ^ 63)
         \<and> (\<forall>n \<in> fst ` set d. HasPrefix n ''sstable-'' \<longrightarrow> n \<in> set paths))
     \<and> (\<forall>p \<in> set paths. \<exists>es. ReadFile d p = Inr (sstBytes es) \<and> list_all entryOk es \<and> sortedEntries es)
     \<and> (ReadFile d walPath = Inr (walBytes rs) \<or> ReadFile d walPath = Inl NotExist \<and> rs = [])
     \<and> list_all logOk rs"

lemma ReadFile_dom: "ReadFile d p = Inr b \<Longrightarrow> p \<in> fst ` set d"
  by (auto simp: ReadFile_def split: option.splits) (metis domI dom_map_of_conv_image_fst)

lemma existingSSTables_ok:
  assumes "dirOk d paths rs"
  shows "existingSSTables d = rev paths"
proof -
  obtain seqs where seqs: "paths = map sstName seqs" "sorted_wrt (>) seqs" "\<forall>s \<in> set seqs. 0 \<le> s \<and> s < 2 ^ 63"
    "\<forall>n \<in> fst ` set d. HasPrefix n ''sstable-'' \<longrightarrow> n \<in> set paths"
    using assms unfolding dirOk_def by blast
  have files: "set paths \<subseteq> fst ` set d" using assms ReadFile_dom unfolding dirOk_def by blast
  have seq: "sstSeq n = Some s \<longleftrightarrow> n = sstName s \<and> s \<in> set seqs" if "n \<in> fst ` set d" for n s
  proof
    assume s: "sstSeq n = Some s"
    then have "HasPrefix n ''sstable-''" unfolding sstSeq_def by (metis option.distinct(1))
    then have "n \<in> set paths" using seqs(4) that by blast
    then obtain q where "n = sstName q" "q \<in> set seqs" unfolding seqs(1) by auto
    moreover from this have "sstSeq n = Some q" using seqs(3) sstSeq_sstName by blast
    ultimately show "n = sstName s \<and> s \<in> set seqs" using s by simp
  next
    assume "n = sstName s \<and> s \<in> set seqs"
    then show "sstSeq n = Some s" using seqs(3) sstSeq_sstName [of s] by auto
  qed
  let ?l = "List.map_filter sstSeq (map fst d)"
  have d: "distinct (map fst d)" using assms by (simp add: dirOk_def)
  have "distinct ?l"
    unfolding List.map_filter_def distinct_map
    using d seq by (auto intro!: inj_onI) (metis fst_conv image_eqI option.sel)+
  moreover have "set ?l = set seqs"
  proof (rule set_eqI)
    fix s
    have l: "s \<in> set ?l \<longleftrightarrow> (\<exists>n \<in> fst ` set d. sstSeq n = Some s)"
      by (force simp: List.map_filter_def)
    show "s \<in> set ?l \<longleftrightarrow> s \<in> set seqs"
    proof
      assume "s \<in> set ?l"
      then obtain n where "n \<in> fst ` set d" "sstSeq n = Some s" using l by blast
      then show "s \<in> set seqs" using seq [of n s] by simp
    next
      assume s: "s \<in> set seqs"
      then have "sstName s \<in> fst ` set d" using files by (auto simp: seqs(1))
      then show "s \<in> set ?l" using seq [of "sstName s" s] s l by blast
    qed
  qed
  moreover have "sorted_wrt (<) (rev seqs)" using seqs(2) by (simp add: sorted_wrt_rev)
  ultimately have "sort ?l = rev seqs"
    by (intro sorted_distinct_set_unique) (auto simp: strict_sorted_iff)
  then show ?thesis by (simp add: existingSSTables_def seqs(1) rev_map)
qed

text \<open>The table that \<open>Open\<close> makes of a readable file.\<close>

definition tableAt :: "dir \<Rightarrow> string \<Rightarrow> ssTable" where
  "tableAt d p = (case OpenSSTable d p of Inl _ \<Rightarrow> \<lparr>spath = p, sindex = []\<rparr> | Inr s \<Rightarrow> s)"

lemma tableAt_ok:
  assumes "list_all entryOk es" and "sortedEntries es" and "ReadFile d p = Inr (sstBytes es)"
  shows "OpenSSTable d p = Inr (tableAt d p)" and "table d (tableAt d p) es"
    and "spath (tableAt d p) = p" and "entriesOf d (tableAt d p) = es"
proof -
  note o = table_opened [OF assms]
  then show "OpenSSTable d p = Inr (tableAt d p)" "spath (tableAt d p) = p" by (simp_all add: tableAt_def)
  show t: "table d (tableAt d p) es" using assms by (simp add: tableAt_def o table_def)
  show "entriesOf d (tableAt d p) = es" using table_entries [OF t] by (simp add: entriesOf_def)
qed

lemma openAll_ok:
  assumes "\<forall>p \<in> set ps. \<exists>es. ReadFile d p = Inr (sstBytes es) \<and> list_all entryOk es \<and> sortedEntries es"
  shows "openAll d ps acc = Inr (rev (map (tableAt d) ps) @ acc)"
  using assms
proof (induction ps arbitrary: acc)
  case (Cons p ps)
  then obtain es where "ReadFile d p = Inr (sstBytes es)" "list_all entryOk es" "sortedEntries es" by auto
  then show ?case using Cons tableAt_ok(1) [of es d p] by simp
qed simp

lemma replay_ok:
  assumes "memInv (fst st)" and "list_all entryOk (MemEntries (fst st))" and "list_all logOk rs"
  shows "memInv (fst (foldLog replayPut st rs)) \<and> list_all entryOk (MemEntries (fst (foldLog replayPut st rs)))
    \<and> entryMap (MemEntries (fst (foldLog replayPut st rs))) =
        foldLog (\<lambda>m k v t. m(k \<mapsto> (v, t))) (entryMap (MemEntries (fst st))) rs"
  using assms
proof (induction rs arbitrary: st)
  case (Cons r rs)
  obtain k v t where r: "r = (k, v, t)" by (cases r) auto
  obtain m cs where m: "MemPut (fst st) k v t (snd st) = (m, cs)" by fastforce
  have "entryOk \<lparr>ekey = k, evalue = v, etombstone = t\<rparr>"
    using Cons.prems(3) by (simp add: r entryOk_def logOk_def)
  then have "memInv m" "list_all entryOk (MemEntries m)"
    "entryMap (MemEntries m) = (entryMap (MemEntries (fst st)))(k \<mapsto> (v, t))"
    using MemPut_correct [OF Cons.prems(1) m] MemPut_entryMap [OF Cons.prems(1) m] putEntry_ok [OF Cons.prems(2)]
    by simp_all
  then show ?case using Cons.IH [of "(m, cs)"] Cons.prems(3) by (simp add: r replayPut_def m)
qed simp

lemma logOk_walFits: "list_all logOk rs \<Longrightarrow> list_all walFits rs"
  by (auto simp: list_all_iff logOk_def walFits_def kvFits_def)

text \<open>What \<open>Open\<close> makes of a readable directory.\<close>

lemma OpenEngine_ok:
  assumes d: "dirOk d paths rs"
  obtains e where "OpenEngine d limit cs = Inr e" and "sstables e = map (tableAt d) paths"
    and "nextSSTableSeq e = int (length paths)" and "disk e = OpenWAL d walPath"
    and "memInv (memt e)" and "list_all entryOk (MemEntries (memt e))"
    and "entryMap (MemEntries (memt e)) = logMap rs" and "memtableSizeLimit e = limit"
proof -
  have ps: "\<forall>p \<in> set (rev paths). \<exists>es. ReadFile d p = Inr (sstBytes es) \<and> list_all entryOk es \<and> sortedEntries es"
    using d by (simp add: dirOk_def)
  have "openAll d (rev paths) [] = Inr (map (tableAt d) paths)"
    using openAll_ok [OF ps, of "[]"] by (simp add: rev_map)
  moreover have "ReplayWAL d walPath (\<lambda>st k v t. Inr (replayPut st k v t)) (NewMemtable, cs)
      = Inr (foldLog replayPut (NewMemtable, cs) rs)"
  proof -
    have rs: "list_all walFits rs" using d logOk_walFits by (simp add: dirOk_def)
    show ?thesis
      using d replayLoop_walBytes [OF rs, of replayPut "(NewMemtable, cs)" "[]"]
      by (auto simp: dirOk_def ReplayWAL_def)
  qed
  moreover obtain m cs' where m: "foldLog replayPut (NewMemtable, cs) rs = (m, cs')" by fastforce
  ultimately have "OpenEngine d limit cs = Inr \<lparr>disk = OpenWAL d walPath, stops = [], memt = m,
      sstables = map (tableAt d) paths, nextSSTableSeq = int (length paths), memtableSizeLimit = limit, coins = cs'\<rparr>"
    by (simp add: OpenEngine_def existingSSTables_ok [OF d])
  then show ?thesis
    using that replay_ok [of "(NewMemtable, cs)" rs] d m by (simp add: dirOk_def logMap_def)
qed

lemma OpenWAL_other: "q \<noteq> p \<Longrightarrow> ReadFile (OpenWAL d p) q = ReadFile d q"
  by (auto simp: OpenWAL_def split: sum.split)

lemma OpenEngine_layers:
  assumes d: "dirOk d paths rs" and e: "OpenEngine d limit cs = Inr e"
  shows "layered (layers e) = layered (map (\<lambda>p. entriesOf d (tableAt d p)) paths) ++ logMap rs"
    and "tablesOk (disk e) (sstables e)"
proof -
  obtain seqs where seqs: "paths = map sstName seqs" using d unfolding dirOk_def by blast
  have ps: "spath (tableAt d p) = p \<and> table d (tableAt d p) (entriesOf d (tableAt d p)) \<and> p \<noteq> walPath"
    if p: "p \<in> set paths" for p
  proof -
    obtain es where es: "ReadFile d p = Inr (sstBytes es)" "list_all entryOk es" "sortedEntries es"
      using d p by (auto simp: dirOk_def)
    moreover have "p \<noteq> walPath" using p by (auto simp: seqs)
    ultimately show ?thesis using tableAt_ok [OF es(2,3,1)] by simp
  qed
  obtain e' where e': "OpenEngine d limit cs = Inr e'" "sstables e' = map (tableAt d) paths"
    "disk e' = OpenWAL d walPath" "entryMap (MemEntries (memt e')) = logMap rs"
    using OpenEngine_ok [OF d, of limit cs] by metis
  then have eq: "sstables e = map (tableAt d) paths" "disk e = OpenWAL d walPath"
    "entryMap (MemEntries (memt e)) = logMap rs" using e by simp_all
  have agree: "\<forall>s \<in> set (sstables e). ReadFile (disk e) (spath s) = ReadFile d (spath s)"
    using ps by (auto simp: eq OpenWAL_other)
  show "tablesOk (disk e) (sstables e)"
    unfolding tables_agree(1) [OF agree] using ps by (auto simp: tablesOk_def eq list_all_iff)
  show "layered (layers e) = layered (map (\<lambda>p. entriesOf d (tableAt d p)) paths) ++ logMap rs"
    using tables_agree(2) [OF agree] by (simp add: layers_def eq comp_def)
qed

lemma tableAt_table: "table d s es \<Longrightarrow> tableAt d (spath s) = s"
  using table_opened [of es d "spath s"] by (simp add: table_def tableAt_def)

text \<open>Tables of an engine and a log make a directory that \<open>Open\<close> can read.\<close>

lemma engine_dirOk:
  assumes "tablesOk d ss" and "namesOk d (map spath ss) next" and "next \<le> 2 ^ 63"
    and "distinct (map fst d)" and "ReadFile d walPath = Inr (walBytes rs)" and "list_all logOk rs"
  shows "dirOk d (map spath ss) rs" and "map (tableAt d) (map spath ss) = ss"
proof -
  show "map (tableAt d) (map spath ss) = ss"
    using assms(1) tableAt_table by (induction ss) (auto simp: tablesOk_def)
  obtain seqs where seqs: "map spath ss = map sstName seqs" "sorted_wrt (>) seqs"
    "\<forall>q \<in> set seqs. 0 \<le> q \<and> q < next"
    "\<forall>n \<in> fst ` set d. HasPrefix n ''sstable-'' \<longrightarrow> n \<in> set (map spath ss)"
    using assms(2) unfolding namesOk_def by blast
  moreover have "\<forall>q \<in> set seqs. 0 \<le> q \<and> q < 2 ^ 63" using seqs(3) assms(3) by fastforce
  moreover have "\<forall>p \<in> set (map spath ss). \<exists>es. ReadFile d p = Inr (sstBytes es) \<and> list_all entryOk es \<and> sortedEntries es"
    using assms(1) by (auto simp: tablesOk_def list_all_iff table_def)
  ultimately show "dirOk d (map spath ss) rs"
    unfolding dirOk_def using assms(4-6) by blast
qed

lemma Open_tables:
  assumes t: "tablesOk d ss" "namesOk d (map spath ss) next" "next \<le> 2 ^ 63"
    "distinct (map fst d)" "ReadFile d walPath = Inr (walBytes rs)" "list_all logOk rs"
  obtains e where "OpenEngine d limit cs = Inr e" and "disk e = d" and "sstables e = ss"
    and "layered (layers e) = layered (map (entriesOf d) ss) ++ logMap rs"
    and "memInv (memt e)" and "list_all entryOk (MemEntries (memt e))" and "walOk d (memt e)"
    and "nextSSTableSeq e = int (length ss)"
proof -
  note d = engine_dirOk [OF t]
  obtain e where e: "OpenEngine d limit cs = Inr e" "sstables e = map (tableAt d) (map spath ss)"
    "nextSSTableSeq e = int (length (map spath ss))" "disk e = OpenWAL d walPath" "memInv (memt e)"
    "list_all entryOk (MemEntries (memt e))" "entryMap (MemEntries (memt e)) = logMap rs"
    "memtableSizeLimit e = limit"
    by (rule OpenEngine_ok [OF d(1)])
  have "map (\<lambda>p. entriesOf d (tableAt d p)) (map spath ss) = map (entriesOf d) ss"
    using d(2) by (metis (no_types, lifting) list.map_comp comp_def map_eq_conv)
  then have l: "layered (layers e) = layered (map (entriesOf d) ss) ++ logMap rs"
    using OpenEngine_layers(1) [OF d(1) e(1)] by (simp only:)
  have "disk e = d" using t(5) e(4) by (simp add: OpenWAL_def)
  moreover have "walOk d (memt e)" unfolding walOk_def using t(5,6) e(7) by metis
  ultimately show ?thesis using that [OF e(1)] e(2,3,5,6) l d(2) by simp
qed

lemma Open_recovers:
  assumes i: "engInv e" and n: "nextSSTableSeq e \<le> 2 ^ 63"
  obtains e' where "OpenEngine (disk e) limit cs = Inr e'" and "layered (layers e') = layered (layers e)"
    and "sstables e' = sstables e" and "contiguous e \<longrightarrow> engInv e' \<and> contiguous e'"
proof -
  obtain rs where rs: "ReadFile (disk e) walPath = Inr (walBytes rs)" "list_all logOk rs"
    "logMap rs = entryMap (MemEntries (memt e))" using i by (auto simp: engInv_def walOk_def)
  have t: "tablesOk (disk e) (sstables e)" "namesOk (disk e) (map spath (sstables e)) (nextSSTableSeq e)"
    "distinct (map fst (disk e))" using i by (simp_all add: engInv_def)
  obtain e' where e': "OpenEngine (disk e) limit cs = Inr e'" "disk e' = disk e" "sstables e' = sstables e"
    "layered (layers e') = layered (map (entriesOf (disk e)) (sstables e)) ++ logMap rs"
    "memInv (memt e')" "list_all entryOk (MemEntries (memt e'))" "walOk (disk e) (memt e')"
    "nextSSTableSeq e' = int (length (sstables e))"
    by (rule Open_tables [OF t(1,2) n t(3) rs(1,2)])
  have "engInv e' \<and> contiguous e'" if "contiguous e"
    using e' t that by (simp add: engInv_def contiguous_def)
  then show ?thesis using that [OF e'(1)] e'(3,4) rs(3) by (simp add: layers_def)
qed

text \<open>The engine of an empty data directory.\<close>

definition emptyEngine :: "int \<Rightarrow> bool list \<Rightarrow> engine" where
  "emptyEngine limit cs =
     \<lparr>disk = [(walPath, [])], stops = [], memt = NewMemtable, sstables = [], nextSSTableSeq = 0,
      memtableSizeLimit = limit, coins = cs\<rparr>"

lemma emptyEngine_simps [simp]:
  "disk (emptyEngine limit cs) = [(walPath, [])]" "memt (emptyEngine limit cs) = NewMemtable"
  "sstables (emptyEngine limit cs) = []" "nextSSTableSeq (emptyEngine limit cs) = 0" "stops (emptyEngine limit cs) = []"
  by (simp_all add: emptyEngine_def)

lemma Open_fresh: "OpenEngine [] limit cs = Inr (emptyEngine limit cs)"
proof -
  have [simp]: "ReadFile [] p = Inl NotExist" for p by (simp add: ReadFile_def)
  show ?thesis
    by (simp add: OpenEngine_def existingSSTables_def List.map_filter_def ReplayWAL_def OpenWAL_def
        emptyEngine_def WriteFile_def)
qed

lemma emptyEngine_inv [simp]: "engInv (emptyEngine limit cs)" "contiguous (emptyEngine limit cs)"
  and emptyEngine_abs [simp]: "absMap (emptyEngine limit cs) = Map.empty"
proof -
  have "walOk [(walPath, [])] NewMemtable"
    unfolding walOk_def by (intro exI [of _ "[]"]) (simp add: logMap_def ReadFile_def)
  then show "engInv (emptyEngine limit cs)"
    by (simp add: engInv_def tablesOk_def namesOk_def)
qed (simp_all add: contiguous_def absMap_def layers_def)

section \<open>Stops between and inside the steps of a write\<close>

lemma flushTable_recovers:
  assumes i: "engInv e" and n: "nextSSTableSeq e < 2 ^ 63"
  obtains e' where "OpenEngine (disk (flushTable e)) limit cs = Inr e'"
    and "layered (layers e') = layered (layers e)"
proof -
  note f = flushTable_layers [OF i]
  obtain rs where rs: "ReadFile (disk e) walPath = Inr (walBytes rs)" "list_all logOk rs"
    "logMap rs = entryMap (MemEntries (memt e))" using i by (auto simp: engInv_def walOk_def)
  have "nextSSTableSeq (flushTable e) \<le> 2 ^ 63" "ReadFile (disk (flushTable e)) walPath = Inr (walBytes rs)"
    using n rs(1) f(7,8) by simp_all
  then obtain e' where e': "OpenEngine (disk (flushTable e)) limit cs = Inr e'"
    "layered (layers e') = layered (map (entriesOf (disk (flushTable e))) (sstables (flushTable e))) ++ logMap rs"
    using Open_tables [OF f(3,5) _ f(6) _ rs(2)] by metis
  have "m ++ x ++ x = m ++ x" for m x :: "bytes \<Rightarrow> (bytes \<times> bool) option"
    by (rule ext) (simp add: map_add_def split: option.split)
  moreover have "layered (map (entriesOf (disk (flushTable e))) (sstables (flushTable e))) = layered (layers e)"
    using f(2,4) by (simp add: layers_def)
  ultimately have "layered (layers e') = layered (layers e)" using e'(2) rs(3) by (simp add: layers_def)
  then show ?thesis using that [OF e'(1)] by simp
qed

text \<open>\<open>Put\<close> and \<open>Delete\<close> in one form, and the file operations of such a write: the log record, and when
  the memtable is flushed the new table and the emptied log.\<close>

lemma write_form:
  assumes "t \<longrightarrow> v = []"
  shows "(if t then EngDelete e k else EngPut e k v) =
    (case WalAppend (disk e) walPath k v t of
       Inl err \<Rightarrow> (Some err, e)
     | Inr d \<Rightarrow> maybeFlush (memWrite (setDisk d e) k v t))"
  using assms by (auto simp: EngPut_def EngDelete_def split: sum.split)

lemma memWrite_simps [simp]:
  "disk (memWrite e k v t) = disk e" "stops (memWrite e k v t) = stops e"
  "memtableSizeLimit (memWrite e k v t) = memtableSizeLimit e"
  by (simp_all add: memWrite_def case_prod_beta)

lemma flushTable_stops: "stops (flushTable e) = disk (flushTable e) # stops e"
  by (simp add: flushTable_def case_prod_beta)

lemma write_recovers:
  assumes i: "engInv e" and n: "nextSSTableSeq e < 2 ^ 63" and ok: "logOk (k, v, t)"
  shows "\<exists>e' ds. (if t then EngDelete e k else EngPut e k v) = (None, e') \<and> stops e' = ds @ stops e \<and> ds \<noteq> [] \<and> hd ds = disk e'
    \<and> (\<forall>d \<in> set ds. \<exists>e2. OpenEngine d limit cs = Inr e2 \<and> layered (layers e2) = (layered (layers e))(k \<mapsto> (v, t)))"
proof -
  obtain d1 where d1: "WalAppend (disk e) walPath k v t = Inr d1"
    "engInv (memWrite (setDisk d1 e) k v t)"
    "layered (layers (memWrite (setDisk d1 e) k v t)) = (layered (layers e))(k \<mapsto> (v, t))"
    "sstables (memWrite (setDisk d1 e) k v t) = sstables e"
    "nextSSTableSeq (memWrite (setDisk d1 e) k v t) = nextSSTableSeq e"
    by (rule logged_write [OF i ok])
  let ?e = "memWrite (setDisk d1 e) k v t" and ?m = "(layered (layers e))(k \<mapsto> (v, t))"
  have n1: "nextSSTableSeq ?e < 2 ^ 63" "nextSSTableSeq ?e \<le> 2 ^ 63" using d1(5) n by simp_all
  have form: "(if t then EngDelete e k else EngPut e k v) = maybeFlush ?e"
    using ok d1(1) by (subst write_form) (auto simp: logOk_def)
  have r1: "\<exists>e2. OpenEngine d1 limit cs = Inr e2 \<and> layered (layers e2) = ?m"
    using Open_recovers [OF d1(2) n1(2), of limit cs] d1(3) by (metis memWrite_simps(1) setDisk_simps(1))
  show ?thesis
  proof (cases "MemSize (memt ?e) < memtableSizeLimit ?e")
    case True
    then have "maybeFlush ?e = (None, ?e)" by (simp add: maybeFlush_def)
    then show ?thesis unfolding form using r1 by (intro exI [of _ ?e] exI [of _ "[d1]"]) simp
  next
    case False
    have r2: "\<exists>e2. OpenEngine (disk (flushTable ?e)) limit cs = Inr e2 \<and> layered (layers e2) = ?m"
      using flushTable_recovers [OF d1(2) n1(1), of limit cs] d1(3) by metis
    obtain e2 where e2: "maybeFlush ?e = (None, e2)" "engInv e2" "layered (layers e2) = layered (layers ?e)"
      using maybeFlush_ok [OF d1(2)] by metis
    then obtain d3 where e2': "e2 = setDisk d3 (flushTable ?e)"
      using False by (auto simp: maybeFlush_def Let_def split: sum.splits)
    have "nextSSTableSeq e2 \<le> 2 ^ 63" using n1(1) flushTable_layers(8) [OF d1(2)] by (simp add: e2')
    then have r3: "\<exists>e'. OpenEngine d3 limit cs = Inr e' \<and> layered (layers e') = ?m"
      using Open_recovers [OF e2(2), of limit cs] e2(3) d1(3) by (metis e2' setDisk_simps(1))
    show ?thesis unfolding form e2(1)
      by (rule exI [of _ e2], rule exI [of _ "[d3, disk (flushTable ?e), d1]"])
        (use r1 r2 r3 in \<open>simp add: e2' flushTable_stops\<close>)
  qed
qed

text \<open>A stop inside the write of the log record: the next \<open>Open\<close> fails.\<close>

lemma torn_append_fails:
  assumes i: "engInv e" and n: "nextSSTableSeq e \<le> 2 ^ 63" and ok: "logOk (k, v, t)"
    and old: "ReadFile (disk e) walPath = Inr old"
    and torn: "strict_prefix torn (walRecord k v t)" "torn \<noteq> []"
  shows "\<exists>err. OpenEngine (WriteFile (disk e) walPath (old @ torn)) limit cs = Inl err"
proof -
  let ?d = "WriteFile (disk e) walPath (old @ torn)"
  obtain rs where rs: "old = walBytes rs" "list_all logOk rs" using i old by (auto simp: engInv_def walOk_def)
  have fits: "length k < 2 ^ 32" "length v < 2 ^ 32" using ok by (simp_all add: logOk_def kvFits_def)
  obtain err where "replayLoop (\<lambda>st k v t. Inr (replayPut st k v t)) (foldLog replayPut (NewMemtable, cs) rs) torn = Inl err"
    using replayLoop_torn [OF fits torn] by metis
  then have "ReplayWAL ?d walPath (\<lambda>st k v t. Inr (replayPut st k v t)) (NewMemtable, cs) = Inl err"
    using replayLoop_walBytes [OF logOk_walFits [OF rs(2)], of replayPut "(NewMemtable, cs)" torn] rs(1)
    by (simp add: ReplayWAL_def)
  then show ?thesis by (auto simp: OpenEngine_def Let_def split: sum.split)
qed

section \<open>Properties\<close>

text \<open>C11: reads see the newest write. \<open>Get\<close> (memtable, then the tables from newest to oldest,
  a tombstone hiding older values) and \<open>Scan\<close> (all layers merged) agree on one map of live keys:
  \<open>Get\<close> is its lookup, \<open>Scan\<close> returns exactly its bindings under the prefix, in ascending key
  order, each once; neither fails.\<close>

theorem engine_reads:
  assumes "engInv e"
  shows "EngGet e key = Inr (absMap e key)
    \<and> (\<exists>kvs. EngScan e pre = Inr kvs \<and> sorted_wrt (<) (map fst kvs)
        \<and> (\<forall>k v. (k, v) \<in> set kvs \<longleftrightarrow> EngGet e k = Inr (Some v) \<and> HasPrefix k pre))"
  using EngGet_abs [OF assms] EngScan_abs [OF assms, of pre] by (auto simp: scanOf_def)

lemma engine_reads_witness:
  "EngGet (emptyEngine 10 []) ''k'' = Inr None \<and> (\<exists>kvs. EngScan (emptyEngine 10 []) ''k'' = Inr kvs)"
  using engine_reads [of "emptyEngine 10 []" "''k''" "''k''"] by auto

text \<open>a batch of puts and deletes, with the flushes it triggers on the way, is the same sequence
  of updates of the map of live keys, succeeds, and keeps the engine's invariant.\<close>

theorem engine_batch:
  assumes "engInv e" and "list_all opFits ops"
  shows "\<exists>e'. EngWriteBatch e ops = (None, e') \<and> engInv e' \<and> absMap e' = foldl applyOp (absMap e) ops"
  using EngWriteBatch_abs [OF assms] by metis

lemma engine_batch_witness:
  "\<exists>e'. EngWriteBatch (emptyEngine 1 [])
      [\<lparr>wkey = ''a'', wvalue = ''1'', wtombstone = False\<rparr>, \<lparr>wkey = ''a'', wvalue = [], wtombstone = True\<rparr>] = (None, e')
    \<and> engInv e' \<and> absMap e' ''a'' = None"
  using engine_batch [of "emptyEngine 1 []" "[\<lparr>wkey = ''a'', wvalue = ''1'', wtombstone = False\<rparr>,
    \<lparr>wkey = ''a'', wvalue = [], wtombstone = True\<rparr>]"]
  by (auto simp: opFits_def kvFits_def applyOp_def)

text \<open>C10: compaction changes no live key. It never fails, merges all tables into one when there are
  two or more, and keeps the invariant; tombstones are dropped without bringing a deleted key
  back.\<close>

theorem compact_preserves:
  assumes "engInv e"
  shows "\<exists>e'. Compact e = (None, e') \<and> engInv e' \<and> (\<forall>key. EngGet e' key = EngGet e key)
    \<and> (length (sstables e) < 2 \<or> length (sstables e') = 1)"
proof -
  obtain e' where e': "Compact e = (None, e')" "engInv e'" "absMap e' = absMap e"
    "length (sstables e) < 2 \<or> map spath (sstables e') = [sstName (nextSSTableSeq e)]"
    using Compact_abs [OF assms] by metis
  moreover from this have "length (sstables e) < 2 \<or> length (sstables e') = 1"
    by (metis One_nat_def length_Cons length_map list.size(3))
  ultimately show ?thesis using EngGet_abs assms by simp
qed

lemma compact_preserves_witness: "\<exists>e'. Compact (emptyEngine 1 []) = (None, e') \<and> engInv e'"
  using compact_preserves [of "emptyEngine 1 []"] by auto

text \<open>C9: a write survives a stop of the process after any of its file operations. A put or a deletion
  succeeds; its file operations (one or more, the last of which leaves the engine's directory) append the
  log record and, when the memtable is full, write a table and then empty the log. Reopening the
  directory that any of them leaves gives an engine in which the written key has its new value (or is
  deleted) and every other key its old one; reopening what was there before the first gives the old map.
  Each file is written in one operation; a stop inside the append is the subject of a property below.\<close>

theorem write_survives_stop:
  assumes "engInv e" and "nextSSTableSeq e < 2 ^ 63" and "kvFits k v" and "t \<longrightarrow> v = []"
  shows "(\<exists>e0. OpenEngine (disk e) limit cs = Inr e0 \<and> absMap e0 = absMap e)
    \<and> (\<exists>e' ds. (if t then EngDelete e k else EngPut e k v) = (None, e')
        \<and> stops e' = ds @ stops e \<and> ds \<noteq> [] \<and> hd ds = disk e'
        \<and> (\<forall>d \<in> set ds. \<exists>e2. OpenEngine d limit cs = Inr e2
              \<and> absMap e2 = (absMap e)(k := if t then None else Some v)))"
proof
  show "\<exists>e0. OpenEngine (disk e) limit cs = Inr e0 \<and> absMap e0 = absMap e"
    using Open_recovers [OF assms(1), of limit cs] assms(2) by (metis absMap_def order_less_imp_le)
  have "logOk (k, v, t)" using assms(3,4) by (simp add: logOk_def)
  from write_recovers [OF assms(1,2) this, of limit cs]
  show "\<exists>e' ds. (if t then EngDelete e k else EngPut e k v) = (None, e')
        \<and> stops e' = ds @ stops e \<and> ds \<noteq> [] \<and> hd ds = disk e'
        \<and> (\<forall>d \<in> set ds. \<exists>e2. OpenEngine d limit cs = Inr e2
              \<and> absMap e2 = (absMap e)(k := if t then None else Some v))"
    using absMap_update [of _ e k v t] by meson
qed

lemma write_survives_stop_witness:
  "\<exists>e' ds. EngPut (emptyEngine 1 []) ''k'' ''v'' = (None, e') \<and> stops e' = ds \<and> length ds = 3
    \<and> (\<forall>d \<in> set ds. \<exists>e2. OpenEngine d 1 [] = Inr e2 \<and> absMap e2 = [''k'' \<mapsto> ''v''])"
proof -
  have "length (stops (snd (EngPut (emptyEngine 1 []) ''k'' ''v''))) = 3" by code_simp
  then show ?thesis
    using write_survives_stop [of "emptyEngine 1 []" "''k''" "''v''" False 1 "[]"]
    by (auto simp: kvFits_def)
qed

text \<open>C14: a stop inside the append of a log record blocks the engine. When the log ends in a
  non-empty strict prefix of a record, \<open>Open\<close> returns an error, so every earlier write that was
  acknowledged is out of reach until the file is repaired.\<close>

theorem torn_append_blocks_open:
  assumes "engInv e" and "nextSSTableSeq e \<le> 2 ^ 63" and "kvFits k v" and "t \<longrightarrow> v = []"
    and "ReadFile (disk e) walPath = Inr old"
    and "strict_prefix torn (walRecord k v t)" and "torn \<noteq> []"
  shows "\<exists>err. OpenEngine (WriteFile (disk e) walPath (old @ torn)) limit cs = Inl err"
  by (rule torn_append_fails [OF assms(1,2) _ assms(5-7)]) (use assms(3,4) in \<open>simp add: logOk_def\<close>)

lemma torn_append_blocks_open_witness:
  "\<exists>err. OpenEngine (WriteFile [(walPath, [])] walPath [CHR 0x00]) 1 [] = Inl err"
proof -
  have "strict_prefix [CHR 0x00] (walRecord ''k'' ''v'' False)" by code_simp
  then show ?thesis
    using torn_append_blocks_open [of "emptyEngine 1 []" "''k''" "''v''" False "[]" "[CHR 0x00]" 1 "[]"]
    by (simp add: kvFits_def ReadFile_def)
qed

end
