(* ===== verification/EngineTraces.thy ===== *)
theory EngineTraces
  imports Engine
begin

text \<open>
  Histories of the engine: any sequence of writes, deletions, compactions and restarts. A history
  without compactions is a history of map updates, wherever the restarts are. The theorems at the end
  show what reopening after a compaction, and stopping inside one, does to the data; their witnesses
  are runs with a memtable limit of one byte, so that every write is flushed.
\<close>

datatype action = PutA bytes bytes | DeleteA bytes | CompactA | ReopenA

definition actionStep :: "engine \<Rightarrow> action \<Rightarrow> ioerr + engine" where
  "actionStep e a =
     (let result = (\<lambda>(err, e'). case err of None \<Rightarrow> Inr e' | Some x \<Rightarrow> Inl x)
      in case a of
           PutA k v \<Rightarrow> result (EngPut e k v)
         | DeleteA k \<Rightarrow> result (EngDelete e k)
         | CompactA \<Rightarrow> result (Compact e)
         | ReopenA \<Rightarrow> OpenEngine (disk e) (memtableSizeLimit e) (coins e))"

fun runActions :: "engine \<Rightarrow> action list \<Rightarrow> ioerr + engine" where
  "runActions e [] = Inr e"
| "runActions e (a # as) = (case actionStep e a of Inl x \<Rightarrow> Inl x | Inr e' \<Rightarrow> runActions e' as)"

text \<open>The specification: what each action does to a map.\<close>

fun actionMap :: "(bytes \<Rightarrow> bytes option) \<Rightarrow> action \<Rightarrow> bytes \<Rightarrow> bytes option" where
  "actionMap m (PutA k v) = m(k \<mapsto> v)"
| "actionMap m (DeleteA k) = m(k := None)"
| "actionMap m CompactA = m"
| "actionMap m ReopenA = m"

fun actionFits :: "action \<Rightarrow> bool" where
  "actionFits (PutA k v) = kvFits k v"
| "actionFits (DeleteA k) = kvFits k []"
| "actionFits CompactA = True"
| "actionFits ReopenA = True"

lemma actionStep_ok:
  assumes "engInv e" and "contiguous e" and "nextSSTableSeq e < 2 ^ 63" and "actionFits a" and "a \<noteq> CompactA"
  shows "\<exists>e'. actionStep e a = Inr e' \<and> engInv e' \<and> contiguous e' \<and> absMap e' = actionMap (absMap e) a
    \<and> nextSSTableSeq e' \<le> nextSSTableSeq e + 1"
proof (cases a)
  case (PutA k v)
  obtain e' where "EngPut e k v = (None, e')" "engInv e'" "absMap e' = (absMap e)(k \<mapsto> v)"
    "contiguous e \<longrightarrow> contiguous e'" "nextSSTableSeq e' \<le> nextSSTableSeq e + 1"
    by (rule EngPut_abs [OF assms(1), of k v]) (use PutA assms(4) in auto)
  then show ?thesis using PutA assms(2) by (simp add: actionStep_def)
next
  case (DeleteA k)
  obtain e' where "EngDelete e k = (None, e')" "engInv e'" "absMap e' = (absMap e)(k := None)"
    "contiguous e \<longrightarrow> contiguous e'" "nextSSTableSeq e' \<le> nextSSTableSeq e + 1"
    by (rule EngDelete_abs [OF assms(1), of k]) (use DeleteA assms(4) in auto)
  then show ?thesis using DeleteA assms(2) by (simp add: actionStep_def)
next
  case ReopenA
  obtain e' where "OpenEngine (disk e) (memtableSizeLimit e) (coins e) = Inr e'"
    "layered (layers e') = layered (layers e)" "sstables e' = sstables e" "contiguous e \<longrightarrow> engInv e' \<and> contiguous e'"
    by (rule Open_recovers [OF assms(1) order_less_imp_le [OF assms(3)]])
  then show ?thesis using ReopenA assms(2) by (simp add: actionStep_def absMap_def contiguous_def)
qed (use assms(5) in simp)

lemma runActions_ok:
  assumes "engInv e" and "contiguous e" and "nextSSTableSeq e + int (length as) \<le> 2 ^ 63"
    and "list_all actionFits as" and "CompactA \<notin> set as"
  shows "\<exists>e'. runActions e as = Inr e' \<and> engInv e' \<and> contiguous e' \<and> absMap e' = foldl actionMap (absMap e) as"
  using assms
proof (induction as arbitrary: e)
  case (Cons a as)
  have "nextSSTableSeq e < 2 ^ 63" "actionFits a" "a \<noteq> CompactA" using Cons.prems by auto
  from actionStep_ok [OF Cons.prems(1,2) this] obtain e' where e': "actionStep e a = Inr e'" "engInv e'"
    "contiguous e'" "absMap e' = actionMap (absMap e) a" "nextSSTableSeq e' \<le> nextSSTableSeq e + 1" by blast
  show ?case using Cons.IH [OF e'(2,3)] Cons.prems e' by simp
qed simp

text \<open>The first engine of a data directory, for the runs below.\<close>

definition freshRun :: "action list \<Rightarrow> ioerr + engine" where
  "freshRun as = (case OpenEngine [] 1 [] of Inl x \<Rightarrow> Inl x | Inr e \<Rightarrow> runActions e as)"

definition readAfter :: "action list \<Rightarrow> bytes \<Rightarrow> ioerr + bytes option" where
  "readAfter as key = (case freshRun as of Inl x \<Rightarrow> Inl x | Inr e \<Rightarrow> EngGet e key)"

section \<open>Stops inside a compaction\<close>

lemma MemGet_None: "memInv m \<Longrightarrow> MemGet m key = None \<longleftrightarrow> entryMap (MemEntries m) key = None"
  by (simp add: memInv_def MemGet_entryMap)

lemma compaction_halfway:
  assumes i: "engInv e" and n: "nextSSTableSeq e < 2 ^ 63" and split: "sstables e = newer @ older"
    and mem: "MemGet (memt e) key = None" and gone: "EngGet e key = Inr None"
    and under: "getTables (disk e) older key = Inr (Some v)"
  shows "\<exists>e' ds d e2. Compact e = (None, e') \<and> stops e' = ds @ stops e \<and> d \<in> set ds
    \<and> OpenEngine d limit cs = Inr e2 \<and> EngGet e2 key = Inr (Some v)"
proof -
  have t: "tablesOk (disk e) newer" "tablesOk (disk e) older" "memInv (memt e)" using i by (auto simp: engInv_def split tablesOk_def)
  obtain rs where rs: "ReadFile (disk e) walPath = Inr (walBytes rs)" "list_all logOk rs"
    "logMap rs = entryMap (MemEntries (memt e))" using i by (auto simp: engInv_def walOk_def)
  have m: "entryMap (MemEntries (memt e)) key = None" using mem MemGet_None [OF t(3)] by simp
  have v: "live (layered (map (entriesOf (disk e)) older)) key = Some v" using under getTables_layered [OF t(2)] by simp
  have "absMap e key = None" using gone EngGet_abs [OF i] by simp
  then have dead: "live (layered (map (entriesOf (disk e)) (sstables e))) key = None"
    using m by (simp add: absMap_def layers_def live_def map_add_def)
  then have "newer \<noteq> []" using v unfolding split by (cases newer) (simp_all del: live_simps)
  moreover have "older \<noteq> []" using v by (cases older) (simp_all add: live_def)
  ultimately have two: "\<not> length (sstables e) < 2" unfolding split by (cases newer; cases older) auto
  obtain es d ss s where mid: "mergeSSTables (disk e) (sstables e) = Inr es"
    "removeAll (compactWrite e es) (map spath newer) =
      (None, e\<lparr>disk := d, stops := ss, nextSSTableSeq := nextSSTableSeq e + 1, sstables := [s]\<rparr>)"
    "tablesOk d (s # older)" "namesOk d (map spath (s # older)) (nextSSTableSeq e + 1)" "distinct (map fst d)"
    "ReadFile d walPath = ReadFile (disk e) walPath"
    "layered (map (entriesOf d) (s # older)) = layered (map (entriesOf (disk e)) older) ++ entryMap es"
    "entryMap es key = None"
    using dead by (rule_tac compact_midway [OF i split]) metis
  let ?e = "e\<lparr>disk := d, stops := ss, nextSSTableSeq := nextSSTableSeq e + 1, sstables := [s]\<rparr>"
  obtain e' where e': "Compact e = (None, e')" by (rule Compact_abs [OF i])
  have "Compact e = removeAll (compactWrite e es) (map spath newer @ map spath older)"
    using two mid(1) by (simp add: Compact_def split)
  then have "removeAll ?e (map spath older) = (None, e')" using e' mid(2) by (simp add: removeAll_append)
  from removeAll_stops [OF this] obtain ds2 where ds2: "stops e' = ds2 @ ss" by auto
  obtain ds1 where ds1: "ss = ds1 @ stops (compactWrite e es)" "d \<in> insert (disk (compactWrite e es)) (set ds1)"
    using removeAll_stops [OF mid(2)] by auto
  have cw: "stops (compactWrite e es) = disk (compactWrite e es) # stops e" by (simp add: compactWrite_def case_prod_beta)
  have stop: "stops e' = (ds2 @ ds1 @ [disk (compactWrite e es)]) @ stops e"
    "d \<in> set (ds2 @ ds1 @ [disk (compactWrite e es)])" using ds1 ds2 cw by auto
  have wal: "ReadFile d walPath = Inr (walBytes rs)" "nextSSTableSeq e + 1 \<le> 2 ^ 63" using mid(6) rs(1) n by simp_all
  obtain e2 where e2: "OpenEngine d limit cs = Inr e2" "disk e2 = d" "sstables e2 = s # older"
    "layered (layers e2) = layered (map (entriesOf d) (s # older)) ++ logMap rs" "memInv (memt e2)"
    by (rule Open_tables [OF mid(3,4) wal(2) mid(5) wal(1) rs(2)])
  have "layered (layers e2) key = layered (map (entriesOf (disk e)) older) key"
    unfolding e2(4) mid(7) using mid(8) m rs(3) by (simp add: map_add_def)
  then have "absMap e2 key = Some v" using v by (simp add: absMap_def live_def)
  then have "EngGet e2 key = Inr (Some v)" using EngGet_layers e2 mid(3) by simp
  then show ?thesis using e' stop e2(1) by blast
qed

section \<open>Reopening after a compaction\<close>

lemma namesOk_length:
  assumes "namesOk d paths next" and "0 \<le> next"
  shows "int (length paths) \<le> next"
proof -
  obtain seqs where seqs: "paths = map sstName seqs" "sorted_wrt (>) seqs" "\<forall>s \<in> set seqs. 0 \<le> s \<and> s < next"
    using assms unfolding namesOk_def by blast
  have "distinct seqs" using seqs(2) by (induction seqs) auto
  then have "length seqs = card (set seqs)" by (simp add: distinct_card)
  also have "\<dots> \<le> card {0..<next}" using seqs(3) by (intro card_mono) auto
  finally show ?thesis using seqs(1) assms(2) by simp
qed

text \<open>The engine that \<open>Open\<close> makes of a compacted directory is sound but for the number of its next table.\<close>

lemma reopen_compacted:
  assumes i: "engInv e" and two: "2 \<le> length (sstables e)" and n: "nextSSTableSeq e < 2 ^ 63"
    and c: "Compact e = (None, e1)" and o: "OpenEngine (disk e1) limit cs = Inr e2"
  obtains s where "2 \<le> nextSSTableSeq e" and "engInv (e2\<lparr>nextSSTableSeq := nextSSTableSeq e + 1\<rparr>)"
    and "sstables e2 = [s]" and "spath s = sstName (nextSSTableSeq e)" and "nextSSTableSeq e2 = 1"
    and "absMap e2 = absMap e" and "entryMap (MemEntries (memt e2)) = entryMap (MemEntries (memt e))"
proof -
  have "int (length (map spath (sstables e))) \<le> nextSSTableSeq e" using i by (intro namesOk_length) (auto simp: engInv_def)
  then have big: "2 \<le> nextSSTableSeq e" using two by simp
  have e1: "engInv e1" "absMap e1 = absMap e" "map spath (sstables e1) = [sstName (nextSSTableSeq e)]" "memt e1 = memt e"
    "nextSSTableSeq e1 = nextSSTableSeq e + 1"
    using Compact_abs [OF i] two c by (metis Pair_inject not_le)+
  obtain s where s: "sstables e1 = [s]" "spath s = sstName (nextSSTableSeq e)" using e1(3) by auto
  obtain rs where rs: "ReadFile (disk e1) walPath = Inr (walBytes rs)" "list_all logOk rs"
    "logMap rs = entryMap (MemEntries (memt e1))" using e1(1) by (auto simp: engInv_def walOk_def)
  have t: "tablesOk (disk e1) (sstables e1)" "namesOk (disk e1) (map spath (sstables e1)) (nextSSTableSeq e1)"
    "nextSSTableSeq e1 \<le> 2 ^ 63" "distinct (map fst (disk e1))" using e1(1,5) n by (auto simp: engInv_def)
  obtain e' where e': "OpenEngine (disk e1) limit cs = Inr e'" "disk e' = disk e1" "sstables e' = sstables e1"
    "layered (layers e') = layered (map (entriesOf (disk e1)) (sstables e1)) ++ logMap rs" "memInv (memt e')"
    "list_all entryOk (MemEntries (memt e'))" "walOk (disk e1) (memt e')" "nextSSTableSeq e' = int (length (sstables e1))"
    by (rule Open_tables [OF t rs(1,2)])
  have eq: "e' = e2" using o e'(1) by simp
  have lay: "layered (layers e2) = layered (layers e1)" using e'(4) rs(3) unfolding eq by (simp add: layers_def)
  have "entryMap (MemEntries (memt e2)) = logMap rs"
  proof -
    obtain rs' where "ReadFile (disk e1) walPath = Inr (walBytes rs')" "logMap rs' = entryMap (MemEntries (memt e2))" "list_all logOk rs'"
      using e'(7) unfolding eq walOk_def by blast
    then show ?thesis using OpenEngine_ok [OF engine_dirOk(1) [OF t rs(1,2)], of limit cs] o by (metis sum.inject(2))
  qed
  then have "entryMap (MemEntries (memt e2)) = entryMap (MemEntries (memt e))" using rs(3) e1(4) by simp
  moreover have "engInv (e2\<lparr>nextSSTableSeq := nextSSTableSeq e + 1\<rparr>)"
    using e' t e1(1,5) big unfolding eq by (simp add: engInv_def)
  moreover have "absMap e2 = absMap e" using lay e1(2) by (simp add: absMap_def)
  ultimately show ?thesis using that [of s] big e' s unfolding eq by simp
qed

lemma flush_after_compaction:
  assumes i: "engInv e" and two: "2 \<le> length (sstables e)" and n: "nextSSTableSeq e < 2 ^ 63"
    and mem: "MemGet (memt e) key = None" and old: "EngGet e key = Inr (Some old)"
    and c: "Compact e = (None, e1)" and o: "OpenEngine (disk e1) limit cs = Inr e2"
    and fits: "kvFits key new" and p: "EngPut e2 key new = (None, e3)" and flushed: "sstables e3 \<noteq> sstables e2"
  shows "EngGet e3 key = Inr (Some new)
    \<and> (\<exists>e4. OpenEngine (disk e3) limit cs' = Inr e4 \<and> EngGet e4 key = Inr (Some old))"
proof -
  let ?N = "nextSSTableSeq e + 1"
  obtain s where r: "2 \<le> nextSSTableSeq e" "engInv (e2\<lparr>nextSSTableSeq := ?N\<rparr>)" "sstables e2 = [s]"
    "spath s = sstName (nextSSTableSeq e)" "nextSSTableSeq e2 = 1" "absMap e2 = absMap e"
    "entryMap (MemEntries (memt e2)) = entryMap (MemEntries (memt e))"
    by (rule reopen_compacted [OF i two n c o])
  have "logOk (key, new, False)" using fits by (simp add: logOk_def)
  from logged_write [OF r(2) this] obtain d1 where d1: "WalAppend (disk e2) walPath key new False = Inr d1"
    "engInv (memWrite (setDisk d1 (e2\<lparr>nextSSTableSeq := ?N\<rparr>)) key new False)"
    "layered (layers (memWrite (setDisk d1 (e2\<lparr>nextSSTableSeq := ?N\<rparr>)) key new False)) =
      (layered (layers (e2\<lparr>nextSSTableSeq := ?N\<rparr>)))(key \<mapsto> (new, False))" by auto
  let ?m = "memWrite (setDisk d1 e2) key new False"
  have m: "memWrite (setDisk d1 (e2\<lparr>nextSSTableSeq := ?N\<rparr>)) key new False = ?m\<lparr>nextSSTableSeq := ?N\<rparr>"
    "sstables ?m = [s]" "nextSSTableSeq ?m = 1"
    using r(3,5) by (simp_all add: memWrite_def setDisk_def case_prod_beta)
  have inv: "memInv (memt ?m)" "list_all entryOk (MemEntries (memt ?m))" "tablesOk (disk ?m) (sstables ?m)"
    "distinct (map fst (disk ?m))" "namesOk (disk ?m) (map spath (sstables ?m)) ?N" "walOk (disk ?m) (memt ?m)"
    using d1(2) unfolding m(1) by (simp_all add: engInv_def)
  have new: "sstName (nextSSTableSeq ?m) \<notin> set (map spath (sstables ?m))" using r(1,4) by (simp add: m)
  obtain s1 d where f: "flushTable ?m = setDisk d (?m\<lparr>nextSSTableSeq := nextSSTableSeq ?m + 1, sstables := s1 # sstables ?m,
      memt := NewMemtable\<rparr>)" "spath s1 = sstName (nextSSTableSeq ?m)" "entriesOf d s1 = MemEntries (memt ?m)"
    "tablesOk d (s1 # sstables ?m)" "layered (map (entriesOf d) (sstables ?m)) = layered (map (entriesOf (disk ?m)) (sstables ?m))"
    "fst ` set d = insert (sstName (nextSSTableSeq ?m)) (fst ` set (disk ?m))" "distinct (map fst d)"
    "ReadFile d walPath = ReadFile (disk ?m) walPath"
    by (rule flushTable_core [OF inv(1-4) new])
  let ?d = "WriteFile d walPath []"
  have flush: "maybeFlush ?m = (None, e3)" using p d1(1) by (simp add: EngPut_def)
  then have "\<not> MemSize (memt ?m) < memtableSizeLimit ?m" using flushed r(3) m(2) by (auto simp: maybeFlush_def)
  then have e3: "e3 = setDisk ?d (flushTable ?m)"
    using flush inv(6) f(8) by (auto simp: maybeFlush_def Let_def f(1) WalReset_def walOk_def)
  have paths: "spath s1 = sstName 1" "spath s1 \<noteq> walPath" "spath s \<noteq> walPath" "sstables e3 = [s1, s]" "memt e3 = NewMemtable" "disk e3 = ?d"
    using f(1,2) m r(4) by (simp_all add: e3)
  have agree: "\<forall>q \<in> set [s1, s]. ReadFile ?d (spath q) = ReadFile d (spath q)" using paths by simp
  have t3: "tablesOk ?d [s1, s]" using f(4) m(2) tables_agree(1) [OF agree] by simp
  have under: "entriesOf ?d s = entriesOf d s" "entriesOf ?d s1 = MemEntries (memt ?m)"
    using agree f(3) by (simp_all add: entriesOf_def SSTEntries_def)
  have old': "layered (map (entriesOf d) [s]) key = Some (old, False)"
  proof -
    have "memInv (memt e)" using i by (simp add: engInv_def)
    then have "entryMap (MemEntries (memt e2)) key = None" using mem MemGet_None r(7) by simp
    moreover have "live (layered (layers e2)) key = Some old" using old EngGet_abs [OF i] r(6) by (simp add: absMap_def)
    ultimately have "live (layered (map (entriesOf (disk e2)) [s])) key = Some old"
      using r(3) by (simp add: layers_def live_def map_add_def)
    then have "layered (map (entriesOf (disk e2)) [s]) key = Some (old, False)"
      by (auto simp: live_def liveValue_def bind_eq_Some_conv split: if_splits)
    moreover have "layered (map (entriesOf (disk ?m)) [s]) = layered (map (entriesOf (disk e2)) [s])"
    proof (rule tables_agree(2))
      obtain b where "d1 = WriteFile (disk e2) walPath b" using d1(1) by (auto simp: WalAppend_def split: sum.splits)
      then show "\<forall>q \<in> set [s]. ReadFile (disk ?m) (spath q) = ReadFile (disk e2) (spath q)" using paths(3) by simp
    qed
    ultimately show ?thesis using f(5) m(2) by simp
  qed
  have "layered (layers ?m) key = Some (new, False)"
    using d1(3) unfolding m(1) by (simp add: layers_def)
  then have "layered (layers e3) key = Some (new, False)"
    using under old' f(5) m(2) by (simp add: layers_def paths)
  moreover have "EngGet e3 key = Inr (absMap e3 key)" using t3 by (intro EngGet_layers) (simp_all add: paths)
  ultimately have "EngGet e3 key = Inr (Some new)" by (simp add: absMap_def live_def liveValue_def)
  moreover have "\<exists>e4. OpenEngine (disk e3) limit cs' = Inr e4 \<and> EngGet e4 key = Inr (Some old)"
  proof -
    obtain rest where rest: "\<forall>n \<in> fst ` set (disk ?m). HasPrefix n ''sstable-'' \<longrightarrow> n = spath s"
      using inv(5) m(2) unfolding namesOk_def by auto
    have "namesOk ?d (map spath [s, s1]) ?N"
      unfolding namesOk_def using r(1,4) f(6) paths(1) rest m(3)
      by (intro exI [of _ "[nextSSTableSeq e, 1]"]) auto
    moreover have "tablesOk ?d [s, s1]" using t3 by (simp add: tablesOk_def)
    moreover have "distinct (map fst ?d)" using f(7) by (rule distinct_WriteFile)
    moreover have "ReadFile ?d walPath = Inr (walBytes [])" "list_all logOk []" "?N \<le> 2 ^ 63" using n by simp_all
    ultimately obtain e4 where e4: "OpenEngine ?d limit cs' = Inr e4" "disk e4 = ?d" "sstables e4 = [s, s1]"
      "layered (layers e4) = layered (map (entriesOf ?d) [s, s1]) ++ logMap []" "memInv (memt e4)"
      using Open_tables [of ?d "[s, s1]" ?N "[]" limit cs'] by metis
    have "layered (layers e4) key = Some (old, False)"
      using old' unfolding e4(4) by (simp add: under logMap_def)
    then have "EngGet e4 key = Inr (Some old)"
      using EngGet_layers [of e4] e4 t3 by (simp add: tablesOk_def absMap_def live_def liveValue_def)
    then show ?thesis using e4(1) by (simp add: paths)
  qed
  ultimately show ?thesis ..
qed

section \<open>Properties\<close>

text \<open>C8: the engine implements a durable map. Any history of puts, deletes and restarts from an
  empty directory, with flushes wherever the size limit puts them, succeeds, and afterwards \<open>Get\<close>
  reads the map that the history's updates make: no restart loses or brings back a write. (The
  bound is the 64-bit sequence number of the tables.)\<close>

theorem engine_history:
  assumes "list_all actionFits as" and "CompactA \<notin> set as" and "int (length as) \<le> 2 ^ 63"
  shows "\<exists>e e'. OpenEngine [] limit cs = Inr e \<and> runActions e as = Inr e'
    \<and> (\<forall>key. EngGet e' key = Inr (foldl actionMap Map.empty as key))"
  using runActions_ok [of "emptyEngine limit cs" as] assms EngGet_abs
  by (auto simp: Open_fresh)

lemma engine_history_witness:
  "\<exists>e e'. OpenEngine [] 1 [] = Inr e \<and> runActions e [PutA ''a'' ''1'', ReopenA, DeleteA ''a'', ReopenA] = Inr e'
    \<and> EngGet e' ''a'' = Inr None"
  using engine_history [of "[PutA ''a'' ''1'', ReopenA, DeleteA ''a'', ReopenA]" 1 "[]"]
  by (auto simp: kvFits_def)

text \<open>C12: a restart after a compaction makes the next flush too old. Take any sound engine of two or more
  tables whose tables give a key the value \<open>old\<close>; compact it, reopen it, and put a new value that is
  flushed (\<open>Open\<close> numbers the next table by the number of tables, below that of the compacted one). The
  running engine reads the new value, but after one more restart the old value is read again: the
  acknowledged write is lost.\<close>

theorem compaction_then_reopen_loses_writes:
  assumes "engInv e" and "2 \<le> length (sstables e)" and "nextSSTableSeq e < 2 ^ 63"
    and "MemGet (memt e) key = None" and "EngGet e key = Inr (Some old)"
    and "Compact e = (None, e1)" and "OpenEngine (disk e1) limit cs = Inr e2"
    and "kvFits key new" and "EngPut e2 key new = (None, e3)" and "sstables e3 \<noteq> sstables e2"
  shows "EngGet e3 key = Inr (Some new)
    \<and> (\<exists>e4. OpenEngine (disk e3) limit cs' = Inr e4 \<and> EngGet e4 key = Inr (Some old))"
  by (rule flush_after_compaction [OF assms])

lemma fresh_history:
  assumes "list_all actionFits as" and "CompactA \<notin> set as" and "int (length as) \<le> 2 ^ 63" and "freshRun as = Inr e"
  shows "engInv e"
proof -
  have "runActions (emptyEngine 1 []) as = Inr e" using assms(4) by (simp add: freshRun_def Open_fresh)
  then show ?thesis using runActions_ok [of "emptyEngine 1 []" as] assms(1-3) by auto
qed

text \<open>Two writes, each flushed; the second is a deletion in the other run.\<close>

definition twoTables :: engine where
  "twoTables = (case freshRun [PutA ''a'' ''1'', PutA ''b'' ''2''] of Inr e \<Rightarrow> e)"

definition deletedAbove :: engine where
  "deletedAbove = (case freshRun [PutA ''a'' ''1'', DeleteA ''a''] of Inr e \<Rightarrow> e)"

lemma twoTables_inv: "engInv twoTables" and deletedAbove_inv: "engInv deletedAbove"
proof -
  have "freshRun [PutA ''a'' ''1'', PutA ''b'' ''2''] = Inr twoTables" "freshRun [PutA ''a'' ''1'', DeleteA ''a''] = Inr deletedAbove"
    by code_simp+
  then show "engInv twoTables" "engInv deletedAbove" by (auto intro: fresh_history [rotated 3] simp: kvFits_def)
qed

lemma compaction_then_reopen_loses_writes_witness:
  "\<exists>e1 e2 e3 e4. Compact twoTables = (None, e1) \<and> OpenEngine (disk e1) 1 [] = Inr e2 \<and> EngPut e2 ''a'' ''9'' = (None, e3)
    \<and> EngGet e3 ''a'' = Inr (Some ''9'') \<and> OpenEngine (disk e3) 1 [] = Inr e4 \<and> EngGet e4 ''a'' = Inr (Some ''1'')"
proof -
  define e1 where "e1 = snd (Compact twoTables)"
  define e2 where "e2 = projr (OpenEngine (disk e1) 1 [])"
  define e3 where "e3 = snd (EngPut e2 ''a'' ''9'')"
  have r: "Compact twoTables = (None, e1)" "OpenEngine (disk e1) 1 [] = Inr e2" "EngPut e2 ''a'' ''9'' = (None, e3)"
    "sstables e3 \<noteq> sstables e2" unfolding e3_def e2_def e1_def by code_simp+
  have h: "2 \<le> length (sstables twoTables)" "nextSSTableSeq twoTables < 2 ^ 63" "MemGet (memt twoTables) ''a'' = None"
    "EngGet twoTables ''a'' = Inr (Some ''1'')" by code_simp+
  have "kvFits ''a'' ''9''" by (simp add: kvFits_def)
  from compaction_then_reopen_loses_writes [OF twoTables_inv h r(1,2) this r(3,4), of "[]"] show ?thesis using r by blast
qed

text \<open>With one more flush after the restart the file of the compacted table itself is overwritten.\<close>

lemma compacted_table_overwritten:
  "readAfter [PutA ''a'' ''1'', PutA ''b'' ''2'', CompactA, ReopenA, PutA ''c'' ''3'', PutA ''d'' ''4'', ReopenA] ''a''
    = Inr None"
  by code_simp

text \<open>C13: a stop inside a compaction brings a deleted key back. Take any sound engine in which a key is
  deleted (\<open>Get\<close> finds nothing) while some of its older tables, read alone, still give it a value, and
  the memtable has no entry for it: so a newer table has its tombstone. A compaction then leaves, after
  one of its file operations, a directory which \<open>Open\<close> accepts and in which the deleted value is read
  again: the merged table has dropped the tombstone, and the old tables are removed newest first.\<close>

theorem compaction_stop_resurrects:
  assumes "engInv e" and "nextSSTableSeq e < 2 ^ 63" and "sstables e = newer @ older"
    and "MemGet (memt e) key = None" and "EngGet e key = Inr None" and "getTables (disk e) older key = Inr (Some v)"
  shows "\<exists>e' ds d e2. Compact e = (None, e') \<and> stops e' = ds @ stops e \<and> d \<in> set ds
    \<and> OpenEngine d limit cs = Inr e2 \<and> EngGet e2 key = Inr (Some v)"
  by (rule compaction_halfway [OF assms])

lemma compaction_stop_resurrects_witness:
  "\<exists>e' d e2. Compact deletedAbove = (None, e') \<and> d \<in> set (stops e') \<and> OpenEngine d 1 [] = Inr e2
    \<and> EngGet deletedAbove ''a'' = Inr None \<and> EngGet e2 ''a'' = Inr (Some ''1'')"
proof -
  let ?ss = "sstables deletedAbove"
  have h: "nextSSTableSeq deletedAbove < 2 ^ 63" "?ss = take 1 ?ss @ drop 1 ?ss" "MemGet (memt deletedAbove) ''a'' = None"
    "EngGet deletedAbove ''a'' = Inr None" "getTables (disk deletedAbove) (drop 1 ?ss) ''a'' = Inr (Some ''1'')" by code_simp+
  from compaction_stop_resurrects [OF deletedAbove_inv h, of 1 "[]"] show ?thesis using h(4) by (metis Un_iff set_append)
qed

end
