(* ===== verification/Store.thy ===== *)
theory Store
  imports Engine
begin

text \<open>
  The interface between the voting domain and its storage, \<open>Store\<close> in
  \<open>src/api/queel/repository.go\<close>. The operations are a record of functions over the store's state,
  the laws they promise are the locale \<open>KVStore\<close>: with respect to an abstraction to a map, a
  successful operation is the map operation, a failed one keeps at least the invariant. \<open>TotalKVStore\<close>
  adds that nothing fails. The reference store, a sorted list of bindings, and the storage engine
  are instances.
\<close>

section \<open>Operations\<close>

datatype serr = IOFailure ioerr | TooLarge | Unavailable

text \<open>\<open>WriteOp\<close>: a binding to write, or with \<open>Tombstone\<close> a key to delete. Values are of any type,
  bytes for the engine.\<close>

datatype 'v wop = PutOp (opKey: bytes) 'v | DelOp (opKey: bytes)

record ('s, 'v) storeOps =
  sPut :: "bytes \<Rightarrow> 'v \<Rightarrow> 's \<Rightarrow> serr option \<times> 's"
  sGet :: "bytes \<Rightarrow> 's \<Rightarrow> (serr + 'v option) \<times> 's"
  sDelete :: "bytes \<Rightarrow> 's \<Rightarrow> serr option \<times> 's"
  sScan :: "bytes \<Rightarrow> 's \<Rightarrow> (serr + (bytes \<times> 'v) list) \<times> 's"
  sBatch :: "'v wop list \<Rightarrow> 's \<Rightarrow> serr option \<times> 's"

fun wopMap :: "(bytes \<Rightarrow> 'v option) \<Rightarrow> 'v wop \<Rightarrow> bytes \<Rightarrow> 'v option" where
  "wopMap m (PutOp k v) = m(k \<mapsto> v)"
| "wopMap m (DelOp k) = m(k := None)"

text \<open>What a scan returns: the bindings under a prefix, in ascending key order.\<close>

definition scanList :: "(bytes \<Rightarrow> 'v option) \<Rightarrow> bytes \<Rightarrow> (bytes \<times> 'v) list \<Rightarrow> bool" where
  "scanList m pre kvs \<longleftrightarrow> sorted_wrt (<) (map fst kvs)
     \<and> (\<forall>k v. (k, v) \<in> set kvs \<longleftrightarrow> m k = Some v \<and> HasPrefix k pre)"

lemma sorted_kvs_unique:
  assumes "sorted_wrt (<) (map fst (xs :: ('a :: linorder \<times> 'v) list))" and "sorted_wrt (<) (map fst ys)" and "set xs = set ys"
  shows "xs = ys"
  using assms
proof (induction xs arbitrary: ys)
  case (Cons x xs)
  then obtain y ys' where y: "ys = y # ys'" by (cases ys) auto
  have "\<forall>z \<in> set xs. fst x < fst z" "\<forall>z \<in> set ys'. fst y < fst z"
    using Cons.prems by (auto simp: y)
  moreover have "x = y \<or> x \<in> set ys'" "y = x \<or> y \<in> set xs" using Cons.prems(3) by (auto simp: y)
  ultimately have "x = y" by fastforce
  moreover have "x \<notin> set xs" "y \<notin> set ys'"
    using \<open>\<forall>z \<in> set xs. fst x < fst z\<close> \<open>\<forall>z \<in> set ys'. fst y < fst z\<close> by auto
  ultimately have "set xs = set ys'" using Cons.prems(3) y by auto
  then show ?case using Cons.IH [of ys'] Cons.prems \<open>x = y\<close> by (simp add: y)
qed simp

lemma scanList_unique: "scanList m p xs \<Longrightarrow> scanList m p ys \<Longrightarrow> xs = ys"
  by (rule sorted_kvs_unique) (auto simp: scanList_def)

section \<open>The contract\<close>

locale KVStore =
  fixes ops :: "('s, 'v) storeOps"
    and view :: "'s \<Rightarrow> bytes \<Rightarrow> 'v option"
    and sound :: "'s \<Rightarrow> bool"
  assumes put_law: "sound s \<Longrightarrow> sPut ops k v s = (r, s') \<Longrightarrow>
      sound s' \<and> (r = None \<longrightarrow> view s' = (view s)(k \<mapsto> v))"
    and get_law: "sound s \<Longrightarrow> sGet ops k s = (rg, s') \<Longrightarrow>
      sound s' \<and> view s' = view s \<and> (\<forall>v. rg = Inr v \<longrightarrow> v = view s k)"
    and delete_law: "sound s \<Longrightarrow> sDelete ops k s = (r, s') \<Longrightarrow>
      sound s' \<and> (r = None \<longrightarrow> view s' = (view s)(k := None))"
    and scan_law: "sound s \<Longrightarrow> sScan ops p s = (rs, s') \<Longrightarrow>
      sound s' \<and> view s' = view s \<and> (\<forall>kvs. rs = Inr kvs \<longrightarrow> scanList (view s) p kvs)"
    and batch_law: "sound s \<Longrightarrow> sBatch ops ws s = (r, s') \<Longrightarrow>
      sound s' \<and> (r = None \<longrightarrow> view s' = foldl wopMap (view s) ws)"
begin

text \<open>Read your writes: a batch that succeeded is seen by the next read.\<close>

lemma read_your_batch:
  assumes "sound s" and "sBatch ops ws s = (None, s1)" and "sGet ops k s1 = (Inr v, s2)"
  shows "v = foldl wopMap (view s) ws k"
  using batch_law [OF assms(1,2)] get_law [OF _ assms(3)] by auto

lemma scan_deterministic:
  assumes "sound s" and "sScan ops p s = (Inr kvs, s1)" and "sScan ops p s1 = (Inr kvs', s2)"
  shows "kvs' = kvs"
  using scan_law [OF assms(1,2)] scan_law [OF _ assms(3)] scanList_unique by metis

end

locale TotalKVStore = KVStore +
  assumes put_total: "sound s \<Longrightarrow> fst (sPut ops k v s) = None"
    and get_total: "sound s \<Longrightarrow> \<exists>v. fst (sGet ops k s) = Inr v"
    and delete_total: "sound s \<Longrightarrow> fst (sDelete ops k s) = None"
    and scan_total: "sound s \<Longrightarrow> \<exists>kvs. fst (sScan ops p s) = Inr kvs"
    and batch_total: "sound s \<Longrightarrow> fst (sBatch ops ws s) = None"

section \<open>The reference store\<close>

text \<open>A list of bindings in ascending key order.\<close>

type_synonym 'v kvs = "(bytes \<times> 'v) list"

definition refPut :: "bytes \<Rightarrow> 'v \<Rightarrow> 'v kvs \<Rightarrow> 'v kvs" where
  "refPut k v s = filter (\<lambda>x. fst x < k) s @ (k, v) # filter (\<lambda>x. k < fst x) s"

definition refDelete :: "bytes \<Rightarrow> 'v kvs \<Rightarrow> 'v kvs" where
  "refDelete k s = filter (\<lambda>x. fst x \<noteq> k) s"

fun refWop :: "'v kvs \<Rightarrow> 'v wop \<Rightarrow> 'v kvs" where
  "refWop s (PutOp k v) = refPut k v s"
| "refWop s (DelOp k) = refDelete k s"

definition refOps :: "('v kvs, 'v) storeOps" where
  "refOps = \<lparr>sPut = \<lambda>k v s. (None, refPut k v s), sGet = \<lambda>k s. (Inr (map_of s k), s),
     sDelete = \<lambda>k s. (None, refDelete k s), sScan = \<lambda>p s. (Inr (filter (\<lambda>x. HasPrefix (fst x) p) s), s),
     sBatch = \<lambda>ws s. (None, foldl refWop s ws)\<rparr>"

definition refInv :: "'v kvs \<Rightarrow> bool" where
  "refInv s \<longleftrightarrow> sorted_wrt (<) (map fst s)"

lemma refInv_distinct: "refInv s \<Longrightarrow> distinct (map fst s)"
  by (simp add: refInv_def strict_sorted_iff)

lemma map_of_filter_key: "map_of (filter (\<lambda>x. P (fst x)) s) k = (if P k then map_of s k else None)"
  by (induction s) auto

lemma map_of_refPut: "map_of (refPut k v s) = (map_of s)(k \<mapsto> v)"
proof (rule ext)
  fix j
  show "map_of (refPut k v s) j = ((map_of s)(k \<mapsto> v)) j"
    using map_of_filter_key [of "\<lambda>j. j < k" s j] map_of_filter_key [of "\<lambda>j. k < j" s j]
    by (cases j k rule: linorder_cases) (auto simp: refPut_def map_add_def split: option.split)
qed

lemma map_of_refDelete: "map_of (refDelete k s) = (map_of s)(k := None)"
  using map_of_filter_key [of "\<lambda>j. j \<noteq> k" s] by (auto simp: refDelete_def fun_eq_iff)

lemma refInv_filter: "refInv s \<Longrightarrow> refInv (filter P s)"
  unfolding refInv_def sorted_wrt_map by (rule sorted_wrt_filter)

lemma refInv_refPut: "refInv s \<Longrightarrow> refInv (refPut k v s)"
  using refInv_filter [of s "\<lambda>x. fst x < k"] refInv_filter [of s "\<lambda>x. k < fst x"]
  by (auto simp: refInv_def refPut_def sorted_wrt_append)

lemma refInv_refDelete: "refInv s \<Longrightarrow> refInv (refDelete k s)"
  unfolding refDelete_def by (rule refInv_filter)

lemma refWop_ok: "refInv s \<Longrightarrow> refInv (refWop s w) \<and> map_of (refWop s w) = wopMap (map_of s) w"
  by (cases w) (auto simp: map_of_refPut map_of_refDelete refInv_refPut refInv_refDelete)

lemma refWops_ok: "refInv s \<Longrightarrow> refInv (foldl refWop s ws) \<and> map_of (foldl refWop s ws) = foldl wopMap (map_of s) ws"
  by (induction ws arbitrary: s) (auto simp: refWop_ok)

lemma ref_scanList: "refInv s \<Longrightarrow> scanList (map_of s) p (filter (\<lambda>x. HasPrefix (fst x) p) s)"
  using refInv_filter [of s] refInv_distinct [of s] by (auto simp: scanList_def refInv_def)

interpretation ref: TotalKVStore refOps map_of refInv
proof unfold_locales
qed (auto simp: refOps_def map_of_refPut map_of_refDelete refInv_refPut refInv_refDelete refWops_ok ref_scanList)

section \<open>The engine as a store\<close>

text \<open>The engine behind the interface. \<open>kvFits\<close> guards the sizes that the file formats can hold;
  the HTTP layer admits far smaller bodies.\<close>

definition engPutOp :: "bytes \<Rightarrow> bytes \<Rightarrow> engine \<Rightarrow> serr option \<times> engine" where
  "engPutOp k v e =
     (if \<not> kvFits k v then (Some TooLarge, e)
      else case EngPut e k v of (r, e') \<Rightarrow> (map_option IOFailure r, e'))"

definition engGetOp :: "bytes \<Rightarrow> engine \<Rightarrow> (serr + bytes option) \<times> engine" where
  "engGetOp k e = (map_sum IOFailure id (EngGet e k), e)"

definition engDeleteOp :: "bytes \<Rightarrow> engine \<Rightarrow> serr option \<times> engine" where
  "engDeleteOp k e =
     (if \<not> kvFits k [] then (Some TooLarge, e)
      else case EngDelete e k of (r, e') \<Rightarrow> (map_option IOFailure r, e'))"

definition engScanOp :: "bytes \<Rightarrow> engine \<Rightarrow> (serr + (bytes \<times> bytes) list) \<times> engine" where
  "engScanOp p e = (map_sum IOFailure id (EngScan e p), e)"

fun toWriteOp :: "bytes wop \<Rightarrow> writeOp" where
  "toWriteOp (PutOp k v) = \<lparr>wkey = k, wvalue = v, wtombstone = False\<rparr>"
| "toWriteOp (DelOp k) = \<lparr>wkey = k, wvalue = [], wtombstone = True\<rparr>"

definition engBatchOp :: "bytes wop list \<Rightarrow> engine \<Rightarrow> serr option \<times> engine" where
  "engBatchOp ws e =
     (if \<not> list_all (opFits \<circ> toWriteOp) ws then (Some TooLarge, e)
      else case EngWriteBatch e (map toWriteOp ws) of (r, e') \<Rightarrow> (map_option IOFailure r, e'))"

definition engOps :: "(engine, bytes) storeOps" where
  "engOps = \<lparr>sPut = engPutOp, sGet = engGetOp, sDelete = engDeleteOp, sScan = engScanOp, sBatch = engBatchOp\<rparr>"

lemma applyOp_wopMap: "foldl applyOp m (map toWriteOp ws) = foldl wopMap m ws"
proof (induction ws arbitrary: m)
  case (Cons w ws)
  have "applyOp m (toWriteOp w) = wopMap m w" by (cases w) (auto simp: applyOp_def)
  then show ?case using Cons.IH [of "wopMap m w"] by simp
qed simp

lemma engPutOp_law:
  "engInv s \<Longrightarrow> engPutOp k v s = (r, s') \<Longrightarrow> engInv s' \<and> (r = None \<longrightarrow> absMap s' = (absMap s)(k \<mapsto> v))
    \<and> (r = None \<longleftrightarrow> kvFits k v)"
  using EngPut_abs [of s k v] by (fastforce simp: engPutOp_def split: if_splits)

lemma engDeleteOp_law:
  "engInv s \<Longrightarrow> engDeleteOp k s = (r, s') \<Longrightarrow> engInv s' \<and> (r = None \<longrightarrow> absMap s' = (absMap s)(k := None))
    \<and> (r = None \<longleftrightarrow> kvFits k [])"
  using EngDelete_abs [of s k] by (fastforce simp: engDeleteOp_def split: if_splits)

lemma engBatchOp_law:
  "engInv s \<Longrightarrow> engBatchOp ws s = (r, s') \<Longrightarrow> engInv s' \<and> (r = None \<longrightarrow> absMap s' = foldl wopMap (absMap s) ws)
    \<and> (r = None \<longleftrightarrow> list_all (opFits \<circ> toWriteOp) ws)"
  using EngWriteBatch_abs [of s "map toWriteOp ws"]
  by (fastforce simp: engBatchOp_def applyOp_wopMap list_all_iff split: if_splits)

lemma engScanOp_law:
  "engInv s \<Longrightarrow> engScanOp p s = (r, s') \<Longrightarrow> s' = s \<and> (\<exists>kvs. r = Inr kvs \<and> scanList (absMap s) p kvs)"
  using EngScan_abs [of s p] by (auto simp: engScanOp_def scanList_def scanOf_def)

interpretation eng: KVStore engOps absMap engInv
proof unfold_locales
  show "engInv s \<Longrightarrow> sPut engOps k v s = (r, s') \<Longrightarrow> engInv s' \<and> (r = None \<longrightarrow> absMap s' = (absMap s)(k \<mapsto> v))"
    for s k v r s' using engPutOp_law by (simp add: engOps_def)
  show "engInv s \<Longrightarrow> sGet engOps k s = (r, s') \<Longrightarrow> engInv s' \<and> absMap s' = absMap s \<and> (\<forall>v. r = Inr v \<longrightarrow> v = absMap s k)"
    for s k r s' by (auto simp: engOps_def engGetOp_def EngGet_abs)
  show "engInv s \<Longrightarrow> sDelete engOps k s = (r, s') \<Longrightarrow> engInv s' \<and> (r = None \<longrightarrow> absMap s' = (absMap s)(k := None))"
    for s k r s' using engDeleteOp_law by (simp add: engOps_def)
  show "engInv s \<Longrightarrow> sScan engOps p s = (r, s') \<Longrightarrow> engInv s' \<and> absMap s' = absMap s
      \<and> (\<forall>kvs. r = Inr kvs \<longrightarrow> scanList (absMap s) p kvs)"
    for s p r s' using engScanOp_law by (fastforce simp: engOps_def)
  show "engInv s \<Longrightarrow> sBatch engOps ws s = (r, s') \<Longrightarrow> engInv s' \<and> (r = None \<longrightarrow> absMap s' = foldl wopMap (absMap s) ws)"
    for s ws r s' using engBatchOp_law by (simp add: engOps_def)
qed

end
