(* ===== verification/Peer.thy ===== *)
theory Peer
  imports Store
begin

text \<open>
  One node as its peers see it: replicated entries (\<open>src/api/queel/cluster/entry.go\<close>), the internal
  endpoints over the node's local store (\<open>src/api/queel/server/internal.go\<close>) and the client that calls
  them (\<open>src/api/queel/cluster/peer_client.go\<close>). JSON encoding of entries is a codec of which the
  proofs use that decoding inverts encoding; a request body that does not decode is \<open>None\<close>. What
  becomes of a call on the network is an argument. The Merkle endpoints are in \<open>AntiEntropy\<close>.
\<close>

section \<open>Entries\<close>

record Entry =
  entry_value :: bytes
  entry_timestamp :: int
  entry_tombstone :: bool

definition NewEntry :: "int \<Rightarrow> bytes \<Rightarrow> bool \<Rightarrow> Entry" where
  "NewEntry now v tombstone = \<lparr>entry_value = v, entry_timestamp = now, entry_tombstone = tombstone\<rparr>"

record KeyEntry =
  ke_key :: string
  ke_entry :: Entry

lemma KeyEntry_mem: "\<lparr>ke_key = k, ke_entry = e\<rparr> \<in> S \<longleftrightarrow> (\<exists>x \<in> S. ke_key x = k \<and> ke_entry x = e)"
proof
  assume "\<exists>x \<in> S. ke_key x = k \<and> ke_entry x = e"
  then obtain x where x: "x \<in> S" "ke_key x = k" "ke_entry x = e" by blast
  then have "x = \<lparr>ke_key = k, ke_entry = e\<rparr>" by simp
  then show "\<lparr>ke_key = k, ke_entry = e\<rparr> \<in> S" using x(1) by metis
next
  assume "\<lparr>ke_key = k, ke_entry = e\<rparr> \<in> S"
  then show "\<exists>x \<in> S. ke_key x = k \<and> ke_entry x = e" by (rule rev_bexI) simp
qed

record 'v entryCodec =
  encEntry :: "Entry \<Rightarrow> 'v"
  decEntry :: "'v \<Rightarrow> Entry option"

definition entryCodecOk :: "'v entryCodec \<Rightarrow> bool" where
  "entryCodecOk cd \<longleftrightarrow> (\<forall>e. decEntry cd (encEntry cd e) = Some e)"

lemma decEntry_encEntry: "entryCodecOk cd \<Longrightarrow> decEntry cd (encEntry cd e) = Some e"
  by (simp add: entryCodecOk_def)

text \<open>The codec that keeps entries as they are.\<close>

definition plainCodec :: "Entry entryCodec" where
  "plainCodec = \<lparr>encEntry = \<lambda>e. e, decEntry = Some\<rparr>"

lemma plainCodec_ok [simp]: "entryCodecOk plainCodec"
  by (simp add: entryCodecOk_def plainCodec_def)

section \<open>Internal endpoints\<close>

definition internalPutHandler ::
  "('s, 'v) storeOps \<Rightarrow> 'v entryCodec \<Rightarrow> (string \<times> Entry) option \<Rightarrow> 's \<Rightarrow> int \<times> 's" where
  "internalPutHandler ops cd body s =
     (case body of
        None \<Rightarrow> (400, s)
      | Some (key, entry) \<Rightarrow>
          (case sPut ops key (encEntry cd entry) s of
             (Some e, s') \<Rightarrow> (500, s')
           | (None, s') \<Rightarrow> (204, s')))"

fun putItems :: "('s, 'v) storeOps \<Rightarrow> 'v entryCodec \<Rightarrow> KeyEntry list \<Rightarrow> 's \<Rightarrow> int \<times> 's" where
  "putItems ops cd [] s = (204, s)"
| "putItems ops cd (item # items) s =
     (case sPut ops (ke_key item) (encEntry cd (ke_entry item)) s of
        (Some e, s') \<Rightarrow> (500, s')
      | (None, s') \<Rightarrow> putItems ops cd items s')"

definition internalPutBatchHandler ::
  "('s, 'v) storeOps \<Rightarrow> 'v entryCodec \<Rightarrow> KeyEntry list option \<Rightarrow> 's \<Rightarrow> int \<times> 's" where
  "internalPutBatchHandler ops cd body s =
     (case body of None \<Rightarrow> (400, s) | Some items \<Rightarrow> putItems ops cd items s)"

text \<open>A response that carries data has it beside its status.\<close>

definition internalGetHandler ::
  "('s, 'v) storeOps \<Rightarrow> 'v entryCodec \<Rightarrow> string option \<Rightarrow> 's \<Rightarrow> (int \<times> Entry option) \<times> 's" where
  "internalGetHandler ops cd body s =
     (case body of
        None \<Rightarrow> ((400, None), s)
      | Some key \<Rightarrow>
          (case sGet ops key s of
             (Inl e, s') \<Rightarrow> ((500, None), s')
           | (Inr None, s') \<Rightarrow> ((404, None), s')
           | (Inr (Some v), s') \<Rightarrow>
               (case decEntry cd v of
                  None \<Rightarrow> ((500, None), s')
                | Some entry \<Rightarrow> ((200, Some entry), s'))))"

fun decodeEntries :: "'v entryCodec \<Rightarrow> (bytes \<times> 'v) list \<Rightarrow> KeyEntry list option" where
  "decodeEntries cd [] = Some []"
| "decodeEntries cd ((k, v) # kvs) =
     (case decEntry cd v of
        None \<Rightarrow> None
      | Some entry \<Rightarrow> map_option (\<lambda>r. \<lparr>ke_key = k, ke_entry = entry\<rparr> # r) (decodeEntries cd kvs))"

definition internalScanHandler ::
  "('s, 'v) storeOps \<Rightarrow> 'v entryCodec \<Rightarrow> string option \<Rightarrow> 's \<Rightarrow> (int \<times> KeyEntry list option) \<times> 's" where
  "internalScanHandler ops cd body s =
     (case body of
        None \<Rightarrow> ((400, None), s)
      | Some pre \<Rightarrow>
          (case sScan ops pre s of
             (Inl e, s') \<Rightarrow> ((500, None), s')
           | (Inr kvs, s') \<Rightarrow>
               (case decodeEntries cd kvs of
                  None \<Rightarrow> ((500, None), s')
                | Some results \<Rightarrow> ((200, Some results), s'))))"

section \<open>The client\<close>

text \<open>A call is delivered and answered, does not reach the peer, or is carried out while its answer is
  lost.\<close>

datatype transport = Delivered | NotDelivered | ReplyLost

datatype peerErr = PeerUnreachable | PeerStatus int | PeerDecode

definition callPeer :: "transport \<Rightarrow> ('s \<Rightarrow> 'r \<times> 's) \<Rightarrow> 's \<Rightarrow> 'r option \<times> 's" where
  "callPeer t handler s =
     (case t of
        NotDelivered \<Rightarrow> (None, s)
      | ReplyLost \<Rightarrow> (None, snd (handler s))
      | Delivered \<Rightarrow> (case handler s of (r, s') \<Rightarrow> (Some r, s')))"

definition writeOutcome :: "int option \<Rightarrow> peerErr option" where
  "writeOutcome r =
     (case r of None \<Rightarrow> Some PeerUnreachable
      | Some status \<Rightarrow> if status \<ge> 300 then Some (PeerStatus status) else None)"

definition PeerPut ::
  "('s, 'v) storeOps \<Rightarrow> 'v entryCodec \<Rightarrow> transport \<Rightarrow> string \<Rightarrow> Entry \<Rightarrow> 's \<Rightarrow> peerErr option \<times> 's" where
  "PeerPut ops cd t key entry s =
     (case callPeer t (internalPutHandler ops cd (Some (key, entry))) s of (r, s') \<Rightarrow> (writeOutcome r, s'))"

definition PeerPutBatch ::
  "('s, 'v) storeOps \<Rightarrow> 'v entryCodec \<Rightarrow> transport \<Rightarrow> KeyEntry list \<Rightarrow> 's \<Rightarrow> peerErr option \<times> 's" where
  "PeerPutBatch ops cd t items s =
     (case callPeer t (internalPutBatchHandler ops cd (Some items)) s of (r, s') \<Rightarrow> (writeOutcome r, s'))"

definition PeerGet ::
  "('s, 'v) storeOps \<Rightarrow> 'v entryCodec \<Rightarrow> transport \<Rightarrow> string \<Rightarrow> 's \<Rightarrow> (peerErr + Entry option) \<times> 's" where
  "PeerGet ops cd t key s =
     (case callPeer t (internalGetHandler ops cd (Some key)) s of
        (None, s') \<Rightarrow> (Inl PeerUnreachable, s')
      | (Some (status, body), s') \<Rightarrow>
          (if status = 404 then (Inr None, s')
           else if status \<ge> 300 then (Inl (PeerStatus status), s')
           else (case body of None \<Rightarrow> (Inl PeerDecode, s') | Some entry \<Rightarrow> (Inr (Some entry), s'))))"

definition PeerScan ::
  "('s, 'v) storeOps \<Rightarrow> 'v entryCodec \<Rightarrow> transport \<Rightarrow> string \<Rightarrow> 's \<Rightarrow> (peerErr + KeyEntry list) \<times> 's" where
  "PeerScan ops cd t pre s =
     (case callPeer t (internalScanHandler ops cd (Some pre)) s of
        (None, s') \<Rightarrow> (Inl PeerUnreachable, s')
      | (Some (status, body), s') \<Rightarrow>
          (if status \<ge> 300 then (Inl (PeerStatus status), s')
           else (case body of None \<Rightarrow> (Inl PeerDecode, s') | Some entries \<Rightarrow> (Inr entries, s'))))"

section \<open>What a node holds\<close>

text \<open>The entries of a node, seen through the abstraction \<open>view\<close> of its store.\<close>

definition held :: "('s \<Rightarrow> bytes \<Rightarrow> 'v option) \<Rightarrow> 'v entryCodec \<Rightarrow> 's \<Rightarrow> string \<Rightarrow> Entry option" where
  "held view cd s key = Option.bind (view s key) (decEntry cd)"

definition nodeOk :: "('s \<Rightarrow> bytes \<Rightarrow> 'v option) \<Rightarrow> ('s \<Rightarrow> bool) \<Rightarrow> 'v entryCodec \<Rightarrow> 's \<Rightarrow> bool" where
  "nodeOk view sound cd s \<longleftrightarrow> sound s \<and> (\<forall>k v. view s k = Some v \<longrightarrow> decEntry cd v \<noteq> None)"

text \<open>A scan answers with the entries under the prefix, in ascending key order.\<close>

definition heldList :: "(string \<Rightarrow> Entry option) \<Rightarrow> string \<Rightarrow> KeyEntry list \<Rightarrow> bool" where
  "heldList h pre es \<longleftrightarrow> sorted_wrt (<) (map ke_key es) \<and>
     (\<forall>k e. \<lparr>ke_key = k, ke_entry = e\<rparr> \<in> set es \<longleftrightarrow> h k = Some e \<and> HasPrefix k pre)"

text \<open>The effect of writing items in order.\<close>

definition setItem :: "(string \<Rightarrow> Entry option) \<Rightarrow> KeyEntry \<Rightarrow> string \<Rightarrow> Entry option" where
  "setItem h i = h(ke_key i \<mapsto> ke_entry i)"

definition applyItems :: "(string \<Rightarrow> Entry option) \<Rightarrow> KeyEntry list \<Rightarrow> string \<Rightarrow> Entry option" where
  "applyItems h items = foldl setItem h items"

lemma applyItems_simps [simp]:
  "applyItems h [] = h" "applyItems h (i # items) = applyItems (setItem h i) items"
  by (simp_all add: applyItems_def)

lemma setItem_apply: "setItem h i k = (if k = ke_key i then Some (ke_entry i) else h k)"
  by (simp add: setItem_def)

text \<open>A store whose failing write to one key leaves the map as it was or has written it.\<close>

locale NodeStore = KVStore +
  assumes put_fail: "sound s \<Longrightarrow> sPut ops k v s = (Some e, s') \<Longrightarrow>
      view s' = view s \<or> view s' = (view s)(k \<mapsto> v)"
begin

lemma sPut_held:
  assumes "entryCodecOk cd" and "nodeOk view sound cd s" and "sPut ops k (encEntry cd e) s = (r, s')"
  shows "nodeOk view sound cd s' \<and>
    (held view cd s' = (held view cd s)(k \<mapsto> e) \<or> r \<noteq> None \<and> held view cd s' = held view cd s)"
proof -
  have s: "sound s" using assms(2) by (simp add: nodeOk_def)
  have "sound s'" using put_law [OF s assms(3)] by simp
  moreover have "view s' = (view s)(k \<mapsto> encEntry cd e) \<or> r \<noteq> None \<and> view s' = view s"
    using put_law [OF s assms(3)] put_fail [OF s, of k "encEntry cd e" _ s'] assms(3) by (cases r) auto
  moreover have "nodeOk view sound cd s' \<and> held view cd s' = (held view cd s)(k \<mapsto> e)"
    if "view s' = (view s)(k \<mapsto> encEntry cd e)" "sound s'"
    using that assms(2) decEntry_encEntry [OF assms(1)] by (simp add: nodeOk_def held_def fun_eq_iff)
  moreover have "nodeOk view sound cd s' \<and> held view cd s' = held view cd s" if "view s' = view s" "sound s'"
    using that assms(2) by (simp add: nodeOk_def held_def fun_eq_iff)
  ultimately show ?thesis by blast
qed

lemma PeerPut_held:
  assumes "entryCodecOk cd" and "nodeOk view sound cd s" and "PeerPut ops cd t k e s = (r, s')"
  shows "nodeOk view sound cd s' \<and>
    (held view cd s' = (held view cd s)(k \<mapsto> e) \<or> r \<noteq> None \<and> held view cd s' = held view cd s)"
proof (cases "sPut ops k (encEntry cd e) s")
  case (Pair r1 s1)
  then show ?thesis using sPut_held [OF assms(1,2) Pair] assms(2,3)
    by (auto simp: PeerPut_def callPeer_def internalPutHandler_def writeOutcome_def
      split: transport.splits option.splits)
qed

text \<open>A batch writes its items in order, up to an error.\<close>

lemma putItems_held:
  assumes "entryCodecOk cd" and "nodeOk view sound cd s" and "putItems ops cd items s = (status, s')"
  shows "nodeOk view sound cd s' \<and> (\<exists>done. prefix done items \<and> (status < 300 \<longrightarrow> done = items) \<and>
    held view cd s' = applyItems (held view cd s) done)"
  using assms(2,3)
proof (induction items arbitrary: s)
  case Nil
  then show ?case by auto
next
  case (Cons i items)
  obtain r s1 where put: "sPut ops (ke_key i) (encEntry cd (ke_entry i)) s = (r, s1)" by fastforce
  have p: "nodeOk view sound cd s1"
    "held view cd s1 = setItem (held view cd s) i \<or> r \<noteq> None \<and> held view cd s1 = held view cd s"
    using sPut_held [OF assms(1) Cons.prems(1) put] by (simp_all only: setItem_def)
  show ?case
  proof (cases r)
    case None
    have rest: "putItems ops cd items s1 = (status, s')" using Cons.prems(2) put None by simp
    have h: "held view cd s1 = setItem (held view cd s) i" using p(2) None by blast
    obtain d where "prefix d items" "status < 300 \<longrightarrow> d = items" "held view cd s' = applyItems (held view cd s1) d"
      and n: "nodeOk view sound cd s'" using Cons.IH [OF p(1) rest] by blast
    then have "prefix (i # d) (i # items) \<and> (status < 300 \<longrightarrow> i # d = i # items) \<and>
        held view cd s' = applyItems (held view cd s) (i # d)"
      by (simp only: h applyItems_simps list.inject Cons_prefix_Cons simp_thms)
    then show ?thesis using n by blast
  next
    case (Some e)
    then have st: "status = 500" "s' = s1" using Cons.prems put by auto
    have "prefix [] (i # items)" "prefix [i] (i # items)" "held view cd s = applyItems (held view cd s) []"
      "setItem (held view cd s) i = applyItems (held view cd s) [i]" by simp_all
    moreover have "\<not> status < 300" using st by simp
    ultimately show ?thesis using p unfolding st(2) by metis
  qed
qed

lemma PeerPutBatch_held:
  assumes "entryCodecOk cd" and "nodeOk view sound cd s" and "PeerPutBatch ops cd t items s = (r, s')"
  shows "nodeOk view sound cd s' \<and> (\<exists>done. prefix done items \<and> (r = None \<longrightarrow> done = items) \<and>
    held view cd s' = applyItems (held view cd s) done)"
proof (cases "putItems ops cd items s")
  case (Pair status s1)
  then show ?thesis using putItems_held [OF assms(1,2) Pair] assms(2,3)
    by (cases t) (auto simp: PeerPutBatch_def callPeer_def internalPutBatchHandler_def writeOutcome_def
      split: if_splits intro: exI [of _ "[]"])
qed

lemma PeerGet_held:
  assumes "nodeOk view sound cd s" and "PeerGet ops cd t k s = (r, s')"
  shows "nodeOk view sound cd s' \<and> held view cd s' = held view cd s \<and> (\<forall>v. r = Inr v \<longrightarrow> v = held view cd s k)"
proof (cases "sGet ops k s")
  case (Pair rg s1)
  then have "sound s1" "view s1 = view s" "\<And>v. rg = Inr v \<Longrightarrow> v = view s k"
    using get_law [of s k rg s1] assms(1) by (auto simp: nodeOk_def)
  then show ?thesis using assms Pair
    by (auto simp: PeerGet_def callPeer_def internalGetHandler_def nodeOk_def held_def
      split: transport.splits sum.splits option.splits if_splits)
qed

lemma decodeEntries_ok:
  "\<forall>(k, v) \<in> set kvs. decEntry cd v \<noteq> None \<Longrightarrow>
    decodeEntries cd kvs = Some (map (\<lambda>(k, v). \<lparr>ke_key = k, ke_entry = the (decEntry cd v)\<rparr>) kvs)"
  by (induction kvs) auto

lemma scan_heldList:
  assumes "nodeOk view sound cd s" and "scanList (view s) pre kvs"
  shows "\<exists>es. decodeEntries cd kvs = Some es \<and> heldList (held view cd s) pre es"
proof -
  let ?f = "\<lambda>(k, v). \<lparr>ke_key = k, ke_entry = the (decEntry cd v)\<rparr>"
  have all: "\<forall>(k, v) \<in> set kvs. decEntry cd v \<noteq> None"
    using assms by (auto simp: nodeOk_def scanList_def)
  have keys: "map ke_key (map ?f kvs) = map fst kvs" by auto
  have mem: "\<lparr>ke_key = k, ke_entry = e\<rparr> \<in> set (map ?f kvs) \<longleftrightarrow> held view cd s k = Some e \<and> HasPrefix k pre" for k e
  proof -
    have "\<lparr>ke_key = k, ke_entry = e\<rparr> \<in> set (map ?f kvs) \<longleftrightarrow> (\<exists>v. (k, v) \<in> set kvs \<and> e = the (decEntry cd v))"
      by force
    also have "\<dots> \<longleftrightarrow> held view cd s k = Some e \<and> HasPrefix k pre"
      using assms by (auto simp: scanList_def held_def nodeOk_def bind_eq_Some_conv)
    finally show ?thesis .
  qed
  have "heldList (held view cd s) pre (map ?f kvs)"
    using assms(2) mem unfolding heldList_def keys by (simp add: scanList_def)
  then show ?thesis using decodeEntries_ok [OF all] by blast
qed

lemma PeerScan_held:
  assumes "nodeOk view sound cd s" and "PeerScan ops cd t pre s = (r, s')"
  shows "nodeOk view sound cd s' \<and> held view cd s' = held view cd s \<and>
    (\<forall>es. r = Inr es \<longrightarrow> heldList (held view cd s) pre es)"
proof (cases "sScan ops pre s")
  case (Pair rs s1)
  then have s1: "sound s1" "view s1 = view s" "\<And>kvs. rs = Inr kvs \<Longrightarrow> scanList (view s) pre kvs"
    using scan_law [of s pre rs s1] assms(1) by (auto simp: nodeOk_def)
  show ?thesis
  proof (cases rs)
    case (Inl e)
    then show ?thesis using assms Pair s1
      by (auto simp: PeerScan_def callPeer_def internalScanHandler_def nodeOk_def held_def split: transport.splits)
  next
    case (Inr kvs)
    then obtain es where "decodeEntries cd kvs = Some es" "heldList (held view cd s) pre es"
      using scan_heldList [OF assms(1) s1(3)] by blast
    then show ?thesis using assms Pair s1 Inr
      by (auto simp: PeerScan_def callPeer_def internalScanHandler_def nodeOk_def held_def split: transport.splits)
  qed
qed

end

interpretation refNode: NodeStore refOps map_of refInv
  by unfold_locales (simp add: refOps_def)

interpretation engNode: NodeStore engOps absMap engInv
proof unfold_locales
  show "sPut engOps k v s = (Some e, s') \<Longrightarrow> absMap s' = absMap s \<or> absMap s' = (absMap s)(k \<mapsto> v)"
    if "engInv s" for s k v e s'
    using engPutOp_law [OF that, of k v "Some e" s'] by (auto simp: engOps_def engPutOp_def split: if_splits)
qed

end
