(* ===== verification/Ring.thy ===== *)
theory Ring
  imports Binary "HOL-Library.Multiset"
begin

text \<open>
  The consistent-hash ring, \<open>src/api/queel/cluster/ring.go\<close>. The hash, the first eight bytes of a
  SHA-1, is the parameter \<open>hash\<close>. The lemmas show that \<open>ReplicasFor\<close> walks the ring clockwise and
  keeps the first occurrences of nodes, which gives the number and distinctness of replicas, their
  independence from the order in which nodes are listed, and what a change of members moves.
\<close>

section \<open>State and operations\<close>

type_synonym Node = string

definition virtualNodesPerNode :: nat where
  "virtualNodesPerNode = 100"

record point =
  point_hash :: "64 word"
  point_node :: Node

record Ring =
  ring_replicationFactor :: int
  ring_points :: "point list"

definition nodePoints :: "(string \<Rightarrow> 64 word) \<Rightarrow> Node \<Rightarrow> point list" where
  "nodePoints hash node =
     map (\<lambda>v. \<lparr>point_hash = hash (node @ ''#'' @ Itoa (int v)), point_node = node\<rparr>) [0..<virtualNodesPerNode]"

definition NewRing :: "(string \<Rightarrow> 64 word) \<Rightarrow> Node list \<Rightarrow> int \<Rightarrow> Ring" where
  "NewRing hash nodes replicationFactor =
     (let distinctNodes = remdups nodes
      in \<lparr>ring_replicationFactor =
            (if replicationFactor > int (length distinctNodes) then int (length distinctNodes) else replicationFactor),
          ring_points = sort_key point_hash (concat (map (nodePoints hash) distinctNodes))\<rparr>)"

function replicaLoop :: "Ring \<Rightarrow> nat \<Rightarrow> nat \<Rightarrow> Node list \<Rightarrow> Node list" where
  "replicaLoop r start i replicas =
     (if int (length replicas) < ring_replicationFactor r \<and> i < length (ring_points r)
      then let p = ring_points r ! ((start + i) mod length (ring_points r))
        in if point_node p \<in> set replicas then replicaLoop r start (i + 1) replicas
           else replicaLoop r start (i + 1) (replicas @ [point_node p])
      else replicas)"
  by pat_completeness auto
termination
  by (relation "measure (\<lambda>(r, start, i, replicas). length (ring_points r) - i)") auto

declare replicaLoop.simps [simp del]

text \<open>With a negative replication factor, a configuration that nothing refuses, the code panics when it
  makes the slice; here it is read as zero.\<close>

definition ReplicasFor :: "(string \<Rightarrow> 64 word) \<Rightarrow> Ring \<Rightarrow> string \<Rightarrow> Node list" where
  "ReplicasFor hash r key =
     (if ring_points r = [] \<or> ring_replicationFactor r = 0 then []
      else let h = hash key;
               start = Search (length (ring_points r)) (\<lambda>i. point_hash (ring_points r ! i) \<ge> h)
        in replicaLoop r start 0 [])"

definition Quorum :: "nat \<Rightarrow> nat" where
  "Quorum replicationFactor = replicationFactor div 2 + 1"

section \<open>First occurrences\<close>

fun uniq :: "'a list \<Rightarrow> 'a list" where
  "uniq [] = []"
| "uniq (x # xs) = x # filter (\<lambda>y. y \<noteq> x) (uniq xs)"

lemma set_uniq [simp]: "set (uniq xs) = set xs"
  by (induction xs) auto

lemma distinct_uniq [simp]: "distinct (uniq xs)"
  by (induction xs) auto

lemma uniq_filter: "uniq (filter P xs) = filter P (uniq xs)"
  by (induction xs) (auto simp: filter_filter conj_commute intro: filter_cong)

lemma length_uniq: "length (uniq xs) = card (set xs)"
  by (metis distinct_card distinct_uniq set_uniq)

text \<open>The nodes met on the walk from position \<open>start\<close> on.\<close>

definition walk :: "Ring \<Rightarrow> nat \<Rightarrow> Node list" where
  "walk r start = map point_node (rotate start (ring_points r))"

lemma replicaLoop_walk:
  assumes "i \<le> length (ring_points r)" and "distinct replicas" and "int (length replicas) \<le> ring_replicationFactor r"
  shows "replicaLoop r start i replicas =
    take (nat (ring_replicationFactor r)) (replicas @ filter (\<lambda>n. n \<notin> set replicas) (uniq (drop i (walk r start))))"
  using assms
proof (induction r start i replicas rule: replicaLoop.induct)
  case (1 r start i replicas)
  let ?n = "length (ring_points r)" and ?rf = "ring_replicationFactor r" and ?w = "walk r start"
  show ?case
  proof (cases "int (length replicas) < ?rf \<and> i < ?n")
    case False
    then have "replicaLoop r start i replicas = replicas" by (subst replicaLoop.simps) (simp only: if_False simp_thms)
    moreover have "nat ?rf = length replicas \<or> drop i ?w = []"
      using False "1.prems" by (auto simp: walk_def)
    ultimately show ?thesis using "1.prems" by auto
  next
    case True
    let ?p = "point_node (ring_points r ! ((start + i) mod ?n))"
    have hd: "drop i ?w = ?p # drop (Suc i) ?w"
      using True by (simp add: walk_def Cons_nth_drop_Suc [symmetric] nth_rotate)
    show ?thesis
    proof (cases "?p \<in> set replicas")
      case seen: True
      have eq: "replicaLoop r start i replicas = replicaLoop r start (i + 1) replicas"
        using True seen by (simp add: replicaLoop.simps [of r start i replicas] Let_def)
      have "replicaLoop r start (i + 1) replicas =
          take (nat ?rf) (replicas @ filter (\<lambda>n. n \<notin> set replicas) (uniq (drop (i + 1) ?w)))"
        using True seen "1.prems" by (intro "1.IH"(1)) auto
      moreover have "filter (\<lambda>n. n \<notin> set replicas) (uniq (drop i ?w)) =
          filter (\<lambda>n. n \<notin> set replicas) (uniq (drop (i + 1) ?w))"
        unfolding hd using seen by (auto intro!: filter_cong)
      ultimately show ?thesis unfolding eq by simp
    next
      case new: False
      have eq: "replicaLoop r start i replicas = replicaLoop r start (i + 1) (replicas @ [?p])"
        using True new by (simp add: replicaLoop.simps [of r start i replicas] Let_def)
      have "replicaLoop r start (i + 1) (replicas @ [?p]) = take (nat ?rf)
          ((replicas @ [?p]) @ filter (\<lambda>n. n \<notin> set (replicas @ [?p])) (uniq (drop (i + 1) ?w)))"
        using True new "1.prems" by (intro "1.IH"(2)) auto
      moreover have "filter (\<lambda>n. n \<notin> set replicas) (uniq (drop i ?w)) =
          ?p # filter (\<lambda>n. n \<notin> set (replicas @ [?p])) (uniq (drop (i + 1) ?w))"
        unfolding hd using new by (auto intro!: filter_cong)
      ultimately show ?thesis unfolding eq by simp
    qed
  qed
qed

section \<open>The walk in terms of hashes\<close>

lemma rotate_split: "n \<le> length xs \<Longrightarrow> rotate n xs = drop n xs @ take n xs"
  by (metis append_take_drop_id length_take min.absorb2 rotate_append)

text \<open>The points at or after \<open>h\<close>, then those before it.\<close>

definition clockwise :: "64 word \<Rightarrow> point list \<Rightarrow> point list" where
  "clockwise h ps = filter (\<lambda>p. h \<le> point_hash p) ps @ filter (\<lambda>p. point_hash p < h) ps"

lemma clockwise_start:
  assumes "sorted (map point_hash ps)"
  shows "rotate (Search (length ps) (\<lambda>i. point_hash (ps ! i) \<ge> h)) ps = clockwise h ps"
proof -
  let ?f = "\<lambda>i. point_hash (ps ! i) \<ge> h"
  define s where "s = Search (length ps) ?f"
  have mono: "?f b" if "a \<le> b" "b < length ps" "?f a" for a b
    using that sorted_nth_mono [OF assms, of a b] by auto
  have s: "s \<le> length ps" "\<And>k. k < s \<Longrightarrow> \<not> ?f k" "\<And>k. s \<le> k \<Longrightarrow> k < length ps \<Longrightarrow> ?f k"
    unfolding s_def using Search_correct [of "length ps" ?f] mono by blast+
  have t: "\<forall>p \<in> set (take s ps). point_hash p < h" using s(1,2) by (auto simp: in_set_conv_nth not_le)
  have d: "\<forall>p \<in> set (drop s ps). h \<le> point_hash p" using s(1,3) by (auto simp: in_set_conv_nth)
  have "clockwise h (take s ps @ drop s ps) = drop s ps @ take s ps"
  proof -
    have "filter (\<lambda>p. h \<le> point_hash p) (take s ps) = []" "filter (\<lambda>p. point_hash p < h) (drop s ps) = []"
      using t d by (simp_all only: filter_empty_conv not_le not_less)
    moreover have "filter (\<lambda>p. h \<le> point_hash p) (drop s ps) = drop s ps" "filter (\<lambda>p. point_hash p < h) (take s ps) = take s ps"
      using t d by (simp_all only: filter_id_conv)
    ultimately show ?thesis unfolding clockwise_def filter_append by (simp only: append_Nil append_Nil2)
  qed
  then show ?thesis using rotate_split [OF s(1)] by (simp add: s_def)
qed

definition ringWalk :: "(string \<Rightarrow> 64 word) \<Rightarrow> Node list \<Rightarrow> string \<Rightarrow> Node list" where
  "ringWalk hash nodes key = uniq (map point_node (clockwise (hash key) (ring_points (NewRing hash nodes 0))))"

lemma points_NewRing:
  "ring_points (NewRing hash nodes rf) = sort_key point_hash (concat (map (nodePoints hash) (remdups nodes)))"
  by (simp add: NewRing_def Let_def)

lemma points_rf: "ring_points (NewRing hash nodes rf) = ring_points (NewRing hash nodes 0)"
  by (simp add: points_NewRing)

lemma set_points:
  "set (ring_points (NewRing hash nodes rf)) = (\<Union>n \<in> set nodes. set (nodePoints hash n))"
  by (simp add: points_NewRing)

lemma node_nodePoints: "p \<in> set (nodePoints hash n) \<Longrightarrow> point_node p = n"
  by (auto simp: nodePoints_def)

lemma nodePoints_nonempty: "nodePoints hash n \<noteq> []"
  by (simp add: nodePoints_def virtualNodesPerNode_def)

lemma set_ringWalk: "set (ringWalk hash nodes key) = set nodes"
proof -
  have "set (clockwise h ps) = set ps" for h ps by (auto simp: clockwise_def)
  then have "set (ringWalk hash nodes key) = point_node ` (\<Union>n \<in> set nodes. set (nodePoints hash n))"
    by (simp add: ringWalk_def set_points)
  also have "\<dots> = set nodes"
  proof
    show "set nodes \<subseteq> point_node ` (\<Union>n \<in> set nodes. set (nodePoints hash n))"
    proof
      fix n assume n: "n \<in> set nodes"
      obtain p where "p \<in> set (nodePoints hash n)" using nodePoints_nonempty [of hash n] by (meson hd_in_set)
      then show "n \<in> point_node ` (\<Union>n \<in> set nodes. set (nodePoints hash n))"
        using n node_nodePoints by force
    qed
  qed (auto dest: node_nodePoints)
  finally show ?thesis .
qed

text \<open>\<open>ReplicasFor\<close> on a new ring: the first nodes of the walk.\<close>

lemma length_ringWalk: "length (ringWalk hash nodes key) = card (set nodes)"
  using length_uniq set_ringWalk [of hash nodes key] unfolding ringWalk_def by (metis set_uniq)

lemma distinct_ringWalk: "distinct (ringWalk hash nodes key)"
  by (simp add: ringWalk_def)

lemma ReplicasFor_walk:
  "ReplicasFor hash (NewRing hash nodes rf) key = take (nat rf) (ringWalk hash nodes key)"
proof (cases "0 \<le> rf")
  case False
  then have "ring_replicationFactor (NewRing hash nodes rf) = rf" by (simp add: NewRing_def Let_def)
  then show ?thesis using False by (simp add: ReplicasFor_def Let_def replicaLoop.simps)
next
  case nonneg: True
  let ?r = "NewRing hash nodes rf"
  have len: "length (ringWalk hash nodes key) = length (remdups nodes)"
    by (simp add: length_ringWalk length_remdups_card_conv)
  have rf: "nat (ring_replicationFactor ?r) = min (nat rf) (length (remdups nodes))" "0 \<le> ring_replicationFactor ?r"
    using nonneg by (auto simp: NewRing_def Let_def)
  show ?thesis
  proof (cases "ring_points ?r = [] \<or> ring_replicationFactor ?r = 0")
    case True
    have "ring_points ?r = [] \<Longrightarrow> ringWalk hash nodes key = []"
      using points_rf [of hash nodes rf] by (simp add: ringWalk_def clockwise_def)
    moreover have "nat rf = 0 \<or> length (ringWalk hash nodes key) = 0" if "ring_replicationFactor ?r = 0"
      using that rf(1) len by (simp add: min_def split: if_splits)
    ultimately have "take (nat rf) (ringWalk hash nodes key) = []" using True by auto
    then show ?thesis using True by (simp add: ReplicasFor_def)
  next
    case False
    let ?s = "Search (length (ring_points ?r)) (\<lambda>i. hash key \<le> point_hash (ring_points ?r ! i))"
    have "ReplicasFor hash ?r key = take (nat (ring_replicationFactor ?r)) (uniq (walk ?r ?s))"
      using False rf(2) replicaLoop_walk [of 0 ?r "[]" ?s] by (simp add: ReplicasFor_def Let_def)
    also have "uniq (walk ?r ?s) = ringWalk hash nodes key"
      unfolding walk_def ringWalk_def points_rf [of hash nodes rf, symmetric]
      by (subst clockwise_start) (simp_all add: points_NewRing)
    finally show ?thesis using rf(1) len by (simp add: min_def)
  qed
qed

lemma ReplicasFor_single: "1 \<le> rf \<Longrightarrow> ReplicasFor hash (NewRing hash [n] rf) key = [n]"
proof -
  assume "1 \<le> rf"
  obtain x where x: "ringWalk hash [n] key = [x]"
    using length_ringWalk [of hash "[n]" key] by (auto simp: length_Suc_conv)
  then have "x = n" using set_ringWalk [of hash "[n]" key] by simp
  then show ?thesis using x \<open>1 \<le> rf\<close> by (simp add: ReplicasFor_walk)
qed

section \<open>Changes of membership\<close>

text \<open>Go's \<open>sort.Slice\<close> is not stable: where two nodes have a virtual point of the same hash the order
  of the two is open. \<open>collisionFree\<close> says that this does not happen on the given nodes.\<close>

definition collisionFree :: "(string \<Rightarrow> 64 word) \<Rightarrow> Node set \<Rightarrow> bool" where
  "collisionFree hash ns \<longleftrightarrow> inj_on point_hash (\<Union>n \<in> ns. set (nodePoints hash n))"

lemma mset_points:
  "mset (ring_points (NewRing hash nodes rf)) = (\<Sum>n \<in> set nodes. mset (nodePoints hash n))"
proof -
  have "mset (concat (map f ns)) = (\<Sum>n \<in> set ns. mset (f n))" if "distinct ns" for f :: "Node \<Rightarrow> point list" and ns
    using that by (induction ns) auto
  from this [of "remdups nodes" "nodePoints hash"] show ?thesis by (simp add: points_NewRing)
qed

lemma points_listing_order:
  assumes "collisionFree hash (set nodes)" and "set nodes' = set nodes"
  shows "ring_points (NewRing hash nodes rf) = ring_points (NewRing hash nodes' rf)"
proof -
  let ?c = "concat (map (nodePoints hash) (remdups nodes))"
  have "mset ?c = mset (ring_points (NewRing hash nodes' rf))"
    using mset_points [of hash nodes rf] mset_points [of hash nodes' rf] assms(2) by (simp add: points_NewRing)
  moreover have "inj_on point_hash (set ?c)" using assms(1) by (simp add: collisionFree_def)
  ultimately have "sort_key point_hash ?c = ring_points (NewRing hash nodes' rf)"
    by (intro sort_key_inj_key_eq) (simp_all add: points_NewRing)
  then show ?thesis by (simp add: points_NewRing)
qed

lemma points_without:
  "filter (\<lambda>p. point_node p \<noteq> n) (ring_points (NewRing hash nodes rf)) =
    ring_points (NewRing hash (filter (\<lambda>m. m \<noteq> n) nodes) rf)"
proof -
  have one: "filter (\<lambda>p. point_node p \<noteq> n) (nodePoints hash m) = (if m = n then [] else nodePoints hash m)" for m
    using node_nodePoints by (auto simp: filter_empty_conv filter_id_conv)
  have "filter (\<lambda>p. point_node p \<noteq> n) (concat (map (nodePoints hash) ms)) =
      concat (map (nodePoints hash) (filter (\<lambda>m. m \<noteq> n) ms))" for ms
    by (induction ms) (auto simp: one)
  then show ?thesis by (simp add: points_NewRing filter_sort remdups_filter)
qed

lemma filter_map_node: "filter (\<lambda>m. m \<noteq> n) (map point_node ps) = map point_node (filter (\<lambda>p. point_node p \<noteq> n) ps)"
  by (simp add: filter_map o_def)

lemma ringWalk_without:
  "filter (\<lambda>m. m \<noteq> n) (ringWalk hash nodes key) = ringWalk hash (filter (\<lambda>m. m \<noteq> n) nodes) key"
proof -
  have "filter P (clockwise h ps) = clockwise h (filter P ps)" for P h ps
    by (simp add: clockwise_def conj_commute)
  then show ?thesis
    unfolding ringWalk_def uniq_filter [symmetric] filter_map_node by (simp add: points_without)
qed

lemma ringWalk_leave:
  assumes "collisionFree hash (set nodes)" and "set nodes' = set nodes - {n}"
  shows "ringWalk hash nodes' key = filter (\<lambda>m. m \<noteq> n) (ringWalk hash nodes key)"
proof -
  let ?f = "filter (\<lambda>m. m \<noteq> n) nodes"
  have "collisionFree hash (set ?f)" "set nodes' = set ?f"
    using assms by (auto simp: collisionFree_def intro: inj_on_subset)
  then have "ringWalk hash ?f key = ringWalk hash nodes' key"
    by (simp add: ringWalk_def points_listing_order [of hash ?f nodes'])
  then show ?thesis by (simp add: ringWalk_without)
qed

lemma filter_take_prefix:
  "prefix (filter P (take k xs)) (take k (filter P xs))"
proof (induction xs arbitrary: k)
  case (Cons x xs)
  show ?case
  proof (cases k)
    case (Suc j)
    have "prefix (filter P (take j xs)) (take (Suc j) (filter P xs))"
      using Cons.IH [of j] by (metis prefix_order.trans take_is_prefix take_take min.absorb1 le_SucI le_refl)
    then show ?thesis using Suc Cons.IH [of j] by auto
  qed simp
qed simp

text \<open>C18: A key has min(replication factor, number of distinct nodes) replicas on the ring; they are
  distinct and are nodes of the ring, whatever the hash is.\<close>

theorem replicas_distinct_nodes:
  "let rs = ReplicasFor hash (NewRing hash nodes rf) key
   in distinct rs \<and> set rs \<subseteq> set nodes \<and> length rs = min (nat rf) (card (set nodes))"
  unfolding Let_def ReplicasFor_walk
  using set_take_subset [of "nat rf" "ringWalk hash nodes key"]
  by (auto simp: set_ringWalk length_ringWalk distinct_ringWalk)

text \<open>When no two points of the nodes on the ring have the same hash (\<open>collisionFree\<close>; with equal
  hashes the order of the points is open): when a node leaves the ring, in whatever order the remaining nodes are listed, every
  other replica of a key stays its replica and keeps its rank among them, and a key the node was no
  replica of keeps its replicas exactly; so only the keys of the leaving node move. With a node that
  was not there the statement says that the order in which nodes are listed does not matter.\<close>

theorem ring_leave:
  assumes "collisionFree hash (set nodes)" and "set nodes' = set nodes - {n}"
  shows "let old = ReplicasFor hash (NewRing hash nodes rf) key;
             new = ReplicasFor hash (NewRing hash nodes' rf) key
         in prefix (filter (\<lambda>m. m \<noteq> n) old) new \<and> (n \<in> set old \<or> new = old)"
proof -
  let ?w = "ringWalk hash nodes key" and ?k = "nat rf"
  have new: "ReplicasFor hash (NewRing hash nodes' rf) key = take ?k (filter (\<lambda>m. m \<noteq> n) ?w)"
    using assms by (simp add: ReplicasFor_walk ringWalk_leave)
  have "take ?k (filter (\<lambda>m. m \<noteq> n) ?w) = take ?k ?w" if "n \<notin> set (take ?k ?w)"
  proof -
    have "filter (\<lambda>m. m \<noteq> n) (take ?k ?w) = take ?k ?w" using that by (auto simp: filter_id_conv)
    then have p: "prefix (take ?k ?w) (take ?k (filter (\<lambda>m. m \<noteq> n) ?w))"
      using filter_take_prefix [of "\<lambda>m. m \<noteq> n" ?k ?w] by simp
    have "length (take ?k (filter (\<lambda>m. m \<noteq> n) ?w)) \<le> length (take ?k ?w)"
      using length_filter_le [of "\<lambda>m. m \<noteq> n" ?w] by (simp add: min_le_iff_disj)
    then show ?thesis using p by (metis prefix_length_le prefix_length_prefix prefix_order.eq_iff)
  qed
  then show ?thesis unfolding Let_def new by (auto simp: ReplicasFor_walk intro: filter_take_prefix)
qed

theorem ring_leave_witness:
  "let h = (\<lambda>s::string. if s = [] then 0 else of_char (hd s));
       old = ReplicasFor h (NewRing h [''a'', ''b'', ''c''] 2) ''a'';
       new = ReplicasFor h (NewRing h [''c'', ''a''] 2) ''a''
   in prefix (filter (\<lambda>m. m \<noteq> ''b'') old) new \<and> (''b'' \<in> set old \<or> new = old)"
proof -
  let ?h = "\<lambda>s::string. if s = [] then 0 else of_char (hd s) :: 64 word"
  have p: "set (nodePoints ?h [c]) = {\<lparr>point_hash = of_char c, point_node = [c]\<rparr>}" for c
    by (auto simp: nodePoints_def virtualNodesPerNode_def image_iff) (rule exI [of _ 0], simp)
  have "collisionFree ?h (set [''a'', ''b'', ''c''])"
    by (simp add: collisionFree_def p)
  moreover have "set [''c'', ''a''] = set [''a'', ''b'', ''c''] - {''b''}" by auto
  ultimately show ?thesis unfolding Let_def by (rule ring_leave [unfolded Let_def])
qed

section \<open>Quorums\<close>

lemma card_quorums:
  assumes "finite R" "A \<subseteq> R" "B \<subseteq> R" "Quorum (card R) \<le> card A" "Quorum (card R) \<le> card B"
  shows "A \<inter> B \<noteq> {}"
proof
  assume "A \<inter> B = {}"
  then have "card (A \<union> B) = card A + card B"
    using assms finite_subset by (intro card_Un_disjoint) auto
  moreover have "card (A \<union> B) \<le> card R" using assms by (intro card_mono) auto
  moreover have "card R < 2 * Quorum (card R)" by (simp add: Quorum_def)
  ultimately show False using assms by linarith
qed

end
