(* ===== verification/Coordinator.thy ===== *)
theory Coordinator
  imports Peer Ring
begin

text \<open>
  Quorum replication, \<open>src/api/queel/cluster/coordinator.go\<close>, and its use as a store,
  \<open>src/api/queel/cluster/store.go\<close>. The cluster is a function from nodes to the states of their
  stores. The calls of one operation go to different nodes, so their order matters only for the order
  in which answers arrive, which is an argument (\<open>env_arrive\<close>) together with what becomes of each call
  and the readings of the clock. The lemmas are about what a key's replicas hold: a write that reached
  a quorum is what later reads return until another write of the key is attempted.
\<close>

section \<open>State and operations\<close>

record Coordinator =
  coord_ring :: Ring
  coord_peers :: "Node list"

text \<open>\<open>SetMembers\<close>; the peer clients hold no state besides the address, so the set of nodes stands for
  the map of clients.\<close>

definition SetMembers :: "(string \<Rightarrow> 64 word) \<Rightarrow> Coordinator \<Rightarrow> Node list \<Rightarrow> int \<Rightarrow> Coordinator" where
  "SetMembers hash c alive replicationFactor =
     c\<lparr>coord_ring := NewRing hash alive replicationFactor, coord_peers := remdups alive\<rparr>"

text \<open>What the network does to the calls of one operation, and to the repairs it sends afterwards.\<close>

record callEnv =
  env_transport :: "Node \<Rightarrow> transport"
  env_repair :: "Node \<Rightarrow> transport"
  env_arrive :: "Node list \<Rightarrow> Node list"
  env_now :: "nat \<Rightarrow> int"

datatype coordErr =
    NoReplicas string
  | WriteQuorum string nat nat
  | WriteQuorumKeys "string list"
  | ReadQuorum string nat nat
  | ScanFailed string

record ('s, 'v) cluster =
  cl_ops :: "('s, 'v) storeOps"
  cl_codec :: "'v entryCodec"
  cl_hash :: "string \<Rightarrow> 64 word"

type_synonym 's net = "Node \<Rightarrow> 's"

definition putStep ::
  "('s, 'v) cluster \<Rightarrow> Coordinator \<Rightarrow> callEnv \<Rightarrow> string \<Rightarrow> Entry \<Rightarrow> nat \<times> 's net \<Rightarrow> Node \<Rightarrow> nat \<times> 's net" where
  "putStep cl c env key entry = (\<lambda>(acked, net) node.
     if node \<notin> set (coord_peers c) then (acked, net)
     else case PeerPut (cl_ops cl) (cl_codec cl) (env_transport env node) key entry (net node) of
            (None, s) \<Rightarrow> (acked + 1, net(node := s))
          | (Some e, s) \<Rightarrow> (acked, net(node := s)))"

definition coordWrite ::
  "('s, 'v) cluster \<Rightarrow> Coordinator \<Rightarrow> callEnv \<Rightarrow> string \<Rightarrow> Entry \<Rightarrow> 's net \<Rightarrow> coordErr option \<times> 's net" where
  "coordWrite cl c env key entry net =
     (let replicas = ReplicasFor (cl_hash cl) (coord_ring c) key
      in if replicas = [] then (Some (NoReplicas key), net)
         else let quorum = Quorum (length replicas);
                  (acked, net') = foldl (putStep cl c env key entry) (0, net) replicas
           in if acked < quorum then (Some (WriteQuorum key acked quorum), net') else (None, net'))"

definition CoordPut ::
  "('s, 'v) cluster \<Rightarrow> Coordinator \<Rightarrow> callEnv \<Rightarrow> string \<Rightarrow> bytes \<Rightarrow> 's net \<Rightarrow> coordErr option \<times> 's net" where
  "CoordPut cl c env key v net = coordWrite cl c env key (NewEntry (env_now env 0) v False) net"

definition CoordDelete ::
  "('s, 'v) cluster \<Rightarrow> Coordinator \<Rightarrow> callEnv \<Rightarrow> string \<Rightarrow> 's net \<Rightarrow> coordErr option \<times> 's net" where
  "CoordDelete cl c env key net = coordWrite cl c env key (NewEntry (env_now env 0) [] True) net"

text \<open>The plans of a batch: per op its key, its replicas and its stamped entry; an op with no replicas
  stops the batch before anything is sent.\<close>

record batchPlan =
  plan_key :: string
  plan_replicas :: "Node list"
  plan_entry :: Entry

fun opEntry :: "int \<Rightarrow> bytes wop \<Rightarrow> Entry" where
  "opEntry now (PutOp k v) = NewEntry now v False"
| "opEntry now (DelOp k) = NewEntry now [] True"

fun batchPlans ::
  "('s, 'v) cluster \<Rightarrow> Coordinator \<Rightarrow> callEnv \<Rightarrow> nat \<Rightarrow> bytes wop list \<Rightarrow> coordErr + batchPlan list" where
  "batchPlans cl c env i [] = Inr []"
| "batchPlans cl c env i (w # ws) =
     (let replicas = ReplicasFor (cl_hash cl) (coord_ring c) (opKey w)
      in if replicas = [] then Inl (NoReplicas (opKey w))
         else case batchPlans cl c env (i + 1) ws of
                Inl e \<Rightarrow> Inl e
              | Inr plans \<Rightarrow>
                  Inr (\<lparr>plan_key = opKey w, plan_replicas = replicas, plan_entry = opEntry (env_now env i) w\<rparr> # plans))"

definition itemsFor :: "batchPlan list \<Rightarrow> Node \<Rightarrow> KeyEntry list" where
  "itemsFor plans node =
     map (\<lambda>p. \<lparr>ke_key = plan_key p, ke_entry = plan_entry p\<rparr>) (filter (\<lambda>p. node \<in> set (plan_replicas p)) plans)"

definition batchStep ::
  "('s, 'v) cluster \<Rightarrow> Coordinator \<Rightarrow> callEnv \<Rightarrow> batchPlan list \<Rightarrow> Node set \<times> 's net \<Rightarrow> Node \<Rightarrow> Node set \<times> 's net" where
  "batchStep cl c env plans = (\<lambda>(acked, net) node.
     if node \<notin> set (coord_peers c) then (acked, net)
     else case PeerPutBatch (cl_ops cl) (cl_codec cl) (env_transport env node) (itemsFor plans node) (net node) of
            (None, s) \<Rightarrow> (insert node acked, net(node := s))
          | (Some e, s) \<Rightarrow> (acked, net(node := s)))"

definition CoordWriteBatch ::
  "('s, 'v) cluster \<Rightarrow> Coordinator \<Rightarrow> callEnv \<Rightarrow> bytes wop list \<Rightarrow> 's net \<Rightarrow> coordErr option \<times> 's net" where
  "CoordWriteBatch cl c env ws net =
     (if ws = [] then (None, net)
      else case batchPlans cl c env 0 ws of
             Inl e \<Rightarrow> (Some e, net)
           | Inr plans \<Rightarrow>
               (let involved = remdups (concat (map plan_replicas plans));
                    (acked, net') = foldl (batchStep cl c env plans) ({}, net) involved;
                    failedKeys = map plan_key (filter (\<lambda>p.
                      length (filter (\<lambda>n. n \<in> acked) (plan_replicas p)) < Quorum (length (plan_replicas p))) plans)
                in if failedKeys \<noteq> [] then (Some (WriteQuorumKeys failedKeys), net') else (None, net')))"

record readResult =
  rr_node :: Node
  rr_answer :: "peerErr + Entry option"

fun collectReads ::
  "('s, 'v) cluster \<Rightarrow> Coordinator \<Rightarrow> callEnv \<Rightarrow> string \<Rightarrow> Node list \<Rightarrow> 's net \<Rightarrow> readResult list \<times> 's net" where
  "collectReads cl c env key [] net = ([], net)"
| "collectReads cl c env key (node # ns) net =
     (let (answer, net') =
        (if node \<notin> set (coord_peers c) then (Inl PeerUnreachable, net)
         else case PeerGet (cl_ops cl) (cl_codec cl) (env_transport env node) key (net node) of
                (r, s) \<Rightarrow> (r, net(node := s)));
          (rest, net'') = collectReads cl c env key ns net'
      in (\<lparr>rr_node = node, rr_answer = answer\<rparr> # rest, net''))"

definition betterEntry :: "Entry option \<Rightarrow> readResult \<Rightarrow> Entry option" where
  "betterEntry best res =
     (case rr_answer res of
        Inl e \<Rightarrow> best
      | Inr None \<Rightarrow> best
      | Inr (Some entry) \<Rightarrow>
          (case best of None \<Rightarrow> Some entry
           | Some b \<Rightarrow> if entry_timestamp entry > entry_timestamp b then Some entry else Some b))"

definition responded :: "readResult list \<Rightarrow> nat" where
  "responded responses = length (filter (\<lambda>r. \<not> isl (rr_answer r)) responses)"

definition repairStep ::
  "('s, 'v) cluster \<Rightarrow> Coordinator \<Rightarrow> callEnv \<Rightarrow> string \<Rightarrow> Entry \<Rightarrow> 's net \<Rightarrow> readResult \<Rightarrow> 's net" where
  "repairStep cl c env key best net res =
     (case rr_answer res of
        Inl e \<Rightarrow> net
      | Inr found \<Rightarrow>
          (if (case found of None \<Rightarrow> False | Some entry \<Rightarrow> entry_timestamp entry \<ge> entry_timestamp best) then net
           else if rr_node res \<in> set (coord_peers c)
           then net(rr_node res := snd (PeerPut (cl_ops cl) (cl_codec cl) (env_repair env (rr_node res)) key best (net (rr_node res))))
           else net))"

definition readRepair ::
  "('s, 'v) cluster \<Rightarrow> Coordinator \<Rightarrow> callEnv \<Rightarrow> string \<Rightarrow> Entry \<Rightarrow> readResult list \<Rightarrow> 's net \<Rightarrow> 's net" where
  "readRepair cl c env key best responses net = foldl (repairStep cl c env key best) net responses"

definition CoordGet ::
  "('s, 'v) cluster \<Rightarrow> Coordinator \<Rightarrow> callEnv \<Rightarrow> string \<Rightarrow> 's net \<Rightarrow> (coordErr + bytes option) \<times> 's net" where
  "CoordGet cl c env key net =
     (let replicas = ReplicasFor (cl_hash cl) (coord_ring c) key
      in if replicas = [] then (Inl (NoReplicas key), net)
         else let quorum = Quorum (length replicas);
                  (responses, net1) = collectReads cl c env key (env_arrive env replicas) net;
                  best = foldl betterEntry None responses
           in if responded responses < quorum then (Inl (ReadQuorum key (responded responses) quorum), net1)
              else case best of
                     None \<Rightarrow> (Inr None, net1)
                   | Some b \<Rightarrow>
                       (let net2 = readRepair cl c env key b responses net1
                        in if entry_tombstone b then (Inr None, net2) else (Inr (Some (entry_value b)), net2)))"

fun collectScans ::
  "('s, 'v) cluster \<Rightarrow> callEnv \<Rightarrow> string \<Rightarrow> Node list \<Rightarrow> 's net \<Rightarrow> (peerErr + KeyEntry list) list \<times> 's net" where
  "collectScans cl env pre [] net = ([], net)"
| "collectScans cl env pre (node # ns) net =
     (let (r, s) = PeerScan (cl_ops cl) (cl_codec cl) (env_transport env node) pre (net node);
          (rest, net') = collectScans cl env pre ns (net(node := s))
      in (r # rest, net'))"

definition keepNewest :: "(string \<times> Entry) list \<Rightarrow> KeyEntry \<Rightarrow> (string \<times> Entry) list" where
  "keepNewest best ke =
     (case map_of best (ke_key ke) of
        None \<Rightarrow> AList.update (ke_key ke) (ke_entry ke) best
      | Some existing \<Rightarrow>
          if entry_timestamp (ke_entry ke) > entry_timestamp existing
          then AList.update (ke_key ke) (ke_entry ke) best else best)"

definition scanAnswers :: "(peerErr + KeyEntry list) list \<Rightarrow> KeyEntry list list" where
  "scanAnswers results = concat (map (\<lambda>r. case r of Inl e \<Rightarrow> [] | Inr es \<Rightarrow> [es]) results)"

text \<open>The order of the results, that of a Go map's iteration, is the order of the association list.\<close>

definition liveEntries :: "(string \<times> Entry) list \<Rightarrow> (bytes \<times> bytes) list" where
  "liveEntries best = map (\<lambda>(k, e). (k, entry_value e)) (filter (\<lambda>(k, e). \<not> entry_tombstone e) best)"

definition CoordScan ::
  "('s, 'v) cluster \<Rightarrow> Coordinator \<Rightarrow> callEnv \<Rightarrow> string \<Rightarrow> 's net \<Rightarrow> (coordErr + (bytes \<times> bytes) list) \<times> 's net" where
  "CoordScan cl c env pre net =
     (let (results, net') = collectScans cl env pre (env_arrive env (coord_peers c)) net;
          best = foldl keepNewest [] (concat (scanAnswers results))
      in if scanAnswers results = [] then (Inl (ScanFailed pre), net') else (Inr (liveEntries best), net'))"

section \<open>The cluster as a store\<close>

text \<open>\<open>DistributedStore\<close>: every call of the \<open>Store\<close> interface is one operation of the coordinator. The
  state adds to the cluster what the network will do to each call in turn.\<close>

record 's distState =
  dist_net :: "'s net"
  dist_calls :: nat

definition distErr :: "coordErr \<Rightarrow> serr" where
  "distErr e = Unavailable"

definition distCall ::
  "(nat \<Rightarrow> callEnv) \<Rightarrow> (callEnv \<Rightarrow> 's net \<Rightarrow> 'r \<times> 's net) \<Rightarrow> 's distState \<Rightarrow> 'r \<times> 's distState" where
  "distCall script f d =
     (case f (script (dist_calls d)) (dist_net d) of (r, net') \<Rightarrow> (r, \<lparr>dist_net = net', dist_calls = dist_calls d + 1\<rparr>))"

definition distOps ::
  "('s, 'v) cluster \<Rightarrow> Coordinator \<Rightarrow> (nat \<Rightarrow> callEnv) \<Rightarrow> ('s distState, bytes) storeOps" where
  "distOps cl c script = \<lparr>
     sPut = \<lambda>k v d. (case distCall script (\<lambda>env. CoordPut cl c env k v) d of (r, d') \<Rightarrow> (map_option distErr r, d')),
     sGet = \<lambda>k d. (case distCall script (\<lambda>env. CoordGet cl c env k) d of (r, d') \<Rightarrow> (map_sum distErr id r, d')),
     sDelete = \<lambda>k d. (case distCall script (\<lambda>env. CoordDelete cl c env k) d of (r, d') \<Rightarrow> (map_option distErr r, d')),
     sScan = \<lambda>p d. (case distCall script (\<lambda>env. CoordScan cl c env p) d of (r, d') \<Rightarrow> (map_sum distErr id r, d')),
     sBatch = \<lambda>ws d. (case distCall script (\<lambda>env. CoordWriteBatch cl c env ws) d of (r, d') \<Rightarrow> (map_option distErr r, d'))\<rparr>"


section \<open>What the operations do to a key\<close>

definition keyAt :: "('s \<Rightarrow> bytes \<Rightarrow> 'v option) \<Rightarrow> 'v entryCodec \<Rightarrow> 's net \<Rightarrow> string \<Rightarrow> Node \<Rightarrow> Entry option" where
  "keyAt view cd net key n = held view cd (net n) key"

definition netOk :: "('s \<Rightarrow> bytes \<Rightarrow> 'v option) \<Rightarrow> ('s \<Rightarrow> bool) \<Rightarrow> 'v entryCodec \<Rightarrow> 's net \<Rightarrow> bool" where
  "netOk view sound cd net \<longleftrightarrow> (\<forall>n. nodeOk view sound cd (net n))"

text \<open>Nodes keep what they hold or have taken over an entry of \<open>E\<close>.\<close>

definition took :: "Entry set \<Rightarrow> (Node \<Rightarrow> Entry option) \<Rightarrow> (Node \<Rightarrow> Entry option) \<Rightarrow> bool" where
  "took E h h' \<longleftrightarrow> (\<forall>n. h' n = h n \<or> (\<exists>e \<in> E. h' n = Some e))"

lemma took_refl [intro, simp]: "took E h h"
  by (simp add: took_def)

lemma took_trans: "took E h h' \<Longrightarrow> took E h' h'' \<Longrightarrow> took E h h''"
  by (simp add: took_def) metis

lemma took_mono: "took E h h' \<Longrightarrow> E \<subseteq> F \<Longrightarrow> took F h h'"
  by (auto simp: took_def)

lemma took_empty: "took {} h h' \<longleftrightarrow> h' = h"
  by (auto simp: took_def)

lemma ReplicasFor_distinct: "distinct (ReplicasFor hash r key)"
proof -
  have "distinct (replicaLoop r start i rs)" if "distinct rs" for start i rs
    using that
  proof (induction r start i rs rule: replicaLoop.induct)
    case (1 r start i replicas)
    show ?case using 1 by (subst replicaLoop.simps) (auto simp: Let_def)
  qed
  then show ?thesis by (simp add: ReplicasFor_def Let_def)
qed

context NodeStore
begin

lemma putStep_took:
  assumes cd: "entryCodecOk (cl_codec cl)" and ops: "cl_ops cl = ops" and ok: "netOk view sound (cl_codec cl) net"
    and step: "putStep cl c env key entry (a, net) n = (a', net')"
  shows "netOk view sound (cl_codec cl) net' \<and> (\<forall>m. m \<noteq> n \<longrightarrow> net' m = net m)
    \<and> took (if k = key then {entry} else {}) (keyAt view (cl_codec cl) net k) (keyAt view (cl_codec cl) net' k)
    \<and> a' \<le> a + (if keyAt view (cl_codec cl) net' key n = Some entry then 1 else 0)"
proof (cases "n \<in> set (coord_peers c)")
  case False
  then show ?thesis using step ok by (auto simp: putStep_def)
next
  case True
  obtain r s where p: "PeerPut ops (cl_codec cl) (env_transport env n) key entry (net n) = (r, s)" by fastforce
  have held: "nodeOk view sound (cl_codec cl) s \<and> (held view (cl_codec cl) s = (held view (cl_codec cl) (net n))(key \<mapsto> entry)
      \<or> r \<noteq> None \<and> held view (cl_codec cl) s = held view (cl_codec cl) (net n))"
    using PeerPut_held [OF cd _ p] ok by (simp add: netOk_def)
  have "net' = net(n := s)" "a' = a + (if r = None then 1 else 0)"
    using step True p ops by (auto simp: putStep_def split: option.splits)
  then show ?thesis using held ok by (auto simp: netOk_def took_def keyAt_def)
qed

lemma putSteps_took:
  assumes cd: "entryCodecOk (cl_codec cl)" and ops: "cl_ops cl = ops"
    and "netOk view sound (cl_codec cl) net" and "distinct ns"
    and "foldl (putStep cl c env key entry) (a, net) ns = (a', net')"
  shows "netOk view sound (cl_codec cl) net' \<and> (\<forall>m. m \<notin> set ns \<longrightarrow> net' m = net m)
    \<and> took (if k = key then {entry} else {}) (keyAt view (cl_codec cl) net k) (keyAt view (cl_codec cl) net' k)
    \<and> a' \<le> a + card {n \<in> set ns. keyAt view (cl_codec cl) net' key n = Some entry}"
  using assms(3-5)
proof (induction ns arbitrary: a net)
  case (Cons n ns)
  obtain a1 net1 where st: "putStep cl c env key entry (a, net) n = (a1, net1)" by fastforce
  note s1 = putStep_took [OF cd ops Cons.prems(1) st, of k]
  have rest: "foldl (putStep cl c env key entry) (a1, net1) ns = (a', net')" using Cons.prems(3) st by simp
  note s2 = Cons.IH [OF _ _ rest]
  have ih: "netOk view sound (cl_codec cl) net'" "\<And>m. m \<notin> set ns \<Longrightarrow> net' m = net1 m"
    "took (if k = key then {entry} else {}) (keyAt view (cl_codec cl) net1 k) (keyAt view (cl_codec cl) net' k)"
    "a' \<le> a1 + card {n \<in> set ns. keyAt view (cl_codec cl) net' key n = Some entry}"
    using s1 s2 Cons.prems(2) by auto
  have "keyAt view (cl_codec cl) net' key n = keyAt view (cl_codec cl) net1 key n"
    using ih(2) [of n] Cons.prems(2) by (simp add: keyAt_def)
  moreover have "{m \<in> set (n # ns). keyAt view (cl_codec cl) net' key m = Some entry} =
      (if keyAt view (cl_codec cl) net' key n = Some entry then {n} else {})
        \<union> {m \<in> set ns. keyAt view (cl_codec cl) net' key m = Some entry}" by auto
  ultimately have "a' \<le> a + card {m \<in> set (n # ns). keyAt view (cl_codec cl) net' key m = Some entry}"
    using ih(4) s1 Cons.prems(2) by (auto split: if_splits)
  moreover have "net' m = net m" if "m \<notin> set (n # ns)" for m using that ih(2) s1 by auto
  ultimately show ?case using ih(1,3) s1 took_trans by blast
qed simp

text \<open>A write leaves every other key alone, changes nodes only to its entry, and when it succeeds a
  quorum of the replicas hold the entry.\<close>

lemma coordWrite_took:
  assumes cd: "entryCodecOk (cl_codec cl)" and ops: "cl_ops cl = ops" and ok: "netOk view sound (cl_codec cl) net"
    and w: "coordWrite cl c env key entry net = (r, net')"
  shows "netOk view sound (cl_codec cl) net'
    \<and> took (if k = key then {entry} else {}) (keyAt view (cl_codec cl) net k) (keyAt view (cl_codec cl) net' k)
    \<and> (r = None \<longrightarrow> Quorum (length (ReplicasFor (cl_hash cl) (coord_ring c) key)) \<le>
         card {n \<in> set (ReplicasFor (cl_hash cl) (coord_ring c) key). keyAt view (cl_codec cl) net' key n = Some entry})"
proof (cases "ReplicasFor (cl_hash cl) (coord_ring c) key = []")
  case True
  then show ?thesis using w ok by (auto simp: coordWrite_def)
next
  case False
  obtain a net1 where f: "foldl (putStep cl c env key entry) (0, net) (ReplicasFor (cl_hash cl) (coord_ring c) key) = (a, net1)"
    by fastforce
  show ?thesis
    using putSteps_took [OF cd ops ok ReplicasFor_distinct f, of k] w False f
    by (auto simp: coordWrite_def Let_def split: if_splits)
qed

lemma collectReads_held:
  assumes ops: "cl_ops cl = ops" and "netOk view sound (cl_codec cl) net"
    and "collectReads cl c env key ns net = (rs, net')"
  shows "netOk view sound (cl_codec cl) net' \<and> keyAt view (cl_codec cl) net' = keyAt view (cl_codec cl) net
    \<and> map rr_node rs = ns
    \<and> (\<forall>r \<in> set rs. \<forall>v. rr_answer r = Inr v \<longrightarrow> v = keyAt view (cl_codec cl) net key (rr_node r))"
  using assms(2,3)
proof (induction ns arbitrary: net rs)
  case (Cons n ns)
  obtain r s where p: "PeerGet ops (cl_codec cl) (env_transport env n) key (net n) = (r, s)" by fastforce
  let ?net1 = "if n \<notin> set (coord_peers c) then net else net(n := s)"
    and ?r = "if n \<notin> set (coord_peers c) then Inl PeerUnreachable else r"
  obtain rs' where c: "collectReads cl c env key ns ?net1 = (rs', net')" "rs = \<lparr>rr_node = n, rr_answer = ?r\<rparr> # rs'"
    using Cons.prems(2) p ops by (auto simp: Let_def split: prod.splits if_splits)
  have g: "nodeOk view sound (cl_codec cl) s" "held view (cl_codec cl) s = held view (cl_codec cl) (net n)"
    "\<And>v. r = Inr v \<Longrightarrow> v = held view (cl_codec cl) (net n) key"
    using PeerGet_held [OF _ p] Cons.prems(1) by (auto simp: netOk_def)
  have "netOk view sound (cl_codec cl) ?net1" using g(1) Cons.prems(1) by (auto simp: netOk_def)
  moreover have "keyAt view (cl_codec cl) ?net1 = keyAt view (cl_codec cl) net"
    using g(2) by (auto simp: keyAt_def fun_eq_iff)
  ultimately show ?case using Cons.IH [OF _ c(1)] c(2) g(3) by (auto simp: keyAt_def)
qed simp

end

text \<open>The entry a read settles on is held by a replica that answered, and no answer is newer.\<close>

lemma betterEntry_best:
  assumes "foldl betterEntry b rs = best"
  shows "(\<forall>x. b = Some x \<longrightarrow> (\<exists>y. best = Some y \<and> entry_timestamp x \<le> entry_timestamp y))
    \<and> (\<forall>r \<in> set rs. \<forall>e. rr_answer r = Inr (Some e) \<longrightarrow> (\<exists>y. best = Some y \<and> entry_timestamp e \<le> entry_timestamp y))
    \<and> (\<forall>y. best = Some y \<longrightarrow> b = Some y \<or> (\<exists>r \<in> set rs. rr_answer r = Inr (Some y)))"
  using assms
proof (induction rs arbitrary: b)
  case (Cons r rs)
  have "foldl betterEntry (betterEntry b r) rs = best" using Cons.prems by simp
  note ih = Cons.IH [OF this]
  show ?case
    using ih by (cases b; cases "rr_answer r"; cases "projr (rr_answer r)")
      (auto simp: betterEntry_def split: if_splits intro: order_trans less_imp_le | fastforce)+
qed auto


definition readOf :: "Entry option \<Rightarrow> bytes option" where
  "readOf r = (case r of None \<Rightarrow> None | Some e \<Rightarrow> if entry_tombstone e then None else Some (entry_value e))"

text \<open>Answers arrive in some order, each once.\<close>

definition arriveOk :: "callEnv \<Rightarrow> bool" where
  "arriveOk env \<longleftrightarrow> (\<forall>ns. mset (env_arrive env ns) = mset ns)"

lemma arriveOk_set: "arriveOk env \<Longrightarrow> set (env_arrive env ns) = set ns"
  by (metis arriveOk_def set_mset_mset)

lemma arriveOk_distinct: "arriveOk env \<Longrightarrow> distinct (env_arrive env ns) \<longleftrightarrow> distinct ns"
  by (metis arriveOk_def mset_eq_imp_distinct_iff)

text \<open>\<open>settles h R S best\<close>: a quorum \<open>S\<close> of the replicas \<open>R\<close> was seen, and \<open>best\<close> is the newest entry
  held in it.\<close>

definition settles :: "(Node \<Rightarrow> Entry option) \<Rightarrow> Node list \<Rightarrow> Node set \<Rightarrow> Entry option \<Rightarrow> bool" where
  "settles h R S best \<longleftrightarrow> S \<subseteq> set R \<and> Quorum (length R) \<le> card S
     \<and> (\<forall>b. best = Some b \<longrightarrow> (\<exists>n \<in> S. h n = Some b))
     \<and> (\<forall>n \<in> S. \<forall>e. h n = Some e \<longrightarrow> (\<exists>b. best = Some b \<and> entry_timestamp e \<le> entry_timestamp b))"

lemma settles_responses:
  assumes "map rr_node rs = ns" and "distinct ns" and "set ns = set R"
    and "\<forall>r \<in> set rs. \<forall>v. rr_answer r = Inr v \<longrightarrow> v = h (rr_node r)"
    and "Quorum (length R) \<le> responded rs"
  shows "settles h R (rr_node ` {r \<in> set rs. \<not> isl (rr_answer r)}) (foldl betterEntry None rs)"
proof -
  let ?S = "rr_node ` {r \<in> set rs. \<not> isl (rr_answer r)}"
  have "distinct (map rr_node rs)" using assms(1,2) by simp
  then have inj: "inj_on rr_node (set rs)" and "distinct rs" by (simp_all add: distinct_map)
  have "inj_on rr_node {r \<in> set rs. \<not> isl (rr_answer r)}" by (rule inj_on_subset [OF inj]) auto
  then have "card ?S = card {r \<in> set rs. \<not> isl (rr_answer r)}" by (rule card_image)
  also have "\<dots> = responded rs"
    using distinct_card [of "filter (\<lambda>r. \<not> isl (rr_answer r)) rs"] \<open>distinct rs\<close> by (simp add: responded_def)
  finally have card: "Quorum (length R) \<le> card ?S" using assms(5) by simp
  have "set ns = rr_node ` set rs" using assms(1) by (metis set_map)
  then have sub: "?S \<subseteq> set R" using assms(3) by blast
  have ans: "r \<in> set rs \<Longrightarrow> \<not> isl (rr_answer r) \<Longrightarrow> rr_answer r = Inr (h (rr_node r))" for r
    using assms(4) by (cases "rr_answer r") auto
  note newest = betterEntry_best [OF refl, of None rs, THEN conjunct2, THEN conjunct1, rule_format]
    and from_answer = betterEntry_best [OF refl, of None rs, THEN conjunct2, THEN conjunct2, rule_format]
  have "\<exists>n \<in> ?S. h n = Some b" if b: "foldl betterEntry None rs = Some b" for b
  proof -
    obtain r where r: "r \<in> set rs" "rr_answer r = Inr (Some b)" using from_answer [OF b] by auto
    then have "h (rr_node r) = Some b" using assms(4) by (metis (no_types))
    moreover have "rr_node r \<in> ?S" using r by (intro imageI) simp
    ultimately show ?thesis by blast
  qed
  moreover have "\<exists>b. foldl betterEntry None rs = Some b \<and> entry_timestamp e \<le> entry_timestamp b"
    if n: "n \<in> ?S" and e: "h n = Some e" for n e
  proof -
    obtain r where r: "r \<in> set rs" "\<not> isl (rr_answer r)" "n = rr_node r" using n by auto
    then have "rr_answer r = Inr (Some e)" using ans [OF r(1,2)] e by simp
    then show ?thesis by (rule newest [OF r(1)])
  qed
  ultimately show ?thesis using card sub unfolding settles_def by (intro conjI allI impI ballI)
qed

context NodeStore
begin

lemma repairSteps_took:
  assumes cd: "entryCodecOk (cl_codec cl)" and ops: "cl_ops cl = ops" and "netOk view sound (cl_codec cl) net"
    and "foldl (repairStep cl c env key b) net rs = net'"
  shows "netOk view sound (cl_codec cl) net'
    \<and> took (if k = key then {b} else {}) (keyAt view (cl_codec cl) net k) (keyAt view (cl_codec cl) net' k)"
  using assms(3,4)
proof (induction rs arbitrary: net)
  case (Cons r rs)
  have step: "netOk view sound (cl_codec cl) (repairStep cl c env key b net r)
      \<and> took (if k = key then {b} else {}) (keyAt view (cl_codec cl) net k)
          (keyAt view (cl_codec cl) (repairStep cl c env key b net r) k)"
  proof -
    obtain q s where p: "PeerPut ops (cl_codec cl) (env_repair env (rr_node r)) key b (net (rr_node r)) = (q, s)" by fastforce
    have "nodeOk view sound (cl_codec cl) s \<and> (held view (cl_codec cl) s = (held view (cl_codec cl) (net (rr_node r)))(key \<mapsto> b)
        \<or> held view (cl_codec cl) s = held view (cl_codec cl) (net (rr_node r)))"
      using PeerPut_held [OF cd _ p] Cons.prems(1) by (auto simp: netOk_def)
    moreover have "repairStep cl c env key b net r = net \<or> repairStep cl c env key b net r = net(rr_node r := s)"
      using p ops by (auto simp: repairStep_def split: sum.split)
    ultimately show ?thesis using Cons.prems(1) by (auto simp: netOk_def took_def keyAt_def)
  qed
  have "foldl (repairStep cl c env key b) (repairStep cl c env key b net r) rs = net'" using Cons.prems(2) by simp
  with Cons.IH step show ?case using took_trans by blast
qed simp

text \<open>A read that succeeds returns the newest entry held in a quorum of the replicas, and may have
  pushed it to other replicas; a read that fails changes nothing.\<close>

lemma CoordGet_settles:
  assumes cd: "entryCodecOk (cl_codec cl)" and ops: "cl_ops cl = ops" and ok: "netOk view sound (cl_codec cl) net"
    and arr: "arriveOk env" and get: "CoordGet cl c env key net = (r, net')"
  shows "netOk view sound (cl_codec cl) net' \<and>
    (case r of
       Inl e \<Rightarrow> keyAt view (cl_codec cl) net' = keyAt view (cl_codec cl) net
     | Inr v \<Rightarrow> \<exists>S best. settles (keyAt view (cl_codec cl) net key) (ReplicasFor (cl_hash cl) (coord_ring c) key) S best
         \<and> v = readOf best \<and> (\<forall>k. took (if k = key then set_option best else {})
             (keyAt view (cl_codec cl) net k) (keyAt view (cl_codec cl) net' k)))"
proof (cases "ReplicasFor (cl_hash cl) (coord_ring c) key = []")
  case True
  then show ?thesis using get ok by (auto simp: CoordGet_def)
next
  case False
  let ?R = "ReplicasFor (cl_hash cl) (coord_ring c) key"
  obtain rs net1 where c: "collectReads cl c env key (env_arrive env ?R) net = (rs, net1)" by fastforce
  note col = collectReads_held [OF ops ok c]
  have dist: "distinct (env_arrive env ?R)" "set (env_arrive env ?R) = set ?R"
    using arriveOk_distinct [OF arr] arriveOk_set [OF arr] ReplicasFor_distinct by auto
  show ?thesis
  proof (cases "responded rs < Quorum (length ?R)")
    case True
    then show ?thesis using get c col False by (auto simp: CoordGet_def Let_def)
  next
    case enough: False
    let ?best = "foldl betterEntry None rs"
    have set: "settles (keyAt view (cl_codec cl) net key) ?R (rr_node ` {r \<in> set rs. \<not> isl (rr_answer r)}) ?best"
      using col enough dist by (intro settles_responses [of rs "env_arrive env ?R"]) auto
    show ?thesis
    proof (cases ?best)
      case None
      then have "r = Inr None" "net' = net1" using get c False enough by (auto simp: CoordGet_def Let_def)
      then show ?thesis using col set unfolding None
        by (intro conjI) (simp, auto simp: readOf_def intro!: exI [of _ "None :: Entry option"])
    next
      case (Some b)
      have rep: "netOk view sound (cl_codec cl) (readRepair cl c env key b rs net1)
          \<and> took (if k = key then {b} else {}) (keyAt view (cl_codec cl) net1 k)
              (keyAt view (cl_codec cl) (readRepair cl c env key b rs net1) k)" for k
        using repairSteps_took [OF cd ops _ refl, of net1 c env key b rs k] col by (simp add: readRepair_def)
      have "r = Inr (readOf ?best)" "net' = readRepair cl c env key b rs net1"
        using get c False enough Some by (auto simp: CoordGet_def Let_def readOf_def split: if_splits)
      have keys: "keyAt view (cl_codec cl) net1 = keyAt view (cl_codec cl) net" using col by blast
      have "\<forall>k. took (if k = key then set_option ?best else {})
          (keyAt view (cl_codec cl) net k) (keyAt view (cl_codec cl) (readRepair cl c env key b rs net1) k)"
        using rep unfolding Some keys option.set by blast
      then show ?thesis using rep set \<open>r = Inr (readOf ?best)\<close> \<open>net' = readRepair cl c env key b rs net1\<close>
        by (simp only: sum.case) blast
    qed
  qed
qed

end


section \<open>Batches and scans\<close>

definition planItem :: "batchPlan \<Rightarrow> KeyEntry" where
  "planItem p = \<lparr>ke_key = plan_key p, ke_entry = plan_entry p\<rparr>"

text \<open>The entry a batch leaves for a key: that of its last operation on the key.\<close>

definition planned :: "batchPlan list \<Rightarrow> string \<Rightarrow> Entry option" where
  "planned plans = applyItems (\<lambda>_. None) (map planItem plans)"

lemma applyItems_other: "k \<notin> ke_key ` set items \<Longrightarrow> applyItems h items k = h k"
proof (induction items arbitrary: h)
  case (Cons i items)
  then have "applyItems (setItem h i) items k = setItem h i k" by simp
  then show ?case using Cons.prems by (simp add: setItem_apply)
qed simp

lemma applyItems_cases: "applyItems h items k = h k \<or> (\<exists>i \<in> set items. ke_key i = k \<and> applyItems h items k = Some (ke_entry i))"
proof (induction items arbitrary: h)
  case (Cons i items)
  from Cons.IH [of "setItem h i"] show ?case
    unfolding applyItems_simps setItem_apply by (cases "k = ke_key i") auto
qed simp

lemma applyItems_hit: "k \<in> ke_key ` set items \<Longrightarrow> applyItems h items k = applyItems h' items k"
proof (induction items arbitrary: h h')
  case (Cons i items)
  show ?case
  proof (cases "k \<in> ke_key ` set items")
    case True
    then show ?thesis unfolding applyItems_simps by (rule Cons.IH)
  next
    case False
    then show ?thesis using Cons.prems by (simp add: applyItems_other setItem_apply)
  qed
qed simp

lemma applyItems_skip: "ke_key i \<noteq> k \<Longrightarrow> applyItems (setItem h i) items k = applyItems h items k"
proof (cases "k \<in> ke_key ` set items")
  case True
  then show ?thesis by (rule applyItems_hit)
next
  case False
  then show "ke_key i \<noteq> k \<Longrightarrow> ?thesis" by (simp add: applyItems_other setItem_apply)
qed

lemma applyItems_filter: "P (k :: string) \<Longrightarrow> applyItems h (filter (\<lambda>i. P (ke_key i)) items) k = applyItems h items k"
proof (induction items arbitrary: h)
  case (Cons i items)
  have "applyItems (setItem h i) items k = applyItems h items k" if "\<not> P (ke_key i)"
    using that Cons.prems by (intro applyItems_skip) metis
  then show ?case using Cons by simp
qed simp

definition planOk :: "('s, 'v) cluster \<Rightarrow> Coordinator \<Rightarrow> batchPlan list \<Rightarrow> bool" where
  "planOk cl c plans \<longleftrightarrow> (\<forall>p \<in> set plans. plan_replicas p = ReplicasFor (cl_hash cl) (coord_ring c) (plan_key p))"

lemma batchPlans_ok: "batchPlans cl c env i ws = Inr plans \<Longrightarrow> planOk cl c plans \<and> map plan_key plans = map opKey ws"
  by (induction ws arbitrary: i plans) (auto simp: planOk_def Let_def split: if_splits sum.splits)

lemma itemsFor_items: "itemsFor plans n = map planItem (filter (\<lambda>p. n \<in> set (plan_replicas p)) plans)"
  by (simp add: itemsFor_def planItem_def)

lemma itemsFor_applied:
  assumes "planOk cl c plans" and "n \<in> set (ReplicasFor (cl_hash cl) (coord_ring c) k)" and "k \<in> plan_key ` set plans"
  shows "applyItems h (itemsFor plans n) k = planned plans k"
proof -
  let ?P = "\<lambda>k. n \<in> set (ReplicasFor (cl_hash cl) (coord_ring c) k)"
  have "itemsFor plans n = filter (\<lambda>i. ?P (ke_key i)) (map planItem plans)"
    unfolding itemsFor_items filter_map o_def using assms(1)
    by (intro arg_cong [of _ _ "map planItem"] filter_cong) (auto simp: planOk_def planItem_def)
  then have "applyItems h (itemsFor plans n) k = applyItems h (map planItem plans) k"
    using applyItems_filter [of ?P k h "map planItem plans"] assms(2) by simp
  also have "\<dots> = planned plans k"
    unfolding planned_def using assms(3) by (intro applyItems_hit) (force simp: planItem_def)
  finally show ?thesis .
qed

definition plannedEntries :: "batchPlan list \<Rightarrow> string \<Rightarrow> Entry set" where
  "plannedEntries plans k = {plan_entry p | p. p \<in> set plans \<and> plan_key p = k}"

context NodeStore
begin

lemma batchStep_took:
  assumes cd: "entryCodecOk (cl_codec cl)" and ops: "cl_ops cl = ops" and ok: "netOk view sound (cl_codec cl) net"
    and step: "batchStep cl c env plans (acked, net) n = (acked', net')"
  shows "netOk view sound (cl_codec cl) net' \<and> (\<forall>m. m \<noteq> n \<longrightarrow> net' m = net m)
    \<and> took (plannedEntries plans k) (keyAt view (cl_codec cl) net k) (keyAt view (cl_codec cl) net' k)
    \<and> acked' \<subseteq> insert n acked
    \<and> (n \<in> acked' \<longrightarrow> n \<in> acked \<or> keyAt view (cl_codec cl) net' k n = applyItems (held view (cl_codec cl) (net n)) (itemsFor plans n) k)"
proof (cases "n \<in> set (coord_peers c)")
  case False
  then show ?thesis using step ok by (auto simp: batchStep_def)
next
  case True
  obtain r s where p: "PeerPutBatch ops (cl_codec cl) (env_transport env n) (itemsFor plans n) (net n) = (r, s)" by fastforce
  have "nodeOk view sound (cl_codec cl) (net n)" using ok by (simp add: netOk_def)
  from PeerPutBatch_held [OF cd this p] obtain items
    where items: "prefix items (itemsFor plans n)" "r = None \<longrightarrow> items = itemsFor plans n"
      "held view (cl_codec cl) s = applyItems (held view (cl_codec cl) (net n)) items"
      and s: "nodeOk view sound (cl_codec cl) s" by blast
  have net': "net' = net(n := s)" "acked' = (if r = None then insert n acked else acked)"
    using step True p ops by (auto simp: batchStep_def split: option.splits)
  have kt: "keyAt view (cl_codec cl) net' k n = applyItems (held view (cl_codec cl) (net n)) items k"
    unfolding keyAt_def net' using items(3) by simp
  have "keyAt view (cl_codec cl) net' k n = keyAt view (cl_codec cl) net k n
      \<or> (\<exists>e \<in> plannedEntries plans k. keyAt view (cl_codec cl) net' k n = Some e)"
  proof (cases "applyItems (held view (cl_codec cl) (net n)) items k = held view (cl_codec cl) (net n) k")
    case True
    then show ?thesis unfolding kt by (simp add: keyAt_def)
  next
    case False
    then obtain i where i: "i \<in> set items" "ke_key i = k"
      "applyItems (held view (cl_codec cl) (net n)) items k = Some (ke_entry i)"
      using applyItems_cases [of "held view (cl_codec cl) (net n)" items k] by blast
    have "i \<in> set (itemsFor plans n)" using i(1) set_mono_prefix [OF items(1)] by blast
    then have "ke_entry i \<in> plannedEntries plans k"
      using i(2) by (auto simp: itemsFor_items planItem_def plannedEntries_def)
    then show ?thesis using i(3) unfolding kt by blast
  qed
  moreover have "keyAt view (cl_codec cl) net' k m = keyAt view (cl_codec cl) net k m" if "m \<noteq> n" for m
    using that by (simp add: net' keyAt_def)
  ultimately have "took (plannedEntries plans k) (keyAt view (cl_codec cl) net k) (keyAt view (cl_codec cl) net' k)"
    unfolding took_def by metis
  moreover have "netOk view sound (cl_codec cl) net'" using s ok by (simp add: netOk_def net')
  moreover have "n \<in> acked' \<longrightarrow> n \<in> acked \<or> keyAt view (cl_codec cl) net' k n = applyItems (held view (cl_codec cl) (net n)) (itemsFor plans n) k"
    using items(2) unfolding kt net'(2) by (cases r) auto
  moreover have "acked' \<subseteq> insert n acked" "\<forall>m. m \<noteq> n \<longrightarrow> net' m = net m" by (auto simp: net')
  ultimately show ?thesis by (intro conjI)
qed

lemma batchSteps_took:
  assumes cd: "entryCodecOk (cl_codec cl)" and ops: "cl_ops cl = ops"
    and "netOk view sound (cl_codec cl) net" and "distinct ns" and "acked \<inter> set ns = {}"
    and "foldl (batchStep cl c env plans) (acked, net) ns = (acked', net')"
  shows "netOk view sound (cl_codec cl) net' \<and> (\<forall>m. m \<notin> set ns \<longrightarrow> net' m = net m)
    \<and> took (plannedEntries plans k) (keyAt view (cl_codec cl) net k) (keyAt view (cl_codec cl) net' k)
    \<and> acked' \<subseteq> acked \<union> set ns
    \<and> (\<forall>n \<in> acked'. n \<in> acked \<or> (\<exists>h. keyAt view (cl_codec cl) net' k n = applyItems h (itemsFor plans n) k))"
  using assms(3-6)
proof (induction ns arbitrary: acked net)
  case (Cons n ns)
  obtain a1 net1 where st: "batchStep cl c env plans (acked, net) n = (a1, net1)" by fastforce
  note s1 = batchStep_took [OF cd ops Cons.prems(1) st, of k]
  have rest: "foldl (batchStep cl c env plans) (a1, net1) ns = (acked', net')" using Cons.prems(4) st by simp
  have ih: "netOk view sound (cl_codec cl) net'" "\<And>m. m \<notin> set ns \<Longrightarrow> net' m = net1 m"
    "took (plannedEntries plans k) (keyAt view (cl_codec cl) net1 k) (keyAt view (cl_codec cl) net' k)"
    "acked' \<subseteq> a1 \<union> set ns"
    "\<And>m. m \<in> acked' \<Longrightarrow> m \<in> a1 \<or> (\<exists>h. keyAt view (cl_codec cl) net' k m = applyItems h (itemsFor plans m) k)"
    using Cons.IH [OF _ _ _ rest] s1 Cons.prems(2,3) by (auto simp: disjoint_iff subset_iff)
  have n: "keyAt view (cl_codec cl) net' k n = keyAt view (cl_codec cl) net1 k n"
    using ih(2) [of n] Cons.prems(2) by (simp add: keyAt_def)
  have "m \<in> acked \<or> (\<exists>h. keyAt view (cl_codec cl) net' k m = applyItems h (itemsFor plans m) k)" if "m \<in> acked'" for m
  proof (cases "m \<in> a1 \<and> m \<notin> acked")
    case True
    then have "m = n" using s1 by auto
    then show ?thesis using True s1 n by auto
  next
    case False
    then show ?thesis using ih(5) [OF that] by blast
  qed
  moreover have "net' m = net m" if "m \<notin> set (n # ns)" for m using that ih(2) s1 by auto
  moreover have "acked' \<subseteq> acked \<union> set (n # ns)" using ih(4) s1 by auto
  moreover have "took (plannedEntries plans k) (keyAt view (cl_codec cl) net k) (keyAt view (cl_codec cl) net' k)"
    using ih(3) s1 took_trans by blast
  ultimately show ?case using ih(1) by blast
qed auto

text \<open>A batch changes nodes only to its entries; when it succeeds, for each of its keys a quorum of the
  key's replicas hold what the last operation on the key wrote.\<close>

lemma CoordWriteBatch_took:
  assumes cd: "entryCodecOk (cl_codec cl)" and ops: "cl_ops cl = ops" and ok: "netOk view sound (cl_codec cl) net"
    and plans: "batchPlans cl c env 0 ws = Inr plans" and b: "CoordWriteBatch cl c env ws net = (r, net')"
  shows "netOk view sound (cl_codec cl) net'
    \<and> took (plannedEntries plans k) (keyAt view (cl_codec cl) net k) (keyAt view (cl_codec cl) net' k)
    \<and> (r = None \<and> k \<in> plan_key ` set plans \<longrightarrow> Quorum (length (ReplicasFor (cl_hash cl) (coord_ring c) k)) \<le>
         card {n \<in> set (ReplicasFor (cl_hash cl) (coord_ring c) k). keyAt view (cl_codec cl) net' k n = planned plans k})"
proof (cases "ws = []")
  case True
  then show ?thesis using b plans ok by (auto simp: CoordWriteBatch_def)
next
  case False
  let ?ns = "remdups (concat (map plan_replicas plans))" and ?R = "ReplicasFor (cl_hash cl) (coord_ring c)"
  have po: "planOk cl c plans" using batchPlans_ok [OF plans] by simp
  obtain acked net1 where f: "foldl (batchStep cl c env plans) ({}, net) ?ns = (acked, net1)" by fastforce
  have st: "netOk view sound (cl_codec cl) net1"
    "took (plannedEntries plans k) (keyAt view (cl_codec cl) net k) (keyAt view (cl_codec cl) net1 k)"
    "\<And>n. n \<in> acked \<Longrightarrow> \<exists>h. keyAt view (cl_codec cl) net1 k n = applyItems h (itemsFor plans n) k"
    using batchSteps_took [OF cd ops ok _ _ f, of k] by auto
  have r: "net' = net1" "r = None \<Longrightarrow> p \<in> set plans \<Longrightarrow>
      Quorum (length (plan_replicas p)) \<le> length (filter (\<lambda>n. n \<in> acked) (plan_replicas p))" for p
    using b plans f False by (auto simp: CoordWriteBatch_def Let_def filter_empty_conv split: if_splits)
  have "Quorum (length (?R k)) \<le> card {n \<in> set (?R k). keyAt view (cl_codec cl) net1 k n = planned plans k}"
    if none: "r = None" and k: "k \<in> plan_key ` set plans"
  proof -
    obtain p where p: "p \<in> set plans" "plan_key p = k" using k by auto
    then have "plan_replicas p = ?R k" using po by (auto simp: planOk_def)
    then have "Quorum (length (?R k)) \<le> length (filter (\<lambda>n. n \<in> acked) (?R k))" using r(2) [OF none p(1)] by simp
    also have "\<dots> = card {n \<in> set (?R k). n \<in> acked}"
      using distinct_card [of "filter (\<lambda>n. n \<in> acked) (?R k)"] ReplicasFor_distinct by simp
    also have "\<dots> \<le> card {n \<in> set (?R k). keyAt view (cl_codec cl) net1 k n = planned plans k}"
    proof (rule card_mono)
      show "{n \<in> set (?R k). n \<in> acked} \<subseteq> {n \<in> set (?R k). keyAt view (cl_codec cl) net1 k n = planned plans k}"
      proof
        fix n assume n: "n \<in> {n \<in> set (?R k). n \<in> acked}"
        then obtain h where "keyAt view (cl_codec cl) net1 k n = applyItems h (itemsFor plans n) k" using st(3) by blast
        also have "\<dots> = planned plans k" using n by (intro itemsFor_applied [OF po _ k]) simp
        finally show "n \<in> {n \<in> set (?R k). keyAt view (cl_codec cl) net1 k n = planned plans k}" using n by simp
      qed
    qed simp
    finally show ?thesis .
  qed
  then show ?thesis using st r(1) by auto
qed

lemma collectScans_held:
  assumes ops: "cl_ops cl = ops" and "netOk view sound (cl_codec cl) net"
    and "collectScans cl env pre ns net = (rs, net')"
  shows "netOk view sound (cl_codec cl) net' \<and> keyAt view (cl_codec cl) net' = keyAt view (cl_codec cl) net
    \<and> length rs = length ns
    \<and> (\<forall>i < length ns. \<forall>es. rs ! i = Inr es \<longrightarrow> heldList (\<lambda>k. keyAt view (cl_codec cl) net k (ns ! i)) pre es)"
  using assms(2,3)
proof (induction ns arbitrary: net rs)
  case (Cons n ns)
  obtain r s where p: "PeerScan ops (cl_codec cl) (env_transport env n) pre (net n) = (r, s)" by fastforce
  obtain rs' where c: "collectScans cl env pre ns (net(n := s)) = (rs', net')" "rs = r # rs'"
    using Cons.prems(2) p ops by (auto simp: Let_def split: prod.splits)
  have g: "nodeOk view sound (cl_codec cl) s" "held view (cl_codec cl) s = held view (cl_codec cl) (net n)"
    "\<And>es. r = Inr es \<Longrightarrow> heldList (held view (cl_codec cl) (net n)) pre es"
    using PeerScan_held [OF _ p] Cons.prems(1) by (auto simp: netOk_def)
  have ok: "netOk view sound (cl_codec cl) (net(n := s))" using g(1) Cons.prems(1) by (auto simp: netOk_def)
  have same: "keyAt view (cl_codec cl) (net(n := s)) = keyAt view (cl_codec cl) net"
    using g(2) by (auto simp: keyAt_def fun_eq_iff)
  have hd: "(\<lambda>k. keyAt view (cl_codec cl) net k n) = held view (cl_codec cl) (net n)" by (simp add: keyAt_def)
  show ?case using Cons.IH [OF ok c(1)] g(3) unfolding same c(2)
    by (auto simp: nth_Cons' hd less_Suc_eq_0_disj)
qed simp

end


section \<open>Histories\<close>

text \<open>The operations that one after the other reach the cluster, each with its circumstances.\<close>

datatype coordAct = ActPut string bytes | ActDelete string | ActBatch "bytes wop list" | ActGet string | ActScan string

fun runAct :: "('s, 'v) cluster \<Rightarrow> Coordinator \<Rightarrow> 's net \<Rightarrow> callEnv \<times> coordAct \<Rightarrow> 's net" where
  "runAct cl c net (env, ActPut key v) = snd (CoordPut cl c env key v net)"
| "runAct cl c net (env, ActDelete key) = snd (CoordDelete cl c env key net)"
| "runAct cl c net (env, ActBatch ws) = snd (CoordWriteBatch cl c env ws net)"
| "runAct cl c net (env, ActGet key) = snd (CoordGet cl c env key net)"
| "runAct cl c net (env, ActScan pre) = snd (CoordScan cl c env pre net)"

text \<open>The entries an operation tries to write for a key, whether or not it succeeds.\<close>

fun batchAttempted :: "callEnv \<Rightarrow> nat \<Rightarrow> bytes wop list \<Rightarrow> string \<Rightarrow> Entry set" where
  "batchAttempted env i [] k = {}"
| "batchAttempted env i (w # ws) k =
     (if opKey w = k then {opEntry (env_now env i) w} else {}) \<union> batchAttempted env (i + 1) ws k"

fun attempted :: "callEnv \<times> coordAct \<Rightarrow> string \<Rightarrow> Entry set" where
  "attempted (env, ActPut key v) k = (if k = key then {NewEntry (env_now env 0) v False} else {})"
| "attempted (env, ActDelete key) k = (if k = key then {NewEntry (env_now env 0) [] True} else {})"
| "attempted (env, ActBatch ws) k = batchAttempted env 0 ws k"
| "attempted (env, _) k = {}"

text \<open>Since a write stamped \<open>t\<close> was acknowledged: a quorum of the replicas hold an entry stamped \<open>t\<close> or
  later, and what is stamped so is in \<open>A\<close>.\<close>

definition regular :: "Node list \<Rightarrow> int \<Rightarrow> Entry set \<Rightarrow> (Node \<Rightarrow> Entry option) \<Rightarrow> bool" where
  "regular R t A h \<longleftrightarrow> Quorum (length R) \<le> card {n \<in> set R. \<exists>e. h n = Some e \<and> t \<le> entry_timestamp e}
     \<and> (\<forall>n e. h n = Some e \<longrightarrow> t \<le> entry_timestamp e \<longrightarrow> e \<in> A)"

lemma regular_took:
  assumes "regular R t A h" and "took E h h'" and "\<And>e. e \<in> E \<Longrightarrow> t \<le> entry_timestamp e"
  shows "regular R t (A \<union> E) h'"
proof -
  have "{n \<in> set R. \<exists>e. h n = Some e \<and> t \<le> entry_timestamp e} \<subseteq> {n \<in> set R. \<exists>e. h' n = Some e \<and> t \<le> entry_timestamp e}"
    using assms(2,3) by (auto simp: took_def) metis
  then have "card {n \<in> set R. \<exists>e. h n = Some e \<and> t \<le> entry_timestamp e} \<le>
      card {n \<in> set R. \<exists>e. h' n = Some e \<and> t \<le> entry_timestamp e}" by (intro card_mono) auto
  moreover have "e \<in> A \<union> E" if "h' n = Some e" "t \<le> entry_timestamp e" for n e
    using that assms(1,2) by (auto simp: regular_def took_def) (metis option.inject)
  ultimately show ?thesis using assms(1) unfolding regular_def by (auto intro: order_trans)
qed

lemma regular_mono: "regular R t A h \<Longrightarrow> A \<subseteq> B \<Longrightarrow> regular R t B h"
  by (auto simp: regular_def)

lemma regular_settles:
  assumes "regular R t A h" and "settles h R S best" and "distinct R"
  shows "\<exists>e \<in> A. best = Some e \<and> t \<le> entry_timestamp e"
proof -
  let ?Q = "{n \<in> set R. \<exists>e. h n = Some e \<and> t \<le> entry_timestamp e}"
  have len: "length R = card (set R)" using assms(3) by (simp add: distinct_card)
  have "S \<inter> ?Q \<noteq> {}"
    using assms(1,2) by (intro card_quorums [of "set R"]) (auto simp: regular_def settles_def len)
  then obtain n e where n: "n \<in> S" "h n = Some e" "t \<le> entry_timestamp e" by blast
  then obtain b where b: "best = Some b" "entry_timestamp e \<le> entry_timestamp b"
    using assms(2) unfolding settles_def by blast
  then obtain m where "h m = Some b" using assms(2) unfolding settles_def by blast
  then have "b \<in> A" using assms(1) b n(3) unfolding regular_def by (meson order_trans)
  then show ?thesis using b n(3) by (intro bexI [of _ b]) auto
qed

lemma plannedEntries_attempted:
  "batchPlans cl c env i ws = Inr plans \<Longrightarrow> plannedEntries plans k = batchAttempted env i ws k"
proof (induction ws arbitrary: i plans)
  case (Cons w ws)
  obtain p ps where ps: "plans = p # ps" "batchPlans cl c env (i + 1) ws = Inr ps"
    "plan_key p = opKey w" "plan_entry p = opEntry (env_now env i) w"
    using Cons.prems by (auto simp: Let_def split: if_splits sum.splits)
  have "plannedEntries plans k = (if plan_key p = k then {plan_entry p} else {}) \<union> plannedEntries ps k"
    unfolding plannedEntries_def ps(1) by auto
  then show ?case using Cons.IH [OF ps(2)] ps(3,4) by simp
qed (simp add: plannedEntries_def)

context NodeStore
begin

lemma runAct_regular:
  assumes cd: "entryCodecOk (cl_codec cl)" and ops: "cl_ops cl = ops" and ok: "netOk view sound (cl_codec cl) net"
    and arr: "arriveOk env" and late: "\<And>e. e \<in> attempted (env, a) key \<Longrightarrow> t \<le> entry_timestamp e"
    and reg: "regular (ReplicasFor (cl_hash cl) (coord_ring c) key) t A (keyAt view (cl_codec cl) net key)"
  shows "netOk view sound (cl_codec cl) (runAct cl c net (env, a))
    \<and> regular (ReplicasFor (cl_hash cl) (coord_ring c) key) t (A \<union> attempted (env, a) key)
        (keyAt view (cl_codec cl) (runAct cl c net (env, a)) key)"
proof -
  have stored: "netOk view sound (cl_codec cl) (runAct cl c net (env, a))
      \<and> regular (ReplicasFor (cl_hash cl) (coord_ring c) key) t (A \<union> attempted (env, a) key)
          (keyAt view (cl_codec cl) (runAct cl c net (env, a)) key)"
    if run: "runAct cl c net (env, a) = snd (coordWrite cl c env k' e net)"
      and tries: "attempted (env, a) key = (if key = k' then {e} else {})" for k' e
  proof -
    obtain r net' where w: "coordWrite cl c env k' e net = (r, net')" by fastforce
    show ?thesis
      using coordWrite_took [OF cd ops ok w, of key] regular_took [OF reg _ late] run tries w by auto
  qed
  show ?thesis
  proof (cases a)
    case (ActPut k' v)
    then show ?thesis by (intro stored) (auto simp: CoordPut_def)
  next
    case (ActDelete k')
    then show ?thesis by (intro stored) (auto simp: CoordDelete_def)
  next
    case (ActBatch ws)
    obtain r net' where b: "CoordWriteBatch cl c env ws net = (r, net')" by fastforce
    show ?thesis
    proof (cases "batchPlans cl c env 0 ws")
      case (Inl e)
      then have "net' = net" using b by (auto simp: CoordWriteBatch_def split: if_splits)
      then show ?thesis using ok b ActBatch regular_mono [OF reg] by auto
    next
      case (Inr plans)
      have "plannedEntries plans key = attempted (env, a) key"
        using plannedEntries_attempted [OF Inr, of key] ActBatch by simp
      then show ?thesis
        using CoordWriteBatch_took [OF cd ops ok Inr b, of key] regular_took [OF reg _ late] b ActBatch by auto
    qed
  next
    case (ActGet k')
    obtain r net' where g: "CoordGet cl c env k' net = (r, net')" by fastforce
    note get = CoordGet_settles [OF cd ops ok arr g]
    show ?thesis
    proof (cases r)
      case (Inl e)
      then show ?thesis using get g ActGet reg by auto
    next
      case (Inr v)
      then obtain S best where best: "netOk view sound (cl_codec cl) net'"
        "settles (keyAt view (cl_codec cl) net k') (ReplicasFor (cl_hash cl) (coord_ring c) k') S best"
        "took (if key = k' then set_option best else {}) (keyAt view (cl_codec cl) net key) (keyAt view (cl_codec cl) net' key)"
        using get by (simp only: sum.case) blast
      have "regular (ReplicasFor (cl_hash cl) (coord_ring c) key) t A (keyAt view (cl_codec cl) net' key)"
      proof (cases "key = k'")
        case True
        obtain e where e: "e \<in> A" "best = Some e" "t \<le> entry_timestamp e"
          using regular_settles [OF reg] best(2) ReplicasFor_distinct unfolding True by blast
        then have "took {e} (keyAt view (cl_codec cl) net key) (keyAt view (cl_codec cl) net' key)"
          using best(3) True by simp
        with regular_took [OF reg this] e(1,3) show ?thesis by (simp add: insert_absorb)
      next
        case False
        then show ?thesis using best(3) reg by (simp add: took_empty)
      qed
      then show ?thesis using best(1) g ActGet by simp
    qed
  next
    case (ActScan pre)
    obtain rs net' where s: "collectScans cl env pre (env_arrive env (coord_peers c)) net = (rs, net')" by fastforce
    have "runAct cl c net (env, a) = net'" using s ActScan by (simp add: CoordScan_def Let_def)
    then show ?thesis using collectScans_held [OF ops ok s] reg ActScan by simp
  qed
qed

lemma runActs_regular:
  assumes cd: "entryCodecOk (cl_codec cl)" and ops: "cl_ops cl = ops" and "netOk view sound (cl_codec cl) net"
    and "\<forall>(env, a) \<in> set acts. arriveOk env \<and> (\<forall>e \<in> attempted (env, a) key. t \<le> entry_timestamp e)"
    and "regular (ReplicasFor (cl_hash cl) (coord_ring c) key) t A (keyAt view (cl_codec cl) net key)"
  shows "netOk view sound (cl_codec cl) (foldl (runAct cl c) net acts)
    \<and> regular (ReplicasFor (cl_hash cl) (coord_ring c) key) t (A \<union> (\<Union>x \<in> set acts. attempted x key))
        (keyAt view (cl_codec cl) (foldl (runAct cl c) net acts) key)"
  using assms(3-5)
proof (induction acts arbitrary: net A)
  case (Cons x acts)
  obtain env a where x: "x = (env, a)" by (cases x)
  have "netOk view sound (cl_codec cl) (runAct cl c net (env, a))
    \<and> regular (ReplicasFor (cl_hash cl) (coord_ring c) key) t (A \<union> attempted (env, a) key)
        (keyAt view (cl_codec cl) (runAct cl c net (env, a)) key)"
    using Cons.prems x by (intro runAct_regular [OF cd ops]) auto
  then show ?case using Cons.IH [of "runAct cl c net (env, a)" "A \<union> attempted (env, a) key"] Cons.prems(2) x
    by (simp add: Un_assoc)
qed simp

end


lemma regular_written:
  assumes "Quorum (length R) \<le> card {n \<in> set R. h n = Some e}"
    and "\<And>n e'. h n = Some e' \<Longrightarrow> entry_timestamp e' < entry_timestamp e \<or> e' = e"
  shows "regular R (entry_timestamp e) {e} h"
proof -
  have "card {n \<in> set R. h n = Some e} \<le> card {n \<in> set R. \<exists>e'. h n = Some e' \<and> entry_timestamp e \<le> entry_timestamp e'}"
    by (intro card_mono) auto
  moreover have "e' \<in> {e}" if "h n = Some e'" "entry_timestamp e \<le> entry_timestamp e'" for n e'
    using assms(2) [OF that(1)] that(2) by auto
  ultimately show ?thesis using assms(1) unfolding regular_def by (blast intro: order_trans)
qed

section \<open>Properties\<close>

text \<open>C24: A key is a regular register. Once a write stamped later than everything held for the key has
  been acknowledged by a quorum, then whatever operations follow one another, as long as no write of the
  key that they attempt is stamped earlier, with whatever calls lost, unanswered or repeated by repairs,
  and answers in any order, a read that succeeds returns the acknowledged entry or one that a
  later write of the key attempted (a tombstone reads as absent); in particular the acknowledged value
  when no later write of the key was attempted. The nodes may run any store that meets the contract
  \<open>NodeStore\<close>.\<close>

theorem quorum_register:
  assumes "NodeStore ops view sound" and "cl_ops cl = ops" and "entryCodecOk (cl_codec cl)"
    and "netOk view sound (cl_codec cl) net"
    and "\<forall>n e'. keyAt view (cl_codec cl) net key n = Some e' \<longrightarrow> entry_timestamp e' < entry_timestamp e"
    and "coordWrite cl c env key e net = (None, net1)"
    and "\<forall>(env, a) \<in> set acts. arriveOk env \<and> (\<forall>e' \<in> attempted (env, a) key. entry_timestamp e \<le> entry_timestamp e')"
    and "arriveOk env'" and "CoordGet cl c env' key (foldl (runAct cl c) net1 acts) = (Inr v, net2)"
  shows "\<exists>e' \<in> insert e (\<Union>x \<in> set acts. attempted x key). v = readOf (Some e')"
proof -
  let ?R = "ReplicasFor (cl_hash cl) (coord_ring c) key" and ?net = "foldl (runAct cl c) net1 acts"
  let ?A = "{e} \<union> (\<Union>x \<in> set acts. attempted x key)"
  note w = NodeStore.coordWrite_took [OF assms(1,3,2,4,6), of key]
  have old: "entry_timestamp e' < entry_timestamp e \<or> e' = e"
    if "keyAt view (cl_codec cl) net1 key n = Some e'" for n e'
    using w that assms(5) by (auto simp: took_def) (metis option.inject)
  have "regular ?R (entry_timestamp e) {e} (keyAt view (cl_codec cl) net1 key)"
    using w by (intro regular_written [OF _ old]) auto
  then have run: "netOk view sound (cl_codec cl) ?net"
      "regular ?R (entry_timestamp e) ?A (keyAt view (cl_codec cl) ?net key)"
    using NodeStore.runActs_regular [OF assms(1,3,2) _ assms(7)] w by blast+
  obtain S best where "settles (keyAt view (cl_codec cl) ?net key) ?R S best" "v = readOf best"
    using NodeStore.CoordGet_settles [OF assms(1,3,2) run(1) assms(8,9)] by (simp only: sum.case) blast
  then show ?thesis using regular_settles [OF run(2) _ ReplicasFor_distinct] by auto
qed


text \<open>What a batch plans to write, read as a map, is the batch applied to the empty map.\<close>

lemma readOf_planned:
  "batchPlans cl c env i ws = Inr plans \<Longrightarrow>
    readOf (applyItems h (map planItem plans) k) = foldl wopMap (\<lambda>k. readOf (h k)) ws k"
proof (induction ws arbitrary: i plans h)
  case (Cons w ws)
  obtain p ps where ps: "plans = p # ps" "batchPlans cl c env (i + 1) ws = Inr ps"
    "plan_key p = opKey w" "plan_entry p = opEntry (env_now env i) w"
    using Cons.prems by (auto simp: Let_def split: if_splits sum.splits)
  have "(\<lambda>k. readOf (setItem h (planItem p) k)) = wopMap (\<lambda>k. readOf (h k)) w"
    using ps(3,4) by (cases w) (auto simp: fun_eq_iff setItem_apply planItem_def readOf_def NewEntry_def)
  then show ?case using Cons.IH [OF ps(2), of "setItem h (planItem p)"] ps(1) by simp
qed simp

text \<open>C25: When a batch over the cluster succeeds, then for every key it names a quorum of the key's
  replicas hold one entry, and that entry reads as the last operation of the batch on the key.\<close>

theorem batch_reaches_quorums:
  assumes "NodeStore ops view sound" and "cl_ops cl = ops" and "entryCodecOk (cl_codec cl)"
    and "netOk view sound (cl_codec cl) net" and "CoordWriteBatch cl c env ws net = (None, net')"
    and "w \<in> set ws"
  shows "\<exists>e. Quorum (length (ReplicasFor (cl_hash cl) (coord_ring c) (opKey w))) \<le>
      card {n \<in> set (ReplicasFor (cl_hash cl) (coord_ring c) (opKey w)). keyAt view (cl_codec cl) net' (opKey w) n = Some e}
    \<and> readOf (Some e) = foldl wopMap (\<lambda>_. None) ws (opKey w)"
proof -
  have "ws \<noteq> []" using assms(6) by auto
  then obtain plans where plans: "batchPlans cl c env 0 ws = Inr plans"
    using assms(5) by (auto simp: CoordWriteBatch_def split: sum.splits)
  have "opKey w \<in> opKey ` set ws" using assms(6) by (rule imageI)
  also have "opKey ` set ws = plan_key ` set plans" using batchPlans_ok [OF plans] by (metis set_map)
  finally have k: "opKey w \<in> plan_key ` set plans" .
  then obtain e where e: "planned plans (opKey w) = Some e"
    using applyItems_hit [of "opKey w" "map planItem plans" "\<lambda>_. None" "\<lambda>_. Some undefined"]
      applyItems_cases [of "\<lambda>_. Some undefined" "map planItem plans" "opKey w"]
    by (force simp: planned_def planItem_def)
  moreover have "readOf (planned plans (opKey w)) = foldl wopMap (\<lambda>_. None) ws (opKey w)"
    using readOf_planned [OF plans, of "\<lambda>_. None" "opKey w"] by (simp add: planned_def readOf_def)
  ultimately show ?thesis
    using NodeStore.CoordWriteBatch_took [OF assms(1,3,2,4) plans assms(5), of "opKey w"] k by auto
qed

text \<open>A small cluster for the examples below: three nodes on a ring, each with a reference store.\<close>

definition trioCluster :: "(Entry kvs, Entry) cluster" where
  "trioCluster = \<lparr>cl_ops = refOps, cl_codec = plainCodec, cl_hash = (\<lambda>_. 0)\<rparr>"

definition trio :: Coordinator where
  "trio = \<lparr>coord_ring = \<lparr>ring_replicationFactor = 3, ring_points =
     [\<lparr>point_hash = 1, point_node = ''a''\<rparr>, \<lparr>point_hash = 2, point_node = ''b''\<rparr>, \<lparr>point_hash = 3, point_node = ''c''\<rparr>]\<rparr>,
     coord_peers = [''a'', ''b'', ''c'']\<rparr>"

text \<open>Calls to the nodes of \<open>down\<close> do not arrive.\<close>

definition netEnv :: "Node list \<Rightarrow> int \<Rightarrow> callEnv" where
  "netEnv down now = \<lparr>env_transport = (\<lambda>n. if n \<in> set down then NotDelivered else Delivered),
     env_repair = (\<lambda>n. if n \<in> set down then NotDelivered else Delivered), env_arrive = (\<lambda>ns. ns), env_now = (\<lambda>_. now)\<rparr>"

lemma arriveOk_netEnv [simp]: "arriveOk (netEnv down now)" "env_now (netEnv down now) i = now"
  by (simp_all add: arriveOk_def netEnv_def)

definition emptyNet :: "Entry kvs net" where
  "emptyNet = (\<lambda>_. [])"

lemma trio_ok [simp]: "cl_ops trioCluster = refOps" "entryCodecOk (cl_codec trioCluster)" "cl_codec trioCluster = plainCodec"
  by (simp_all add: trioCluster_def)

lemma emptyNet_ok: "netOk map_of refInv plainCodec emptyNet" "keyAt map_of plainCodec emptyNet key n = None"
  by (simp_all add: netOk_def nodeOk_def emptyNet_def refInv_def keyAt_def held_def)

text \<open>A write that misses node a, then a deletion that only reaches node b, then a read.\<close>

theorem quorum_register_witness:
  "let e = NewEntry 5 ''x'' False;
       net1 = snd (coordWrite trioCluster trio (netEnv [''a''] 5) ''k'' e emptyNet);
       acts = [(netEnv [''a'', ''c''] 6, ActDelete ''k''), (netEnv [] 7, ActPut ''j'' ''y'')]
   in fst (CoordGet trioCluster trio (netEnv [''b''] 8) ''k'' (foldl (runAct trioCluster trio) net1 acts)) = Inr (Some ''x'')
    \<and> (\<exists>e' \<in> insert e (\<Union>x \<in> set acts. attempted x ''k''). Some ''x'' = readOf (Some e'))"
proof -
  let ?e = "NewEntry 5 ''x'' False"
  let ?w = "coordWrite trioCluster trio (netEnv [''a''] 5) ''k'' ?e emptyNet"
  let ?acts = "[(netEnv [''a'', ''c''] 6, ActDelete ''k''), (netEnv [] 7, ActPut ''j'' ''y'')]"
  let ?g = "CoordGet trioCluster trio (netEnv [''b''] 8) ''k'' (foldl (runAct trioCluster trio) (snd ?w) ?acts)"
  have w: "fst ?w = None" by code_simp
  have g: "fst ?g = Inr (Some ''x'')" by code_simp
  have "\<exists>e' \<in> insert ?e (\<Union>x \<in> set ?acts. attempted x ''k''). Some ''x'' = readOf (Some e')"
  proof (rule quorum_register [OF refNode.NodeStore_axioms, of trioCluster])
    show "coordWrite trioCluster trio (netEnv [''a''] 5) ''k'' ?e emptyNet = (None, snd ?w)" using w by (metis prod.collapse)
    show "CoordGet trioCluster trio (netEnv [''b''] 8) ''k'' (foldl (runAct trioCluster trio) (snd ?w) ?acts) = (Inr (Some ''x''), snd ?g)"
      using g by (metis prod.collapse)
  qed (simp_all add: emptyNet_ok NewEntry_def)
  then show ?thesis using g by (simp only: Let_def)
qed

theorem batch_reaches_quorums_witness:
  "let ws = [PutOp ''k'' ''x'', PutOp ''j'' ''y'', DelOp ''k''];
       (r, net') = CoordWriteBatch trioCluster trio (netEnv [''c''] 5) ws emptyNet
   in r = None \<and> (\<exists>e. Quorum 3 \<le> card {n \<in> {''a'', ''b'', ''c''}. keyAt map_of plainCodec net' ''k'' n = Some e}
        \<and> readOf (Some e) = None)"
proof -
  let ?ws = "[PutOp ''k'' ''x'', PutOp ''j'' ''y'', DelOp ''k'']"
  let ?b = "CoordWriteBatch trioCluster trio (netEnv [''c''] 5) ?ws emptyNet"
  have r: "fst ?b = None" by code_simp
  then have b: "CoordWriteBatch trioCluster trio (netEnv [''c''] 5) ?ws emptyNet = (None, snd ?b)" by (metis prod.collapse)
  have R: "ReplicasFor (cl_hash trioCluster) (coord_ring trio) ''k'' = [''a'', ''b'', ''c'']" by code_simp
  have ok: "netOk map_of refInv (cl_codec trioCluster) emptyNet" using emptyNet_ok(1) by simp
  show ?thesis
    using batch_reaches_quorums [OF refNode.NodeStore_axioms trio_ok(1,2) ok b, of "DelOp ''k''"] r R
    by (simp add: case_prod_beta Let_def numeral_3_eq_3)
qed

text \<open>The nodes that a read finds behind its best answer, to which it sends repairs.\<close>

definition behind :: "readResult list \<Rightarrow> Entry \<Rightarrow> Node set" where
  "behind rs best = set (map rr_node (filter (\<lambda>r. case rr_answer r of
     Inl e \<Rightarrow> False | Inr None \<Rightarrow> True | Inr (Some e) \<Rightarrow> entry_timestamp e < entry_timestamp best) rs))"

lemma collectReads_delivered:
  "collectReads cl c env key ns net = (rs, net') \<Longrightarrow> r \<in> set rs \<Longrightarrow> \<not> isl (rr_answer r) \<Longrightarrow>
    rr_node r \<in> set (coord_peers c) \<and> env_transport env (rr_node r) = Delivered"
proof (induction ns arbitrary: net rs)
  case (Cons n ns)
  then show ?case
    by (auto simp: Let_def PeerGet_def callPeer_def split: prod.splits if_splits transport.splits)
qed simp

context NodeStore
begin

text \<open>Repairs that arrive put the entry on every node behind it, whatever the node holds by then.\<close>

lemma repairs_write:
  assumes cd: "entryCodecOk (cl_codec cl)" and ops: "cl_ops cl = ops"
    and total: "\<And>s k v. sound s \<Longrightarrow> fst (sPut ops k v s) = None" and arrive: "\<And>n. env_repair env n = Delivered"
    and peers: "\<And>r. r \<in> set rs \<Longrightarrow> \<not> isl (rr_answer r) \<Longrightarrow> rr_node r \<in> set (coord_peers c)"
    and "netOk view sound (cl_codec cl) net" and "n \<in> behind rs b"
  shows "keyAt view (cl_codec cl) (foldl (repairStep cl c env key b) net rs) key n = Some b"
  using assms(5-7)
proof (induction rs arbitrary: net)
  case Nil
  then show ?case by (simp add: behind_def)
next
  case (Cons r rs)
  let ?net = "repairStep cl c env key b net r"
  have ok: "netOk view sound (cl_codec cl) ?net" using repairSteps_took [OF cd ops Cons.prems(2), of c env key b "[r]"] by simp
  show ?case
  proof (cases "n \<in> behind rs b")
    case True
    then show ?thesis using Cons.IH [OF Cons.prems(1) ok] by simp
  next
    case False
    then have r: "n = rr_node r" "rr_answer r = Inr None \<or> (\<exists>e. rr_answer r = Inr (Some e) \<and> entry_timestamp e < entry_timestamp b)"
      using Cons.prems(3) by (auto simp: behind_def split: sum.splits option.splits if_splits)
    then have peer: "n \<in> set (coord_peers c)" using Cons.prems(1) [of r] by auto
    obtain q s where p: "PeerPut ops (cl_codec cl) Delivered key b (net n) = (q, s)" by fastforce
    have node: "nodeOk view sound (cl_codec cl) (net n)" using Cons.prems(2) by (simp add: netOk_def)
    then have "fst (sPut ops key (encEntry (cl_codec cl) b) (net n)) = None" by (intro total) (simp add: nodeOk_def)
    then have "q = None"
      using p by (auto simp: PeerPut_def callPeer_def internalPutHandler_def writeOutcome_def split: prod.splits option.splits)
    then have "held view (cl_codec cl) s key = Some b" using PeerPut_held [OF cd node p] by auto
    moreover have "?net = net(n := s)" using r peer p ops arrive by (auto simp: repairStep_def)
    ultimately have "keyAt view (cl_codec cl) ?net key n = Some b" by (simp add: keyAt_def)
    moreover have "took {b} (keyAt view (cl_codec cl) ?net key) (keyAt view (cl_codec cl) (foldl (repairStep cl c env key b) ?net rs) key)"
      using repairSteps_took [OF cd ops ok refl, of c env key b rs key] by simp
    ultimately show ?thesis by (auto simp: took_def) (metis option.inject)
  qed
qed

text \<open>A read all of whose answers carry one entry returns it.\<close>

lemma CoordGet_agreed:
  assumes ops: "cl_ops cl = ops" and ok: "netOk view sound (cl_codec cl) net" and arr: "arriveOk env"
    and get: "CoordGet cl c env key net = (Inr v, net')"
    and all: "\<And>n. n \<in> set (ReplicasFor (cl_hash cl) (coord_ring c) key) \<Longrightarrow> env_transport env n = Delivered \<Longrightarrow>
      keyAt view (cl_codec cl) net key n = Some x"
  shows "v = readOf (Some x)"
proof -
  let ?R = "ReplicasFor (cl_hash cl) (coord_ring c) key"
  obtain rs net1 where c: "collectReads cl c env key (env_arrive env ?R) net = (rs, net1)" by fastforce
  note col = collectReads_held [OF ops ok c]
  have "rr_node ` set rs = set ?R" using col arriveOk_set [OF arr] by (metis set_map)
  then have ans: "rr_answer r = Inr (Some x)" if r: "r \<in> set rs" "\<not> isl (rr_answer r)" for r
    using r col all [of "rr_node r"] collectReads_delivered [OF c r] by (cases "rr_answer r") auto
  have "Quorum (length ?R) \<le> responded rs" "?R \<noteq> []" using get c by (auto simp: CoordGet_def Let_def split: if_splits)
  then have "responded rs \<noteq> 0" by (simp add: Quorum_def)
  then obtain r where r: "r \<in> set rs" "rr_answer r = Inr (Some x)"
    using ans by (auto simp: responded_def filter_empty_conv)
  note best = betterEntry_best [OF refl, of None rs]
  obtain y where y: "foldl betterEntry None rs = Some y" using best r by blast
  then obtain r' where "r' \<in> set rs" "rr_answer r' = Inr (Some y)" using best by blast
  then have "y = x" using ans by force
  then show ?thesis using get c y \<open>?R \<noteq> []\<close>
    by (auto simp: CoordGet_def Let_def readOf_def split: if_splits)
qed

end

text \<open>C27: An acknowledged write can be lost to the read repair of a read that began before it, on any
  cluster whose stores do not fail. A read has collected its answers, of which \<open>old\<close> is the best; then a
  write of \<open>new\<close>, however it is stamped, is acknowledged and has reached every replica; then the repairs
  of the read arrive. A later read that is answered only by nodes that had been behind returns \<open>old\<close>,
  though the same read before the repairs returns \<open>new\<close>: the nodes store a repair without comparing
  timestamps.\<close>

theorem stale_repair_loses_write:
  assumes "NodeStore ops view sound" and "cl_ops cl = ops" and "entryCodecOk (cl_codec cl)"
    and "\<And>s k v. sound s \<Longrightarrow> fst (sPut ops k v s) = None" and "netOk view sound (cl_codec cl) net"
    and "collectReads cl c env key (env_arrive env (ReplicasFor (cl_hash cl) (coord_ring c) key)) net = (answers, netR)"
    and "foldl betterEntry None answers = Some old" and "\<And>n. env_repair env n = Delivered"
    and "coordWrite cl c envW key new netR = (None, net1)"
    and "\<And>n. n \<in> set (ReplicasFor (cl_hash cl) (coord_ring c) key) \<Longrightarrow> keyAt view (cl_codec cl) net1 key n = Some new"
    and "arriveOk envG" and "\<And>n. n \<in> set (ReplicasFor (cl_hash cl) (coord_ring c) key) \<Longrightarrow> env_transport envG n = Delivered \<Longrightarrow> n \<in> behind answers old"
    and "CoordGet cl c envG key net1 = (Inr v1, netA)"
    and "CoordGet cl c envG key (readRepair cl c env key old answers net1) = (Inr v2, netB)"
  shows "v1 = readOf (Some new) \<and> v2 = readOf (Some old)"
proof
  have ok: "netOk view sound (cl_codec cl) netR" using NodeStore.collectReads_held [OF assms(1,2,5,6)] by blast
  have ok1: "netOk view sound (cl_codec cl) net1"
    using NodeStore.coordWrite_took [OF assms(1,3,2) ok assms(9)] by blast
  show "v1 = readOf (Some new)" by (rule NodeStore.CoordGet_agreed [OF assms(1,2) ok1 assms(11,13)]) (rule assms(10))
  have peers: "\<And>r. r \<in> set answers \<Longrightarrow> \<not> isl (rr_answer r) \<Longrightarrow> rr_node r \<in> set (coord_peers c)"
    using collectReads_delivered [OF assms(6)] by blast
  have ok2: "netOk view sound (cl_codec cl) (readRepair cl c env key old answers net1)"
    using NodeStore.repairSteps_took [OF assms(1,3,2) ok1 refl] by (simp add: readRepair_def)
  have "keyAt view (cl_codec cl) (readRepair cl c env key old answers net1) key n = Some old"
    if "n \<in> set (ReplicasFor (cl_hash cl) (coord_ring c) key)" "env_transport envG n = Delivered" for n
    unfolding readRepair_def
    by (rule NodeStore.repairs_write [OF assms(1,3,2,4,8) peers ok1 assms(12) [OF that]])
  then show "v2 = readOf (Some old)" by (intro NodeStore.CoordGet_agreed [OF assms(1,2) ok2 assms(11,14)])
qed

text \<open>A read while only node a has the old value, a write that reaches all, the repairs, a read without a.\<close>

definition oldOnA :: "Entry kvs net" where
  "oldOnA = snd (CoordPut trioCluster trio (netEnv [''b'', ''c''] 1) ''k'' ''old'' emptyNet)"

definition oldAnswers :: "readResult list" where
  "oldAnswers = fst (collectReads trioCluster trio (netEnv [] 2) ''k'' [''a'', ''b'', ''c''] oldOnA)"

definition newOnAll :: "Entry kvs net" where
  "newOnAll = snd (coordWrite trioCluster trio (netEnv [] 3) ''k'' (NewEntry 3 ''new'' False)
     (snd (collectReads trioCluster trio (netEnv [] 2) ''k'' [''a'', ''b'', ''c''] oldOnA)))"

definition repairedLate :: "Entry kvs net" where
  "repairedLate = readRepair trioCluster trio (netEnv [] 2) ''k'' (NewEntry 1 ''old'' False) oldAnswers newOnAll"

theorem stale_repair_loses_write_witness:
  "fst (CoordGet trioCluster trio (netEnv [''a''] 4) ''k'' newOnAll) = Inr (readOf (Some (NewEntry 3 ''new'' False)))
    \<and> fst (CoordGet trioCluster trio (netEnv [''a''] 4) ''k'' repairedLate) = Inr (readOf (Some (NewEntry 1 ''old'' False)))"
proof -
  let ?netR = "snd (collectReads trioCluster trio (netEnv [] 2) ''k'' [''a'', ''b'', ''c''] oldOnA)"
  let ?R = "ReplicasFor (cl_hash trioCluster) (coord_ring trio) ''k''"
  have R: "?R = [''a'', ''b'', ''c'']" by code_simp
  have total: "fst (sPut refOps k v s) = None" for k s and v :: Entry by (simp add: refOps_def)
  have ok0: "netOk map_of refInv (cl_codec trioCluster) emptyNet" using emptyNet_ok(1) by simp
  have ok: "netOk map_of refInv (cl_codec trioCluster) oldOnA"
    using NodeStore.coordWrite_took [OF refNode.NodeStore_axioms trio_ok(2,1) ok0 prod.collapse [symmetric]]
    unfolding oldOnA_def CoordPut_def by blast
  have env: "env_arrive (netEnv [] 2) ns = ns" "env_repair (netEnv [] 2) n = Delivered" for ns n by (simp_all add: netEnv_def)
  have c: "collectReads trioCluster trio (netEnv [] 2) ''k'' (env_arrive (netEnv [] 2) ?R) oldOnA = (oldAnswers, ?netR)"
    unfolding env R oldAnswers_def by simp
  have best: "foldl betterEntry None oldAnswers = Some (NewEntry 1 ''old'' False)" by code_simp
  have "fst (coordWrite trioCluster trio (netEnv [] 3) ''k'' (NewEntry 3 ''new'' False) ?netR) = None" by code_simp
  then have w: "coordWrite trioCluster trio (netEnv [] 3) ''k'' (NewEntry 3 ''new'' False) ?netR = (None, newOnAll)"
    unfolding newOnAll_def by (metis prod.collapse)
  have "\<forall>n \<in> set [''a'', ''b'', ''c'']. keyAt map_of plainCodec newOnAll ''k'' n = Some (NewEntry 3 ''new'' False)" by code_simp
  then have holds: "keyAt map_of (cl_codec trioCluster) newOnAll ''k'' n = Some (NewEntry 3 ''new'' False)" if "n \<in> set ?R" for n
    using that unfolding R trio_ok by blast
  have "\<forall>n \<in> set [''a'', ''b'', ''c'']. env_transport (netEnv [''a''] 4) n = Delivered \<longrightarrow>
      n \<in> behind oldAnswers (NewEntry 1 ''old'' False)" by code_simp
  then have stale: "n \<in> behind oldAnswers (NewEntry 1 ''old'' False)"
    if "n \<in> set ?R" "env_transport (netEnv [''a''] 4) n = Delivered" for n using that unfolding R by blast
  have "fst (CoordGet trioCluster trio (netEnv [''a''] 4) ''k'' newOnAll) = Inr (Some ''new'')"
    "fst (CoordGet trioCluster trio (netEnv [''a''] 4) ''k'' repairedLate) = Inr (Some ''old'')" by code_simp+
  then obtain a b where g: "CoordGet trioCluster trio (netEnv [''a''] 4) ''k'' newOnAll = (Inr (Some ''new''), a)"
    "CoordGet trioCluster trio (netEnv [''a''] 4) ''k'' repairedLate = (Inr (Some ''old''), b)" by (metis prod.collapse)
  have "Some ''new'' = readOf (Some (NewEntry 3 ''new'' False)) \<and> Some ''old'' = readOf (Some (NewEntry 1 ''old'' False))"
    by (rule stale_repair_loses_write [OF refNode.NodeStore_axioms trio_ok(1,2) total ok c best env(2) w holds
      arriveOk_netEnv(1) stale g(1) g(2) [unfolded repairedLate_def]])
  then show ?thesis unfolding g by simp
qed

section \<open>Scans\<close>

text \<open>\<open>best\<close> is the newest entry held on the nodes \<open>S\<close>.\<close>

definition newestIn :: "(Node \<Rightarrow> Entry option) \<Rightarrow> Node set \<Rightarrow> Entry option \<Rightarrow> bool" where
  "newestIn h S best \<longleftrightarrow> (\<forall>b. best = Some b \<longrightarrow> (\<exists>n \<in> S. h n = Some b))
     \<and> (\<forall>n \<in> S. \<forall>e. h n = Some e \<longrightarrow> (\<exists>b. best = Some b \<and> entry_timestamp e \<le> entry_timestamp b))"

lemma map_of_keepNewest:
  "map_of (keepNewest best i) k =
     (if ke_key i = k then (case map_of best k of None \<Rightarrow> Some (ke_entry i)
        | Some x \<Rightarrow> if entry_timestamp (ke_entry i) > entry_timestamp x then Some (ke_entry i) else Some x)
      else map_of best k)"
  by (auto simp: keepNewest_def AList.update_conv' split: option.split)

lemma keepNewest_distinct: "distinct (map fst best) \<Longrightarrow> distinct (map fst (foldl keepNewest best es))"
  by (induction es arbitrary: best) (auto simp: keepNewest_def distinct_update split: option.split)

text \<open>The newest of an entry that may be there and a list of candidates.\<close>

lemma keepNewest_step:
  "map_of best k = Some x \<Longrightarrow> \<exists>y. map_of (keepNewest best i) k = Some y \<and> entry_timestamp x \<le> entry_timestamp y"
  "\<exists>y. map_of (keepNewest best i) (ke_key i) = Some y \<and> entry_timestamp (ke_entry i) \<le> entry_timestamp y"
  unfolding map_of_keepNewest
  by (cases "ke_key i = k"; cases "entry_timestamp x < entry_timestamp (ke_entry i)"; simp)
    (cases "map_of best (ke_key i)", auto)

lemma keepNewest_keeps:
  "map_of best k = Some x \<Longrightarrow> \<exists>y. map_of (foldl keepNewest best es) k = Some y \<and> entry_timestamp x \<le> entry_timestamp y"
proof (induction es arbitrary: best x)
  case (Cons i es)
  then obtain x' where "map_of (keepNewest best i) k = Some x'" "entry_timestamp x \<le> entry_timestamp x'"
    using keepNewest_step(1) by blast
  then show ?case using Cons.IH [of "keepNewest best i" x'] by fastforce
qed simp

lemma keepNewest_covers:
  "i \<in> set es \<Longrightarrow> \<exists>y. map_of (foldl keepNewest best es) (ke_key i) = Some y \<and> entry_timestamp (ke_entry i) \<le> entry_timestamp y"
proof (induction es arbitrary: best)
  case (Cons j es)
  show ?case
  proof (cases "i \<in> set es")
    case False
    obtain x where "map_of (keepNewest best i) (ke_key i) = Some x" "entry_timestamp (ke_entry i) \<le> entry_timestamp x"
      using keepNewest_step(2) by blast
    then show ?thesis using False Cons.prems keepNewest_keeps [of "keepNewest best i" "ke_key i" x es] by fastforce
  qed (use Cons in simp)
qed simp

lemma keepNewest_from:
  "map_of (foldl keepNewest best es) k = Some y \<Longrightarrow> map_of best k = Some y \<or> (\<exists>i \<in> set es. ke_key i = k \<and> ke_entry i = y)"
proof (induction es arbitrary: best)
  case (Cons i es)
  from Cons.prems have "map_of (foldl keepNewest (keepNewest best i) es) k = Some y" by simp
  from Cons.IH [OF this] show ?case by (auto simp: map_of_keepNewest split: if_splits option.splits)
qed simp

definition scanned :: "('s, 'v) cluster \<Rightarrow> Coordinator \<Rightarrow> callEnv \<Rightarrow> string \<Rightarrow> 's net \<Rightarrow> Node set" where
  "scanned cl c env pre net =
     (let ns = env_arrive env (coord_peers c); rs = fst (collectScans cl env pre ns net)
      in {ns ! i | i. i < length ns \<and> \<not> isl (rs ! i)})"

lemma map_of_live:
  assumes "distinct (map fst best)"
  shows "map_of (liveEntries best) k = readOf (map_of best k)"
  using assms unfolding liveEntries_def
proof (induction best)
  case (Cons x best)
  have "map_of best (fst x) = None" using Cons.prems by (simp add: map_of_eq_None_iff)
  then show ?case using Cons by (cases x) (auto simp: readOf_def)
qed (simp add: readOf_def)

lemma liveEntries_distinct: "distinct (map fst best) \<Longrightarrow> distinct (map fst (liveEntries best))"
proof -
  assume "distinct (map fst best)"
  moreover have "map fst (liveEntries best) = map fst (filter (\<lambda>(k, e). \<not> entry_tombstone e) best)"
    by (auto simp: liveEntries_def)
  ultimately show ?thesis by (simp add: distinct_map_filter)
qed

lemma scanAnswers_mem: "es \<in> set (scanAnswers rs) \<longleftrightarrow> Inr es \<in> set rs"
  by (auto simp: scanAnswers_def split: sum.splits)

lemma scanAnswers_entries:
  assumes "length rs = length ns"
    and "\<And>i es. i < length ns \<Longrightarrow> rs ! i = Inr es \<Longrightarrow> heldList (\<lambda>k. h k (ns ! i)) pre es"
  defines "S \<equiv> {ns ! i | i. i < length ns \<and> \<not> isl (rs ! i)}"
  shows "scanAnswers rs = [] \<longleftrightarrow> S = {}"
    and "\<lparr>ke_key = k, ke_entry = e\<rparr> \<in> set (concat (scanAnswers rs)) \<longleftrightarrow> (\<exists>n \<in> S. h k n = Some e) \<and> HasPrefix k pre"
proof -
  have S: "n \<in> S \<longleftrightarrow> (\<exists>i < length ns. \<exists>es. n = ns ! i \<and> rs ! i = Inr es)" for n
    by (auto simp: S_def isl_def) (metis obj_sumE)
  have mem: "es \<in> set (scanAnswers rs) \<longleftrightarrow> (\<exists>i < length ns. rs ! i = Inr es)" for es
    using assms(1) unfolding scanAnswers_mem by (auto simp: in_set_conv_nth)
  show "scanAnswers rs = [] \<longleftrightarrow> S = {}"
  proof
    assume "scanAnswers rs = []"
    then show "S = {}" using mem S by (metis all_not_in_conv empty_iff set_empty)
  next
    assume "S = {}"
    then have "set (scanAnswers rs) = {}" using mem S by (metis all_not_in_conv)
    then show "scanAnswers rs = []" by simp
  qed
  have "\<lparr>ke_key = k, ke_entry = e\<rparr> \<in> set (concat (scanAnswers rs)) \<longleftrightarrow>
      (\<exists>i < length ns. \<exists>es. rs ! i = Inr es \<and> \<lparr>ke_key = k, ke_entry = e\<rparr> \<in> set es)"
    unfolding set_concat UN_iff Bex_def mem by blast
  also have "\<dots> \<longleftrightarrow> (\<exists>i < length ns. \<exists>es. rs ! i = Inr es \<and> h k (ns ! i) = Some e \<and> HasPrefix k pre)"
    using assms(2) by (meson heldList_def)
  also have "\<dots> \<longleftrightarrow> (\<exists>n \<in> S. h k n = Some e) \<and> HasPrefix k pre"
    using S by (metis (no_types, lifting))
  finally show "\<lparr>ke_key = k, ke_entry = e\<rparr> \<in> set (concat (scanAnswers rs)) \<longleftrightarrow> (\<exists>n \<in> S. h k n = Some e) \<and> HasPrefix k pre" .
qed

lemma keepNewest_newestIn:
  assumes "\<And>e. \<lparr>ke_key = k, ke_entry = e\<rparr> \<in> set es \<longleftrightarrow> (\<exists>n \<in> S. h n = Some e)"
  shows "newestIn h S (map_of (foldl keepNewest [] es) k)"
proof -
  have "\<exists>n \<in> S. h n = Some b" if b: "map_of (foldl keepNewest [] es) k = Some b" for b
  proof -
    obtain i where "i \<in> set es" "ke_key i = k" "ke_entry i = b" using keepNewest_from [OF b] by auto
    moreover from this have "i = \<lparr>ke_key = k, ke_entry = b\<rparr>" by simp
    ultimately have "\<lparr>ke_key = k, ke_entry = b\<rparr> \<in> set es" by metis
    then show ?thesis using assms by blast
  qed
  moreover have "\<exists>b. map_of (foldl keepNewest [] es) k = Some b \<and> entry_timestamp e \<le> entry_timestamp b"
    if "n \<in> S" "h n = Some e" for n e
    using keepNewest_covers [of "\<lparr>ke_key = k, ke_entry = e\<rparr>" es "[]"] assms that by auto
  ultimately show ?thesis by (auto simp: newestIn_def)
qed

text \<open>C26: A scan returns each key once and, for every key under the prefix, what the newest entry
  held by the peers that answered says (a tombstone hides the key); it fails only when none answered and
  changes nothing. The order of the results is left open, unlike that of a local engine.\<close>

theorem scan_newest:
  assumes "NodeStore ops view sound" and "cl_ops cl = ops"
    and "netOk view sound (cl_codec cl) net" and "CoordScan cl c env pre net = (r, net')"
  shows "keyAt view (cl_codec cl) net' = keyAt view (cl_codec cl) net \<and>
    (case r of
       Inl e \<Rightarrow> scanned cl c env pre net = {}
     | Inr kvs \<Rightarrow> scanned cl c env pre net \<noteq> {} \<and> distinct (map fst kvs) \<and>
         (\<forall>k. if HasPrefix k pre
              then \<exists>best. newestIn (keyAt view (cl_codec cl) net k) (scanned cl c env pre net) best \<and> map_of kvs k = readOf best
              else map_of kvs k = None))"
proof -
  let ?ns = "env_arrive env (coord_peers c)" and ?S = "scanned cl c env pre net" and ?h = "keyAt view (cl_codec cl) net"
  obtain rs net1 where s: "collectScans cl env pre ?ns net = (rs, net1)" by fastforce
  note col = NodeStore.collectScans_held [OF assms(1,2,3) s]
  define best where "best = foldl keepNewest [] (concat (scanAnswers rs))"
  have r: "net' = net1" "r = (if scanAnswers rs = [] then Inl (ScanFailed pre) else Inr (liveEntries best))"
    using assms(4) s by (auto simp: CoordScan_def Let_def best_def split: if_splits)
  have S: "?S = {?ns ! i | i. i < length ?ns \<and> \<not> isl (rs ! i)}" using s by (simp add: scanned_def Let_def)
  note ans = scanAnswers_entries [of rs ?ns ?h pre, folded S]
  have ans1: "scanAnswers rs = [] \<longleftrightarrow> ?S = {}"
    and ans2: "\<lparr>ke_key = k, ke_entry = e\<rparr> \<in> set (concat (scanAnswers rs)) \<longleftrightarrow> (\<exists>n \<in> ?S. ?h k n = Some e) \<and> HasPrefix k pre" for k e
    using col by (intro ans; simp)+
  have d: "distinct (map fst best)" unfolding best_def by (rule keepNewest_distinct) simp
  have "if HasPrefix k pre then \<exists>b. newestIn (?h k) ?S b \<and> map_of (liveEntries best) k = readOf b
      else map_of (liveEntries best) k = None" for k
  proof (cases "HasPrefix k pre")
    case True
    then have "newestIn (?h k) ?S (map_of best k)" unfolding best_def using ans2 by (intro keepNewest_newestIn) simp
    then show ?thesis using True map_of_live [OF d] by auto
  next
    case False
    have "map_of best k = None"
    proof (rule ccontr)
      assume "map_of best k \<noteq> None"
      then obtain i where "i \<in> set (concat (scanAnswers rs))" "ke_key i = k"
        using keepNewest_from [of "[]" "concat (scanAnswers rs)" k] unfolding best_def
        by (metis map_of.simps(1) not_None_eq)
      moreover from this have "i = \<lparr>ke_key = k, ke_entry = ke_entry i\<rparr>" by simp
      ultimately show False using ans2 [of k "ke_entry i"] False by metis
    qed
    then show ?thesis using False map_of_live [OF d] by (simp add: readOf_def)
  qed
  then show ?thesis using col ans1 liveEntries_distinct [OF d] unfolding r by auto
qed

text \<open>The net after a write that misses node a.\<close>

definition partlyWritten :: "Entry kvs net" where
  "partlyWritten = emptyNet(''b'' := [(''k/1'', NewEntry 5 ''x'' False)], ''c'' := [(''k/1'', NewEntry 5 ''x'' False)])"

theorem scan_newest_witness:
  "let (r, net') = CoordScan trioCluster trio (netEnv [''b''] 6) ''k/'' partlyWritten
   in r = Inr [(''k/1'', ''x'')] \<and> keyAt map_of plainCodec net' = keyAt map_of plainCodec partlyWritten"
proof -
  let ?s = "CoordScan trioCluster trio (netEnv [''b''] 6) ''k/'' partlyWritten"
  have "netOk map_of refInv (cl_codec trioCluster) partlyWritten"
    by (simp add: netOk_def nodeOk_def partlyWritten_def emptyNet_def refInv_def plainCodec_def)
  then have "keyAt map_of plainCodec (snd ?s) = keyAt map_of plainCodec partlyWritten"
    using scan_newest [OF refNode.NodeStore_axioms _ _ surjective_pairing, of trioCluster partlyWritten] by simp
  moreover have "fst ?s = Inr [(''k/1'', ''x'')]" by code_simp
  ultimately show ?thesis by (simp add: case_prod_beta Let_def)
qed

end
