(* ===== verification/Membership.thy ===== *)
theory Membership
  imports Ring "HOL-Library.Product_Lexorder"
begin

text \<open>
  The gossiped membership view, \<open>src/api/queel/cluster/membership.go\<close>. The Go map \<open>members\<close> is an
  association list with one entry per node; the order of its entries stands for the map's unspecified
  iteration order, and the lemmas below do not depend on it. The answer of a peer to a gossip call and
  the clock are arguments. The lemmas show that a merge is the join of a total order on the entries of
  a node, that an exchange leaves both sides with the same view, and what a verdict of death implies.
\<close>

section \<open>State and operations\<close>

datatype MemberStatus = StatusAlive | StatusDead

record Member =
  member_node :: Node
  member_status :: MemberStatus
  member_incarnation :: int

record Membership =
  mship_self :: Node
  mship_members :: "(Node \<times> Member) list"

text \<open>The wrap-around of Go's \<open>int64\<close>.\<close>

definition int64 :: "int \<Rightarrow> int" where
  "int64 i = (i + 2 ^ 63) mod 2 ^ 64 - 2 ^ 63"

definition NewMembership :: "Node \<Rightarrow> int \<Rightarrow> Membership" where
  "NewMembership self now =
     \<lparr>mship_self = self,
      mship_members = [(self, \<lparr>member_node = self, member_status = StatusAlive, member_incarnation = now\<rparr>)]\<rparr>"

definition snapshot :: "Membership \<Rightarrow> Member list" where
  "snapshot m = map snd (mship_members m)"

definition isNewer :: "Member \<Rightarrow> Member \<Rightarrow> bool" where
  "isNewer candidate current =
     (if member_incarnation candidate \<noteq> member_incarnation current
      then member_incarnation candidate > member_incarnation current
      else member_status candidate = StatusDead \<and> member_status current = StatusAlive)"

fun mergeView :: "(Node \<times> Member) list \<Rightarrow> Member list \<Rightarrow> (Node \<times> Member) list" where
  "mergeView members [] = members"
| "mergeView members (incoming # view) =
     mergeView
       (case map_of members (member_node incoming) of
          None \<Rightarrow> AList.update (member_node incoming) incoming members
        | Some current \<Rightarrow>
            if isNewer incoming current then AList.update (member_node incoming) incoming members else members)
       view"

definition mergeGossip :: "Membership \<Rightarrow> Member list \<Rightarrow> Membership" where
  "mergeGossip m view = m\<lparr>mship_members := mergeView (mship_members m) view\<rparr>"

definition HandleGossip :: "Membership \<Rightarrow> Member list \<Rightarrow> Member list \<times> Membership" where
  "HandleGossip m theirView = (let m' = mergeGossip m theirView in (snapshot m', m'))"

definition markDead :: "int \<Rightarrow> Membership \<Rightarrow> Node \<Rightarrow> Membership" where
  "markDead now m node =
     (let incarnation = (case map_of (mship_members m) node of
                           None \<Rightarrow> now
                         | Some current \<Rightarrow> int64 (member_incarnation current + 1))
      in m\<lparr>mship_members := AList.update node
             \<lparr>member_node = node, member_status = StatusDead, member_incarnation = incarnation\<rparr> (mship_members m)\<rparr>)"

definition gossipCandidates :: "Membership \<Rightarrow> Node list" where
  "gossipCandidates m =
     map fst (filter (\<lambda>(n, mem). n \<noteq> mship_self m \<and> member_status mem = StatusAlive) (mship_members m))"

text \<open>\<open>pick\<close> is the random number of \<open>rand.Intn\<close>.\<close>

definition randomPeer :: "nat \<Rightarrow> Membership \<Rightarrow> Node" where
  "randomPeer pick m =
     (let candidates = gossipCandidates m
      in if candidates = [] then [] else candidates ! (pick mod length candidates))"

definition AliveNodes :: "Membership \<Rightarrow> Node list" where
  "AliveNodes m =
     sort (map (\<lambda>(n, mem). member_node mem)
       (filter (\<lambda>(n, mem). member_status mem = StatusAlive) (mship_members m)))"

text \<open>What comes back from a gossip call: no connection, a status above 300, a body that does not
  decode, or the peer's view.\<close>

datatype gossipReply = CallFailed | BadStatus int | BadBody | TheirView "Member list"

definition gossipWith :: "int \<Rightarrow> Membership \<Rightarrow> Node \<Rightarrow> gossipReply \<Rightarrow> bool \<times> Membership" where
  "gossipWith now m peer reply =
     (case reply of
        CallFailed \<Rightarrow> (False, markDead now m peer)
      | BadStatus s \<Rightarrow> (False, markDead now m peer)
      | BadBody \<Rightarrow> (False, m)
      | TheirView view \<Rightarrow> (True, mergeGossip m view))"

definition Gossip :: "int \<Rightarrow> nat \<Rightarrow> (Node \<Rightarrow> gossipReply) \<Rightarrow> Membership \<Rightarrow> bool \<times> Membership" where
  "Gossip now pick answer m =
     (let peer = randomPeer pick m in if peer = [] then (True, m) else gossipWith now m peer (answer peer))"

section \<open>The order on entries\<close>

definition newness :: "Member \<Rightarrow> int \<times> bool" where
  "newness m = (member_incarnation m, member_status m = StatusDead)"

lemma isNewer_newness: "isNewer c k \<longleftrightarrow> newness k < newness c"
  by (cases "member_status c"; cases "member_status k")
    (auto simp: isNewer_def newness_def less_prod_def less_le_not_le)

lemma newness_inj:
  assumes "newness a = newness b" and "member_node a = member_node b"
  shows "a = b"
proof -
  have "member_status a = member_status b"
    using assms(1) by (cases "member_status a"; cases "member_status b") (auto simp: newness_def)
  then show ?thesis using assms by (auto simp: newness_def intro: Member.equality)
qed

text \<open>The entries of a view sit under their own node.\<close>

definition wfMembers :: "(Node \<times> Member) list \<Rightarrow> bool" where
  "wfMembers ms \<longleftrightarrow> distinct (map fst ms) \<and> (\<forall>(n, m) \<in> set ms. member_node m = n)"

lemma wfMembers_map_of:
  "wfMembers ms \<longleftrightarrow> distinct (map fst ms) \<and> (\<forall>n m. map_of ms n = Some m \<longrightarrow> member_node m = n)"
  unfolding wfMembers_def by (intro conj_cong refl) (auto simp: map_of_eq_Some_iff)

lemma wfMembers_update: "wfMembers ms \<Longrightarrow> wfMembers (AList.update (member_node m) m ms)"
  by (auto simp: wfMembers_map_of distinct_update AList.update_conv')

lemma wfMembers_mergeView: "wfMembers ms \<Longrightarrow> wfMembers (mergeView ms view)"
  by (induction ms view rule: mergeView.induct) (auto simp: wfMembers_update split: option.split)

lemma wfMembers_node: "wfMembers ms \<Longrightarrow> map_of ms n = Some m \<Longrightarrow> member_node m = n"
  by (auto simp: wfMembers_def dest: map_of_SomeD)

lemma wfMembers_set: "wfMembers ms \<Longrightarrow> m \<in> snd ` set ms \<longleftrightarrow> map_of ms (member_node m) = Some m"
  by (force simp: wfMembers_def map_of_eq_Some_iff)

text \<open>\<open>newestOf S n m\<close>: \<open>m\<close> is the newest entry about \<open>n\<close> in the set \<open>S\<close>, \<open>None\<close> when there is none.\<close>

definition newestOf :: "Member set \<Rightarrow> Node \<Rightarrow> Member option \<Rightarrow> bool" where
  "newestOf S n r \<longleftrightarrow>
     (case r of
        None \<Rightarrow> \<forall>m \<in> S. member_node m \<noteq> n
      | Some m \<Rightarrow> m \<in> S \<and> member_node m = n \<and> (\<forall>m' \<in> S. member_node m' = n \<longrightarrow> newness m' \<le> newness m))"

lemma newestOf_unique: "newestOf S n r \<Longrightarrow> newestOf S n r' \<Longrightarrow> r = r'"
  by (auto simp: newestOf_def split: option.splits) (metis newness_inj order_antisym)

lemma newestOf_lookup:
  assumes "\<And>m. m \<in> S \<longleftrightarrow> f (member_node m) = Some m" and "\<And>n m. f n = Some m \<Longrightarrow> member_node m = n"
  shows "newestOf S n (f n)"
  using assms(2) [of n] by (cases "f n") (auto simp: newestOf_def assms(1))

lemma newestOf_members: "wfMembers ms \<Longrightarrow> newestOf (snd ` set ms) n (map_of ms n)"
  by (rule newestOf_lookup) (rule wfMembers_set, assumption, rule wfMembers_node)

lemma newestOf_insert:
  assumes "newestOf S (member_node m) r"
  shows "newestOf (insert m S) (member_node m)
    (case r of None \<Rightarrow> Some m | Some k \<Rightarrow> if isNewer m k then Some m else Some k)"
  using assms by (auto simp: newestOf_def isNewer_newness split: option.splits)

lemma newestOf_insert_other: "member_node m \<noteq> n \<Longrightarrow> newestOf S n r \<Longrightarrow> newestOf (insert m S) n r"
  by (auto simp: newestOf_def split: option.splits)

lemma newestOf_mergeView:
  assumes "\<And>n. newestOf S n (map_of ms n)"
  shows "newestOf (S \<union> set view) n (map_of (mergeView ms view) n)"
  using assms
proof (induction ms view arbitrary: S n rule: mergeView.induct)
  case (2 ms m view)
  let ?ms = "case map_of ms (member_node m) of
      None \<Rightarrow> AList.update (member_node m) m ms
    | Some k \<Rightarrow> if isNewer m k then AList.update (member_node m) m ms else ms"
  have "newestOf (insert m S) n' (map_of ?ms n')" for n'
  proof (cases "n' = member_node m")
    case True
    have "map_of ?ms n' = (case map_of ms (member_node m) of None \<Rightarrow> Some m | Some k \<Rightarrow> if isNewer m k then Some m else Some k)"
      using True by (auto simp: AList.update_conv' split: option.split)
    then show ?thesis using newestOf_insert [OF "2.prems" [of "member_node m"]] True by simp
  next
    case False
    then have "map_of ?ms n' = map_of ms n'" by (auto simp: AList.update_conv' split: option.split)
    then show ?thesis using newestOf_insert_other [of m n'] False "2.prems" by auto
  qed
  from "2.IH" [OF this] show ?case by simp
qed simp

lemma mergeView_newest:
  "wfMembers ms \<Longrightarrow> newestOf (snd ` set ms \<union> set view) n (map_of (mergeView ms view) n)"
  by (rule newestOf_mergeView) (rule newestOf_members)

lemma mergeView_append: "mergeView ms (v @ w) = mergeView (mergeView ms v) w"
  by (induction ms v rule: mergeView.induct) auto

text \<open>Merging the snapshot of another view is a join, node by node.\<close>

fun newer :: "Member option \<Rightarrow> Member option \<Rightarrow> Member option" where
  "newer None m = m"
| "newer (Some k) None = Some k"
| "newer (Some k) (Some m) = (if isNewer m k then Some m else Some k)"

lemma newestOf_Un: "newestOf S n r \<Longrightarrow> newestOf T n r' \<Longrightarrow> newestOf (S \<union> T) n (newer r r')"
  by (cases r; cases r')
    (auto simp: newestOf_def isNewer_newness not_less intro: order_trans less_imp_le dest: order_trans)

lemma mergeView_newer:
  assumes "wfMembers ms" and "wfMembers ms'"
  shows "map_of (mergeView ms (map snd ms')) n = newer (map_of ms n) (map_of ms' n)"
  using mergeView_newest [OF assms(1), of "map snd ms'" n]
    newestOf_Un [OF newestOf_members [OF assms(1)] newestOf_members [OF assms(2)], of n]
  by (simp add: newestOf_unique)

lemma newer_absorb:
  assumes "wfMembers ms" and "wfMembers ms'"
  shows "newer (map_of ms n) (newer (map_of ms' n) (map_of ms n)) = newer (map_of ms' n) (map_of ms n)"
  by (cases "map_of ms n"; cases "map_of ms' n")
    (auto simp: isNewer_newness not_less dest!: wfMembers_node [OF assms(1)] wfMembers_node [OF assms(2)] intro: newness_inj)

section \<open>Exchanges\<close>

text \<open>The pull and push of one gossip round: the caller sends its snapshot, the peer merges it and
  answers with its own merged view, which the caller merges.\<close>

definition exchange :: "int \<Rightarrow> Membership \<Rightarrow> Membership \<Rightarrow> Membership \<times> Membership" where
  "exchange now a b =
     (let (view, b') = HandleGossip b (snapshot a)
      in (snd (gossipWith now a (mship_self b) (TheirView view)), b'))"

lemma exchange_newer:
  assumes "wfMembers (mship_members a)" and "wfMembers (mship_members b)" and "exchange now a b = (a', b')"
  shows "map_of (mship_members b') n = newer (map_of (mship_members b) n) (map_of (mship_members a) n)"
    and "map_of (mship_members a') n = newer (map_of (mship_members b) n) (map_of (mship_members a) n)"
    and "wfMembers (mship_members a')" and "wfMembers (mship_members b')"
proof -
  have ab: "mship_members b' = mergeView (mship_members b) (map snd (mship_members a))"
    "mship_members a' = mergeView (mship_members a) (map snd (mship_members b'))"
    using assms(3) by (auto simp: exchange_def HandleGossip_def Let_def mergeGossip_def gossipWith_def snapshot_def)
  show b': "map_of (mship_members b') n = newer (map_of (mship_members b) n) (map_of (mship_members a) n)"
    unfolding ab(1) by (rule mergeView_newer [OF assms(2,1)])
  show wf: "wfMembers (mship_members b')" using assms(2) ab(1) by (simp add: wfMembers_mergeView)
  then show "wfMembers (mship_members a')" using assms(1) ab(2) by (simp add: wfMembers_mergeView)
  show "map_of (mship_members a') n = newer (map_of (mship_members b) n) (map_of (mship_members a) n)"
    unfolding ab(2) mergeView_newer [OF assms(1) wf] b' by (rule newer_absorb [OF assms(1,2)])
qed

text \<open>C19: After an exchange both sides believe the same about every node, and this is the newest
  entry either of them held: no higher incarnation is lost, and at an equal incarnation a verdict of
  death is kept over good news.\<close>

theorem exchange_agrees:
  assumes "wfMembers (mship_members a)" and "wfMembers (mship_members b)"
    and "exchange now a b = (a', b')"
  shows "map_of (mship_members a') n = map_of (mship_members b') n \<and>
    newestOf (set (snapshot a) \<union> set (snapshot b)) n (map_of (mship_members a') n)"
  using newestOf_Un [OF newestOf_members [OF assms(2)] newestOf_members [OF assms(1)], of n]
    exchange_newer(1,2) [OF assms, of n]
  by (simp add: snapshot_def Un_commute)

text \<open>C20: Views converge whatever the order, grouping and repetition of the gossip that carries them:
  two nodes that have seen the same entries, initially or in merged views, believe the same.\<close>

theorem merge_order_irrelevant:
  assumes "wfMembers (mship_members a)" and "wfMembers (mship_members b)"
    and "set (snapshot a) \<union> set (concat vs) = set (snapshot b) \<union> set (concat ws)"
  shows "map_of (mship_members (foldl mergeGossip a vs)) n = map_of (mship_members (foldl mergeGossip b ws)) n"
proof -
  have fold: "mship_members (foldl mergeGossip m us) = mergeView (mship_members m) (concat us)" for m us
    by (induction us arbitrary: m) (simp_all add: mergeGossip_def mergeView_append)
  have "newestOf (set (snapshot m) \<union> set (concat us)) n (map_of (mship_members (foldl mergeGossip m us)) n)"
    if "wfMembers (mship_members m)" for m us
    using mergeView_newest [OF that, of "concat us" n] by (simp add: fold snapshot_def)
  from this [OF assms(1), of vs] this [OF assms(2), of ws] show ?thesis
    unfolding assms(3) by (rule newestOf_unique)
qed

lemma wfMembers_NewMembership [simp]: "wfMembers (mship_members (NewMembership self now))"
  by (simp add: NewMembership_def wfMembers_def)

theorem exchange_agrees_witness:
  "let a = NewMembership ''a'' 5; b = NewMembership ''b'' 7; (a', b') = exchange 9 a b
   in map_of (mship_members a') ''a'' = map_of (mship_members b') ''a'' \<and>
      newestOf (set (snapshot a) \<union> set (snapshot b)) ''a'' (map_of (mship_members a') ''a'')"
  unfolding Let_def case_prod_beta by (rule exchange_agrees) simp_all

theorem merge_order_irrelevant_witness:
  "map_of (mship_members (foldl mergeGossip (NewMembership ''a'' 5)
      [snapshot (NewMembership ''b'' 6), snapshot (NewMembership ''c'' 7)])) ''c'' =
   map_of (mship_members (foldl mergeGossip (NewMembership ''c'' 7)
      [snapshot (NewMembership ''a'' 5) @ snapshot (NewMembership ''b'' 6), snapshot (NewMembership ''a'' 5)])) ''c''"
  by (rule merge_order_irrelevant) (simp, simp, auto simp: snapshot_def NewMembership_def)

section \<open>Verdicts of death\<close>

text \<open>What happens in a cluster, with the caller's clock: a node exchanges views with a peer, the peer's
  answer is lost after it merged, a call fails before it reaches the peer, or a node restarts with a
  fresh view.\<close>

datatype clusterEvent = Exchanged Node Node | AnswerLost Node Node | Unreached Node Node | Restarted Node

fun clusterStep :: "(Node \<Rightarrow> Membership) \<Rightarrow> int \<times> clusterEvent \<Rightarrow> (Node \<Rightarrow> Membership)" where
  "clusterStep c (now, Exchanged a b) =
     (let (view, b') = HandleGossip (c b) (snapshot (c a))
      in c(b := b', a := snd (gossipWith now (c a) b (TheirView view))))"
| "clusterStep c (now, AnswerLost a b) =
     (let (view, b') = HandleGossip (c b) (snapshot (c a))
      in c(b := b', a := snd (gossipWith now (c a) b CallFailed)))"
| "clusterStep c (now, Unreached a b) = c(a := snd (gossipWith now (c a) b CallFailed))"
| "clusterStep c (now, Restarted a) = c(a := NewMembership a now)"

abbreviation verdict :: "(Node \<Rightarrow> Membership) \<Rightarrow> Node \<Rightarrow> Node \<Rightarrow> Member option" where
  "verdict c a x \<equiv> map_of (mship_members (c a)) x"

definition believesDead :: "(Node \<Rightarrow> Membership) \<Rightarrow> Node \<Rightarrow> Node \<Rightarrow> bool" where
  "believesDead c a x \<longleftrightarrow> (\<exists>m. verdict c a x = Some m \<and> member_status m = StatusDead)"

text \<open>The entries about \<open>x\<close> as they are while it does not restart: the only entry that calls it alive is
  the one it started with, at incarnation \<open>start\<close>, and no incarnation passes \<open>lim\<close>.\<close>

definition aliveIsOriginal :: "Node \<Rightarrow> int \<Rightarrow> int \<Rightarrow> Member option \<Rightarrow> bool" where
  "aliveIsOriginal x start lim r \<longleftrightarrow>
     (\<forall>m. r = Some m \<longrightarrow> start \<le> member_incarnation m \<and> member_incarnation m \<le> lim \<and>
        (member_status m = StatusAlive \<longrightarrow> member_incarnation m = start))"

definition verdictInv :: "Node \<Rightarrow> int \<Rightarrow> int \<Rightarrow> (Node \<Rightarrow> Membership) \<Rightarrow> bool" where
  "verdictInv x start lim c \<longleftrightarrow>
     (\<forall>a. wfMembers (mship_members (c a)) \<and> aliveIsOriginal x start lim (verdict c a x))"

lemma aliveIsOriginal_newer:
  "aliveIsOriginal x start lim r \<Longrightarrow> aliveIsOriginal x start lim r' \<Longrightarrow> aliveIsOriginal x start lim (newer r r')"
  by (cases r; cases r') (auto simp: aliveIsOriginal_def)

lemma aliveIsOriginal_mono: "aliveIsOriginal x start lim r \<Longrightarrow> lim \<le> lim' \<Longrightarrow> aliveIsOriginal x start lim' r"
  by (auto simp: aliveIsOriginal_def)

lemma int64_id: "- (2 ^ 63) \<le> i \<Longrightarrow> i < 2 ^ 63 \<Longrightarrow> int64 i = i"
  by (simp add: int64_def)

lemma markDead_verdict:
  "map_of (mship_members (markDead now m n)) n' =
     (if n' = n
      then Some \<lparr>member_node = n, member_status = StatusDead,
             member_incarnation = (case map_of (mship_members m) n of None \<Rightarrow> now
                                   | Some k \<Rightarrow> int64 (member_incarnation k + 1))\<rparr>
      else map_of (mship_members m) n')"
  by (simp add: markDead_def Let_def AList.update_conv')

lemma wfMembers_markDead: "wfMembers (mship_members m) \<Longrightarrow> wfMembers (mship_members (markDead now m n))"
  using wfMembers_update [of "mship_members m" "\<lparr>member_node = n, member_status = StatusDead,
    member_incarnation = i\<rparr>" for i] by (simp add: markDead_def Let_def)

lemma aliveIsOriginal_markDead:
  assumes "aliveIsOriginal x start lim (map_of (mship_members m) x)" "start \<le> now" "now \<le> lim"
    and "0 \<le> start" "lim + 1 < 2 ^ 63"
  shows "aliveIsOriginal x start (lim + 1) (map_of (mship_members (markDead now m n)) x)"
  using assms
  by (auto simp: aliveIsOriginal_def markDead_verdict int64_id split: option.splits)

text \<open>Each event changes a view by joins with other views, by a mark or by a fresh start.\<close>

definition eventOk :: "Node \<Rightarrow> int \<Rightarrow> int \<Rightarrow> Node \<Rightarrow> int \<times> clusterEvent \<Rightarrow> bool" where
  "eventOk x start lim a te \<longleftrightarrow>
     start \<le> fst te \<and> fst te \<le> lim \<and> snd te \<noteq> Restarted x \<and> snd te \<noteq> Restarted a"

lemma verdictInv_step:
  assumes "verdictInv x start lim c" "eventOk x start lim a te" "0 \<le> start" "lim + 1 < 2 ^ 63"
  shows "verdictInv x start (lim + 1) (clusterStep c te)"
proof -
  have wf: "wfMembers (mship_members (c b))" and o: "aliveIsOriginal x start lim (verdict c b x)" for b
    using assms(1) by (auto simp: verdictInv_def)
  have o': "aliveIsOriginal x start (lim + 1) (verdict c b x)" for b by (rule aliveIsOriginal_mono [OF o]) simp
  have v: "wfMembers (mship_members m) \<Longrightarrow> wfMembers (mship_members m') \<Longrightarrow>
      map_of (mship_members (mergeGossip m (snapshot m'))) x =
        newer (map_of (mship_members m) x) (map_of (mship_members m') x)" for m m'
    by (simp add: mergeGossip_def snapshot_def mergeView_newer)
  have w: "wfMembers (mship_members m) \<Longrightarrow> wfMembers (mship_members (mergeGossip m view))" for m view
    by (simp add: mergeGossip_def wfMembers_mergeView)
  obtain now e where te: "te = (now, e)" by (cases te)
  show ?thesis
  proof (cases e)
    case (Exchanged a b)
    then show ?thesis
      by (auto simp: te verdictInv_def HandleGossip_def Let_def gossipWith_def v w wf o' aliveIsOriginal_newer)
  next
    case (AnswerLost a b)
    then show ?thesis using assms
      by (auto simp: te verdictInv_def HandleGossip_def Let_def gossipWith_def v w wf o' aliveIsOriginal_newer
        wfMembers_markDead eventOk_def intro: aliveIsOriginal_markDead o)
  next
    case (Unreached a b)
    then show ?thesis using assms
      by (auto simp: te verdictInv_def gossipWith_def wf o' wfMembers_markDead eventOk_def
        intro: aliveIsOriginal_markDead o)
  next
    case (Restarted a)
    then show ?thesis using assms o' by (auto simp: te verdictInv_def wf eventOk_def)
      (auto simp: NewMembership_def aliveIsOriginal_def)
  qed
qed

lemma newer_dead:
  assumes "aliveIsOriginal x start lim r" "aliveIsOriginal x start lim (Some m)" "member_status m = StatusDead"
  shows "\<exists>m'. newer (Some m) r = Some m' \<and> member_status m' = StatusDead"
    "\<exists>m'. newer r (Some m) = Some m' \<and> member_status m' = StatusDead"
  using assms by (cases r; cases "member_status (the r)"; force simp: aliveIsOriginal_def isNewer_def)+


lemma believesDead_step:
  assumes inv: "verdictInv x start lim c" and ev: "eventOk x start lim a te" and dead: "believesDead c a x"
  shows "believesDead (clusterStep c te) a x"
proof -
  obtain now e where te: "te = (now, e)" by (cases te)
  obtain m where m: "verdict c a x = Some m" "member_status m = StatusDead" using dead by (auto simp: believesDead_def)
  have wf: "wfMembers (mship_members (c b))" and o: "aliveIsOriginal x start lim (verdict c b x)" for b
    using inv by (auto simp: verdictInv_def)
  have am: "aliveIsOriginal x start lim (Some m)" using o [of a] m by simp
  have v: "map_of (mship_members (mergeGossip (c b) (snapshot m'))) x = newer (verdict c b x) (map_of (mship_members m') x)"
    if "wfMembers (mship_members m')" for b m' using that wf [of b] by (simp add: mergeGossip_def snapshot_def mergeView_newer)
  have w: "wfMembers (mship_members (mergeGossip (c b) view))" for b view
    by (simp add: mergeGossip_def wfMembers_mergeView wf)
  note d = newer_dead [OF _ am m(2)] and n = aliveIsOriginal_newer [OF o o]
  show ?thesis
  proof (cases e)
    case (Exchanged a' b')
    show ?thesis using m d(1) [OF n, of b' a] d(2) [OF o, of b'] d(1) [OF o]
      by (auto simp: te Exchanged believesDead_def HandleGossip_def Let_def gossipWith_def v w wf)
  next
    case (AnswerLost a' b')
    have other: "believesDead (clusterStep c te) a x" if "a \<noteq> a'"
      using that m d(1) [OF o, of a']
      by (auto simp: te AnswerLost believesDead_def HandleGossip_def Let_def v [OF wf])
    show ?thesis
    proof (cases "a = a'")
      case True
      then show ?thesis using m
        by (auto simp: te AnswerLost believesDead_def HandleGossip_def Let_def gossipWith_def markDead_verdict)
    qed (rule other)
  next
    case (Unreached a' b')
    show ?thesis using m by (auto simp: te Unreached believesDead_def gossipWith_def markDead_verdict)
  next
    case (Restarted a')
    show ?thesis using m ev by (auto simp: te Restarted believesDead_def eventOk_def)
  qed
qed

lemma AliveNodes_verdict:
  "wfMembers (mship_members m) \<Longrightarrow>
    x \<in> set (AliveNodes m) \<longleftrightarrow> (\<exists>k. map_of (mship_members m) x = Some k \<and> member_status k = StatusAlive)"
  unfolding wfMembers_def AliveNodes_def by (fastforce simp: map_of_eq_Some_iff)

lemma believesDead_AliveNodes:
  "wfMembers (mship_members (c a)) \<Longrightarrow> believesDead c a x \<Longrightarrow> x \<notin> set (AliveNodes (c a))"
  by (auto simp: believesDead_def AliveNodes_verdict)

lemma AliveNodes_sorted: "wfMembers (mship_members m) \<Longrightarrow> sorted (AliveNodes m) \<and> distinct (AliveNodes m)"
proof -
  assume wf: "wfMembers (mship_members m)"
  have "map (\<lambda>(n, mem). member_node mem) (filter P (mship_members m)) = map fst (filter P (mship_members m))" for P
    using wf by (auto simp: wfMembers_def)
  then have eq: "AliveNodes m = sort (map fst (filter (\<lambda>(n, mem). member_status mem = StatusAlive) (mship_members m)))"
    unfolding AliveNodes_def by (rule arg_cong)
  show ?thesis using wf unfolding eq by (simp add: wfMembers_def distinct_map_filter)
qed

text \<open>A verdict of death is final until a restart, when no clock is behind. Suppose that every view has
  \<open>x\<close> alive only with the incarnation \<open>start\<close> of its last start and has no entry about \<open>x\<close> older than that,
  and that every event happens at a clock reading from \<open>start\<close> on. Then, while neither \<open>x\<close> nor \<open>a\<close> restarts,
  if \<open>a\<close> believes \<open>x\<close> dead it goes on to believe it, however views are exchanged, lost or marked, and
  leaves \<open>x\<close> out of the nodes its coordinator uses: there is no refutation, also when \<open>x\<close> is well and
  reachable. (A verdict stamped by a clock behind \<open>start\<close> would be overridden by \<open>x\<close>'s own entry.)\<close>

theorem dead_until_restart:
  assumes "verdictInv x start lim c" and "believesDead c a x"
    and "list_all (eventOk x start lim a) evs" and "0 \<le> start" and "lim + int (length evs) < 2 ^ 63"
  shows "believesDead (foldl clusterStep c evs) a x \<and> x \<notin> set (AliveNodes (foldl clusterStep c evs a))"
  using assms
proof (induction evs arbitrary: c lim)
  case Nil
  then have "wfMembers (mship_members (c a))" by (simp add: verdictInv_def)
  then show ?case using Nil believesDead_AliveNodes by simp
next
  case (Cons te evs)
  have "verdictInv x start (lim + 1) (clusterStep c te)"
    using Cons.prems by (intro verdictInv_step) auto
  moreover have "believesDead (clusterStep c te) a x"
    using Cons.prems by (intro believesDead_step) auto
  moreover have "list_all (eventOk x start (lim + 1) a) evs"
    using Cons.prems(3) by (auto simp: list_all_iff eventOk_def)
  ultimately show ?case using Cons.prems Cons.IH [of "lim + 1" "clusterStep c te"] by simp
qed

text \<open>Three nodes that know each other; \<open>b\<close> fails to reach \<open>x\<close> once, and \<open>a\<close> hears of it.\<close>

definition trioView :: "Node \<Rightarrow> Membership" where
  "trioView n = \<lparr>mship_self = n, mship_members = map (\<lambda>k.
     (k, \<lparr>member_node = k, member_status = StatusAlive, member_incarnation = 5\<rparr>)) [''a'', ''b'', ''x'']\<rparr>"

lemma trioView_inv: "verdictInv ''x'' 5 6 (clusterStep trioView (6, Unreached ''b'' ''x''))"
proof -
  have "verdictInv ''x'' 5 5 trioView"
    by (auto simp: verdictInv_def trioView_def wfMembers_def aliveIsOriginal_def split: if_splits)
  then have "verdictInv ''x'' 5 (5 + 1) (clusterStep trioView (5, Unreached ''b'' ''x''))"
    by (rule verdictInv_step [of _ _ _ _ "''b''"]) (simp_all add: eventOk_def)
  moreover have "clusterStep trioView (6, Unreached ''b'' ''x'') = clusterStep trioView (5, Unreached ''b'' ''x'')"
    by (simp add: gossipWith_def markDead_def Let_def trioView_def)
  ultimately show ?thesis by simp
qed

theorem dead_until_restart_witness:
  "let c = clusterStep trioView (6, Unreached ''b'' ''x'');
       c' = foldl clusterStep c [(6, Exchanged ''x'' ''b''), (6, Exchanged ''b'' ''x''), (6, Restarted ''a'')]
   in believesDead c' ''b'' ''x'' \<and> ''x'' \<notin> set (AliveNodes (c' ''b''))"
  unfolding Let_def
proof (rule dead_until_restart)
  show "verdictInv ''x'' 5 6 (clusterStep trioView (6, Unreached ''b'' ''x''))" by (rule trioView_inv)
qed (simp_all add: eventOk_def believesDead_def gossipWith_def markDead_verdict)

text \<open>C21: Contrary to its comment, \<open>AliveNodes\<close> does not always list the node itself: a peer's verdict
  of death about a node, gossiped to the node, replaces its own entry, and after this exchange the node
  leaves itself out of the nodes it routes by.\<close>

theorem self_accepts_own_death:
  assumes "wfMembers (mship_members m)" and "map_of (mship_members m) (mship_self m) = Some own"
    and "isNewer \<lparr>member_node = mship_self m, member_status = StatusDead, member_incarnation = i\<rparr> own"
  shows "mship_self m \<notin> set (AliveNodes (snd (HandleGossip m
    [\<lparr>member_node = mship_self m, member_status = StatusDead, member_incarnation = i\<rparr>])))"
  using assms wfMembers_update [OF assms(1),
      of "\<lparr>member_node = mship_self m, member_status = StatusDead, member_incarnation = i\<rparr>"]
  by (simp add: HandleGossip_def Let_def mergeGossip_def AliveNodes_verdict AList.update_conv')

theorem self_accepts_own_death_witness:
  "''x'' \<notin> set (AliveNodes (snd (HandleGossip (NewMembership ''x'' 5)
    [\<lparr>member_node = ''x'', member_status = StatusDead, member_incarnation = 6\<rparr>])))"
  using self_accepts_own_death [of "NewMembership ''x'' 5"
      "\<lparr>member_node = ''x'', member_status = StatusAlive, member_incarnation = 5\<rparr>" 6]
  by (simp add: isNewer_def) (simp add: NewMembership_def)

end
