(* ===== verification/Merkle.thy ===== *)
theory Merkle
  imports Binary
begin

text \<open>
  The Merkle tree over bucket hashes, \<open>src/api/queel/merkle/tree.go\<close>. SHA-256 is the parameter
  \<open>sha256\<close>. The lemmas describe the levels \<open>Build\<close> makes, and show that \<open>Diff\<close> finds only leaves that
  differ, finds all of them unless two pairs of hashes of the trees collide, and how many nodes it
  visits.
\<close>

unbundle bit_operations_syntax

section \<open>State and operations\<close>

type_synonym Hash = bytes

definition HashSize :: nat where
  "HashSize = 32"

definition HashBytes :: "(bytes \<Rightarrow> Hash) \<Rightarrow> bytes \<Rightarrow> Hash" where
  "HashBytes sha256 d = sha256 d"

definition hashPair :: "(bytes \<Rightarrow> Hash) \<Rightarrow> Hash \<Rightarrow> Hash \<Rightarrow> Hash" where
  "hashPair sha256 a b = sha256 (a @ b)"

record Tree =
  tree_levels :: "Hash list list"

datatype merkleErr = NoLeaves | NotPowerOfTwo int | DifferentLeafCounts int int

definition nextLevel :: "(bytes \<Rightarrow> Hash) \<Rightarrow> Hash list \<Rightarrow> Hash list" where
  "nextLevel sha256 prev =
     map (\<lambda>i. hashPair sha256 (prev ! (2 * i)) (prev ! (2 * i + 1))) [0..<length prev div 2]"

function buildLoop :: "(bytes \<Rightarrow> Hash) \<Rightarrow> Hash list list \<Rightarrow> Hash list list" where
  "buildLoop sha256 levels =
     (if length (last levels) > 1
      then buildLoop sha256 (levels @ [nextLevel sha256 (last levels)])
      else levels)"
  by pat_completeness auto
termination
  by (relation "measure (\<lambda>(sha256, levels). length (last levels))") (auto simp: nextLevel_def)

declare buildLoop.simps [simp del]

definition Build :: "(bytes \<Rightarrow> Hash) \<Rightarrow> Hash list \<Rightarrow> merkleErr + Tree" where
  "Build sha256 leaves =
     (if leaves = [] then Inl NoLeaves
      else if int (length leaves) AND (int (length leaves) - 1) \<noteq> 0 then Inl (NotPowerOfTwo (int (length leaves)))
      else Inr \<lparr>tree_levels = buildLoop sha256 [leaves]\<rparr>)"

definition Root :: "Tree \<Rightarrow> Hash" where
  "Root t = tree_levels t ! (length (tree_levels t) - 1) ! 0"

definition Leaves :: "Tree \<Rightarrow> Hash list" where
  "Leaves t = tree_levels t ! 0"

definition NumLeaves :: "Tree \<Rightarrow> int" where
  "NumLeaves t = int (length (tree_levels t ! 0))"

text \<open>The output of \<open>diffNode\<close> is the slice \<open>out\<close>; beside it the number of calls made is kept, which
  the code does not record, to bound the work.\<close>

fun diffNode :: "Tree \<Rightarrow> Tree \<Rightarrow> nat \<Rightarrow> nat \<Rightarrow> nat \<times> nat list \<Rightarrow> nat \<times> nat list" where
  "diffNode a b 0 index (calls, out) =
     (if tree_levels a ! 0 ! index = tree_levels b ! 0 ! index then (calls + 1, out) else (calls + 1, out @ [index]))"
| "diffNode a b (Suc level) index (calls, out) =
     (if tree_levels a ! Suc level ! index = tree_levels b ! Suc level ! index then (calls + 1, out)
      else diffNode a b level (2 * index + 1) (diffNode a b level (2 * index) (calls + 1, out)))"

definition Diff :: "Tree \<Rightarrow> Tree \<Rightarrow> merkleErr + nat list" where
  "Diff a b =
     (if NumLeaves a \<noteq> NumLeaves b then Inl (DifferentLeafCounts (NumLeaves a) (NumLeaves b))
      else if Root a = Root b then Inr []
      else case diffNode a b (length (tree_levels a) - 1) 0 (0, []) of (calls, out) \<Rightarrow> Inr out)"

section \<open>Powers of two\<close>

lemma and_pred_power_of_two:
  assumes "0 < n"
  shows "int n AND (int n - 1) = 0 \<longleftrightarrow> (\<exists>k. n = 2 ^ k)"
  using assms
proof (induction n rule: less_induct)
  case (less n)
  show ?case
  proof (cases "even n")
    case True
    then obtain m where m: "n = 2 * m" by blast
    have d: "(2 * int m - 1) div 2 = int m - 1" by presburger
    have "int n AND (int n - 1) = 2 * (int m AND (int m - 1))"
      unfolding m using and_int_rec [of "2 * int m" "2 * int m - 1"] d by simp
    then have "int n AND (int n - 1) = 0 \<longleftrightarrow> (\<exists>k. m = 2 ^ k)" using less m by simp
    also have "\<dots> \<longleftrightarrow> (\<exists>k. n = 2 ^ k)"
    proof
      assume "\<exists>k. n = 2 ^ k"
      then obtain k where k: "n = 2 ^ k" by blast
      with m have "k \<noteq> 0" by (cases k) auto
      then have "m = 2 ^ (k - 1)" using k m by (cases k) auto
      then show "\<exists>k. m = 2 ^ k" by blast
    next
      assume "\<exists>k. m = 2 ^ k"
      then obtain k where "m = 2 ^ k" by blast
      then have "n = 2 ^ Suc k" using m by simp
      then show "\<exists>k. n = 2 ^ k" by blast
    qed
    finally show ?thesis .
  next
    case False
    then obtain m where m: "n = 2 * m + 1" by (auto elim: oddE)
    have "int n AND (int n - 1) = 2 * int m"
      unfolding m using and_int_rec [of "2 * int m + 1" "2 * int m"] by (simp add: add.commute)
    moreover have "(\<exists>k. n = 2 ^ k) \<longleftrightarrow> n = 1"
    proof
      assume "\<exists>k. n = 2 ^ k"
      then obtain k where "n = 2 ^ k" by blast
      then show "n = 1" using False by (cases k) auto
    qed (auto intro: exI [of _ 0])
    ultimately show ?thesis using m by simp
  qed
qed

section \<open>The levels of a built tree\<close>

primrec nodeHash :: "(bytes \<Rightarrow> Hash) \<Rightarrow> Hash list \<Rightarrow> nat \<Rightarrow> nat \<Rightarrow> Hash" where
  "nodeHash sha256 leaves 0 i = leaves ! i"
| "nodeHash sha256 leaves (Suc l) i =
     hashPair sha256 (nodeHash sha256 leaves l (2 * i)) (nodeHash sha256 leaves l (2 * i + 1))"

definition levelOf :: "(bytes \<Rightarrow> Hash) \<Rightarrow> Hash list \<Rightarrow> nat \<Rightarrow> nat \<Rightarrow> Hash list" where
  "levelOf sha256 leaves k l = map (nodeHash sha256 leaves l) [0..<2 ^ (k - l)]"

lemma nextLevel_levelOf: "l < k \<Longrightarrow> nextLevel sha256 (levelOf sha256 leaves k l) = levelOf sha256 leaves k (Suc l)"
proof -
  assume "l < k"
  then obtain d where d: "k - l = Suc d" "k - Suc l = d" by (metis Suc_diff_Suc)
  show ?thesis by (rule nth_equalityI) (auto simp: nextLevel_def levelOf_def d)
qed

lemma buildLoop_levels:
  assumes "l \<le> k"
  shows "buildLoop sha256 (map (levelOf sha256 leaves k) [0..<Suc l]) = map (levelOf sha256 leaves k) [0..<Suc k]"
  using assms
proof (induction "k - l" arbitrary: l)
  case 0
  then show ?case by (subst buildLoop.simps) (simp add: levelOf_def)
next
  case (Suc d)
  then have "l < k" by linarith
  then have "(2::nat) ^ (k - l) > 1" by (intro one_less_power) auto
  with \<open>l < k\<close> have "buildLoop sha256 (map (levelOf sha256 leaves k) [0..<Suc l]) =
      buildLoop sha256 (map (levelOf sha256 leaves k) [0..<Suc (Suc l)])"
    by (subst buildLoop.simps) (simp add: nextLevel_levelOf, simp add: levelOf_def)
  also have "\<dots> = map (levelOf sha256 leaves k) [0..<Suc k]" using Suc by (intro Suc.hyps) auto
  finally show ?case .
qed

lemma levelOf_0: "length leaves = 2 ^ k \<Longrightarrow> levelOf sha256 leaves k 0 = leaves"
  by (rule nth_equalityI) (simp_all add: levelOf_def)

lemma Build_power:
  assumes "length leaves = 2 ^ k"
  shows "Build sha256 leaves = Inr \<lparr>tree_levels = map (levelOf sha256 leaves k) [0..<Suc k]\<rparr>"
proof -
  have "int (length leaves) AND (int (length leaves) - 1) = 0"
    using assms and_pred_power_of_two [of "length leaves"] by auto
  moreover have "leaves \<noteq> []" using assms by auto
  moreover have "buildLoop sha256 [leaves] = map (levelOf sha256 leaves k) [0..<Suc k]"
    using buildLoop_levels [of 0 k sha256 leaves] levelOf_0 [OF assms] by simp
  ultimately show ?thesis by (simp add: Build_def)
qed

lemma Build_cases:
  assumes "Build sha256 leaves = Inr t"
  obtains k where "length leaves = 2 ^ k" "t = \<lparr>tree_levels = map (levelOf sha256 leaves k) [0..<Suc k]\<rparr>"
proof -
  have "\<exists>k. length leaves = 2 ^ k"
    using assms and_pred_power_of_two [of "length leaves"] by (auto simp: Build_def split: if_splits)
  then obtain k where "length leaves = 2 ^ k" by blast
  with Build_power [OF this, of sha256] assms that show thesis by simp
qed


section \<open>Comparing trees\<close>

text \<open>The leaves below node \<open>i\<close> of level \<open>l\<close>, and those of them that differ.\<close>

definition below :: "nat \<Rightarrow> nat \<Rightarrow> nat list" where
  "below l i = [i * 2 ^ l..<Suc i * 2 ^ l]"

definition differing :: "Hash list \<Rightarrow> Hash list \<Rightarrow> nat \<Rightarrow> nat \<Rightarrow> nat list" where
  "differing la lb l i = filter (\<lambda>j. la ! j \<noteq> lb ! j) (below l i)"

lemma below_Suc: "below (Suc l) i = below l (2 * i) @ below l (2 * i + 1)"
proof -
  have "[s..<s + (p + p)] = [s..<s + p] @ [s + p..<s + p + p]" for s p :: nat
    using upt_add_eq_append [of s "s + p" p] by (simp add: add.assoc)
  from this [of "i * 2 ^ Suc l" "2 ^ l"] show ?thesis
    by (simp add: below_def algebra_simps mult_2)
qed

lemma differing_Suc: "differing la lb (Suc l) i = differing la lb l (2 * i) @ differing la lb l (2 * i + 1)"
  by (simp add: differing_def below_Suc)

lemma below_0: "below 0 i = [i]"
  by (simp add: below_def)

lemma differing_nodeHash:
  "differing la lb l i = [] \<Longrightarrow> nodeHash sha256 la l i = nodeHash sha256 lb l i"
proof (induction l arbitrary: i)
  case 0
  then show ?case by (simp add: differing_def below_0 split: if_splits)
next
  case (Suc l)
  then show ?case by (simp add: differing_Suc)
qed

text \<open>No two pairs of sibling hashes of the two trees collide.\<close>

definition siblingPairs :: "(bytes \<Rightarrow> Hash) \<Rightarrow> Hash list \<Rightarrow> nat \<Rightarrow> (Hash \<times> Hash) set" where
  "siblingPairs sha256 leaves k =
     (\<Union>l \<in> {..<k}. \<Union>i \<in> {..<2 ^ (k - Suc l)}.
        {(nodeHash sha256 leaves l (2 * i), nodeHash sha256 leaves l (2 * i + 1))})"

definition noCollision :: "(bytes \<Rightarrow> Hash) \<Rightarrow> Hash list \<Rightarrow> Hash list \<Rightarrow> nat \<Rightarrow> bool" where
  "noCollision sha256 la lb k \<longleftrightarrow>
     (\<forall>(a, b) \<in> siblingPairs sha256 la k. \<forall>(c, d) \<in> siblingPairs sha256 lb k.
        hashPair sha256 a b = hashPair sha256 c d \<longrightarrow> (a, b) = (c, d))"

lemma noCollisionD:
  assumes "noCollision sha256 la lb k" and "l < k" and "i < 2 ^ (k - Suc l)"
    and "nodeHash sha256 la (Suc l) i = nodeHash sha256 lb (Suc l) i"
  shows "nodeHash sha256 la l (2 * i) = nodeHash sha256 lb l (2 * i)"
    and "nodeHash sha256 la l (2 * i + 1) = nodeHash sha256 lb l (2 * i + 1)"
proof -
  have "(nodeHash sha256 ls l (2 * i), nodeHash sha256 ls l (2 * i + 1)) \<in> siblingPairs sha256 ls k" for ls
    using assms(2,3) by (auto simp: siblingPairs_def)
  from this [of la] this [of lb] have "(nodeHash sha256 la l (2 * i), nodeHash sha256 la l (2 * i + 1)) =
      (nodeHash sha256 lb l (2 * i), nodeHash sha256 lb l (2 * i + 1))"
    using assms(1,4) unfolding noCollision_def by fastforce
  then show "nodeHash sha256 la l (2 * i) = nodeHash sha256 lb l (2 * i)"
    and "nodeHash sha256 la l (2 * i + 1) = nodeHash sha256 lb l (2 * i + 1)" by simp_all
qed

lemma child_bound: "l < k \<Longrightarrow> i < (2::nat) ^ (k - Suc l) \<Longrightarrow> 2 * i < 2 ^ (k - l) \<and> 2 * i + 1 < 2 ^ (k - l)"
proof -
  assume "l < k" "i < 2 ^ (k - Suc l)"
  moreover then have "(2::nat) ^ (k - l) = 2 * 2 ^ (k - Suc l)" by (metis Suc_diff_Suc power_Suc)
  ultimately show ?thesis by linarith
qed

lemma noCollision_differing:
  assumes "noCollision sha256 la lb k" and "l \<le> k" and "i < 2 ^ (k - l)"
    and "nodeHash sha256 la l i = nodeHash sha256 lb l i"
  shows "differing la lb l i = []"
  using assms(2-4)
proof (induction l arbitrary: i)
  case (Suc l)
  have b: "l < k" "2 * i < 2 ^ (k - l)" "2 * i + 1 < 2 ^ (k - l)" using child_bound [of l k i] Suc.prems by auto
  note e = noCollisionD [OF assms(1) b(1) Suc.prems(2,3)]
  have "differing la lb l (2 * i) = []" using b e(1) by (intro Suc.IH) auto
  moreover have "differing la lb l (2 * i + 1) = []" using b e(2) by (intro Suc.IH) auto
  ultimately show ?case by (simp only: differing_Suc append_Nil)
qed (simp add: differing_def below_0)

abbreviation builtTree :: "(bytes \<Rightarrow> Hash) \<Rightarrow> Hash list \<Rightarrow> nat \<Rightarrow> Tree" where
  "builtTree sha256 leaves k \<equiv> \<lparr>tree_levels = map (levelOf sha256 leaves k) [0..<Suc k]\<rparr>"

lemma builtTree_node:
  "l \<le> k \<Longrightarrow> i < 2 ^ (k - l) \<Longrightarrow> tree_levels (builtTree sha256 leaves k) ! l ! i = nodeHash sha256 leaves l i"
  by (simp add: levelOf_def del: upt_Suc)

text \<open>What a visit of a node appends: some of the differing leaves below it, in order, and all of them
  when no pairs collide; and how many calls it makes.\<close>

lemma diffNode_built:
  assumes "l \<le> k" and "i < 2 ^ (k - l)"
  shows "\<exists>ds n. diffNode (builtTree sha256 la k) (builtTree sha256 lb k) l i (c, out) = (c + n, out @ ds) \<and>
    subseq ds (differing la lb l i) \<and> (noCollision sha256 la lb k \<longrightarrow> ds = differing la lb l i) \<and>
    n \<le> 1 + 2 * l * length (differing la lb l i)"
  using assms
proof (induction l arbitrary: i c out)
  case 0
  then show ?case using builtTree_node [of 0 k i]
    by (auto simp del: upt_Suc simp: differing_def below_0)
next
  case (Suc l)
  let ?a = "builtTree sha256 la k" and ?b = "builtTree sha256 lb k" and ?d = "\<lambda>i. length (differing la lb l i)"
  have eq: "tree_levels ?a ! Suc l ! i = tree_levels ?b ! Suc l ! i \<longleftrightarrow>
      nodeHash sha256 la (Suc l) i = nodeHash sha256 lb (Suc l) i"
    by (simp only: builtTree_node [OF Suc.prems])
  show ?case
  proof (cases "nodeHash sha256 la (Suc l) i = nodeHash sha256 lb (Suc l) i")
    case True
    moreover have "diffNode ?a ?b (Suc l) i (c, out) = (c + 1, out)"
      using True eq by (simp only: diffNode.simps simp_thms if_True)
    ultimately show ?thesis
      using noCollision_differing [of sha256 la lb k "Suc l" i] Suc.prems by (intro exI [of _ "[]"] exI [of _ 1]) auto
  next
    case False
    have b: "l \<le> k" "2 * i < 2 ^ (k - l)" "2 * i + 1 < 2 ^ (k - l)"
      using Suc.prems child_bound [of l k i] by auto
    obtain ds n where ds: "diffNode ?a ?b l (2 * i) (c + 1, out) = (c + 1 + n, out @ ds)" "subseq ds (differing la lb l (2 * i))"
      "noCollision sha256 la lb k \<longrightarrow> ds = differing la lb l (2 * i)" "n \<le> 1 + 2 * l * ?d (2 * i)"
      using Suc.IH [OF b(1,2), of "c + 1" out] by blast
    obtain es m where es: "diffNode ?a ?b l (2 * i + 1) (c + 1 + n, out @ ds) = (c + 1 + n + m, (out @ ds) @ es)"
      "subseq es (differing la lb l (2 * i + 1))"
      "noCollision sha256 la lb k \<longrightarrow> es = differing la lb l (2 * i + 1)" "m \<le> 1 + 2 * l * ?d (2 * i + 1)"
      using Suc.IH [OF b(1,3), of "c + 1 + n" "out @ ds"] by blast
    have "diffNode ?a ?b (Suc l) i (c, out) = (c + (1 + n + m), out @ (ds @ es))"
      using False eq ds(1) es(1) by (simp only: diffNode.simps simp_thms if_False append_assoc add.assoc)
    moreover have "differing la lb (Suc l) i \<noteq> []" using False differing_nodeHash [of la lb "Suc l" i sha256] by blast
    then have "1 \<le> ?d (2 * i) + ?d (2 * i + 1)" by (simp add: differing_Suc Suc_le_eq)
    then have "1 + n + m \<le> 1 + 2 * Suc l * length (differing la lb (Suc l) i)"
      using ds(4) es(4) unfolding differing_Suc length_append by (simp add: algebra_simps)
    ultimately show ?thesis using ds(2,3) es(2,3)
      by (intro exI [of _ "ds @ es"] exI [of _ "1 + n + m"]) (auto simp: differing_Suc list_emb_append_mono)
  qed
qed


lemma built_accessors:
  assumes "length leaves = 2 ^ k"
  shows "Leaves (builtTree sha256 leaves k) = leaves" "NumLeaves (builtTree sha256 leaves k) = 2 ^ k"
    "Root (builtTree sha256 leaves k) = nodeHash sha256 leaves k 0" "length (tree_levels (builtTree sha256 leaves k)) = Suc k"
proof -
  have l: "tree_levels (builtTree sha256 leaves k) ! 0 = leaves"
    using levelOf_0 [OF assms] by (simp del: upt_Suc)
  show "Leaves (builtTree sha256 leaves k) = leaves" "NumLeaves (builtTree sha256 leaves k) = 2 ^ k"
    unfolding Leaves_def NumLeaves_def l using assms by simp_all
  show "length (tree_levels (builtTree sha256 leaves k)) = Suc k" by simp
  show "Root (builtTree sha256 leaves k) = nodeHash sha256 leaves k 0"
    using builtTree_node [of k k 0 sha256 leaves] by (simp add: Root_def)
qed

text \<open>\<open>Build\<close> succeeds exactly on a power of two of leaves, and the tree carries the leaves
  unchanged, from which the peer rebuilds the same tree.\<close>

theorem build_leaves:
  "case Build sha256 leaves of
     Inl e \<Rightarrow> \<nexists>k. length leaves = 2 ^ k
   | Inr t \<Rightarrow> (\<exists>k. length leaves = 2 ^ k) \<and> Leaves t = leaves \<and> Build sha256 (Leaves t) = Inr t"
proof (cases "Build sha256 leaves")
  case (Inl e)
  then show ?thesis using Build_power [of leaves _ sha256] by fastforce
next
  case (Inr t)
  then obtain k where "length leaves = 2 ^ k" "t = builtTree sha256 leaves k" by (rule Build_cases)
  then show ?thesis using Inr built_accessors(1) [of leaves k sha256] by auto
qed

lemma Diff_sound:
  assumes "Build sha256 la = Inr a" and "Build sha256 lb = Inr b" and "length la = length lb"
  shows "\<exists>ds. Diff a b = Inr ds \<and> subseq ds (filter (\<lambda>j. la ! j \<noteq> lb ! j) [0..<length la]) \<and>
    (noCollision sha256 la lb (length (tree_levels a) - 1) \<longrightarrow> ds = filter (\<lambda>j. la ! j \<noteq> lb ! j) [0..<length la])"
proof -
  obtain k where k: "length la = 2 ^ k" "a = builtTree sha256 la k" using assms(1) by (rule Build_cases)
  obtain k' where k': "length lb = 2 ^ k'" "b = builtTree sha256 lb k'" using assms(2) by (rule Build_cases)
  have "k' = k" using k k' assms(3) by simp
  note b = k'[unfolded this]
  have root: "differing la lb k 0 = filter (\<lambda>j. la ! j \<noteq> lb ! j) [0..<length la]"
    by (simp add: differing_def below_def k(1))
  have n: "NumLeaves a = NumLeaves b" "length (tree_levels a) - 1 = k"
    "Root a = Root b \<longleftrightarrow> nodeHash sha256 la k 0 = nodeHash sha256 lb k 0"
    unfolding k(2) b(2) built_accessors [OF k(1)] built_accessors [OF b(1)] by simp_all
  show ?thesis
  proof (cases "Root a = Root b")
    case True
    then show ?thesis
      using n noCollision_differing [of sha256 la lb k k 0] root by (simp add: Diff_def)
  next
    case False
    moreover obtain ds m where "diffNode a b k 0 (0, []) = (m, ds)" "subseq ds (differing la lb k 0)"
      "noCollision sha256 la lb k \<longrightarrow> ds = differing la lb k 0"
      using diffNode_built [of k k 0 sha256 la lb 0 "[]"] unfolding k(2) b(2) by auto
    moreover from this have "Diff a b = Inr ds" using False n by (simp add: Diff_def)
    ultimately show ?thesis using n(2) root by auto
  qed
qed

text \<open>C22: The comparison of two trees over as many leaves returns, in ascending order, only buckets
  whose hashes differ; and it returns all of them unless two different pairs of sibling hashes of the
  two trees have the same SHA-256.\<close>

theorem diff_finds_differing_leaves:
  assumes "Build sha256 la = Inr a" and "Build sha256 lb = Inr b" and "length la = length lb"
  shows "\<exists>ds. Diff a b = Inr ds \<and> subseq ds (filter (\<lambda>j. la ! j \<noteq> lb ! j) [0..<length la]) \<and>
    (noCollision sha256 la lb (length (tree_levels a) - 1) \<longrightarrow> ds = filter (\<lambda>j. la ! j \<noteq> lb ! j) [0..<length la])"
  by (rule Diff_sound [OF assms])

lemma build_leaves_of: "Build sha256 leaves = Inr t \<Longrightarrow> Leaves t = leaves"
  by (erule Build_cases) (simp only: built_accessors(1))

lemma Build_two: "Build (\<lambda>d. d) [a, b] = Inr \<lparr>tree_levels = [[a, b], [a @ b]]\<rparr>"
  using Build_power [of "[a, b]" 1 "\<lambda>d. d"] by (simp add: levelOf_def hashPair_def upt_rec)

theorem diff_finds_differing_leaves_witness:
  "let ta = \<lparr>tree_levels = [[''a'', ''b''], [''ab'']]\<rparr>; tb = \<lparr>tree_levels = [[''a'', ''c''], [''ac'']]\<rparr>
   in Build (\<lambda>d. d) [''a'', ''b''] = Inr ta \<and> noCollision (\<lambda>d. d) [''a'', ''b''] [''a'', ''c''] 1 \<and>
      Diff ta tb = Inr [1]"
proof -
  let ?ta = "\<lparr>tree_levels = [[''a'', ''b''], [''ab'']]\<rparr>" and ?tb = "\<lparr>tree_levels = [[''a'', ''c''], [''ac'']]\<rparr>"
  have a: "Build (\<lambda>d. d) [''a'', ''b''] = Inr ?ta"
    using Build_two [of "''a''" "''b''"] by simp
  have b: "Build (\<lambda>d. d) [''a'', ''c''] = Inr ?tb"
    using Build_two [of "''a''" "''c''"] by simp
  have n: "noCollision (\<lambda>d. d) [''a'', ''b''] [''a'', ''c''] 1"
    by (simp add: noCollision_def siblingPairs_def hashPair_def)
  have "Diff ?ta ?tb = Inr (filter (\<lambda>j. [''a'', ''b''] ! j \<noteq> [''a'', ''c''] ! j) [0..<length [''a'', ''b'']])"
    using diff_finds_differing_leaves [OF a b] n by auto
  then show ?thesis using a n by simp
qed

text \<open>C23: The descent of a comparison makes at most 1 + 2 h d calls on two trees of height h that differ
  in d leaves, whatever their number of leaves: a matching branch costs one call. The buckets that this
  descent puts out are those that the comparison returns.\<close>

theorem diff_cost:
  assumes "Build sha256 la = Inr a" and "Build sha256 lb = Inr b" and "length la = length lb"
  shows "case diffNode a b (length (tree_levels a) - 1) 0 (0, []) of (calls, out) \<Rightarrow>
    calls \<le> 1 + 2 * (length (tree_levels a) - 1) * length (filter (\<lambda>j. la ! j \<noteq> lb ! j) [0..<length la]) \<and>
    (Root a \<noteq> Root b \<longrightarrow> Diff a b = Inr out)"
proof -
  obtain k where k: "length la = 2 ^ k" "a = builtTree sha256 la k" using assms(1) by (rule Build_cases)
  obtain k' where k': "length lb = 2 ^ k'" "b = builtTree sha256 lb k'" using assms(2) by (rule Build_cases)
  have "k' = k" using k k' assms(3) by simp
  note b = k'[unfolded this]
  have n: "NumLeaves a = NumLeaves b" "length (tree_levels a) - 1 = k"
    unfolding k(2) b(2) built_accessors [OF k(1)] built_accessors [OF b(1)] by simp_all
  have root: "differing la lb k 0 = filter (\<lambda>j. la ! j \<noteq> lb ! j) [0..<length la]"
    by (simp add: differing_def below_def k(1))
  obtain ds m where "diffNode a b k 0 (0, []) = (m, ds)" "m \<le> 1 + 2 * k * length (differing la lb k 0)"
    using diffNode_built [of k k 0 sha256 la lb 0 "[]"] unfolding k(2) b(2) by auto
  then show ?thesis using n root by (simp add: Diff_def)
qed

theorem diff_cost_witness:
  "let ta = \<lparr>tree_levels = [[''a'', ''b''], [''ab'']]\<rparr>; tb = \<lparr>tree_levels = [[''a'', ''c''], [''ac'']]\<rparr>
   in case diffNode ta tb (length (tree_levels ta) - 1) 0 (0, []) of (calls, out) \<Rightarrow> calls \<le> 3 \<and> Diff ta tb = Inr out"
proof -
  have a: "Build (\<lambda>d. d) [''a'', ''b''] = Inr \<lparr>tree_levels = [[''a'', ''b''], [''ab'']]\<rparr>"
    using Build_two [of "''a''" "''b''"] by simp
  have b: "Build (\<lambda>d. d) [''a'', ''c''] = Inr \<lparr>tree_levels = [[''a'', ''c''], [''ac'']]\<rparr>"
    using Build_two [of "''a''" "''c''"] by simp
  show ?thesis using diff_cost [OF a b] by (auto simp: Root_def split: prod.splits)
qed

end
