(* ===== verification/AntiEntropy.thy ===== *)
theory AntiEntropy
  imports Coordinator Membership Merkle
begin

text \<open>
  Reconciliation of two nodes by Merkle trees (\<open>src/api/queel/cluster/antientropy.go\<close>), the Merkle
  endpoints and their client (\<open>internal.go\<close>, \<open>peer_client.go\<close>), and the handoff of a leaving node
  (\<open>src/api/queel/cluster/decommission.go\<close>, \<open>server/decommission.go\<close>). SHA-256 is a parameter; what
  becomes of each call to the peer is an argument. The lemmas show what a reconciliation and a handoff
  do to each key: the newer entry wins and nothing regresses, however calls fail.
\<close>

section \<open>Hexadecimal encoding\<close>

definition hexDigit :: "nat \<Rightarrow> char" where
  "hexDigit n = (if n < 10 then char_of (48 + n) else char_of (87 + n))"

definition hexVal :: "char \<Rightarrow> nat option" where
  "hexVal c =
     (let v = (of_char c :: nat)
      in if 48 \<le> v \<and> v \<le> 57 then Some (v - 48)
         else if 97 \<le> v \<and> v \<le> 102 then Some (v - 87)
         else if 65 \<le> v \<and> v \<le> 70 then Some (v - 55) else None)"

definition EncodeToString :: "bytes \<Rightarrow> string" where
  "EncodeToString b = concat (map (\<lambda>c. [hexDigit (of_char c div 16), hexDigit (of_char c mod 16)]) b)"

fun DecodeString :: "string \<Rightarrow> bytes option" where
  "DecodeString [] = Some []"
| "DecodeString [c] = None"
| "DecodeString (c # d # s) =
     (case (hexVal c, hexVal d, DecodeString s) of
        (Some h, Some l, Some r) \<Rightarrow> Some (char_of (16 * h + l) # r)
      | _ \<Rightarrow> None)"

lemma hexVal_hexDigit: "n < 16 \<Longrightarrow> hexVal (hexDigit n) = Some n"
  by (simp add: hexVal_def hexDigit_def Let_def)

lemma DecodeString_EncodeToString [simp]: "DecodeString (EncodeToString b) = Some b"
proof (induction b)
  case (Cons c b)
  have "(of_char c :: nat) < 256" by simp
  then have "of_char c div 16 < (16 :: nat)" by (simp add: less_mult_imp_div_less)
  then show ?case using Cons by (simp add: EncodeToString_def hexVal_hexDigit)
qed (simp add: EncodeToString_def)

section \<open>Summarising a node\<close>

definition PutUint64 :: "64 word \<Rightarrow> bytes" where
  "PutUint64 v = map (\<lambda>i. char_of (uint (drop_bit (8 * (7 - i)) v))) [0..<8]"

text \<open>\<open>binary.BigEndian.Uint64\<close> of the first eight bytes of the hash, modulo the number of buckets.\<close>

definition Uint64 :: "bytes \<Rightarrow> int" where
  "Uint64 b = foldl (\<lambda>a c. 256 * a + of_char c) 0 (take 8 b)"

definition BucketFor :: "(bytes \<Rightarrow> Hash) \<Rightarrow> string \<Rightarrow> int \<Rightarrow> int" where
  "BucketFor sha256 key numBuckets = Uint64 (sha256 key) mod numBuckets"

definition DefaultAntiEntropyBuckets :: int where
  "DefaultAntiEntropyBuckets = 4096"

definition entryBytes :: "KeyEntry \<Rightarrow> bytes" where
  "entryBytes e =
     ke_key e @ PutUint64 (word_of_int (entry_timestamp (ke_entry e)))
       @ [if entry_tombstone (ke_entry e) then char_of (1 :: nat) else char_of (0 :: nat)] @ entry_value (ke_entry e)"

definition leafHash :: "(bytes \<Rightarrow> Hash) \<Rightarrow> KeyEntry list \<Rightarrow> Hash" where
  "leafHash sha256 entries =
     (if entries = [] then HashBytes sha256 []
      else sha256 (concat (map entryBytes (sort_key ke_key entries))))"

text \<open>A failing tree: the scan, a value that does not decode, a panic (a modulus of zero, a negative
  length) or \<open>merkle.Build\<close>.\<close>

datatype treeErr = TreeScan serr | TreeDecode | TreePanic | TreeBuild merkleErr

fun bucketize ::
  "'v entryCodec \<Rightarrow> (bytes \<Rightarrow> Hash) \<Rightarrow> int \<Rightarrow> (bytes \<times> 'v) list \<Rightarrow> treeErr + (int \<times> KeyEntry) list" where
  "bucketize cd sha256 n [] = Inr []"
| "bucketize cd sha256 n ((k, v) # kvs) =
     (case decEntry cd v of
        None \<Rightarrow> Inl TreeDecode
      | Some entry \<Rightarrow>
          (if n = 0 then Inl TreePanic
           else case bucketize cd sha256 n kvs of
                  Inl e \<Rightarrow> Inl e
                | Inr r \<Rightarrow> Inr ((BucketFor sha256 k n, \<lparr>ke_key = k, ke_entry = entry\<rparr>) # r)))"

definition bucketAt :: "(int \<times> KeyEntry) list \<Rightarrow> int \<Rightarrow> KeyEntry list" where
  "bucketAt buckets b = map snd (filter (\<lambda>x. fst x = b) buckets)"

definition BuildTree ::
  "('s, 'v) storeOps \<Rightarrow> 'v entryCodec \<Rightarrow> (bytes \<Rightarrow> Hash) \<Rightarrow> int \<Rightarrow> 's
    \<Rightarrow> (treeErr + Tree \<times> (int \<times> KeyEntry) list) \<times> 's" where
  "BuildTree ops cd sha256 numBuckets s =
     (case sScan ops [] s of
        (Inl e, s') \<Rightarrow> (Inl (TreeScan e), s')
      | (Inr kvs, s') \<Rightarrow>
          (case bucketize cd sha256 numBuckets kvs of
             Inl e \<Rightarrow> (Inl e, s')
           | Inr buckets \<Rightarrow>
               (if numBuckets < 0 then (Inl TreePanic, s')
                else case Build sha256 (map (\<lambda>b. leafHash sha256 (bucketAt buckets (int b))) [0..<nat numBuckets]) of
                       Inl e \<Rightarrow> (Inl (TreeBuild e), s')
                     | Inr tree \<Rightarrow> (Inr (tree, buckets), s'))))"

section \<open>The Merkle endpoints\<close>

text \<open>No result stands for a handler that panicked, whose connection is dropped.\<close>

definition internalMerkleTreeHandler ::
  "('s, 'v) storeOps \<Rightarrow> 'v entryCodec \<Rightarrow> (bytes \<Rightarrow> Hash) \<Rightarrow> int option \<Rightarrow> 's
    \<Rightarrow> (int \<times> string list) option \<times> 's" where
  "internalMerkleTreeHandler ops cd sha256 body s =
     (case body of
        None \<Rightarrow> (Some (400, []), s)
      | Some numBuckets \<Rightarrow>
          (case BuildTree ops cd sha256 numBuckets s of
             (Inl TreePanic, s') \<Rightarrow> (None, s')
           | (Inl e, s') \<Rightarrow> (Some (500, []), s')
           | (Inr (tree, buckets), s') \<Rightarrow> (Some (200, map EncodeToString (Leaves tree)), s')))"

definition internalMerkleBucketHandler ::
  "('s, 'v) storeOps \<Rightarrow> 'v entryCodec \<Rightarrow> (bytes \<Rightarrow> Hash) \<Rightarrow> (int \<times> int) option \<Rightarrow> 's
    \<Rightarrow> (int \<times> KeyEntry list) option \<times> 's" where
  "internalMerkleBucketHandler ops cd sha256 body s =
     (case body of
        None \<Rightarrow> (Some (400, []), s)
      | Some (numBuckets, bucket) \<Rightarrow>
          (case BuildTree ops cd sha256 numBuckets s of
             (Inl TreePanic, s') \<Rightarrow> (None, s')
           | (Inl e, s') \<Rightarrow> (Some (500, []), s')
           | (Inr (tree, buckets), s') \<Rightarrow> (Some (200, bucketAt buckets bucket), s')))"

datatype syncErr = SyncTree treeErr | SyncPeer peerErr | SyncMerkle merkleErr

fun decodeLeaves :: "string list \<Rightarrow> Hash list option" where
  "decodeLeaves [] = Some []"
| "decodeLeaves (h # hs) =
     (case DecodeString h of
        None \<Rightarrow> None
      | Some d \<Rightarrow> if length d \<noteq> HashSize then None else map_option (\<lambda>ds. d # ds) (decodeLeaves hs))"

definition PeerMerkleTree ::
  "('s, 'v) storeOps \<Rightarrow> 'v entryCodec \<Rightarrow> (bytes \<Rightarrow> Hash) \<Rightarrow> transport \<Rightarrow> int \<Rightarrow> 's \<Rightarrow> (syncErr + Tree) \<times> 's" where
  "PeerMerkleTree ops cd sha256 t numBuckets s =
     (case callPeer t (internalMerkleTreeHandler ops cd sha256 (Some numBuckets)) s of
        (Some (Some (status, hexLeaves)), s') \<Rightarrow>
          (if status \<ge> 300 then (Inl (SyncPeer (PeerStatus status)), s')
           else case decodeLeaves hexLeaves of
                  None \<Rightarrow> (Inl (SyncPeer PeerDecode), s')
                | Some leaves \<Rightarrow>
                    (case Build sha256 leaves of Inl e \<Rightarrow> (Inl (SyncMerkle e), s') | Inr tree \<Rightarrow> (Inr tree, s')))
      | (_, s') \<Rightarrow> (Inl (SyncPeer PeerUnreachable), s'))"

definition PeerMerkleBucket ::
  "('s, 'v) storeOps \<Rightarrow> 'v entryCodec \<Rightarrow> (bytes \<Rightarrow> Hash) \<Rightarrow> transport \<Rightarrow> int \<Rightarrow> int \<Rightarrow> 's
    \<Rightarrow> (syncErr + KeyEntry list) \<times> 's" where
  "PeerMerkleBucket ops cd sha256 t numBuckets bucket s =
     (case callPeer t (internalMerkleBucketHandler ops cd sha256 (Some (numBuckets, bucket))) s of
        (Some (Some (status, entries)), s') \<Rightarrow>
          (if status \<ge> 300 then (Inl (SyncPeer (PeerStatus status)), s') else (Inr entries, s'))
      | (_, s') \<Rightarrow> (Inl (SyncPeer PeerUnreachable), s'))"

section \<open>Reconciliation\<close>

text \<open>What becomes of the calls of one reconciliation.\<close>

record syncEnv =
  sync_tree :: transport
  sync_bucket :: "nat \<Rightarrow> transport"
  sync_put :: "string \<Rightarrow> transport"

definition putLocal :: "('s, 'v) storeOps \<Rightarrow> 'v entryCodec \<Rightarrow> string \<Rightarrow> Entry \<Rightarrow> 's \<Rightarrow> serr option \<times> 's" where
  "putLocal ops cd key entry s = sPut ops key (encEntry cd entry) s"

definition byKey :: "KeyEntry list \<Rightarrow> string \<Rightarrow> Entry option" where
  "byKey entries k = map_of (rev (map (\<lambda>e. (ke_key e, ke_entry e)) entries)) k"

definition pushKey ::
  "('s, 'v) storeOps \<Rightarrow> 'v entryCodec \<Rightarrow> syncEnv \<Rightarrow> string \<Rightarrow> Entry \<Rightarrow> nat \<times> 's \<times> 's \<Rightarrow> nat \<times> 's \<times> 's" where
  "pushKey ops cd env key entry = (\<lambda>(repaired, l, r).
     case PeerPut ops cd (sync_put env key) key entry r of
       (Some e, r') \<Rightarrow> (repaired, l, r')
     | (None, r') \<Rightarrow> (repaired + 1, l, r'))"

definition pullKey ::
  "('s, 'v) storeOps \<Rightarrow> 'v entryCodec \<Rightarrow> string \<Rightarrow> Entry \<Rightarrow> nat \<times> 's \<times> 's \<Rightarrow> nat \<times> 's \<times> 's" where
  "pullKey ops cd key entry = (\<lambda>(repaired, l, r).
     case putLocal ops cd key entry l of
       (Some e, l') \<Rightarrow> (repaired, l', r)
     | (None, l') \<Rightarrow> (repaired + 1, l', r))"

definition reconcileKey ::
  "('s, 'v) storeOps \<Rightarrow> 'v entryCodec \<Rightarrow> syncEnv \<Rightarrow> (string \<Rightarrow> Entry option) \<Rightarrow> (string \<Rightarrow> Entry option)
    \<Rightarrow> nat \<times> 's \<times> 's \<Rightarrow> string \<Rightarrow> nat \<times> 's \<times> 's" where
  "reconcileKey ops cd env localByKey peerByKey state key =
     (case (localByKey key, peerByKey key) of
        (Some mine, None) \<Rightarrow> pushKey ops cd env key mine state
      | (None, Some remote) \<Rightarrow> pullKey ops cd key remote state
      | (Some mine, Some remote) \<Rightarrow>
          (if entry_timestamp mine < entry_timestamp remote then pullKey ops cd key remote state
           else if entry_timestamp remote < entry_timestamp mine then pushKey ops cd env key mine state
           else state)
      | (None, None) \<Rightarrow> state)"

text \<open>The keys of a bucket are visited in some order; each is handled by itself.\<close>

fun reconcileBuckets ::
  "('s, 'v) storeOps \<Rightarrow> 'v entryCodec \<Rightarrow> (bytes \<Rightarrow> Hash) \<Rightarrow> syncEnv \<Rightarrow> int \<Rightarrow> (int \<times> KeyEntry) list
    \<Rightarrow> nat list \<Rightarrow> nat \<times> 's \<times> 's \<Rightarrow> syncErr option \<times> nat \<times> 's \<times> 's" where
  "reconcileBuckets ops cd sha256 env n localBuckets [] state = (None, state)"
| "reconcileBuckets ops cd sha256 env n localBuckets (b # bs) (repaired, l, r) =
     (case PeerMerkleBucket ops cd sha256 (sync_bucket env b) n (int b) r of
        (Inl e, r') \<Rightarrow> (Some e, repaired, l, r')
      | (Inr peerEntries, r') \<Rightarrow>
          (let mine = bucketAt localBuckets (int b);
               allKeys = remdups (map ke_key peerEntries @ map ke_key mine)
           in reconcileBuckets ops cd sha256 env n localBuckets bs
                (foldl (reconcileKey ops cd env (byKey mine) (byKey peerEntries)) (repaired, l, r') allKeys)))"

definition Reconcile ::
  "('s, 'v) storeOps \<Rightarrow> 'v entryCodec \<Rightarrow> (bytes \<Rightarrow> Hash) \<Rightarrow> syncEnv \<Rightarrow> int \<Rightarrow> 's \<Rightarrow> 's
    \<Rightarrow> syncErr option \<times> nat \<times> 's \<times> 's" where
  "Reconcile ops cd sha256 env numBuckets l r =
     (case BuildTree ops cd sha256 numBuckets l of
        (Inl e, l') \<Rightarrow> (Some (SyncTree e), 0, l', r)
      | (Inr (localTree, localBuckets), l') \<Rightarrow>
          (case PeerMerkleTree ops cd sha256 (sync_tree env) numBuckets r of
             (Inl e, r') \<Rightarrow> (Some e, 0, l', r')
           | (Inr peerTree, r') \<Rightarrow>
               (if Root localTree = Root peerTree then (None, 0, l', r')
                else case Diff localTree peerTree of
                       Inl e \<Rightarrow> (Some (SyncMerkle e), 0, l', r')
                     | Inr divergent \<Rightarrow>
                         reconcileBuckets ops cd sha256 env numBuckets localBuckets divergent (0, l', r'))))"

section \<open>Rounds and handoff\<close>

definition randomPeerExcluding :: "nat \<Rightarrow> Node list \<Rightarrow> Node \<Rightarrow> Node" where
  "randomPeerExcluding pick alive self =
     (let candidates = filter (\<lambda>n. n \<noteq> self) alive
      in if candidates = [] then [] else candidates ! (pick mod length candidates))"

text \<open>One tick of \<open>RunAntiEntropy\<close>, on the whole cluster.\<close>

definition antiEntropyTick ::
  "('s, 'v) storeOps \<Rightarrow> 'v entryCodec \<Rightarrow> (bytes \<Rightarrow> Hash) \<Rightarrow> syncEnv \<Rightarrow> int \<Rightarrow> nat \<Rightarrow> Node list \<Rightarrow> Node
    \<Rightarrow> 's net \<Rightarrow> 's net" where
  "antiEntropyTick ops cd sha256 env numBuckets pick alive self net =
     (let buckets = (if numBuckets \<le> 0 then DefaultAntiEntropyBuckets else numBuckets);
          target = randomPeerExcluding pick alive self
      in if target = [] then net
         else case Reconcile ops cd sha256 env buckets (net self) (net target) of
                (err, repaired, l, r) \<Rightarrow> net(self := l, target := r))"

datatype decommissionErr = NoOtherNode | HandoffScan serr | HandoffDecode | HandoffCheck peerErr | HandoffPut peerErr

text \<open>The call that checks a target and the call that writes to it, by key and target.\<close>

record handoffEnv =
  ho_get :: "string \<Rightarrow> Node \<Rightarrow> transport"
  ho_put :: "string \<Rightarrow> Node \<Rightarrow> transport"

fun handoffKey ::
  "('s, 'v) storeOps \<Rightarrow> 'v entryCodec \<Rightarrow> handoffEnv \<Rightarrow> string \<Rightarrow> Entry \<Rightarrow> Node list \<Rightarrow> nat \<times> 's net
    \<Rightarrow> decommissionErr option \<times> nat \<times> 's net" where
  "handoffKey ops cd env key entry [] state = (None, state)"
| "handoffKey ops cd env key entry (target # targets) (handedOff, net) =
     (case PeerGet ops cd (ho_get env key target) key (net target) of
        (Inl e, s) \<Rightarrow> (Some (HandoffCheck e), handedOff, net(target := s))
      | (Inr existing, s) \<Rightarrow>
          (if (case existing of None \<Rightarrow> False | Some x \<Rightarrow> entry_timestamp x \<ge> entry_timestamp entry)
           then handoffKey ops cd env key entry targets (handedOff, net(target := s))
           else case PeerPut ops cd (ho_put env key target) key entry s of
                  (Some e, s') \<Rightarrow> (Some (HandoffPut e), handedOff, net(target := s'))
                | (None, s') \<Rightarrow> handoffKey ops cd env key entry targets (handedOff + 1, net(target := s'))))"

fun handoffAll ::
  "('s, 'v) storeOps \<Rightarrow> 'v entryCodec \<Rightarrow> (string \<Rightarrow> 64 word) \<Rightarrow> handoffEnv \<Rightarrow> Ring \<Rightarrow> (bytes \<times> 'v) list \<Rightarrow> nat \<times> 's net
    \<Rightarrow> decommissionErr option \<times> nat \<times> 's net" where
  "handoffAll ops cd hash env ring [] state = (None, state)"
| "handoffAll ops cd hash env ring ((key, v) # kvs) state =
     (case decEntry cd v of
        None \<Rightarrow> (Some HandoffDecode, state)
      | Some entry \<Rightarrow>
          (case handoffKey ops cd env key entry (ReplicasFor hash ring key) state of
             (Some e, state') \<Rightarrow> (Some e, state')
           | (None, state') \<Rightarrow> handoffAll ops cd hash env ring kvs state'))"

definition Decommission ::
  "('s, 'v) storeOps \<Rightarrow> 'v entryCodec \<Rightarrow> (string \<Rightarrow> 64 word) \<Rightarrow> handoffEnv \<Rightarrow> Node \<Rightarrow> Node list \<Rightarrow> int \<Rightarrow> 's net
    \<Rightarrow> decommissionErr option \<times> nat \<times> 's net" where
  "Decommission ops cd hash env self aliveNodes replicationFactor net =
     (let remaining = filter (\<lambda>n. n \<noteq> self) aliveNodes
      in if remaining = [] then (Some NoOtherNode, 0, net)
         else let futureRing = NewRing hash remaining replicationFactor
           in case sScan ops [] (net self) of
                (Inl e, s) \<Rightarrow> (Some (HandoffScan e), 0, net(self := s))
              | (Inr kvs, s) \<Rightarrow> handoffAll ops cd hash env futureRing kvs (0, net(self := s)))"

text \<open>The endpoint that triggers it: 200 with the number of pairs written, or 500.\<close>

definition DecommissionHandler ::
  "('s, 'v) storeOps \<Rightarrow> 'v entryCodec \<Rightarrow> (string \<Rightarrow> 64 word) \<Rightarrow> handoffEnv \<Rightarrow> Membership \<Rightarrow> Node \<Rightarrow> int \<Rightarrow> 's net
    \<Rightarrow> (int \<times> nat) \<times> 's net" where
  "DecommissionHandler ops cd hash env m self replicationFactor net =
     (case Decommission ops cd hash env self (AliveNodes m) replicationFactor net of
        (Some e, handedOff, net') \<Rightarrow> ((500, 0), net')
      | (None, handedOff, net') \<Rightarrow> ((200, handedOff), net'))"


section \<open>Trees of a node\<close>

definition bucketed :: "(bytes \<Rightarrow> Hash) \<Rightarrow> int \<Rightarrow> KeyEntry list \<Rightarrow> (int \<times> KeyEntry) list" where
  "bucketed sha256 n es = map (\<lambda>e. (BucketFor sha256 (ke_key e) n, e)) es"

definition leavesOf :: "(bytes \<Rightarrow> Hash) \<Rightarrow> int \<Rightarrow> KeyEntry list \<Rightarrow> Hash list" where
  "leavesOf sha256 n es = map (\<lambda>b. leafHash sha256 (bucketAt (bucketed sha256 n es) (int b))) [0..<nat n]"

lemma bucketize_entries:
  "bucketize cd sha256 n kvs = Inr bs \<Longrightarrow> \<exists>es. decodeEntries cd kvs = Some es \<and> bs = bucketed sha256 n es"
  by (induction kvs arbitrary: bs) (auto simp: bucketed_def split: option.splits if_splits sum.splits)

lemma bucketAt_bucketed: "bucketAt (bucketed sha256 n es) b = filter (\<lambda>e. BucketFor sha256 (ke_key e) n = b) es"
  by (induction es) (auto simp: bucketAt_def bucketed_def)

lemma byKey_distinct:
  assumes "distinct (map ke_key es)"
  shows "byKey es k = Some e \<longleftrightarrow> \<lparr>ke_key = k, ke_entry = e\<rparr> \<in> set es"
proof -
  have "distinct (map fst (rev (map (\<lambda>e. (ke_key e, ke_entry e)) es)))"
    using assms by (simp add: rev_map [symmetric] o_def)
  then have "byKey es k = Some e \<longleftrightarrow> (k, e) \<in> set (rev (map (\<lambda>e. (ke_key e, ke_entry e)) es))"
    unfolding byKey_def by (rule map_of_eq_Some_iff)
  also have "\<dots> \<longleftrightarrow> \<lparr>ke_key = k, ke_entry = e\<rparr> \<in> set es" unfolding KeyEntry_mem by auto
  finally show ?thesis .
qed

lemma heldList_distinct: "heldList h pre es \<Longrightarrow> distinct (map ke_key es)"
  by (simp add: heldList_def strict_sorted_iff)

lemma byKey_bucket:
  assumes "heldList h [] es"
  shows "byKey (bucketAt (bucketed sha256 n es) b) k = (if BucketFor sha256 k n = b then h k else None)"
proof -
  have "distinct (map ke_key (bucketAt (bucketed sha256 n es) b))"
    unfolding bucketAt_bucketed using heldList_distinct [OF assms] by (rule distinct_map_filter)
  then have "byKey (bucketAt (bucketed sha256 n es) b) k = Some e \<longleftrightarrow>
      BucketFor sha256 k n = b \<and> h k = Some e" for e
    using assms by (auto simp: byKey_distinct bucketAt_bucketed heldList_def HasPrefix_def)
  then show ?thesis by (metis not_None_eq)
qed

lemma keys_bucket:
  assumes "heldList h [] es"
  shows "k \<in> ke_key ` set (bucketAt (bucketed sha256 n es) b) \<longleftrightarrow> BucketFor sha256 k n = b \<and> h k \<noteq> None"
proof
  assume "k \<in> ke_key ` set (bucketAt (bucketed sha256 n es) b)"
  then obtain e where e: "e \<in> set es" "ke_key e = k" "BucketFor sha256 k n = b" by (auto simp: bucketAt_bucketed)
  then have "\<lparr>ke_key = k, ke_entry = ke_entry e\<rparr> \<in> set es" unfolding KeyEntry_mem by blast
  then show "BucketFor sha256 k n = b \<and> h k \<noteq> None" using assms e(3) by (auto simp: heldList_def)
next
  assume "BucketFor sha256 k n = b \<and> h k \<noteq> None"
  then obtain e where "\<lparr>ke_key = k, ke_entry = e\<rparr> \<in> set es" "BucketFor sha256 k n = b"
    using assms by (auto simp: heldList_def HasPrefix_def)
  then show "k \<in> ke_key ` set (bucketAt (bucketed sha256 n es) b)" by (force simp: bucketAt_bucketed)
qed

context NodeStore
begin

lemma BuildTree_held:
  assumes "nodeOk view sound cd s" and "BuildTree ops cd sha256 n s = (r, s')"
  shows "nodeOk view sound cd s' \<and> held view cd s' = held view cd s \<and>
    (\<forall>tree bs. r = Inr (tree, bs) \<longrightarrow> 0 \<le> n \<and> (\<exists>es. heldList (held view cd s) [] es \<and> bs = bucketed sha256 n es
        \<and> Build sha256 (leavesOf sha256 n es) = Inr tree))"
proof (cases "sScan ops [] s")
  case (Pair rs s1)
  then have s1: "sound s1" "view s1 = view s" "\<And>kvs. rs = Inr kvs \<Longrightarrow> scanList (view s) [] kvs"
    using scan_law [of s "[]" rs s1] assms(1) by (auto simp: nodeOk_def)
  have s': "s' = s1" using assms(2) Pair by (auto simp: BuildTree_def split: sum.splits if_splits)
  have "\<exists>es. heldList (held view cd s) [] es \<and> bs = bucketed sha256 n es \<and> Build sha256 (leavesOf sha256 n es) = Inr tree"
    and "0 \<le> n" if res: "r = Inr (tree, bs)" for tree bs
  proof -
    obtain kvs where kvs: "rs = Inr kvs" "bucketize cd sha256 n kvs = Inr bs" "0 \<le> n"
      "Build sha256 (map (\<lambda>b. leafHash sha256 (bucketAt bs (int b))) [0..<nat n]) = Inr tree"
      using assms(2) Pair res by (auto simp: BuildTree_def split: sum.splits if_splits)
    obtain es where es: "decodeEntries cd kvs = Some es" "bs = bucketed sha256 n es"
      using bucketize_entries [OF kvs(2)] by blast
    have "heldList (held view cd s) [] es" using scan_heldList [OF assms(1) s1(3) [OF kvs(1)]] es(1) by auto
    then show "\<exists>es. heldList (held view cd s) [] es \<and> bs = bucketed sha256 n es \<and> Build sha256 (leavesOf sha256 n es) = Inr tree"
      using es(2) kvs(4) unfolding leavesOf_def by blast
    show "0 \<le> n" by (rule kvs(3))
  qed
  then show ?thesis using s1 s' assms(1) by (simp add: nodeOk_def held_def fun_eq_iff)
qed

lemma PeerMerkleBucket_held:
  assumes "nodeOk view sound cd s" and "PeerMerkleBucket ops cd sha256 t n b s = (r, s')"
  shows "nodeOk view sound cd s' \<and> held view cd s' = held view cd s \<and>
    (\<forall>es. r = Inr es \<longrightarrow> (\<exists>all. heldList (held view cd s) [] all \<and> es = bucketAt (bucketed sha256 n all) b))"
proof (cases "BuildTree ops cd sha256 n s")
  case (Pair r1 s1)
  note bt = BuildTree_held [OF assms(1) Pair]
  show ?thesis
  proof (cases "t = NotDelivered")
    case True
    then show ?thesis using assms by (auto simp: PeerMerkleBucket_def callPeer_def)
  next
    case False
    then show ?thesis using bt assms(2) Pair
      by (cases t) (auto simp: PeerMerkleBucket_def callPeer_def internalMerkleBucketHandler_def
        split: sum.splits treeErr.splits)
  qed
qed

end

lemma decodeLeaves_encode:
  "\<forall>h \<in> set hs. length h = HashSize \<Longrightarrow> decodeLeaves (map EncodeToString hs) = Some hs"
  by (induction hs) auto

lemma decodeLeaves_inv: "decodeLeaves (map EncodeToString hs) = Some ds \<Longrightarrow> ds = hs"
  by (induction hs arbitrary: ds) (auto split: if_splits)

context NodeStore
begin

lemma PeerMerkleTree_held:
  assumes "nodeOk view sound cd s" and "PeerMerkleTree ops cd sha256 t n s = (r, s')"
  shows "nodeOk view sound cd s' \<and> held view cd s' = held view cd s \<and>
    (\<forall>tree. r = Inr tree \<longrightarrow> (\<exists>es. heldList (held view cd s) [] es \<and> Build sha256 (leavesOf sha256 n es) = Inr tree))"
proof (cases "BuildTree ops cd sha256 n s")
  case (Pair r1 s1)
  note bt = BuildTree_held [OF assms(1) Pair]
  have "\<exists>es. heldList (held view cd s) [] es \<and> Build sha256 (leavesOf sha256 n es) = Inr tree" if res: "r = Inr tree" for tree
  proof -
    obtain tree1 bs ds where t: "r1 = Inr (tree1, bs)" "decodeLeaves (map EncodeToString (Leaves tree1)) = Some ds"
      "Build sha256 ds = Inr tree"
      using assms(2) Pair res
      by (cases t) (auto simp: PeerMerkleTree_def callPeer_def internalMerkleTreeHandler_def
        split: sum.splits treeErr.splits option.splits if_splits)
    then obtain es where es: "heldList (held view cd s) [] es" "Build sha256 (leavesOf sha256 n es) = Inr tree1"
      using bt by blast
    have "Build sha256 (Leaves tree1) = Inr tree" using t(2,3) decodeLeaves_inv by blast
    moreover have "Leaves tree1 = leavesOf sha256 n es"
      using build_leaves_of [OF es(2)] .
    ultimately show ?thesis using es by auto
  qed
  moreover have "s' = s \<or> s' = s1"
    using assms(2) Pair
    by (cases t) (auto simp: PeerMerkleTree_def callPeer_def internalMerkleTreeHandler_def
      split: sum.splits treeErr.splits option.splits if_splits)
  ultimately show ?thesis using bt assms(1) by auto
qed

end


section \<open>What a reconciliation does to a key\<close>

fun resolve :: "Entry option \<times> Entry option \<Rightarrow> Entry option \<times> Entry option" where
  "resolve (Some x, None) = (Some x, Some x)"
| "resolve (None, Some y) = (Some y, Some y)"
| "resolve (Some x, Some y) =
     (if entry_timestamp x < entry_timestamp y then (Some y, Some y)
      else if entry_timestamp y < entry_timestamp x then (Some x, Some x) else (Some x, Some y))"
| "resolve (None, None) = (None, None)"

definition pairAt :: "('s \<Rightarrow> bytes \<Rightarrow> 'v option) \<Rightarrow> 'v entryCodec \<Rightarrow> 's \<Rightarrow> 's \<Rightarrow> string \<Rightarrow> Entry option \<times> Entry option" where
  "pairAt view cd l r k = (held view cd l k, held view cd r k)"

text \<open>Calls that arrive, to a store whose writes succeed.\<close>

definition reliable :: "('s, 'v) storeOps \<Rightarrow> ('s \<Rightarrow> bool) \<Rightarrow> syncEnv \<Rightarrow> bool" where
  "reliable ops sound env \<longleftrightarrow> (\<forall>k. sync_put env k = Delivered) \<and> (\<forall>s k v. sound s \<longrightarrow> fst (sPut ops k v s) = None)"

text \<open>The keys of \<open>K\<close> may be resolved, and are when \<open>sure\<close>; the others stay.\<close>

definition resolves ::
  "bool \<Rightarrow> string set \<Rightarrow> (string \<Rightarrow> Entry option \<times> Entry option) \<Rightarrow> (string \<Rightarrow> Entry option \<times> Entry option) \<Rightarrow> bool" where
  "resolves sure K p p' \<longleftrightarrow>
     (\<forall>k \<in> K. p' k = resolve (p k) \<or> \<not> sure \<and> p' k = p k) \<and> (\<forall>k. k \<notin> K \<longrightarrow> p' k = p k)"

lemma resolves_refl: "resolves sure {} p p"
  by (simp add: resolves_def)

lemma resolves_trans:
  assumes "resolves sure K p p'" and "resolves sure L p' p''" and "K \<inter> L = {}"
  shows "resolves sure (K \<union> L) p p''"
proof -
  have "p'' k = resolve (p k) \<or> \<not> sure \<and> p'' k = p k" if "k \<in> K \<union> L" for k
  proof (cases "k \<in> K")
    case True
    then have "k \<notin> L" using assms(3) by blast
    then show ?thesis using True assms(1,2) by (simp add: resolves_def)
  next
    case False
    then have "k \<in> L" "p' k = p k" using that assms(1) by (auto simp: resolves_def)
    then show ?thesis using assms(2) unfolding resolves_def by metis
  qed
  then show ?thesis using assms(1,2) by (simp add: resolves_def)
qed

lemma resolves_cong:
  assumes "\<And>k. k \<in> L \<Longrightarrow> k \<notin> K \<Longrightarrow> resolve (p k) = p k" and "K \<subseteq> L" and "resolves sure K p p'"
  shows "resolves sure L p p'"
proof -
  have "p' k = resolve (p k) \<or> \<not> sure \<and> p' k = p k" if "k \<in> L" for k
    using that assms(1,3) by (cases "k \<in> K") (auto simp: resolves_def)
  moreover have "p' k = p k" if "k \<notin> L" for k using that assms(2,3) by (auto simp: resolves_def)
  ultimately show ?thesis by (simp add: resolves_def)
qed

lemma resolves_weaken: "resolves sure K p p' \<Longrightarrow> resolves False K p p'"
  unfolding resolves_def by blast

context NodeStore
begin

lemma pushKey_resolves:
  assumes cd: "entryCodecOk cd" and l: "nodeOk view sound cd l" and r: "nodeOk view sound cd r"
    and new: "resolve (pairAt view cd l r key) = (held view cd l key, Some x)"
    and push: "pushKey ops cd env key x (i, l, r) = (i', l', r')"
  shows "nodeOk view sound cd l' \<and> nodeOk view sound cd r'
    \<and> resolves (reliable ops sound env) {key} (pairAt view cd l r) (pairAt view cd l' r')"
proof -
  obtain e r1 where p: "PeerPut ops cd (sync_put env key) key x r = (e, r1)" by fastforce
  have l'r': "l' = l" "r' = r1" using push p by (auto simp: pushKey_def split: option.splits)
  have h: "nodeOk view sound cd r1 \<and>
      (held view cd r1 = (held view cd r)(key \<mapsto> x) \<or> e \<noteq> None \<and> held view cd r1 = held view cd r)"
    by (rule PeerPut_held [OF cd r p])
  have "e = None" if "reliable ops sound env"
  proof -
    have "fst (sPut ops key (encEntry cd x) r) = None" "sync_put env key = Delivered"
      using that r by (simp_all add: reliable_def nodeOk_def)
    then show ?thesis
      using p by (cases "sPut ops key (encEntry cd x) r")
        (simp add: PeerPut_def callPeer_def internalPutHandler_def writeOutcome_def)
  qed
  then have "resolves (reliable ops sound env) {key} (pairAt view cd l r) (pairAt view cd l r1)"
    using h new by (auto simp: resolves_def pairAt_def)
  then show ?thesis using h l l'r' by simp
qed

lemma pullKey_resolves:
  assumes cd: "entryCodecOk cd" and l: "nodeOk view sound cd l" and r: "nodeOk view sound cd r"
    and new: "resolve (pairAt view cd l r key) = (Some y, held view cd r key)"
    and pull: "pullKey ops cd key y (i, l, r) = (i', l', r')"
  shows "nodeOk view sound cd l' \<and> nodeOk view sound cd r'
    \<and> resolves (reliable ops sound env) {key} (pairAt view cd l r) (pairAt view cd l' r')"
proof -
  obtain e l1 where p: "sPut ops key (encEntry cd y) l = (e, l1)" by fastforce
  have l'r': "l' = l1" "r' = r" using pull p by (auto simp: pullKey_def putLocal_def split: option.splits)
  have h: "nodeOk view sound cd l1 \<and>
      (held view cd l1 = (held view cd l)(key \<mapsto> y) \<or> e \<noteq> None \<and> held view cd l1 = held view cd l)"
    by (rule sPut_held [OF cd l p])
  have "e = None" if "reliable ops sound env" using that p l unfolding reliable_def nodeOk_def by (metis fst_conv)
  then have "resolves (reliable ops sound env) {key} (pairAt view cd l r) (pairAt view cd l1 r)"
    using h new by (auto simp: resolves_def pairAt_def)
  then show ?thesis using h r l'r' by simp
qed

lemma reconcileKey_resolves:
  assumes "entryCodecOk cd" "nodeOk view sound cd l" "nodeOk view sound cd r"
    and "lb key = held view cd l key" "rb key = held view cd r key"
    and "reconcileKey ops cd env lb rb (i, l, r) key = (i', l', r')"
  shows "nodeOk view sound cd l' \<and> nodeOk view sound cd r'
    \<and> resolves (reliable ops sound env) {key} (pairAt view cd l r) (pairAt view cd l' r')"
proof -
  have same: ?thesis if "resolve (pairAt view cd l r key) = pairAt view cd l r key" "(i', l', r') = (i, l, r)"
    using that assms(2,3) by (simp add: resolves_def)
  show ?thesis
  proof (cases "held view cd l key"; cases "held view cd r key")
    fix x assume h: "held view cd l key = Some x" "held view cd r key = None"
    then have "pushKey ops cd env key x (i, l, r) = (i', l', r')" using assms(4-6) by (simp add: reconcileKey_def)
    then show ?thesis using h by (intro pushKey_resolves [OF assms(1-3)]) (simp_all add: pairAt_def)
  next
    fix y assume h: "held view cd l key = None" "held view cd r key = Some y"
    then have "pullKey ops cd key y (i, l, r) = (i', l', r')" using assms(4-6) by (simp add: reconcileKey_def)
    then show ?thesis using h by (intro pullKey_resolves [OF assms(1-3)]) (simp_all add: pairAt_def)
  next
    fix x y assume h: "held view cd l key = Some x" "held view cd r key = Some y"
    show ?thesis
    proof (cases "entry_timestamp x" "entry_timestamp y" rule: linorder_cases)
      case less
      then have "pullKey ops cd key y (i, l, r) = (i', l', r')" using assms(4-6) h by (simp add: reconcileKey_def)
      then show ?thesis using h less by (intro pullKey_resolves [OF assms(1-3)]) (simp_all add: pairAt_def)
    next
      case greater
      then have "pushKey ops cd env key x (i, l, r) = (i', l', r')" using assms(4-6) h by (simp add: reconcileKey_def)
      then show ?thesis using h greater by (intro pushKey_resolves [OF assms(1-3)]) (simp_all add: pairAt_def)
    next
      case equal
      then show ?thesis using assms(4-6) h by (intro same) (simp_all add: reconcileKey_def pairAt_def)
    qed
  next
    assume h: "held view cd l key = None" "held view cd r key = None"
    then show ?thesis using assms(4-6) by (intro same) (simp_all add: reconcileKey_def pairAt_def)
  qed
qed

lemma reconcileKeys_resolves:
  assumes cd: "entryCodecOk cd" and "nodeOk view sound cd l" "nodeOk view sound cd r" and "distinct ks"
    and "\<forall>k \<in> set ks. lb k = held view cd l k \<and> rb k = held view cd r k"
    and "foldl (reconcileKey ops cd env lb rb) (i, l, r) ks = (i', l', r')"
  shows "nodeOk view sound cd l' \<and> nodeOk view sound cd r'
    \<and> resolves (reliable ops sound env) (set ks) (pairAt view cd l r) (pairAt view cd l' r')"
  using assms(2-6)
proof (induction ks arbitrary: i l r)
  case Nil
  then show ?case by (simp add: resolves_refl)
next
  case (Cons k ks)
  obtain i1 l1 r1 where k: "reconcileKey ops cd env lb rb (i, l, r) k = (i1, l1, r1)" by (metis prod_cases3)
  note s1 = reconcileKey_resolves [OF cd Cons.prems(1,2) _ _ k]
  have one: "nodeOk view sound cd l1" "nodeOk view sound cd r1"
    "resolves (reliable ops sound env) {k} (pairAt view cd l r) (pairAt view cd l1 r1)"
    using s1 Cons.prems(4) by auto
  have "pairAt view cd l1 r1 k' = pairAt view cd l r k'" if "k' \<in> set ks" for k'
    using one(3) that Cons.prems(3) unfolding resolves_def by (metis distinct.simps(2) singletonD)
  then have "\<forall>k \<in> set ks. lb k = held view cd l1 k \<and> rb k = held view cd r1 k"
    using Cons.prems(4) by (simp add: pairAt_def)
  moreover have "foldl (reconcileKey ops cd env lb rb) (i1, l1, r1) ks = (i', l', r')" using Cons.prems(5) k by simp
  ultimately have "nodeOk view sound cd l' \<and> nodeOk view sound cd r'
      \<and> resolves (reliable ops sound env) (set ks) (pairAt view cd l1 r1) (pairAt view cd l' r')"
    using Cons.IH [OF one(1,2)] Cons.prems(3) by simp
  then show ?case using resolves_trans [OF one(3), of "set ks"] Cons.prems(3) by simp
qed

text \<open>The keys of the buckets \<open>bs\<close>.\<close>

lemma reconcileBuckets_resolves:
  assumes cd: "entryCodecOk cd" and mine: "heldList h [] es"
    and "nodeOk view sound cd l" "nodeOk view sound cd r" and "distinct bs"
    and "\<forall>k. BucketFor sha256 k n \<in> int ` set bs \<longrightarrow> held view cd l k = h k"
    and "reconcileBuckets ops cd sha256 env n (bucketed sha256 n es) bs (i, l, r) = (e, i', l', r')"
  shows "nodeOk view sound cd l' \<and> nodeOk view sound cd r'
    \<and> resolves (e = None \<and> reliable ops sound env) {k. BucketFor sha256 k n \<in> int ` set bs}
        (pairAt view cd l r) (pairAt view cd l' r')"
  using assms(3-7)
proof (induction bs arbitrary: i l r)
  case Nil
  then show ?case by (simp add: resolves_def)
next
  case (Cons b bs)
  obtain pe r1 where pb: "PeerMerkleBucket ops cd sha256 (sync_bucket env b) n (int b) r = (pe, r1)" by fastforce
  note pb' = PeerMerkleBucket_held [OF Cons.prems(2) pb]
  show ?case
  proof (cases pe)
    case (Inl err)
    then have "e = Some err" "l' = l" "r' = r1" using Cons.prems(5) pb by auto
    then show ?thesis using pb' Cons.prems(1) by (simp add: resolves_def pairAt_def)
  next
    case (Inr peerEntries)
    then obtain all where all: "heldList (held view cd r) [] all" "peerEntries = bucketAt (bucketed sha256 n all) (int b)"
      using pb' by blast
    let ?mine = "bucketAt (bucketed sha256 n es) (int b)"
    let ?keys = "remdups (map ke_key peerEntries @ map ke_key ?mine)"
    let ?B = "{k. BucketFor sha256 k n = int b}"
    obtain i2 l2 r2 where f: "foldl (reconcileKey ops cd env (byKey ?mine) (byKey peerEntries)) (i, l, r1) ?keys = (i2, l2, r2)"
      by (metis prod_cases3)
    have rest: "reconcileBuckets ops cd sha256 env n (bucketed sha256 n es) bs (i2, l2, r2) = (e, i', l', r')"
      using Cons.prems(5) pb Inr f by (simp add: Let_def)
    have hl: "held view cd l k = h k" if "k \<in> ?B" for k using Cons.prems(4) that by simp
    have keys: "set ?keys = {k \<in> ?B. h k \<noteq> None \<or> held view cd r k \<noteq> None}"
    proof -
      have "set ?keys = ke_key ` set (bucketAt (bucketed sha256 n all) (int b)) \<union> ke_key ` set ?mine"
        unfolding all(2) by simp
      also have "\<dots> = {k \<in> ?B. h k \<noteq> None \<or> held view cd r k \<noteq> None}"
        by (rule set_eqI) (simp only: Un_iff mem_Collect_eq keys_bucket [OF mine] keys_bucket [OF all(1)], blast)
      finally show ?thesis .
    qed
    have look: "\<forall>k \<in> set ?keys. byKey ?mine k = held view cd l k \<and> byKey peerEntries k = held view cd r1 k"
    proof
      fix k assume "k \<in> set ?keys"
      then have k: "BucketFor sha256 k n = int b" unfolding keys by simp
      show "byKey ?mine k = held view cd l k \<and> byKey peerEntries k = held view cd r1 k"
        unfolding all(2) byKey_bucket [OF mine] byKey_bucket [OF all(1)] using hl [of k] k pb' by simp
    qed
    have r1: "nodeOk view sound cd r1" "held view cd r1 = held view cd r" using pb' by simp_all
    have step: "nodeOk view sound cd l2 \<and> nodeOk view sound cd r2
        \<and> resolves (reliable ops sound env) (set ?keys) (pairAt view cd l r1) (pairAt view cd l2 r2)"
      using reconcileKeys_resolves [OF cd Cons.prems(1) r1(1) distinct_remdups look f] .
    then have "resolves (reliable ops sound env) ?B (pairAt view cd l r1) (pairAt view cd l2 r2)"
      using keys hl by (intro resolves_cong [of ?B "set ?keys"]) (auto simp: pairAt_def r1(2))
    moreover have "pairAt view cd l r1 = pairAt view cd l r" by (rule ext) (simp add: pairAt_def r1(2))
    ultimately have one: "resolves (reliable ops sound env) ?B (pairAt view cd l r) (pairAt view cd l2 r2)" by simp
    have "int b \<notin> int ` set bs" using Cons.prems(3) by auto
    then have disj: "?B \<inter> {k. BucketFor sha256 k n \<in> int ` set bs} = {}" by auto
    have "held view cd l2 k = h k" if "BucketFor sha256 k n \<in> int ` set bs" for k
    proof -
      have "k \<notin> ?B" using that disj by auto
      then have "pairAt view cd l2 r2 k = pairAt view cd l r k" using one unfolding resolves_def by metis
      then show ?thesis using Cons.prems(4) that by (simp add: pairAt_def)
    qed
    then have "nodeOk view sound cd l' \<and> nodeOk view sound cd r'
        \<and> resolves (e = None \<and> reliable ops sound env) {k. BucketFor sha256 k n \<in> int ` set bs}
            (pairAt view cd l2 r2) (pairAt view cd l' r')"
      using Cons.IH [OF _ _ _ _ rest] step Cons.prems(3) by simp
    moreover have "resolves (e = None \<and> reliable ops sound env) ?B (pairAt view cd l r) (pairAt view cd l2 r2)"
      using one by (auto simp: resolves_def)
    moreover have "{k. BucketFor sha256 k n \<in> int ` set (b # bs)} = ?B \<union> {k. BucketFor sha256 k n \<in> int ` set bs}" by auto
    ultimately show ?thesis using resolves_trans [OF _ _ disj] by metis
  qed
qed

end


lemma heldList_unique: "heldList h pre es \<Longrightarrow> heldList h pre fs \<Longrightarrow> es = fs"
proof -
  assume h: "heldList h pre es" "heldList h pre fs"
  let ?f = "\<lambda>e :: KeyEntry. (ke_key e, ke_entry e)"
  have m: "set (map ?f gs) = {(k, e). h k = Some e \<and> HasPrefix k pre}" if "heldList h pre gs" for gs
  proof -
    have "(k, e) \<in> set (map ?f gs) \<longleftrightarrow> \<lparr>ke_key = k, ke_entry = e\<rparr> \<in> set gs" for k e
      unfolding KeyEntry_mem by auto
    then show ?thesis using that unfolding heldList_def by blast
  qed
  have "map ?f es = map ?f fs"
    using h m [OF h(1)] m [OF h(2)] by (intro sorted_kvs_unique) (simp_all add: heldList_def o_def)
  moreover have "inj ?f" by (rule injI, rule KeyEntry.equality) auto
  ultimately show "es = fs" by (metis map_injective)
qed

text \<open>Unless sibling hashes collide, \<open>ds\<close> are the buckets whose leaf hashes differ.\<close>

definition divergence ::
  "(bytes \<Rightarrow> Hash) \<Rightarrow> int \<Rightarrow> (string \<Rightarrow> Entry option) \<Rightarrow> (string \<Rightarrow> Entry option) \<Rightarrow> nat list \<Rightarrow> bool" where
  "divergence sha256 n hl hr ds \<longleftrightarrow>
     (\<forall>es fs h. heldList hl [] es \<longrightarrow> heldList hr [] fs \<longrightarrow> nat n = 2 ^ h
        \<longrightarrow> noCollision sha256 (leavesOf sha256 n es) (leavesOf sha256 n fs) h
        \<longrightarrow> set ds = {b. b < nat n \<and> leavesOf sha256 n es ! b \<noteq> leavesOf sha256 n fs ! b})"

lemma divergenceD:
  "divergence sha256 n hl hr ds \<Longrightarrow> heldList hl [] es \<Longrightarrow> heldList hr [] fs \<Longrightarrow> nat n = 2 ^ h \<Longrightarrow>
    noCollision sha256 (leavesOf sha256 n es) (leavesOf sha256 n fs) h \<Longrightarrow>
    set ds = {b. b < nat n \<and> leavesOf sha256 n es ! b \<noteq> leavesOf sha256 n fs ! b}"
  unfolding divergence_def by blast

context NodeStore
begin

lemma Reconcile_resolves:
  assumes cd: "entryCodecOk cd" and l: "nodeOk view sound cd l" and r: "nodeOk view sound cd r"
    and rec: "Reconcile ops cd sha256 env n l r = (e, i', l', r')"
  shows "nodeOk view sound cd l' \<and> nodeOk view sound cd r' \<and>
    (\<exists>ds. resolves (e = None \<and> reliable ops sound env) {k. BucketFor sha256 k n \<in> int ` set ds}
        (pairAt view cd l r) (pairAt view cd l' r')
      \<and> (e = None \<longrightarrow> divergence sha256 n (held view cd l) (held view cd r) ds))"
proof -
  obtain lt l1 where bl: "BuildTree ops cd sha256 n l = (lt, l1)" by fastforce
  obtain rt r1 where br: "PeerMerkleTree ops cd sha256 (sync_tree env) n r = (rt, r1)" by fastforce
  note L = BuildTree_held [OF l bl] and R = PeerMerkleTree_held [OF r br]
  have pair: "pairAt view cd l1 r1 = pairAt view cd l r" using L R by (simp add: pairAt_def fun_eq_iff)
  have stop: ?thesis if "e \<noteq> None" "l' = l1" "r' = r1 \<or> r' = r"
    using that L R r by (intro conjI exI [of _ "[]"]) (auto simp: resolves_def pairAt_def)
  show ?thesis
  proof (cases lt)
    case (Inl x)
    then show ?thesis using rec bl by (intro stop) (auto simp: Reconcile_def)
  next
    case LT: (Inr ltb)
    then obtain localTree buckets where lt: "lt = Inr (localTree, buckets)" by (cases ltb) auto
    then obtain es where es: "heldList (held view cd l) [] es" "buckets = bucketed sha256 n es"
      "Build sha256 (leavesOf sha256 n es) = Inr localTree" "0 \<le> n" using L by blast
    show ?thesis
    proof (cases rt)
      case (Inl x)
      then show ?thesis using rec bl br lt by (intro stop) (auto simp: Reconcile_def)
    next
      case (Inr peerTree)
      then obtain fs where fs: "heldList (held view cd r) [] fs" "Build sha256 (leavesOf sha256 n fs) = Inr peerTree"
        using R by blast
      have len: "length (leavesOf sha256 n es) = length (leavesOf sha256 n fs)" "length (leavesOf sha256 n es) = nat n"
        by (simp_all add: leavesOf_def)
      obtain ds where ds: "Diff localTree peerTree = Inr ds"
        "subseq ds (filter (\<lambda>j. leavesOf sha256 n es ! j \<noteq> leavesOf sha256 n fs ! j) [0..<nat n])"
        "noCollision sha256 (leavesOf sha256 n es) (leavesOf sha256 n fs) (length (tree_levels localTree) - 1) \<longrightarrow>
          ds = filter (\<lambda>j. leavesOf sha256 n es ! j \<noteq> leavesOf sha256 n fs ! j) [0..<nat n]"
        using Diff_sound [OF es(3) fs(2) len(1)] unfolding len(2) by blast
      have diff0: "set ds = {b. b < nat n \<and> leavesOf sha256 n es' ! b \<noteq> leavesOf sha256 n fs' ! b}"
        if "heldList (held view cd l) [] es'" "heldList (held view cd r) [] fs'" "nat n = 2 ^ h"
          "noCollision sha256 (leavesOf sha256 n es') (leavesOf sha256 n fs') h" for es' fs' h
      proof -
        have eq: "es' = es" "fs' = fs" using that(1,2) es(1) fs(1) heldList_unique by blast+
        have "localTree = builtTree sha256 (leavesOf sha256 n es) h"
          using Build_power [of "leavesOf sha256 n es" h sha256] es(3) len(2) that(3) by simp
        then have "length (tree_levels localTree) - 1 = h" by simp
        then show ?thesis using ds(3) that(4) unfolding eq by auto
      qed
      have diff: "divergence sha256 n (held view cd l) (held view cd r) ds"
        unfolding divergence_def by (intro allI impI) (rule diff0)
      show ?thesis
      proof (cases "Root localTree = Root peerTree")
        case True
        then have "Diff localTree peerTree = Inr []" using ds(1) by (simp add: Diff_def split: if_splits)
        then have "ds = []" using ds(1) by simp
        moreover have "l' = l1" "r' = r1" using rec bl br lt Inr True by (simp_all add: Reconcile_def)
        moreover have "resolves (e = None \<and> reliable ops sound env) {k. BucketFor sha256 k n \<in> int ` set ds}
            (pairAt view cd l r) (pairAt view cd l' r')"
          using calculation pair by (simp add: resolves_def)
        ultimately show ?thesis using L R diff by blast
      next
        case False
        have "reconcileBuckets ops cd sha256 env n (bucketed sha256 n es) ds (0, l1, r1) = (e, i', l', r')"
          using rec bl br lt Inr False ds(1) es(2) by (simp add: Reconcile_def)
        moreover have "distinct ds" using subseq_conv_nths ds(2) by (metis distinct_filter distinct_nthsI distinct_upt)
        ultimately have "nodeOk view sound cd l' \<and> nodeOk view sound cd r'
            \<and> resolves (e = None \<and> reliable ops sound env) {k. BucketFor sha256 k n \<in> int ` set ds}
                (pairAt view cd l1 r1) (pairAt view cd l' r')"
          using L R by (intro reconcileBuckets_resolves [OF cd es(1)]) auto
        then show ?thesis using diff unfolding pair by blast
      qed
    qed
  qed
qed

end

text \<open>C28: Reconciling two nodes never regresses: whatever calls fail or lose their answers, each key is
  afterwards on both nodes as it was, or the newer of the two entries (the only one, when one side has
  none) is on both; in particular no entry is replaced by an older one and none is invented.\<close>

theorem reconcile_never_regresses:
  assumes "NodeStore ops view sound" and "entryCodecOk cd" and "nodeOk view sound cd l" and "nodeOk view sound cd r"
    and "Reconcile ops cd sha256 env n l r = (e, repaired, l', r')"
  shows "pairAt view cd l' r' k = pairAt view cd l r k \<or> pairAt view cd l' r' k = resolve (pairAt view cd l r k)"
  using NodeStore.Reconcile_resolves [OF assms] unfolding resolves_def by blast

text \<open>C29: When the calls arrive and writes succeed, a reconciliation that returns no error leaves every
  key of a bucket whose leaf hashes differ with the newer entry on both nodes, unless the SHA-256 of two
  pairs of tree nodes collide. Entries that are tombstones take part like any others.\<close>

theorem reconcile_converges:
  assumes "NodeStore ops view sound" and "entryCodecOk cd" and "nodeOk view sound cd l" and "nodeOk view sound cd r"
    and "Reconcile ops cd sha256 env n l r = (None, repaired, l', r')" and "reliable ops sound env"
    and "heldList (held view cd l) [] es" and "heldList (held view cd r) [] fs" and "nat n = 2 ^ h"
    and "noCollision sha256 (leavesOf sha256 n es) (leavesOf sha256 n fs) h"
    and "leavesOf sha256 n es ! nat (BucketFor sha256 k n) \<noteq> leavesOf sha256 n fs ! nat (BucketFor sha256 k n)"
  shows "pairAt view cd l' r' k = resolve (pairAt view cd l r k)"
proof -
  let ?b = "BucketFor sha256 k n"
  obtain ds where ds0: "resolves (None = None \<and> reliable ops sound env) {k. BucketFor sha256 k n \<in> int ` set ds}
      (pairAt view cd l r) (pairAt view cd l' r')"
    and div: "divergence sha256 n (held view cd l) (held view cd r) ds"
    using NodeStore.Reconcile_resolves [OF assms(1-5)] by auto
  note ds = divergenceD [OF div assms(7-10)]
  have "0 < n" using assms(9) by (metis not_le nat_eq_iff power_eq_0_iff zero_neq_numeral nat_0_iff)
  then have b: "0 \<le> ?b" "?b < n" by (simp_all add: BucketFor_def)
  then have "nat ?b \<in> set ds" using ds assms(11) by simp
  then have "?b \<in> int ` set ds" using b(1) by (metis image_eqI nat_0_le)
  then show ?thesis using ds0 assms(6) by (simp add: resolves_def)
qed


text \<open>A stand-in for the hash in examples: the first 32 bytes, padded.\<close>

definition padHash :: "bytes \<Rightarrow> Hash" where
  "padHash d = take 32 (d @ replicate 32 (char_of (0 :: nat)))"

definition goodSync :: syncEnv where
  "goodSync = \<lparr>sync_tree = Delivered, sync_bucket = (\<lambda>_. Delivered), sync_put = (\<lambda>_. Delivered)\<rparr>"

definition staleNode :: "Entry kvs" where
  "staleNode = [(''j'', NewEntry 3 ''y'' False), (''k'', NewEntry 1 ''x'' False)]"

definition freshNode :: "Entry kvs" where
  "freshNode = [(''k'', NewEntry 2 [] True)]"

lemma nodes_ok: "nodeOk map_of refInv plainCodec staleNode" "nodeOk map_of refInv plainCodec freshNode"
  by (simp_all add: nodeOk_def refInv_def staleNode_def freshNode_def plainCodec_def)

lemma nodes_reconciled:
  "Reconcile refOps plainCodec padHash goodSync 1 staleNode freshNode =
    (None, 2, [(''j'', NewEntry 3 ''y'' False), (''k'', NewEntry 2 [] True)],
      [(''j'', NewEntry 3 ''y'' False), (''k'', NewEntry 2 [] True)])"
  by code_simp

theorem reconcile_never_regresses_witness:
  "let (e, repaired, l', r') = Reconcile refOps plainCodec padHash goodSync 1 staleNode freshNode
   in pairAt map_of plainCodec l' r' ''k'' = pairAt map_of plainCodec staleNode freshNode ''k''
      \<or> pairAt map_of plainCodec l' r' ''k'' = resolve (pairAt map_of plainCodec staleNode freshNode ''k'')"
  using reconcile_never_regresses [OF refNode.NodeStore_axioms plainCodec_ok nodes_ok nodes_reconciled, of "''k''"]
  unfolding nodes_reconciled by simp

lemma heldList_nodes:
  "heldList (held map_of plainCodec staleNode) []
    [\<lparr>ke_key = ''j'', ke_entry = NewEntry 3 ''y'' False\<rparr>, \<lparr>ke_key = ''k'', ke_entry = NewEntry 1 ''x'' False\<rparr>]"
  "heldList (held map_of plainCodec freshNode) [] [\<lparr>ke_key = ''k'', ke_entry = NewEntry 2 [] True\<rparr>]"
  by (auto simp: heldList_def held_def staleNode_def freshNode_def plainCodec_def HasPrefix_def)

theorem reconcile_converges_witness:
  "let (e, repaired, l', r') = Reconcile refOps plainCodec padHash goodSync 1 staleNode freshNode
   in pairAt map_of plainCodec l' r' ''k'' = resolve (pairAt map_of plainCodec staleNode freshNode ''k'')"
proof -
  let ?es = "[\<lparr>ke_key = ''j'', ke_entry = NewEntry 3 ''y'' False\<rparr>, \<lparr>ke_key = ''k'', ke_entry = NewEntry 1 ''x'' False\<rparr>]"
  let ?fs = "[\<lparr>ke_key = ''k'', ke_entry = NewEntry 2 [] True\<rparr>]"
  have rel: "reliable refOps refInv goodSync" by (simp add: reliable_def goodSync_def refOps_def)
  have pow: "nat 1 = 2 ^ 0" by simp
  have nc: "noCollision padHash (leavesOf padHash 1 ?es) (leavesOf padHash 1 ?fs) 0"
    by (simp add: noCollision_def siblingPairs_def)
  have "leavesOf padHash 1 ?es \<noteq> leavesOf padHash 1 ?fs" by code_simp
  then have diff: "leavesOf padHash 1 ?es ! nat (BucketFor padHash ''k'' 1) \<noteq> leavesOf padHash 1 ?fs ! nat (BucketFor padHash ''k'' 1)"
    by (simp add: leavesOf_def BucketFor_def)
  show ?thesis
    using reconcile_converges [OF refNode.NodeStore_axioms plainCodec_ok nodes_ok nodes_reconciled rel heldList_nodes pow nc diff]
    unfolding nodes_reconciled by simp
qed

context NodeStore
begin

text \<open>Nodes whose buckets hash alike reconcile nothing.\<close>

lemma Reconcile_same_leaves:
  assumes l: "nodeOk view sound cd l" and r: "nodeOk view sound cd r"
    and same: "\<And>es fs. heldList (held view cd l) [] es \<Longrightarrow> heldList (held view cd r) [] fs \<Longrightarrow> leavesOf sha256 n es = leavesOf sha256 n fs"
    and rec: "Reconcile ops cd sha256 env n l r = (e, repaired, l', r')"
  shows "repaired = 0 \<and> held view cd l' = held view cd l \<and> held view cd r' = held view cd r"
proof -
  obtain lt l1 where bl: "BuildTree ops cd sha256 n l = (lt, l1)" by fastforce
  obtain rt r1 where br: "PeerMerkleTree ops cd sha256 (sync_tree env) n r = (rt, r1)" by fastforce
  note L = BuildTree_held [OF l bl] and R = PeerMerkleTree_held [OF r br]
  show ?thesis
  proof (cases "isl lt \<or> isl rt")
    case True
    then show ?thesis using rec L R bl br by (auto simp: Reconcile_def split: sum.splits)
  next
    case False
    then obtain localTree buckets peerTree where lt: "lt = Inr (localTree, buckets)" and rt: "rt = Inr peerTree"
      by (cases lt; cases rt) auto
    then obtain es fs where "heldList (held view cd l) [] es" "Build sha256 (leavesOf sha256 n es) = Inr localTree"
      "heldList (held view cd r) [] fs" "Build sha256 (leavesOf sha256 n fs) = Inr peerTree" using L R by blast
    then have "localTree = peerTree" using same by (metis sum.inject(2))
    then show ?thesis using rec L R bl br lt rt by (simp add: Reconcile_def)
  qed
qed

end

text \<open>The bytes that \<open>leafHash\<close> reads after the value of an entry, when the entry of \<open>j\<close> follows it.\<close>

definition spliced :: "bytes \<Rightarrow> string \<Rightarrow> Entry \<Rightarrow> bytes" where
  "spliced v j e = v @ entryBytes \<lparr>ke_key = j, ke_entry = e\<rparr>"

lemma leaves_spliced:
  assumes es: "heldList [k \<mapsto> NewEntry ts (spliced v j e) t] [] es"
    and fs: "heldList [k \<mapsto> NewEntry ts v t, j \<mapsto> e] [] fs"
    and kj: "k < j" and b: "BucketFor sha256 k n = BucketFor sha256 j n"
  shows "leavesOf sha256 n es = leavesOf sha256 n fs"
proof -
  let ?es = "[\<lparr>ke_key = k, ke_entry = NewEntry ts (spliced v j e) t\<rparr>]"
    and ?fs = "[\<lparr>ke_key = k, ke_entry = NewEntry ts v t\<rparr>, \<lparr>ke_key = j, ke_entry = e\<rparr>]"
  have "heldList [k \<mapsto> NewEntry ts (spliced v j e) t] [] ?es" "heldList [k \<mapsto> NewEntry ts v t, j \<mapsto> e] [] ?fs"
    using kj by (auto simp: heldList_def HasPrefix_def)
  then have "es = ?es" "fs = ?fs" using es fs heldList_unique by blast+
  then show ?thesis
    using b kj by (auto simp: leavesOf_def bucketAt_bucketed leafHash_def entryBytes_def spliced_def NewEntry_def)
qed

text \<open>C30: The leaf hash does not separate the fields it hashes, so different buckets can have the same
  hash without any collision of SHA-256. For any two keys of one bucket, a value that continues with the
  bytes of the second key and its entry hashes like the two keys apart; and when one node holds only the
  first key with that value and the other node both keys, a reconciliation repairs nothing, whatever it
  returns and whichever calls arrive: the second key stays on one node only.\<close>

theorem leafHash_ambiguous:
  assumes "NodeStore ops view sound" and "nodeOk view sound cd l" and "nodeOk view sound cd r"
    and "k < j" and "BucketFor sha256 k n = BucketFor sha256 j n"
    and "held view cd l = [k \<mapsto> NewEntry ts (v @ entryBytes \<lparr>ke_key = j, ke_entry = e\<rparr>) t]"
    and "held view cd r = [k \<mapsto> NewEntry ts v t, j \<mapsto> e]"
    and "Reconcile ops cd sha256 env n l r = (err, repaired, l', r')"
  shows "leafHash sha256 [\<lparr>ke_key = k, ke_entry = NewEntry ts (v @ entryBytes \<lparr>ke_key = j, ke_entry = e\<rparr>) t\<rparr>] =
      leafHash sha256 [\<lparr>ke_key = k, ke_entry = NewEntry ts v t\<rparr>, \<lparr>ke_key = j, ke_entry = e\<rparr>]
    \<and> repaired = 0 \<and> held view cd l' j = None \<and> held view cd r' j = Some e"
proof
  show "leafHash sha256 [\<lparr>ke_key = k, ke_entry = NewEntry ts (v @ entryBytes \<lparr>ke_key = j, ke_entry = e\<rparr>) t\<rparr>] =
      leafHash sha256 [\<lparr>ke_key = k, ke_entry = NewEntry ts v t\<rparr>, \<lparr>ke_key = j, ke_entry = e\<rparr>]"
    using less_imp_le [OF assms(4)] by (simp add: leafHash_def entryBytes_def NewEntry_def)
  have "repaired = 0 \<and> held view cd l' = held view cd l \<and> held view cd r' = held view cd r"
    by (rule NodeStore.Reconcile_same_leaves [OF assms(1-3) _ assms(8)])
      (use assms(4-7) leaves_spliced [of k ts v j e t] in \<open>simp add: spliced_def\<close>)
  then show "repaired = 0 \<and> held view cd l' j = None \<and> held view cd r' j = Some e" using assms(4,6,7) by auto
qed

text \<open>The second key of \<open>apart\<close> and its entry are the end of the value of \<open>joined\<close>.\<close>

definition apart :: "Entry kvs" where
  "apart = [(''a'', NewEntry 5 ''x'' False), (''b'', NewEntry 5 ''y'' False)]"

definition joined :: "Entry kvs" where
  "joined = [(''a'', NewEntry 5 (''x'' @ entryBytes \<lparr>ke_key = ''b'', ke_entry = NewEntry 5 ''y'' False\<rparr>) False)]"

theorem leafHash_ambiguous_witness:
  "Reconcile refOps plainCodec padHash goodSync 1 joined apart = (None, 0, joined, apart)
    \<and> held map_of plainCodec joined ''b'' = None \<and> held map_of plainCodec apart ''b'' = Some (NewEntry 5 ''y'' False)"
proof -
  let ?e = "NewEntry 5 ''y'' False"
  have ok: "nodeOk map_of refInv plainCodec joined" "nodeOk map_of refInv plainCodec apart"
    by (simp_all add: nodeOk_def refInv_def joined_def apart_def plainCodec_def)
  have held: "held map_of plainCodec joined = [''a'' \<mapsto> NewEntry 5 (''x'' @ entryBytes \<lparr>ke_key = ''b'', ke_entry = ?e\<rparr>) False]"
    "held map_of plainCodec apart = [''a'' \<mapsto> NewEntry 5 ''x'' False, ''b'' \<mapsto> ?e]"
    by (auto simp: held_def joined_def apart_def plainCodec_def fun_eq_iff)
  have run: "Reconcile refOps plainCodec padHash goodSync 1 joined apart = (None, 0, joined, apart)" by code_simp
  have "''a'' < ''b''" "BucketFor padHash ''a'' 1 = BucketFor padHash ''b'' 1" by (simp_all add: BucketFor_def)
  from leafHash_ambiguous [OF refNode.NodeStore_axioms ok this held run] run show ?thesis by blast
qed

section \<open>What a handoff does\<close>

text \<open>Nodes other than \<open>self\<close> keep what they hold or have taken over what \<open>S\<close> holds for the key, where
  theirs was older or missing.\<close>

definition advances :: "Node \<Rightarrow> (string \<Rightarrow> Entry option) \<Rightarrow> (string \<Rightarrow> Node \<Rightarrow> Entry option) \<Rightarrow> (string \<Rightarrow> Node \<Rightarrow> Entry option) \<Rightarrow> bool" where
  "advances self S h h' \<longleftrightarrow>
     (\<forall>k n. h' k n = h k n \<or> n \<noteq> self \<and>
        (\<exists>e. S k = Some e \<and> h' k n = Some e \<and> (\<forall>x. h k n = Some x \<longrightarrow> entry_timestamp x < entry_timestamp e)))"

lemma advances_refl [simp]: "advances self S h h"
  by (simp add: advances_def)

lemma advances_trans:
  assumes "advances self S h h'" and "advances self S h' h''"
  shows "advances self S h h''"
proof -
  have "h'' k n = h k n \<or> n \<noteq> self \<and>
      (\<exists>e. S k = Some e \<and> h'' k n = Some e \<and> (\<forall>x. h k n = Some x \<longrightarrow> entry_timestamp x < entry_timestamp e))" for k n
    using assms [unfolded advances_def, THEN spec, THEN spec, of k n] by auto
  then show ?thesis by (simp add: advances_def)
qed

definition reached :: "(Node \<Rightarrow> Entry option) \<Rightarrow> Node \<Rightarrow> Entry \<Rightarrow> bool" where
  "reached h n e \<longleftrightarrow> (\<exists>x. h n = Some x \<and> entry_timestamp e \<le> entry_timestamp x)"

lemma reached_advances: "advances self S h h' \<Longrightarrow> reached (h k) n e \<Longrightarrow> reached (h' k) n e"
proof -
  assume a: "advances self S h h'" and r: "reached (h k) n e"
  from a [unfolded advances_def, THEN spec, THEN spec, of k n] r show ?thesis by (auto simp: reached_def)
qed

context NodeStore
begin

lemma handoffKey_advances:
  assumes cd: "entryCodecOk cd" and S: "S key = Some entry" and self: "self \<notin> set targets"
    and "netOk view sound cd net" and "handoffKey ops cd env key entry targets (i, net) = (e, i', net')"
  shows "netOk view sound cd net' \<and> advances self S (keyAt view cd net) (keyAt view cd net')
    \<and> (e = None \<longrightarrow> (\<forall>n \<in> set targets. reached (keyAt view cd net' key) n entry))"
  using assms(3-5)
proof (induction targets arbitrary: i net)
  case (Cons t targets)
  obtain g s where g: "PeerGet ops cd (ho_get env key t) key (net t) = (g, s)" by fastforce
  have gh: "nodeOk view sound cd s" "held view cd s = held view cd (net t)" "\<And>v. g = Inr v \<Longrightarrow> v = held view cd (net t) key"
    using PeerGet_held [OF _ g] Cons.prems(2) by (auto simp: netOk_def)
  have nt: "self \<notin> set targets" using Cons.prems(1) by simp
  have ok1: "netOk view sound cd (net(t := s))" using gh(1) Cons.prems(2) by (simp add: netOk_def)
  have same1: "keyAt view cd (net(t := s)) = keyAt view cd net" using gh(2) by (auto simp: keyAt_def fun_eq_iff)
  show ?case
  proof (cases g)
    case (Inl err)
    then show ?thesis using Cons.prems(3) g ok1 same1 by auto
  next
    case (Inr existing)
    then have ex: "existing = held view cd (net t) key" using gh(3) by simp
    show ?thesis
    proof (cases "reached (keyAt view cd net key) t entry")
      case True
      then have "handoffKey ops cd env key entry targets (i, net(t := s)) = (e, i', net')"
        using Cons.prems(3) g Inr ex by (auto simp: reached_def keyAt_def)
      from Cons.IH [OF nt ok1 this] have "netOk view sound cd net'"
        "advances self S (keyAt view cd (net(t := s))) (keyAt view cd net')"
        "e = None \<longrightarrow> (\<forall>n \<in> set targets. reached (keyAt view cd net' key) n entry)"
        by blast+
      note ih = this [unfolded same1]
      then show ?thesis using reached_advances [OF ih(2) True] by simp
    next
      case False
      obtain p s' where p: "PeerPut ops cd (ho_put env key t) key entry s = (p, s')" by fastforce
      have ph: "nodeOk view sound cd s'" "held view cd s' = (held view cd s)(key \<mapsto> entry)
          \<or> p \<noteq> None \<and> held view cd s' = held view cd s"
        using PeerPut_held [OF cd gh(1) p] by auto
      have ok2: "netOk view sound cd (net(t := s'))" using ph(1) Cons.prems(2) by (simp add: netOk_def)
      have old: "entry_timestamp x < entry_timestamp entry" if "keyAt view cd net key t = Some x" for x
        using False that by (auto simp: reached_def)
      have adv: "advances self S (keyAt view cd net) (keyAt view cd (net(t := s')))"
        using ph(2) gh(2) S Cons.prems(1) old by (auto simp: advances_def keyAt_def)
      have not_newer: "\<not> (case existing of None \<Rightarrow> False | Some x \<Rightarrow> entry_timestamp x \<ge> entry_timestamp entry)"
        using False ex by (auto simp: reached_def keyAt_def split: option.split)
      show ?thesis
      proof (cases p)
        case (Some err)
        then have n': "net' = net(t := s')" and "e \<noteq> None" using Cons.prems(3) g Inr not_newer p by auto
        then show ?thesis using ok2 adv unfolding n' by blast
      next
        case None
        then have "handoffKey ops cd env key entry targets (i + 1, net(t := s')) = (e, i', net')"
          using Cons.prems(3) g Inr not_newer p by auto
        from Cons.IH [OF nt ok2 this] have ih: "netOk view sound cd net'"
          "advances self S (keyAt view cd (net(t := s'))) (keyAt view cd net')"
          "e = None \<longrightarrow> (\<forall>n \<in> set targets. reached (keyAt view cd net' key) n entry)"
          by blast+
        have "reached (keyAt view cd (net(t := s')) key) t entry" using ph(2) None by (simp add: reached_def keyAt_def)
        then show ?thesis using ih reached_advances [OF ih(2)] advances_trans [OF adv ih(2)] by simp
      qed
    qed
  qed
qed simp

lemma handoffAll_advances:
  assumes cd: "entryCodecOk cd" and self: "\<forall>k. self \<notin> set (ReplicasFor hash ring k)"
    and "\<forall>(k, v) \<in> set kvs. \<forall>e. decEntry cd v = Some e \<longrightarrow> S k = Some e"
    and "netOk view sound cd net" and "handoffAll ops cd hash env ring kvs (i, net) = (e, i', net')"
  shows "netOk view sound cd net' \<and> advances self S (keyAt view cd net) (keyAt view cd net')
    \<and> (e = None \<longrightarrow> (\<forall>(k, v) \<in> set kvs. \<exists>x. decEntry cd v = Some x \<and>
         (\<forall>n \<in> set (ReplicasFor hash ring k). reached (keyAt view cd net' k) n x)))"
  using assms(3-5)
proof (induction kvs arbitrary: i net)
  case (Cons kv kvs)
  obtain k v where kv: "kv = (k, v)" by (cases kv)
  show ?case
  proof (cases "decEntry cd v")
    case None
    then show ?thesis using Cons.prems kv by auto
  next
    case (Some x)
    obtain e1 i1 net1 where h: "handoffKey ops cd env k x (ReplicasFor hash ring k) (i, net) = (e1, i1, net1)"
      by (metis prod_cases3)
    have "S k = Some x" using Cons.prems(1) kv Some by auto
    note one = handoffKey_advances [OF cd, of S, OF this _ Cons.prems(2) h]
    have one': "netOk view sound cd net1" "advances self S (keyAt view cd net) (keyAt view cd net1)"
      "e1 = None \<longrightarrow> (\<forall>n \<in> set (ReplicasFor hash ring k). reached (keyAt view cd net1 k) n x)"
      using one self by blast+
    show ?thesis
    proof (cases e1)
      case (Some err)
      then have "net' = net1" "e = Some err" using Cons.prems(3) kv \<open>decEntry cd v = Some x\<close> h by auto
      then show ?thesis using one' by simp
    next
      case None
      then have rest: "handoffAll ops cd hash env ring kvs (i1, net1) = (e, i', net')"
        using Cons.prems(3) kv Some h by auto
      have ih: "netOk view sound cd net'" "advances self S (keyAt view cd net1) (keyAt view cd net')"
        "e = None \<longrightarrow> (\<forall>(k, v) \<in> set kvs. \<exists>x. decEntry cd v = Some x \<and>
         (\<forall>n \<in> set (ReplicasFor hash ring k). reached (keyAt view cd net' k) n x))"
        using Cons.IH [OF _ one'(1) rest] Cons.prems(1) by auto
      have "\<forall>n \<in> set (ReplicasFor hash ring k). reached (keyAt view cd net' k) n x"
        using one'(3) None reached_advances [OF ih(2)] by blast
      then show ?thesis using ih advances_trans [OF one'(2) ih(2)] kv Some by auto
    qed
  qed
qed simp

lemma Decommission_advances:
  assumes cd: "entryCodecOk cd" and ok: "netOk view sound cd net"
    and dec: "Decommission ops cd hash env self alive rf net = (e, i', net')"
  shows "netOk view sound cd net' \<and> advances self (\<lambda>k. keyAt view cd net k self) (keyAt view cd net) (keyAt view cd net')
    \<and> (e = None \<longrightarrow> (\<forall>k x. keyAt view cd net k self = Some x \<longrightarrow>
         (\<forall>n \<in> set (ReplicasFor hash (NewRing hash (filter (\<lambda>n. n \<noteq> self) alive) rf) k). reached (keyAt view cd net' k) n x)))"
proof (cases "filter (\<lambda>n. n \<noteq> self) alive = []")
  case True
  then show ?thesis using dec ok by (auto simp: Decommission_def)
next
  case False
  let ?ring = "NewRing hash (filter (\<lambda>n. n \<noteq> self) alive) rf"
  obtain rs s where sc: "sScan ops [] (net self) = (rs, s)" by fastforce
  have n: "nodeOk view sound cd (net self)" using ok by (simp add: netOk_def)
  then have s: "sound s" "view s = view (net self)" "\<And>kvs. rs = Inr kvs \<Longrightarrow> scanList (view (net self)) [] kvs"
    using scan_law [of "net self" "[]" rs s] sc by (auto simp: nodeOk_def)
  have ok1: "netOk view sound cd (net(self := s))" using s ok by (auto simp: netOk_def nodeOk_def)
  have same: "keyAt view cd (net(self := s)) = keyAt view cd net" using s(2) by (auto simp: keyAt_def held_def fun_eq_iff)
  show ?thesis
  proof (cases rs)
    case (Inl err)
    then show ?thesis using dec False sc ok1 same by (auto simp: Decommission_def Let_def)
  next
    case (Inr kvs)
    have "handoffAll ops cd hash env ?ring kvs (0, net(self := s)) = (e, i', net')"
      using dec False sc Inr by (simp add: Decommission_def Let_def)
    moreover have "self \<notin> set (ReplicasFor hash ?ring k)" for k
      using set_take_subset [of "nat rf" "ringWalk hash (filter (\<lambda>n. n \<noteq> self) alive) k"]
      by (auto simp: ReplicasFor_walk set_ringWalk)
    moreover have "\<forall>(k, v) \<in> set kvs. \<forall>x. decEntry cd v = Some x \<longrightarrow> keyAt view cd net k self = Some x"
      using s(3) [OF Inr] by (auto simp: scanList_def keyAt_def held_def)
    ultimately have h: "netOk view sound cd net'" "advances self (\<lambda>k. keyAt view cd net k self) (keyAt view cd net) (keyAt view cd net')"
      "e = None \<longrightarrow> (\<forall>(k, v) \<in> set kvs. \<exists>x. decEntry cd v = Some x \<and>
         (\<forall>n \<in> set (ReplicasFor hash ?ring k). reached (keyAt view cd net' k) n x))"
      using handoffAll_advances [OF cd _ _ ok1, of self hash ?ring kvs "\<lambda>k. keyAt view cd net k self" env 0 e i' net']
      by (simp_all add: same)
    have "\<exists>v. (k, v) \<in> set kvs \<and> decEntry cd v = Some x" if "keyAt view cd net k self = Some x" for k x
      using that s(3) [OF Inr] by (auto simp: scanList_def keyAt_def held_def HasPrefix_def bind_eq_Some_conv)
    then show ?thesis using h by fastforce
  qed
qed

end

text \<open>C31: A node that hands its keys off before it leaves changes no entry of any node to an older one
  and writes nothing it does not hold itself, whatever calls fail; and when it reports success, every
  replica that each of its keys will have once it is gone holds its entry or a newer one.\<close>

theorem decommission_hands_off:
  assumes "NodeStore ops view sound" and "entryCodecOk cd" and "netOk view sound cd net"
    and "Decommission ops cd hash env self alive rf net = (e, handedOff, net')"
  shows "advances self (\<lambda>k. keyAt view cd net k self) (keyAt view cd net) (keyAt view cd net')
    \<and> (e = None \<longrightarrow> (\<forall>k x. keyAt view cd net k self = Some x \<longrightarrow>
         (\<forall>n \<in> set (ReplicasFor hash (NewRing hash (filter (\<lambda>n. n \<noteq> self) alive) rf) k). reached (keyAt view cd net' k) n x)))"
  using NodeStore.Decommission_advances [OF assms] by blast


definition goodHandoff :: handoffEnv where
  "goodHandoff = \<lparr>ho_get = (\<lambda>_ _. Delivered), ho_put = (\<lambda>_ _. Delivered)\<rparr>"

text \<open>Node a leaves a ring of two; node b has an older entry.\<close>

definition leavingNet :: "Entry kvs net" where
  "leavingNet = (\<lambda>n. if n = ''a'' then staleNode else if n = ''b'' then [(''k'', NewEntry 0 ''w'' False)] else [])"

lemma leavingNet_ok: "netOk map_of refInv plainCodec leavingNet"
  by (simp add: netOk_def leavingNet_def nodes_ok) (simp add: nodeOk_def refInv_def plainCodec_def)

theorem decommission_hands_off_witness:
  "let h = (\<lambda>s::string. if s = [] then 0 else of_char (hd s));
       (e, handedOff, net') = Decommission refOps plainCodec h goodHandoff ''a'' [''a'', ''b''] 2 leavingNet
   in e = None \<and> handedOff = 2 \<and>
      advances ''a'' (\<lambda>k. keyAt map_of plainCodec leavingNet k ''a'') (keyAt map_of plainCodec leavingNet) (keyAt map_of plainCodec net')"
proof -
  let ?h = "\<lambda>s::string. if s = [] then 0 else of_char (hd s)"
  let ?d = "Decommission refOps plainCodec ?h goodHandoff ''a'' [''a'', ''b''] 2 leavingNet"
  have R: "ReplicasFor ?h (NewRing ?h [''b''] 2) k = [''b'']" for k by (simp add: ReplicasFor_single)
  have run: "?d = (None, 2, snd (snd ?d))"
    by (simp add: R Decommission_def Let_def leavingNet_def staleNode_def refOps_def HasPrefix_def plainCodec_def
      PeerGet_def PeerPut_def callPeer_def goodHandoff_def internalGetHandler_def internalPutHandler_def writeOutcome_def
      NewEntry_def refPut_def fun_upd_def)
  have "advances ''a'' (\<lambda>k. keyAt map_of plainCodec leavingNet k ''a'') (keyAt map_of plainCodec leavingNet)
      (keyAt map_of plainCodec (snd (snd ?d)))"
    using decommission_hands_off [OF refNode.NodeStore_axioms plainCodec_ok leavingNet_ok run] by blast
  then show ?thesis unfolding Let_def by (subst run) (simp only: case_prod_conv simp_thms)
qed

end
