(* ===== verification/Rbac.thy ===== *)
theory Rbac
  imports Store
begin

text \<open>
  Users and their rights, \<open>src/api/queel/rbac\<close>: the permissions and their packing into a mask
  (\<open>model.go\<close>), identifiers (\<open>uuid.go\<close>), the directory over a \<open>queel.Store\<close> (\<open>store_kv.go\<close>,
  \<open>store.go\<close>) and the requests of the administration socket (\<open>socket.go\<close>). What a backend of the
  directory promises is the locale \<open>UserDirectory\<close>; \<open>kvBackend\<close> keeps it over every store that keeps
  the laws of \<open>KVStore\<close>.
\<close>

unbundle bit_operations_syntax

section \<open>Permissions\<close>

record Permissions =
  CanVote :: bool
  CanCreateText :: bool
  CanCloseText :: bool
  CanEditText :: bool
  CanSubscribe :: bool

definition noPermissions :: Permissions where
  "noPermissions = \<lparr>CanVote = False, CanCreateText = False, CanCloseText = False, CanEditText = False, CanSubscribe = False\<rparr>"

text \<open>What \<open>json.Unmarshal\<close> finds in stored permissions: the fields and the two old keys.\<close>

record rawPermissions =
  rawAlias :: Permissions
  LegacySelect :: "bool option"
  LegacyEditSelection :: "bool option"

definition PermissionsUnmarshal :: "('j \<Rightarrow> rawPermissions option) \<Rightarrow> 'j \<Rightarrow> Permissions option" where
  "PermissionsUnmarshal decode data =
     (case decode data of
        None \<Rightarrow> None
      | Some raw \<Rightarrow>
          (let p = rawAlias raw
           in Some (if LegacySelect raw = Some True \<or> LegacyEditSelection raw = Some True
                    then p\<lparr>CanEditText := True\<rparr> else p)))"

type_synonym PermBit = "16 word"

definition PermVote :: PermBit where
  "PermVote = push_bit 0 1"

definition PermCreateText :: PermBit where
  "PermCreateText = push_bit 1 1"

definition PermCloseText :: PermBit where
  "PermCloseText = push_bit 2 1"

definition PermEditText :: PermBit where
  "PermEditText = push_bit 3 1"

definition PermSubscribe :: PermBit where
  "PermSubscribe = push_bit 6 1"

definition Bits :: "Permissions \<Rightarrow> PermBit" where
  "Bits p =
     (let b = 0;
          b = (if CanVote p then b OR PermVote else b);
          b = (if CanCreateText p then b OR PermCreateText else b);
          b = (if CanCloseText p then b OR PermCloseText else b);
          b = (if CanEditText p then b OR PermEditText else b);
          b = (if CanSubscribe p then b OR PermSubscribe else b)
      in b)"

definition PermissionsFromBits :: "PermBit \<Rightarrow> Permissions" where
  "PermissionsFromBits b =
     \<lparr>CanVote = b AND PermVote \<noteq> 0, CanCreateText = b AND PermCreateText \<noteq> 0,
      CanCloseText = b AND PermCloseText \<noteq> 0, CanEditText = b AND PermEditText \<noteq> 0,
      CanSubscribe = b AND PermSubscribe \<noteq> 0\<rparr>"

text \<open>Actions are strings in the code.\<close>

type_synonym Action = string

definition ActionVote :: Action where "ActionVote = ''vote''"
definition ActionCreateText :: Action where "ActionCreateText = ''createText''"
definition ActionCloseText :: Action where "ActionCloseText = ''closeText''"
definition ActionEditText :: Action where "ActionEditText = ''editText''"
definition ActionSubscribe :: Action where "ActionSubscribe = ''subscribe''"

lemmas action_defs = ActionVote_def ActionCreateText_def ActionCloseText_def ActionEditText_def ActionSubscribe_def

lemmas perm_defs = PermVote_def PermCreateText_def PermCloseText_def PermEditText_def PermSubscribe_def

record User =
  user_ID :: string
  user_Root :: bool
  user_Permissions :: Permissions
  user_CreatedAt :: int

definition UserCan :: "User \<Rightarrow> Action \<Rightarrow> bool" where
  "UserCan u action =
     (if user_Root u then True
      else if action = ActionVote then CanVote (user_Permissions u)
      else if action = ActionCreateText then CanCreateText (user_Permissions u)
      else if action = ActionCloseText then CanCloseText (user_Permissions u)
      else if action = ActionEditText then CanEditText (user_Permissions u)
      else if action = ActionSubscribe then CanSubscribe (user_Permissions u)
      else False)"

definition Allows :: "PermBit \<Rightarrow> Action \<Rightarrow> bool" where
  "Allows b action =
     (if action = ActionVote then b AND PermVote \<noteq> 0
      else if action = ActionCreateText then b AND PermCreateText \<noteq> 0
      else if action = ActionCloseText then b AND PermCloseText \<noteq> 0
      else if action = ActionEditText then b AND PermEditText \<noteq> 0
      else if action = ActionSubscribe then b AND PermSubscribe \<noteq> 0
      else False)"

lemma perm_masks: "b AND push_bit n 1 \<noteq> 0 \<longleftrightarrow> bit b n" if "n < 16" for b :: "16 word"
proof -
  have "b AND push_bit n 1 \<noteq> 0 \<longleftrightarrow> (\<exists>i. bit (b AND push_bit n 1) i)" by (metis bit_0_eq bot_apply bot_bool_def bit_eqI)
  then show ?thesis using that by (auto simp: bit_simps)
qed

lemma perm_bit:
  "b AND PermVote \<noteq> 0 \<longleftrightarrow> bit b 0" "b AND PermCreateText \<noteq> 0 \<longleftrightarrow> bit b 1" "b AND PermCloseText \<noteq> 0 \<longleftrightarrow> bit b 2"
  "b AND PermEditText \<noteq> 0 \<longleftrightarrow> bit b 3" "b AND PermSubscribe \<noteq> 0 \<longleftrightarrow> bit b 6"
  unfolding perm_defs by (rule perm_masks, simp)+

lemma bit_one_at: "bit (push_bit k 1 :: 16 word) n \<longleftrightarrow> n = k \<and> n < 16"
  by (auto simp: bit_simps)

lemma bit_perm:
  "bit PermVote n \<longleftrightarrow> n = 0" "bit PermCreateText n \<longleftrightarrow> n = 1" "bit PermCloseText n \<longleftrightarrow> n = 2"
  "bit PermEditText n \<longleftrightarrow> n = 3" "bit PermSubscribe n \<longleftrightarrow> n = 6"
  unfolding perm_defs bit_one_at by auto

lemma FromBits_bit:
  "CanVote (PermissionsFromBits b) = bit b 0" "CanCreateText (PermissionsFromBits b) = bit b 1"
  "CanCloseText (PermissionsFromBits b) = bit b 2" "CanEditText (PermissionsFromBits b) = bit b 3"
  "CanSubscribe (PermissionsFromBits b) = bit b 6"
  unfolding PermissionsFromBits_def Permissions.simps by (rule perm_bit)+

lemma bit_Bits:
  "bit (Bits p) n \<longleftrightarrow> n = 0 \<and> CanVote p \<or> n = 1 \<and> CanCreateText p \<or> n = 2 \<and> CanCloseText p
    \<or> n = 3 \<and> CanEditText p \<or> n = 6 \<and> CanSubscribe p"
  unfolding Bits_def Let_def by (auto simp: bit_or_iff bit_perm)

text \<open>The mask of all rights, and the two retired positions.\<close>

lemma rights_mask: "79 = PermVote OR PermCreateText OR PermCloseText OR PermEditText OR PermSubscribe"
  unfolding perm_defs by code_simp

lemma retired_mask: "(48 :: PermBit) = push_bit 4 1 OR push_bit 5 1"
  by code_simp

lemma Allows_FromBits: "Allows b action = UserCan \<lparr>user_ID = i, user_Root = False, user_Permissions = PermissionsFromBits b,
    user_CreatedAt = c\<rparr> action"
  by (simp add: Allows_def UserCan_def PermissionsFromBits_def)

lemma FromBits_Bits: "PermissionsFromBits (Bits p) = p"
  by (rule Permissions.equality) (simp_all add: FromBits_bit bit_Bits)

text \<open>C39: Packing permissions into a mask loses nothing, and a token decides every action as the
  directory's entry does: a mask of the user's rights allows exactly what the user who is not root
  may do. Bits that name no right, the two retired positions among them, are never set and grant
  nothing.\<close>

theorem permission_mask:
  "PermissionsFromBits (Bits p) = p
    \<and> UserCan u action = (user_Root u \<or> Allows (Bits (user_Permissions u)) action)
    \<and> Bits (PermissionsFromBits b) = b AND 79
    \<and> Allows (b AND 79) action = Allows b action \<and> Bits p AND 48 = 0"
proof (intro conjI)
  show "PermissionsFromBits (Bits p) = p" by (rule FromBits_Bits)
  show "UserCan u action = (user_Root u \<or> Allows (Bits (user_Permissions u)) action)"
    unfolding Allows_FromBits [where i = "[]" and c = 0] FromBits_Bits UserCan_def by simp
  show mask: "Bits (PermissionsFromBits b) = b AND 79"
    by (rule bit_word_eqI) (auto simp: bit_Bits FromBits_bit bit_and_iff rights_mask bit_or_iff bit_perm)
  show "Allows (b AND 79) action = Allows b action"
    unfolding Allows_FromBits [where i = "[]" and c = 0] mask [symmetric] by (simp add: FromBits_Bits)
  show "Bits p AND 48 = 0"
    by (rule bit_word_eqI) (auto simp: bit_Bits bit_and_iff retired_mask bit_or_iff bit_one_at simp del: push_bit_of_1)
qed

section \<open>Identifiers\<close>

definition uuidDigit :: "nat \<Rightarrow> char" where
  "uuidDigit n = (if n < 10 then char_of (48 + n) else char_of (87 + n))"

definition uuidByte :: "8 word \<Rightarrow> string" where
  "uuidByte b = [uuidDigit (unat b div 16), uuidDigit (unat b mod 16)]"

definition uuidBytes :: "8 word list \<Rightarrow> string" where
  "uuidBytes bs = concat (map uuidByte bs)"

text \<open>\<open>random\<close> is what \<open>rand.Read\<close> fills the 16 bytes with, \<open>None\<close> when it fails.\<close>

definition newUUID :: "8 word list option \<Rightarrow> string option" where
  "newUUID random =
     (case random of
        None \<Rightarrow> None
      | Some b \<Rightarrow>
          (let b = b[6 := (b ! 6 AND 15) OR 64];
               b = b[8 := (b ! 8 AND 63) OR 128]
           in Some (uuidBytes (take 4 b) @ ''-'' @ uuidBytes (take 2 (drop 4 b)) @ ''-'' @ uuidBytes (take 2 (drop 6 b)) @ ''-''
                @ uuidBytes (take 2 (drop 8 b)) @ ''-'' @ uuidBytes (take 6 (drop 10 b)))))"

section \<open>The directory over a store\<close>

datatype rbacErr = UserNotFound | UserExists | RbacStore serr | RbacJSON | RbacRand

text \<open>\<open>json.Marshal\<close> and \<open>json.Unmarshal\<close> of a user.\<close>

record 'v userCodec =
  encUser :: "User \<Rightarrow> 'v option"
  decUser :: "'v \<Rightarrow> User option"

definition userKeyPrefix :: string where
  "userKeyPrefix = ''rbacuser/''"

definition userKey :: "string \<Rightarrow> bytes" where
  "userKey i = userKeyPrefix @ i"

definition kvCreateUser ::
    "('s, 'v) storeOps \<Rightarrow> 'v userCodec \<Rightarrow> string \<Rightarrow> bool \<Rightarrow> Permissions \<Rightarrow> int \<Rightarrow> 's \<Rightarrow> (rbacErr + User) \<times> 's" where
  "kvCreateUser ops uc i root perms now s =
     (case sGet ops (userKey i) s of
        (Inl e, s) \<Rightarrow> (Inl (RbacStore e), s)
      | (Inr (Some v), s) \<Rightarrow> (Inl UserExists, s)
      | (Inr None, s) \<Rightarrow>
          (let user = \<lparr>user_ID = i, user_Root = root, user_Permissions = perms, user_CreatedAt = now\<rparr>
           in case encUser uc user of
                None \<Rightarrow> (Inl RbacJSON, s)
              | Some payload \<Rightarrow>
                  (case sPut ops (userKey i) payload s of
                     (Some e, s) \<Rightarrow> (Inl (RbacStore e), s)
                   | (None, s) \<Rightarrow> (Inr user, s))))"

definition kvGetUser :: "('s, 'v) storeOps \<Rightarrow> 'v userCodec \<Rightarrow> string \<Rightarrow> 's \<Rightarrow> (rbacErr + User) \<times> 's" where
  "kvGetUser ops uc i s =
     (case sGet ops (userKey i) s of
        (Inl e, s) \<Rightarrow> (Inl (RbacStore e), s)
      | (Inr None, s) \<Rightarrow> (Inl UserNotFound, s)
      | (Inr (Some v), s) \<Rightarrow> (case decUser uc v of None \<Rightarrow> (Inl RbacJSON, s) | Some user \<Rightarrow> (Inr user, s)))"

definition kvListUsers :: "('s, 'v) storeOps \<Rightarrow> 'v userCodec \<Rightarrow> 's \<Rightarrow> User list \<times> 's" where
  "kvListUsers ops uc s =
     (case sScan ops userKeyPrefix s of
        (Inl e, s) \<Rightarrow> ([], s)
      | (Inr kvs, s) \<Rightarrow>
          (if list_all (\<lambda>(k, v). decUser uc v \<noteq> None) kvs
           then (sort_key user_CreatedAt (map (\<lambda>(k, v). the (decUser uc v)) kvs), s) else ([], s)))"

definition kvUpdateUser ::
    "('s, 'v) storeOps \<Rightarrow> 'v userCodec \<Rightarrow> string \<Rightarrow> bool \<Rightarrow> Permissions \<Rightarrow> 's \<Rightarrow> (rbacErr + User) \<times> 's" where
  "kvUpdateUser ops uc i root perms s =
     (case kvGetUser ops uc i s of
        (Inl e, s) \<Rightarrow> (Inl e, s)
      | (Inr existing, s) \<Rightarrow>
          (let existing = existing\<lparr>user_Root := root, user_Permissions := perms\<rparr>
           in case encUser uc existing of
                None \<Rightarrow> (Inl RbacJSON, s)
              | Some payload \<Rightarrow>
                  (case sPut ops (userKey i) payload s of
                     (Some e, s) \<Rightarrow> (Inl (RbacStore e), s)
                   | (None, s) \<Rightarrow> (Inr existing, s))))"

definition kvDeleteUser :: "('s, 'v) storeOps \<Rightarrow> string \<Rightarrow> 's \<Rightarrow> rbacErr option \<times> 's" where
  "kvDeleteUser ops i s =
     (case sGet ops (userKey i) s of
        (Inl e, s) \<Rightarrow> (Some (RbacStore e), s)
      | (Inr None, s) \<Rightarrow> (Some UserNotFound, s)
      | (Inr (Some v), s) \<Rightarrow> (case sDelete ops (userKey i) s of (r, s) \<Rightarrow> (map_option RbacStore r, s)))"

text \<open>The interface \<open>backend\<close>, and \<open>Store\<close>, which hands its calls to one. The time of a creation and
  the random bytes of an identifier are arguments.\<close>

record 's userBackend =
  beCreate :: "string \<Rightarrow> bool \<Rightarrow> Permissions \<Rightarrow> int \<Rightarrow> 's \<Rightarrow> (rbacErr + User) \<times> 's"
  beGet :: "string \<Rightarrow> 's \<Rightarrow> (rbacErr + User) \<times> 's"
  beList :: "'s \<Rightarrow> User list \<times> 's"
  beUpdate :: "string \<Rightarrow> bool \<Rightarrow> Permissions \<Rightarrow> 's \<Rightarrow> (rbacErr + User) \<times> 's"
  beDelete :: "string \<Rightarrow> 's \<Rightarrow> rbacErr option \<times> 's"

definition kvBackend :: "('s, 'v) storeOps \<Rightarrow> 'v userCodec \<Rightarrow> 's userBackend" where
  "kvBackend ops uc =
     \<lparr>beCreate = kvCreateUser ops uc, beGet = kvGetUser ops uc, beList = kvListUsers ops uc,
      beUpdate = kvUpdateUser ops uc, beDelete = kvDeleteUser ops\<rparr>"

definition CreateUser ::
    "'s userBackend \<Rightarrow> 8 word list option \<Rightarrow> bool \<Rightarrow> Permissions \<Rightarrow> int \<Rightarrow> 's \<Rightarrow> (rbacErr + User) \<times> 's" where
  "CreateUser B random root perms now s =
     (case newUUID random of None \<Rightarrow> (Inl RbacRand, s) | Some i \<Rightarrow> beCreate B i root perms now s)"

definition CreateUserWithID ::
    "'s userBackend \<Rightarrow> string \<Rightarrow> bool \<Rightarrow> Permissions \<Rightarrow> int \<Rightarrow> 's \<Rightarrow> (rbacErr + User) \<times> 's" where
  "CreateUserWithID B i root perms now s = beCreate B i root perms now s"

section \<open>The administration socket\<close>

record rbacRequest =
  req_Action :: string
  req_ID :: string
  req_Root :: bool
  req_Permissions :: Permissions

record rbacResponse =
  resp_OK :: bool
  resp_Error :: "rbacErr option"
  resp_User :: "User option"
  resp_Users :: "User list"

definition respErr :: "rbacErr option \<Rightarrow> rbacResponse" where
  "respErr e = \<lparr>resp_OK = False, resp_Error = e, resp_User = None, resp_Users = []\<rparr>"

definition respUser :: "rbacErr + User \<Rightarrow> rbacResponse" where
  "respUser r = (case r of Inl e \<Rightarrow> respErr (Some e)
     | Inr user \<Rightarrow> \<lparr>resp_OK = True, resp_Error = None, resp_User = Some user, resp_Users = []\<rparr>)"

text \<open>\<open>handle\<close>; the error of an unknown action is the response without an error value.\<close>

definition handleRequest ::
    "'s userBackend \<Rightarrow> 8 word list option \<Rightarrow> int \<Rightarrow> rbacRequest \<Rightarrow> 's \<Rightarrow> rbacResponse \<times> 's" where
  "handleRequest B random now req s =
     (if req_Action req = ''create'' then map_prod respUser id (CreateUser B random (req_Root req) (req_Permissions req) now s)
      else if req_Action req = ''get'' then map_prod respUser id (beGet B (req_ID req) s)
      else if req_Action req = ''list'' then
        (case beList B s of (users, s) \<Rightarrow> (\<lparr>resp_OK = True, resp_Error = None, resp_User = None, resp_Users = users\<rparr>, s))
      else if req_Action req = ''update'' then
        map_prod respUser id (beUpdate B (req_ID req) (req_Root req) (req_Permissions req) s)
      else if req_Action req = ''delete'' then
        (case beDelete B (req_ID req) s of
           (Some e, s) \<Rightarrow> (respErr (Some e), s)
         | (None, s) \<Rightarrow> (\<lparr>resp_OK = True, resp_Error = None, resp_User = None, resp_Users = []\<rparr>, s))
      else (respErr None, s))"

text \<open>What a request does to the map.\<close>

definition requested :: "8 word list option \<Rightarrow> int \<Rightarrow> rbacRequest \<Rightarrow> (string \<Rightarrow> User option) \<Rightarrow> (string \<Rightarrow> User option)" where
  "requested random now req m =
     (if req_Action req = ''create'' then
        (case newUUID random of None \<Rightarrow> m
         | Some i \<Rightarrow> m(i \<mapsto> \<lparr>user_ID = i, user_Root = req_Root req, user_Permissions = req_Permissions req, user_CreatedAt = now\<rparr>))
      else if req_Action req = ''update'' then
        (case m (req_ID req) of None \<Rightarrow> m
         | Some u \<Rightarrow> m(req_ID req \<mapsto> u\<lparr>user_Root := req_Root req, user_Permissions := req_Permissions req\<rparr>))
      else if req_Action req = ''delete'' then m(req_ID req := None)
      else m)"

section \<open>What a directory promises\<close>

text \<open>\<open>users\<close> is the directory as a map, \<open>rest\<close> what the store holds besides. A call that fails for
  its argument keeps both; what a write that met an error of the store has left is not known.\<close>

definition storeTrouble :: "rbacErr \<Rightarrow> bool" where
  "storeTrouble e \<longleftrightarrow> (case e of RbacStore _ \<Rightarrow> True | _ \<Rightarrow> False)"

locale UserDirectory =
  fixes B :: "'s userBackend"
    and users :: "'s \<Rightarrow> string \<Rightarrow> User option"
    and rest :: "'s \<Rightarrow> bytes \<Rightarrow> 'r"
    and proper :: "'s \<Rightarrow> bool"
  assumes create_law: "proper s \<Longrightarrow> beCreate B i root p now s = (r, s') \<Longrightarrow>
      (case r of
         Inr u \<Rightarrow> proper s' \<and> u = \<lparr>user_ID = i, user_Root = root, user_Permissions = p, user_CreatedAt = now\<rparr> \<and> users s i = None
           \<and> users s' = (users s)(i \<mapsto> u) \<and> rest s' = rest s
       | Inl e \<Rightarrow> storeTrouble e \<or> proper s' \<and> users s' = users s \<and> rest s' = rest s \<and> (e = UserExists \<longleftrightarrow> users s i \<noteq> None))"
    and get_law: "proper s \<Longrightarrow> beGet B i s = (r, s') \<Longrightarrow> proper s' \<and> users s' = users s \<and> rest s' = rest s
      \<and> (case r of Inr u \<Rightarrow> users s i = Some u | Inl e \<Rightarrow> storeTrouble e \<or> e = UserNotFound \<and> users s i = None)"
    and list_law: "proper s \<Longrightarrow> beList B s = (us, s') \<Longrightarrow> proper s' \<and> users s' = users s \<and> rest s' = rest s
      \<and> (us = [] \<or> sorted (map user_CreatedAt us) \<and> distinct (map user_ID us) \<and> set us = ran (users s))"
    and update_law: "proper s \<Longrightarrow> beUpdate B i root p s = (r, s') \<Longrightarrow>
      (case r of
         Inr u \<Rightarrow> proper s' \<and> (\<exists>u0. users s i = Some u0 \<and> u = u0\<lparr>user_Root := root, user_Permissions := p\<rparr>)
           \<and> users s' = (users s)(i \<mapsto> u) \<and> rest s' = rest s
       | Inl e \<Rightarrow> storeTrouble e \<or> proper s' \<and> users s' = users s \<and> rest s' = rest s \<and> (e = UserNotFound \<longleftrightarrow> users s i = None))"
    and delete_law: "proper s \<Longrightarrow> beDelete B i s = (d, s') \<Longrightarrow>
      (case d of
         None \<Rightarrow> proper s' \<and> users s i \<noteq> None \<and> users s' = (users s)(i := None) \<and> rest s' = rest s
       | Some e \<Rightarrow> storeTrouble e \<or> proper s' \<and> e = UserNotFound \<and> users s i = None \<and> users s' = users s \<and> rest s' = rest s)"
begin

lemma handle_law:
  assumes "proper s" and "handleRequest B random now req s = (resp, s')"
  shows "(\<exists>e. resp_Error resp = Some e \<and> storeTrouble e)
    \<or> proper s' \<and> users s' = (if resp_OK resp then requested random now req (users s) else users s) \<and> rest s' = rest s
      \<and> (req_Action req = ''get'' \<longrightarrow> resp_User resp = users s (req_ID req))"
proof -
  have create: ?thesis if a: "req_Action req = ''create''"
  proof (cases "newUUID random")
    case None
    then show ?thesis using assms a by (auto simp: handleRequest_def CreateUser_def respUser_def respErr_def)
  next
    case (Some i)
    obtain r where r: "beCreate B i (req_Root req) (req_Permissions req) now s = (r, s')" "resp = respUser r"
      using assms(2) a Some by (auto simp: handleRequest_def CreateUser_def map_prod_def split: prod.splits)
    show ?thesis using create_law [OF assms(1) r(1)] a Some
      by (auto simp: r(2) respUser_def respErr_def requested_def split: sum.splits)
  qed
  have get: ?thesis if a: "req_Action req = ''get''"
  proof -
    obtain r where r: "beGet B (req_ID req) s = (r, s')" "resp = respUser r"
      using assms(2) a by (auto simp: handleRequest_def map_prod_def split: prod.splits)
    show ?thesis using get_law [OF assms(1) r(1)] a
      by (auto simp: r(2) respUser_def respErr_def requested_def split: sum.splits)
  qed
  have list: ?thesis if a: "req_Action req = ''list''"
  proof -
    obtain us where r: "beList B s = (us, s')" using assms(2) a by (auto simp: handleRequest_def split: prod.splits)
    show ?thesis using list_law [OF assms(1) r] a by (auto simp: requested_def)
  qed
  have update: ?thesis if a: "req_Action req = ''update''"
  proof -
    obtain r where r: "beUpdate B (req_ID req) (req_Root req) (req_Permissions req) s = (r, s')" "resp = respUser r"
      using assms(2) a by (auto simp: handleRequest_def map_prod_def split: prod.splits)
    show ?thesis using update_law [OF assms(1) r(1)] a
      by (auto simp: r(2) respUser_def respErr_def requested_def split: sum.splits)
  qed
  have delete: ?thesis if a: "req_Action req = ''delete''"
  proof -
    obtain d where r: "beDelete B (req_ID req) s = (d, s')" by (cases "beDelete B (req_ID req) s") (use assms(2) a in
        \<open>auto simp: handleRequest_def split: option.splits\<close>)
    show ?thesis using delete_law [OF assms(1) r] assms(2) a r
      by (auto simp: handleRequest_def respErr_def requested_def split: option.splits)
  qed
  show ?thesis
    by (cases "req_Action req \<in> {''create'', ''get'', ''list'', ''update'', ''delete''}")
      (use create get list update delete assms in \<open>auto simp: handleRequest_def respErr_def\<close>)
qed

text \<open>Whoever is created can be read back with the rights given.\<close>

lemma created_then_got:
  assumes "proper s" and "beCreate B i root p now s = (Inr u, s1)" and "beGet B i s1 = (Inr u', s2)"
  shows "u' = u \<and> user_Root u' = root \<and> user_Permissions u' = p"
  using create_law [OF assms(1,2)] get_law [OF _ assms(3)] by auto

end

section \<open>The store keeps the promises\<close>

definition userCodecOk :: "'v userCodec \<Rightarrow> bool" where
  "userCodecOk uc \<longleftrightarrow> (\<forall>u v. encUser uc u = Some v \<longrightarrow> decUser uc v = Some u)"

definition usersOf :: "'v userCodec \<Rightarrow> (bytes \<Rightarrow> 'v option) \<Rightarrow> string \<Rightarrow> User option" where
  "usersOf uc m i = Option.bind (m (userKey i)) (decUser uc)"

definition othersOf :: "(bytes \<Rightarrow> 'v option) \<Rightarrow> bytes \<Rightarrow> 'v option" where
  "othersOf m k = (if HasPrefix k userKeyPrefix then None else m k)"

definition usersOk :: "'v userCodec \<Rightarrow> (bytes \<Rightarrow> 'v option) \<Rightarrow> bool" where
  "usersOk uc m \<longleftrightarrow> (\<forall>i v. m (userKey i) = Some v \<longrightarrow> (\<exists>u. decUser uc v = Some u \<and> user_ID u = i))"

lemma userKey_eq [simp]: "userKey i = userKey j \<longleftrightarrow> i = j"
  by (simp add: userKey_def)

lemma others_upd [simp]: "othersOf (m(userKey i := v)) = othersOf m"
  by (rule ext) (simp add: othersOf_def userKey_def HasPrefix_def)

lemma users_upd: "usersOf uc (m(userKey i := v)) = (usersOf uc m)(i := Option.bind v (decUser uc))"
  by (rule ext) (simp add: usersOf_def)

lemma usersOk_upd:
  "usersOk uc m \<Longrightarrow> (case v of None \<Rightarrow> True | Some x \<Rightarrow> \<exists>u. decUser uc x = Some u \<and> user_ID u = i) \<Longrightarrow> usersOk uc (m(userKey i := v))"
  by (auto simp: usersOk_def split: option.splits)

lemma usersOkD: "usersOk uc m \<Longrightarrow> m (userKey i) = Some v \<Longrightarrow> \<exists>u. decUser uc v = Some u \<and> user_ID u = i"
  by (simp add: usersOk_def)

lemma usersOk_present: "usersOk uc m \<Longrightarrow> usersOf uc m i = None \<longleftrightarrow> m (userKey i) = None"
  by (cases "m (userKey i)") (auto simp: usersOf_def dest: usersOkD)

lemma distinct_map_sort: "distinct (map f (sort_key g xs)) = distinct (map f xs)"
  by (simp add: distinct_map)

context KVStore
begin

abbreviation dirUsers :: "'v userCodec \<Rightarrow> 's \<Rightarrow> string \<Rightarrow> User option" where
  "dirUsers uc s \<equiv> usersOf uc (view s)"

abbreviation dirProper :: "'v userCodec \<Rightarrow> 's \<Rightarrow> bool" where
  "dirProper uc s \<equiv> sound s \<and> usersOk uc (view s)"

lemma kv_get:
  assumes "dirProper uc s" and "kvGetUser ops uc i s = (r, s')"
  shows "dirProper uc s' \<and> dirUsers uc s' = dirUsers uc s \<and> othersOf (view s') = othersOf (view s)
    \<and> (case r of Inr u \<Rightarrow> dirUsers uc s i = Some u | Inl e \<Rightarrow> storeTrouble e \<or> e = UserNotFound \<and> dirUsers uc s i = None)"
proof -
  obtain g s1 where g: "sGet ops (userKey i) s = (g, s1)" by fastforce
  have law: "sound s1 \<and> view s1 = view s \<and> (\<forall>v. g = Inr v \<longrightarrow> v = view s (userKey i))" using get_law [OF _ g] assms(1) by simp
  then show ?thesis using assms g
    by (auto simp: kvGetUser_def storeTrouble_def usersOf_def dest: usersOkD split: sum.splits option.splits)
qed

lemma kv_get_view: "sound s \<Longrightarrow> kvGetUser ops uc i s = (r, s') \<Longrightarrow> sound s' \<and> view s' = view s"
  using get_law [of s "userKey i"] by (auto simp: kvGetUser_def split: prod.splits sum.splits option.splits)

lemma kv_create:
  assumes uc: "userCodecOk uc" and s: "dirProper uc s" and run: "kvCreateUser ops uc i root p now s = (r, s')"
  shows "case r of
         Inr u \<Rightarrow> dirProper uc s' \<and> u = \<lparr>user_ID = i, user_Root = root, user_Permissions = p, user_CreatedAt = now\<rparr> \<and> dirUsers uc s i = None
           \<and> dirUsers uc s' = (dirUsers uc s)(i \<mapsto> u) \<and> othersOf (view s') = othersOf (view s)
       | Inl e \<Rightarrow> storeTrouble e \<or> dirProper uc s' \<and> dirUsers uc s' = dirUsers uc s \<and> othersOf (view s') = othersOf (view s)
           \<and> (e = UserExists \<longleftrightarrow> dirUsers uc s i \<noteq> None)"
proof -
  let ?u = "\<lparr>user_ID = i, user_Root = root, user_Permissions = p, user_CreatedAt = now\<rparr>"
  obtain g s1 where g: "sGet ops (userKey i) s = (g, s1)" by fastforce
  have law: "sound s1" "view s1 = view s" "\<And>v. g = Inr v \<Longrightarrow> v = view s (userKey i)" using get_law [OF _ g] s by auto
  have s1: "dirProper uc s1" using law s by simp
  show ?thesis
  proof (cases "g = Inr None")
    case False
    then show ?thesis using run g law s1 usersOk_present [of uc "view s" i] s
      by (auto simp: kvCreateUser_def storeTrouble_def split: sum.splits option.splits)
  next
    case None: True
    then have free: "dirUsers uc s i = None" using law(3) [OF None] by (simp add: usersOf_def)
    show ?thesis
    proof (cases "encUser uc ?u")
      case None
      then show ?thesis using run g law s1 \<open>g = Inr None\<close> free by (auto simp: kvCreateUser_def)
    next
      case (Some x)
      obtain q s2 where q: "sPut ops (userKey i) x s1 = (q, s2)" by fastforce
      have put: "sound s2" "q = None \<Longrightarrow> view s2 = (view s)(userKey i \<mapsto> x)" using put_law [OF law(1) q] law(2) by auto
      have dec: "decUser uc x = Some ?u" using uc Some by (simp add: userCodecOk_def)
      have ok: "usersOk uc ((view s)(userKey i \<mapsto> x))" using s dec by (intro usersOk_upd) auto
      have *: "(r, s') = (case q of Some e \<Rightarrow> (Inl (RbacStore e), s2) | None \<Rightarrow> (Inr ?u, s2))"
        using run g q Some \<open>g = Inr None\<close> by (simp add: kvCreateUser_def split: option.splits)
      show ?thesis
      proof (cases q)
        case None
        then show ?thesis using * put ok free dec by (simp add: users_upd)
      qed (use * in \<open>simp add: storeTrouble_def\<close>)
    qed
  qed
qed

lemma kv_update:
  assumes uc: "userCodecOk uc" and s: "dirProper uc s" and run: "kvUpdateUser ops uc i root p s = (r, s')"
  shows "case r of
         Inr u \<Rightarrow> dirProper uc s' \<and> (\<exists>u0. dirUsers uc s i = Some u0 \<and> u = u0\<lparr>user_Root := root, user_Permissions := p\<rparr>)
           \<and> dirUsers uc s' = (dirUsers uc s)(i \<mapsto> u) \<and> othersOf (view s') = othersOf (view s)
       | Inl e \<Rightarrow> storeTrouble e \<or> dirProper uc s' \<and> dirUsers uc s' = dirUsers uc s \<and> othersOf (view s') = othersOf (view s)
           \<and> (e = UserNotFound \<longleftrightarrow> dirUsers uc s i = None)"
proof -
  obtain g s1 where g: "kvGetUser ops uc i s = (g, s1)" by fastforce
  note law = kv_get [OF s g]
  show ?thesis
  proof (cases g)
    case (Inl e)
    then show ?thesis using run g law by (auto simp: kvUpdateUser_def)
  next
    case (Inr u0)
    let ?u = "u0\<lparr>user_Root := root, user_Permissions := p\<rparr>"
    have u0: "dirUsers uc s i = Some u0" using law Inr by simp
    then have "user_ID u0 = i" using s by (auto simp: usersOf_def bind_eq_Some_conv dest: usersOkD)
    show ?thesis
    proof (cases "encUser uc ?u")
      case None
      then show ?thesis using run g law Inr u0 by (auto simp: kvUpdateUser_def)
    next
      case (Some x)
      obtain q s2 where q: "sPut ops (userKey i) x s1 = (q, s2)" by fastforce
      have put: "sound s2" "q = None \<Longrightarrow> view s2 = (view s)(userKey i \<mapsto> x)"
        using put_law [OF _ q] kv_get_view [OF _ g] s by auto
      have dec: "decUser uc x = Some ?u" using uc Some by (simp add: userCodecOk_def)
      have ok: "usersOk uc ((view s)(userKey i \<mapsto> x))" using s dec \<open>user_ID u0 = i\<close> by (intro usersOk_upd) auto
      have *: "(r, s') = (case q of Some e \<Rightarrow> (Inl (RbacStore e), s2) | None \<Rightarrow> (Inr ?u, s2))"
        using run g q Some Inr by (simp add: kvUpdateUser_def split: option.splits)
      show ?thesis
      proof (cases q)
        case None
        then show ?thesis using * put ok u0 dec by (auto simp: users_upd)
      qed (use * in \<open>simp add: storeTrouble_def\<close>)
    qed
  qed
qed

lemma kv_delete:
  assumes s: "dirProper uc s" and run: "kvDeleteUser ops i s = (d, s')"
  shows "case d of
         None \<Rightarrow> dirProper uc s' \<and> dirUsers uc s i \<noteq> None \<and> dirUsers uc s' = (dirUsers uc s)(i := None) \<and> othersOf (view s') = othersOf (view s)
       | Some e \<Rightarrow> storeTrouble e \<or> dirProper uc s' \<and> e = UserNotFound \<and> dirUsers uc s i = None \<and> dirUsers uc s' = dirUsers uc s
           \<and> othersOf (view s') = othersOf (view s)"
proof -
  obtain g s1 where g: "sGet ops (userKey i) s = (g, s1)" by fastforce
  have law: "sound s1" "view s1 = view s" "\<And>v. g = Inr v \<Longrightarrow> v = view s (userKey i)" using get_law [OF _ g] s by auto
  obtain q s2 where q: "sDelete ops (userKey i) s1 = (q, s2)" by fastforce
  have del: "sound s2" "q = None \<Longrightarrow> view s2 = (view s)(userKey i := None)" using delete_law [OF law(1) q] law(2) by auto
  have ok: "usersOk uc ((view s)(userKey i := None))" using s by (intro usersOk_upd) auto
  have present: "dirUsers uc s i = None \<longleftrightarrow> view s (userKey i) = None" using s by (intro usersOk_present) simp
  consider (err) e where "g = Inl e" | (missing) "g = Inr None" | (found) v where "g = Inr (Some v)"
    by (cases g) (auto intro: option.exhaust)
  then show ?thesis
  proof cases
    case found
    then have *: "(d, s') = (map_option RbacStore q, s2)" using run g q by (simp add: kvDeleteUser_def)
    show ?thesis
    proof (cases q)
      case None
      have "dirUsers uc s i \<noteq> None" using law(3) [OF found] present by (metis option.distinct(1))
      then show ?thesis using None * del ok by (simp add: users_upd)
    qed (use * in \<open>simp add: storeTrouble_def\<close>)
  qed (use run g law present s in \<open>auto simp: kvDeleteUser_def storeTrouble_def\<close>)
qed

lemma kv_list:
  assumes s: "dirProper uc s" and run: "kvListUsers ops uc s = (us, s')"
  shows "dirProper uc s' \<and> dirUsers uc s' = dirUsers uc s \<and> othersOf (view s') = othersOf (view s)
      \<and> (us = [] \<or> sorted (map user_CreatedAt us) \<and> distinct (map user_ID us) \<and> set us = ran (dirUsers uc s))"
proof -
  obtain g s1 where g: "sScan ops userKeyPrefix s = (g, s1)" by fastforce
  have law: "sound s1" "view s1 = view s" "\<And>kvs. g = Inr kvs \<Longrightarrow> scanList (view s) userKeyPrefix kvs" using scan_law [OF _ g] s by auto
  have s': "s' = s1" using run g by (auto simp: kvListUsers_def split: sum.splits if_splits)
  have "us = [] \<or> sorted (map user_CreatedAt us) \<and> distinct (map user_ID us) \<and> set us = ran (dirUsers uc s)"
  proof (cases "us = []")
    case False
    then obtain kvs where kvs: "g = Inr kvs" and us: "us = sort_key user_CreatedAt (map (\<lambda>(k, v). the (decUser uc v)) kvs)"
      using run g by (auto simp: kvListUsers_def split: sum.splits if_splits)
    note sc = law(3) [OF kvs, unfolded scanList_def]
    have entry: "\<exists>u. decUser uc v = Some u \<and> k = userKey (user_ID u)" if "(k, v) \<in> set kvs" for k v
    proof -
      have v: "view s k = Some v" "HasPrefix k userKeyPrefix" using sc that by blast+
      then obtain i where "k = userKey i" by (auto simp: HasPrefix_def prefix_def userKey_def)
      then show ?thesis using usersOkD [of uc "view s" i v] s v by auto
    qed
    then have ids: "map fst kvs = map userKey (map user_ID (map (\<lambda>(k, v). the (decUser uc v)) kvs))" by fastforce
    have "distinct (map fst kvs)" using sc by (simp add: strict_sorted_iff)
    then have "distinct (map user_ID (map (\<lambda>(k, v). the (decUser uc v)) kvs))" unfolding ids distinct_map [of userKey] by simp
    then have "distinct (map user_ID us)" unfolding us distinct_map_sort .
    moreover have "set us = ran (dirUsers uc s)"
    proof (rule set_eqI)
      fix u
      have "u \<in> set us \<longleftrightarrow> (\<exists>k v. (k, v) \<in> set kvs \<and> decUser uc v = Some u)" unfolding us using entry by (force simp: image_iff)
      also have "\<dots> \<longleftrightarrow> (\<exists>i. dirUsers uc s i = Some u)"
      proof
        assume "\<exists>k v. (k, v) \<in> set kvs \<and> decUser uc v = Some u"
        then obtain k v where kv: "(k, v) \<in> set kvs" "decUser uc v = Some u" by blast
        then show "\<exists>i. dirUsers uc s i = Some u" using entry [OF kv(1)] sc by (auto simp: usersOf_def bind_eq_Some_conv)
      next
        assume "\<exists>i. dirUsers uc s i = Some u"
        then obtain i v where "view s (userKey i) = Some v" "decUser uc v = Some u" by (auto simp: usersOf_def bind_eq_Some_conv)
        moreover have "HasPrefix (userKey i) userKeyPrefix" by (simp add: userKey_def)
        ultimately show "\<exists>k v. (k, v) \<in> set kvs \<and> decUser uc v = Some u" using sc by blast
      qed
      finally show "u \<in> set us \<longleftrightarrow> u \<in> ran (dirUsers uc s)" by (auto simp: ran_def)
    qed
    ultimately show ?thesis unfolding us by simp
  qed simp
  then show ?thesis using law s s' by simp
qed

lemma kv_directory:
  assumes uc: "userCodecOk uc"
  shows "UserDirectory (kvBackend ops uc) (dirUsers uc) (\<lambda>s. othersOf (view s)) (dirProper uc)"
proof (unfold_locales, unfold kvBackend_def userBackend.simps, goal_cases)
  case 1
  then show ?case by (rule kv_create [OF uc])
next
  case 2
  then show ?case by (rule kv_get)
next
  case 3
  then show ?case by (rule kv_list)
next
  case 4
  then show ?case by (rule kv_update [OF uc])
next
  case 5
  then show ?case by (rule kv_delete)
qed

end

section \<open>On the storage engine\<close>

text \<open>A codec for demonstrations: flags, the time in decimal, a slash and the identifier.\<close>

definition flag :: "bool \<Rightarrow> char" where
  "flag b = (if b then CHR ''1'' else CHR ''0'')"

definition lineCodec :: "bytes userCodec" where
  "lineCodec =
     \<lparr>encUser = (\<lambda>u. let p = user_Permissions u; now = user_CreatedAt u
        in if - (2 ^ 63) \<le> now \<and> now < 2 ^ 63
           then Some ([flag (user_Root u), flag (CanVote p), flag (CanCreateText p), flag (CanCloseText p), flag (CanEditText p),
             flag (CanSubscribe p)] @ Itoa now @ ''/'' @ user_ID u) else None),
      decUser = (\<lambda>v. case v of
          r # a # b # c # d # e # tail \<Rightarrow>
            (case Cut tail CHR ''/'' of
               None \<Rightarrow> None
             | Some (now, i) \<Rightarrow>
                 (case Atoi now of
                    None \<Rightarrow> None
                  | Some n \<Rightarrow> Some \<lparr>user_ID = i, user_Root = (r = flag True),
                      user_Permissions = \<lparr>CanVote = (a = flag True), CanCreateText = (b = flag True), CanCloseText = (c = flag True),
                        CanEditText = (d = flag True), CanSubscribe = (e = flag True)\<rparr>, user_CreatedAt = n\<rparr>))
        | _ \<Rightarrow> None)\<rparr>"

lemma lineCodec_ok: "userCodecOk lineCodec"
proof -
  have flag: "(flag a = flag True) = a" for a by (simp add: flag_def)
  show ?thesis
    by (auto simp: userCodecOk_def lineCodec_def Let_def flag split: if_splits)
qed

interpretation engDir: UserDirectory "kvBackend engOps lineCodec" "\<lambda>e. usersOf lineCodec (absMap e)"
    "\<lambda>e. othersOf (absMap e)" "\<lambda>e. engInv e \<and> usersOk lineCodec (absMap e)"
  by (rule eng.kv_directory [OF lineCodec_ok])

text \<open>C40: A request on the administration socket, served from the storage engine, changes the directory
  as asked when it is answered with success and not at all otherwise, unless a write to the store
  failed; reading a user gives the entry, and everything else in the shared store stays.\<close>

theorem socket_request:
  assumes "userCodecOk uc" and "engInv e" and "usersOk uc (absMap e)"
    and "handleRequest (kvBackend engOps uc) random now req e = (resp, e')"
  shows "(\<exists>x. resp_Error resp = Some x \<and> storeTrouble x)
    \<or> engInv e' \<and> usersOk uc (absMap e') \<and> othersOf (absMap e') = othersOf (absMap e)
      \<and> usersOf uc (absMap e') = (if resp_OK resp then requested random now req (usersOf uc (absMap e)) else usersOf uc (absMap e))
      \<and> (req_Action req = ''get'' \<longrightarrow> resp_User resp = usersOf uc (absMap e) (req_ID req))"
  using UserDirectory.handle_law [OF eng.kv_directory [OF assms(1)] _ assms(4)] assms(2,3) by blast

theorem socket_request_witness:
  "\<exists>resp e'. handleRequest (kvBackend engOps lineCodec) None 7
        \<lparr>req_Action = ''get'', req_ID = ''u'', req_Root = False, req_Permissions = noPermissions\<rparr> (emptyEngine 1 []) = (resp, e')
    \<and> resp_User resp = None \<and> engInv e'"
proof -
  let ?req = "\<lparr>req_Action = ''get'', req_ID = ''u'', req_Root = False, req_Permissions = noPermissions\<rparr>"
  obtain resp e' where run: "handleRequest (kvBackend engOps lineCodec) None 7 ?req (emptyEngine 1 []) = (resp, e')" by fastforce
  have "resp_Error resp = Some UserNotFound"
    using run by (auto simp: handleRequest_def kvBackend_def kvGetUser_def engOps_def engGetOp_def EngGet_abs respUser_def respErr_def)
  moreover have "usersOk lineCodec (absMap (emptyEngine 1 []))" by (simp add: usersOk_def)
  ultimately show ?thesis using socket_request [OF lineCodec_ok _ _ run] run by (auto simp: storeTrouble_def usersOf_def)
qed

end
