(* ===== verification/Accounts.thy ===== *)
theory Accounts
  imports Rbac
begin

text \<open>
  The relational side of the host API: the statements of \<open>src/api/store.go\<close>, \<open>src/api/devices.go\<close> and
  \<open>src/api/notifications_inbox.go\<close> over the tables that \<open>src/api/migrations\<close> create. A table is the
  list of its rows; a statement either fails as a whole, on a constraint or because the database is
  not reachable when its turn comes, or takes effect. Identifiers drawn at random and the order of
  the collation are arguments.
\<close>

section \<open>Tables\<close>

record ApiUser =
  au_ID :: string
  au_Email :: string
  au_PasswordHash :: string
  au_ValidationCode :: "int option"
  au_RbacUUID :: "string option"
  au_Pseudo :: "string option"

record deviceRow =
  dev_token :: string
  dev_userID :: string
  dev_platform :: string

record inboxRow =
  in_id :: int
  in_userID :: string
  in_type :: string
  in_textID :: "string option"
  in_title :: string
  in_body :: string
  in_actor :: "string option"
  in_createdAt :: int
  in_readAt :: "int option"

datatype sqlErr = ErrEmailTaken | ErrUserNotFound | ErrInvalidValidationCode | ErrDatabase

text \<open>\<open>pg_down\<close> tells which statements, counted from the start, find no database, \<open>pg_now\<close> the time of
  each.\<close>

record postgres =
  pg_users :: "ApiUser list"
  pg_devices :: "deviceRow list"
  pg_inbox :: "inboxRow list"
  pg_serial :: int
  pg_count :: nat
  pg_now :: "nat \<Rightarrow> int"
  pg_down :: "nat \<Rightarrow> bool"

type_synonym 'a sqlAct = "postgres \<Rightarrow> (sqlErr + 'a) \<times> postgres"

definition statement :: "(int \<Rightarrow> 'a sqlAct) \<Rightarrow> 'a sqlAct" where
  "statement f p =
     (let n = pg_count p; p = p\<lparr>pg_count := n + 1\<rparr>
      in if pg_down p n then (Inl ErrDatabase, p) else f (pg_now p n) p)"

section \<open>Accounts\<close>

definition pgCreateUser :: "string \<Rightarrow> string \<Rightarrow> string \<Rightarrow> int \<Rightarrow> string \<Rightarrow> ApiUser sqlAct" where
  "pgCreateUser i email passwordHash validationCode pseudo =
     statement (\<lambda>now p.
       let pseudoPtr = (if pseudo \<noteq> [] then Some pseudo else None);
           user = \<lparr>au_ID = i, au_Email = email, au_PasswordHash = passwordHash, au_ValidationCode = Some validationCode,
             au_RbacUUID = None, au_Pseudo = pseudoPtr\<rparr>
       in if list_ex (\<lambda>u. au_ID u = i \<or> au_Email u = email) (pg_users p) then (Inl ErrEmailTaken, p)
          else (Inr user, p\<lparr>pg_users := pg_users p @ [user]\<rparr>))"

definition pgCreateUserFromGoogle :: "string \<Rightarrow> string \<Rightarrow> string \<Rightarrow> string \<Rightarrow> ApiUser sqlAct" where
  "pgCreateUserFromGoogle i email passwordHash pseudo =
     statement (\<lambda>now p.
       let user = \<lparr>au_ID = i, au_Email = email, au_PasswordHash = passwordHash, au_ValidationCode = None,
             au_RbacUUID = None, au_Pseudo = Some pseudo\<rparr>
       in if list_ex (\<lambda>u. au_ID u = i \<or> au_Email u = email) (pg_users p) then (Inl ErrEmailTaken, p)
          else (Inr user, p\<lparr>pg_users := pg_users p @ [user]\<rparr>))"

text \<open>\<open>ON DELETE CASCADE\<close>: the devices and the notifications of the user go with the row.\<close>

definition pgDeleteUser :: "string \<Rightarrow> unit sqlAct" where
  "pgDeleteUser i =
     statement (\<lambda>now p. (Inr (), p\<lparr>pg_users := filter (\<lambda>u. au_ID u \<noteq> i) (pg_users p),
       pg_devices := filter (\<lambda>d. dev_userID d \<noteq> i) (pg_devices p), pg_inbox := filter (\<lambda>r. in_userID r \<noteq> i) (pg_inbox p)\<rparr>))"

definition scanUser :: "(ApiUser \<Rightarrow> bool) \<Rightarrow> ApiUser sqlAct" where
  "scanUser P =
     statement (\<lambda>now p. (case find P (pg_users p) of None \<Rightarrow> Inl ErrUserNotFound | Some u \<Rightarrow> Inr u, p))"

definition UserByEmail :: "string \<Rightarrow> ApiUser sqlAct" where
  "UserByEmail email = scanUser (\<lambda>u. au_Email u = email)"

definition UserByID :: "string \<Rightarrow> ApiUser sqlAct" where
  "UserByID i = scanUser (\<lambda>u. au_ID u = i)"

definition pgListUsers :: "(string \<Rightarrow> string) \<Rightarrow> ApiUser list sqlAct" where
  "pgListUsers collation = statement (\<lambda>now p. (Inr (sort_key (\<lambda>u. collation (au_Email u)) (pg_users p)), p))"

text \<open>\<open>UPDATE ... WHERE\<close>, refused with \<open>missing\<close> when no row matches.\<close>

definition updateUsers :: "sqlErr \<Rightarrow> (ApiUser \<Rightarrow> bool) \<Rightarrow> (ApiUser \<Rightarrow> ApiUser) \<Rightarrow> unit sqlAct" where
  "updateUsers missing P f =
     statement (\<lambda>now p. (if list_ex P (pg_users p) then Inr () else Inl missing,
       p\<lparr>pg_users := map (\<lambda>u. if P u then f u else u) (pg_users p)\<rparr>))"

definition SetRbacUUID :: "string \<Rightarrow> string \<Rightarrow> unit sqlAct" where
  "SetRbacUUID i rbacUUID =
     updateUsers ErrUserNotFound (\<lambda>u. au_ID u = i) (\<lambda>u. u\<lparr>au_RbacUUID := Some rbacUUID\<rparr>)"

definition ConfirmUser :: "string \<Rightarrow> int \<Rightarrow> unit sqlAct" where
  "ConfirmUser email code =
     updateUsers ErrInvalidValidationCode (\<lambda>u. au_Email u = email \<and> au_ValidationCode u = Some code)
       (\<lambda>u. u\<lparr>au_ValidationCode := None\<rparr>)"

section \<open>Devices\<close>

definition hasUser :: "postgres \<Rightarrow> string \<Rightarrow> bool" where
  "hasUser p i = list_ex (\<lambda>u. au_ID u = i) (pg_users p)"

definition RegisterDeviceToken :: "string \<Rightarrow> string \<Rightarrow> string \<Rightarrow> unit sqlAct" where
  "RegisterDeviceToken userID token platform =
     statement (\<lambda>now p.
       let row = \<lparr>dev_token = token, dev_userID = userID, dev_platform = platform\<rparr>
       in if \<not> hasUser p userID then (Inl ErrDatabase, p)
          else if list_ex (\<lambda>d. dev_token d = token) (pg_devices p)
          then (Inr (), p\<lparr>pg_devices := map (\<lambda>d. if dev_token d = token then row else d) (pg_devices p)\<rparr>)
          else (Inr (), p\<lparr>pg_devices := pg_devices p @ [row]\<rparr>))"

text \<open>The maps of the two lookups are functions of the user.\<close>

definition DeviceTokensForUsers :: "string list \<Rightarrow> (string \<Rightarrow> string list) sqlAct" where
  "DeviceTokensForUsers userIDs =
     (if userIDs = [] then (\<lambda>p. (Inr (\<lambda>u. []), p))
      else statement (\<lambda>now p. (Inr (\<lambda>u. if u \<in> set userIDs
        then map dev_token (filter (\<lambda>d. dev_userID d = u) (pg_devices p)) else []), p)))"

definition EmailsForUsers :: "string list \<Rightarrow> (string \<Rightarrow> string) sqlAct" where
  "EmailsForUsers userIDs =
     (if userIDs = [] then (\<lambda>p. (Inr (\<lambda>u. []), p))
      else statement (\<lambda>now p. (Inr (\<lambda>i. if i \<in> set userIDs
        then (case find (\<lambda>u. au_ID u = i) (pg_users p) of None \<Rightarrow> [] | Some u \<Rightarrow> au_Email u) else []), p)))"

definition DeleteDeviceToken :: "string \<Rightarrow> unit sqlAct" where
  "DeleteDeviceToken token = statement (\<lambda>now p. (Inr (), p\<lparr>pg_devices := filter (\<lambda>d. dev_token d \<noteq> token) (pg_devices p)\<rparr>))"

definition DeleteUserDeviceToken :: "string \<Rightarrow> string \<Rightarrow> unit sqlAct" where
  "DeleteUserDeviceToken userID token =
     statement (\<lambda>now p. (Inr (), p\<lparr>pg_devices := filter (\<lambda>d. \<not> (dev_token d = token \<and> dev_userID d = userID)) (pg_devices p)\<rparr>))"

section \<open>The inbox\<close>

definition NullIfEmpty :: "string \<Rightarrow> string option" where
  "NullIfEmpty s = (if s = [] then None else Some s)"

definition Coalesce :: "string option \<Rightarrow> string" where
  "Coalesce s = (case s of None \<Rightarrow> [] | Some x \<Rightarrow> x)"

definition SaveNotifications ::
    "string list \<Rightarrow> string \<Rightarrow> string \<Rightarrow> string \<Rightarrow> string \<Rightarrow> string \<Rightarrow> unit sqlAct" where
  "SaveNotifications userIDs kind textID title body actor =
     (if userIDs = [] then (\<lambda>p. (Inr (), p))
      else statement (\<lambda>now p.
        if list_ex (\<lambda>u. \<not> hasUser p u) userIDs then (Inl ErrDatabase, p)
        else (Inr (), p\<lparr>pg_serial := pg_serial p + int (length userIDs),
          pg_inbox := pg_inbox p @ map (\<lambda>(n, u). \<lparr>in_id = pg_serial p + int n, in_userID = u, in_type = kind,
            in_textID = NullIfEmpty textID, in_title = title, in_body = body, in_actor = NullIfEmpty actor,
            in_createdAt = now, in_readAt = None\<rparr>) (enumerate 0 userIDs)\<rparr>)))"

definition DeleteNotificationsForTexts :: "string \<Rightarrow> string list \<Rightarrow> nat sqlAct" where
  "DeleteNotificationsForTexts userID textIDs =
     (if textIDs = [] then (\<lambda>p. (Inr 0, p))
      else statement (\<lambda>now p.
        let gone = (\<lambda>r. in_userID r = userID \<and> (case in_textID r of None \<Rightarrow> False | Some t \<Rightarrow> t \<in> set textIDs))
        in (Inr (length (filter gone (pg_inbox p))), p\<lparr>pg_inbox := filter (\<lambda>r. \<not> gone r) (pg_inbox p)\<rparr>)))"

record storedNotification =
  sn_ID :: int
  sn_type :: string
  sn_textID :: string
  sn_title :: string
  sn_body :: string
  sn_createdAt :: int
  sn_read :: bool
  sn_voted :: bool
  sn_actor :: string

definition storedOf :: "inboxRow \<Rightarrow> storedNotification" where
  "storedOf r = \<lparr>sn_ID = in_id r, sn_type = in_type r, sn_textID = Coalesce (in_textID r), sn_title = in_title r,
     sn_body = in_body r, sn_createdAt = in_createdAt r, sn_read = (in_readAt r \<noteq> None), sn_voted = False,
     sn_actor = Coalesce (in_actor r)\<rparr>"

text \<open>\<open>ORDER BY created_at DESC, id DESC\<close>.\<close>

definition newestRows :: "inboxRow list \<Rightarrow> inboxRow list" where
  "newestRows rows = rev (sort_key in_createdAt (sort_key in_id rows))"

definition ofKinds :: "string \<Rightarrow> string list \<Rightarrow> inboxRow \<Rightarrow> bool" where
  "ofKinds userID kinds r \<longleftrightarrow> in_userID r = userID \<and> (kinds = [] \<or> in_type r \<in> set kinds)"

definition ListNotifications :: "string \<Rightarrow> int \<Rightarrow> string list \<Rightarrow> storedNotification list sqlAct" where
  "ListNotifications userID limit kinds =
     statement (\<lambda>now p. (Inr (map storedOf (take (nat limit) (newestRows (filter (ofKinds userID kinds) (pg_inbox p))))), p))"

definition UnreadNotificationTexts :: "string \<Rightarrow> string list \<Rightarrow> string list sqlAct" where
  "UnreadNotificationTexts userID kinds =
     statement (\<lambda>now p. (Inr (map (\<lambda>r. Coalesce (in_textID r))
       (filter (\<lambda>r. ofKinds userID kinds r \<and> in_readAt r = None) (pg_inbox p))), p))"

definition SetNotificationRead :: "string \<Rightarrow> int \<Rightarrow> bool \<Rightarrow> int \<Rightarrow> bool sqlAct" where
  "SetNotificationRead userID i isRead timeNow =
     statement (\<lambda>now p.
       let hit = (\<lambda>r. in_id r = i \<and> in_userID r = userID)
       in (Inr (list_ex hit (pg_inbox p)),
           p\<lparr>pg_inbox := map (\<lambda>r. if hit r then r\<lparr>in_readAt := if isRead then Some timeNow else None\<rparr> else r) (pg_inbox p)\<rparr>))"

definition MarkAllNotificationsRead :: "string \<Rightarrow> nat sqlAct" where
  "MarkAllNotificationsRead userID =
     statement (\<lambda>now p.
       let hit = (\<lambda>r. in_userID r = userID \<and> in_readAt r = None)
       in (Inr (length (filter hit (pg_inbox p))),
           p\<lparr>pg_inbox := map (\<lambda>r. if hit r then r\<lparr>in_readAt := Some now\<rparr> else r) (pg_inbox p)\<rparr>))"

end
