(* ===== verification/Model.thy ===== *)
theory Model
  imports Store
begin

text \<open>
  The data of the voting domain (\<open>src/api/queel/model.go\<close>), its errors and storage keys, and the
  effects its operations use: the store, fresh identifiers and the clock. An operation is a
  function from a world to its result, an error or a value, and the world it leaves; as in Go, what
  was written before an error stays written. JSON encoding is a codec over the store's values, of
  which the operations use that decoding inverts encoding.
\<close>

section \<open>Data\<close>

type_synonym time = int

record Slot =
  slot_id :: string
  slot_start :: int
  slot_end :: int
  slot_round :: int

record Text =
  text_id :: string
  text_title :: string
  text_content :: string
  text_finalized :: bool
  text_createdAt :: time
  text_previousTextID :: string
  text_tags :: "string list"
  text_createdBy :: string

datatype RoundStatus = RoundStatusOpen | RoundStatusClosed

record Round =
  round_id :: string
  round_textID :: string
  round_number :: int
  round_status :: RoundStatus
  round_slots :: "Slot list"
  round_createdAt :: time
  round_closedAt :: "time option"
  round_scheduledCloseAt :: "time option"
  round_scheduledCloseBy :: string

record Fragment =
  fragment_id :: string
  fragment_textID :: string
  fragment_slotID :: string
  fragment_content :: string
  fragment_authorID :: string
  fragment_createdAt :: time

record Vote =
  vote_userID :: string
  vote_fragmentID :: string
  vote_createdAt :: time

record SlotResult =
  result_slotID :: string
  result_fragment :: Fragment
  result_votes :: int

record TextWithSlotsResult =
  tws_text :: Text
  tws_roundNumber :: int
  tws_slots :: "Slot list"

record RoundOutcome =
  outcome_round :: Round
  outcome_text :: Text
  outcome_slots :: "SlotResult list"

record Subscription =
  sub_userID :: string
  sub_textID :: string
  sub_createdAt :: time

record TagCount =
  tag_name :: string
  tag_count :: int

definition SeedAuthorID :: string where
  "SeedAuthorID = ''seed''"

text \<open>The errors of the domain, those of the store, and of decoding and parsing what it holds.\<close>

datatype repoErr =
    ErrNotFound
  | ErrNoOpenRound
  | ErrEmptyRound
  | ErrOverlappingSlot Slot
  | ErrTextSuperseded string string
  | ErrInvalidRange int int int
  | ErrStore serr
  | ErrDecode
  | ErrAtoi
  | ErrRand
  | ErrPanic
  | ErrFuel

section \<open>Codec\<close>

text \<open>\<open>json.Marshal\<close> and \<open>json.Unmarshal\<close> on the stored records, and the conversion of an
  identifier to and from bytes.\<close>

record 'v codec =
  encText :: "Text \<Rightarrow> 'v"
  decText :: "'v \<Rightarrow> Text option"
  encRound :: "Round \<Rightarrow> 'v"
  decRound :: "'v \<Rightarrow> Round option"
  encFragment :: "Fragment \<Rightarrow> 'v"
  decFragment :: "'v \<Rightarrow> Fragment option"
  encVote :: "Vote \<Rightarrow> 'v"
  decVote :: "'v \<Rightarrow> Vote option"
  encSubscription :: "Subscription \<Rightarrow> 'v"
  decSubscription :: "'v \<Rightarrow> Subscription option"
  encRaw :: "string \<Rightarrow> 'v"
  decRaw :: "'v \<Rightarrow> string"

definition codecOk :: "'v codec \<Rightarrow> bool" where
  "codecOk cd \<longleftrightarrow> (\<forall>t. decText cd (encText cd t) = Some t) \<and> (\<forall>r. decRound cd (encRound cd r) = Some r)
     \<and> (\<forall>f. decFragment cd (encFragment cd f) = Some f) \<and> (\<forall>v. decVote cd (encVote cd v) = Some v)
     \<and> (\<forall>s. decSubscription cd (encSubscription cd s) = Some s) \<and> (\<forall>r. decRaw cd (encRaw cd r) = r)"

text \<open>The codec that keeps the records as they are.\<close>

datatype payload = PText Text | PRound Round | PFragment Fragment | PVote Vote | PSubscription Subscription
  | PRaw string

definition payloadCodec :: "payload codec" where
  "payloadCodec = \<lparr>
     encText = PText, decText = (\<lambda>p. case p of PText t \<Rightarrow> Some t | _ \<Rightarrow> None),
     encRound = PRound, decRound = (\<lambda>p. case p of PRound r \<Rightarrow> Some r | _ \<Rightarrow> None),
     encFragment = PFragment, decFragment = (\<lambda>p. case p of PFragment f \<Rightarrow> Some f | _ \<Rightarrow> None),
     encVote = PVote, decVote = (\<lambda>p. case p of PVote v \<Rightarrow> Some v | _ \<Rightarrow> None),
     encSubscription = PSubscription, decSubscription = (\<lambda>p. case p of PSubscription s \<Rightarrow> Some s | _ \<Rightarrow> None),
     encRaw = PRaw, decRaw = (\<lambda>p. case p of PRaw s \<Rightarrow> s | _ \<Rightarrow> [])\<rparr>"

lemma payloadCodec_ok: "codecOk payloadCodec"
  by (simp add: codecOk_def payloadCodec_def)

section \<open>Effects\<close>

text \<open>\<open>ids\<close> are the identifiers that \<open>crypto/rand\<close> will give, a failing read once there are no
  more; the \<open>n\<close>th reading of the clock is \<open>clock n\<close>.\<close>

record 's world =
  st :: 's
  ids :: "string list"
  clock :: "nat \<Rightarrow> time"
  ticks :: nat

record ('s, 'v) repository =
  store :: "('s, 'v) storeOps"
  codec :: "'v codec"

type_synonym ('s, 'a) act = "'s world \<Rightarrow> (repoErr + 'a) \<times> 's world"

definition ret :: "'a \<Rightarrow> ('s, 'a) act" where
  "ret x = (\<lambda>w. (Inr x, w))"

definition raise :: "repoErr \<Rightarrow> ('s, 'a) act" where
  "raise e = (\<lambda>w. (Inl e, w))"

definition bindE :: "('s, 'a) act \<Rightarrow> ('a \<Rightarrow> ('s, 'b) act) \<Rightarrow> ('s, 'b) act" where
  "bindE m f = (\<lambda>w. case m w of (Inl e, w') \<Rightarrow> (Inl e, w') | (Inr x, w') \<Rightarrow> f x w')"

definition catchE :: "('s, 'a) act \<Rightarrow> (repoErr \<Rightarrow> ('s, 'a) act) \<Rightarrow> ('s, 'a) act" where
  "catchE m h = (\<lambda>w. case m w of (Inl e, w') \<Rightarrow> h e w' | (Inr x, w') \<Rightarrow> (Inr x, w'))"

definition orRaise :: "repoErr \<Rightarrow> 'a option \<Rightarrow> ('s, 'a) act" where
  "orRaise e r = (case r of None \<Rightarrow> raise e | Some x \<Rightarrow> ret x)"

text \<open>A \<open>for\<close> loop with an accumulator that returns the first error.\<close>

fun foldE :: "('a \<Rightarrow> 'b \<Rightarrow> ('s, 'b) act) \<Rightarrow> 'a list \<Rightarrow> 'b \<Rightarrow> ('s, 'b) act" where
  "foldE f [] b = ret b"
| "foldE f (x # xs) b = bindE (f x b) (foldE f xs)"

definition newID :: "('s, string) act" where
  "newID = (\<lambda>w. case ids w of [] \<Rightarrow> (Inl ErrRand, w) | i # rest \<Rightarrow> (Inr i, w\<lparr>ids := rest\<rparr>))"

definition timeNow :: "('s, time) act" where
  "timeNow = (\<lambda>w. (Inr (clock w (ticks w)), w\<lparr>ticks := ticks w + 1\<rparr>))"

definition storeGet :: "('s, 'v) repository \<Rightarrow> bytes \<Rightarrow> ('s, 'v option) act" where
  "storeGet R k = (\<lambda>w. case sGet (store R) k (st w) of
     (Inl e, s) \<Rightarrow> (Inl (ErrStore e), w\<lparr>st := s\<rparr>) | (Inr v, s) \<Rightarrow> (Inr v, w\<lparr>st := s\<rparr>))"

definition storeScan :: "('s, 'v) repository \<Rightarrow> bytes \<Rightarrow> ('s, (bytes \<times> 'v) list) act" where
  "storeScan R p = (\<lambda>w. case sScan (store R) p (st w) of
     (Inl e, s) \<Rightarrow> (Inl (ErrStore e), w\<lparr>st := s\<rparr>) | (Inr kvs, s) \<Rightarrow> (Inr kvs, w\<lparr>st := s\<rparr>))"

definition storePut :: "('s, 'v) repository \<Rightarrow> bytes \<Rightarrow> 'v \<Rightarrow> ('s, unit) act" where
  "storePut R k v = (\<lambda>w. case sPut (store R) k v (st w) of
     (Some e, s) \<Rightarrow> (Inl (ErrStore e), w\<lparr>st := s\<rparr>) | (None, s) \<Rightarrow> (Inr (), w\<lparr>st := s\<rparr>))"

definition storeBatch :: "('s, 'v) repository \<Rightarrow> 'v wop list \<Rightarrow> ('s, unit) act" where
  "storeBatch R ops = (\<lambda>w. case sBatch (store R) ops (st w) of
     (Some e, s) \<Rightarrow> (Inl (ErrStore e), w\<lparr>st := s\<rparr>) | (None, s) \<Rightarrow> (Inr (), w\<lparr>st := s\<rparr>))"

section \<open>Keys\<close>

definition textKey :: "string \<Rightarrow> bytes" where
  "textKey textID = ''text/'' @ textID"

definition textPrefix :: bytes where
  "textPrefix = ''text/''"

definition roundKey :: "string \<Rightarrow> bytes" where
  "roundKey roundID = ''round/'' @ roundID"

definition currentRoundKey :: "string \<Rightarrow> bytes" where
  "currentRoundKey textID = ''currentround/'' @ textID"

definition currentRoundPrefix :: bytes where
  "currentRoundPrefix = ''currentround/''"

definition roundCountKey :: "string \<Rightarrow> bytes" where
  "roundCountKey textID = ''roundcount/'' @ textID"

definition supersededByKey :: "string \<Rightarrow> bytes" where
  "supersededByKey textID = ''supersededby/'' @ textID"

definition fragmentKey :: "string \<Rightarrow> bytes" where
  "fragmentKey fragmentID = ''fragment/'' @ fragmentID"

definition fragmentIndexKey :: "string \<Rightarrow> string \<Rightarrow> string \<Rightarrow> bytes" where
  "fragmentIndexKey textID slotID fragmentID =
     ''fragmentindex/'' @ textID @ ''/'' @ slotID @ ''/'' @ fragmentID"

definition fragmentIndexPrefix :: "string \<Rightarrow> string \<Rightarrow> bytes" where
  "fragmentIndexPrefix textID slotID = ''fragmentindex/'' @ textID @ ''/'' @ slotID @ ''/''"

definition subscriptionKey :: "string \<Rightarrow> string \<Rightarrow> bytes" where
  "subscriptionKey textID userID = ''subscription/'' @ textID @ ''/'' @ userID"

definition subscriptionPrefix :: "string \<Rightarrow> bytes" where
  "subscriptionPrefix textID = ''subscription/'' @ textID @ ''/''"

definition subscriptionIndexKey :: "string \<Rightarrow> string \<Rightarrow> bytes" where
  "subscriptionIndexKey userID textID = ''subscriptionindex/'' @ userID @ ''/'' @ textID"

definition subscriptionIndexPrefix :: "string \<Rightarrow> bytes" where
  "subscriptionIndexPrefix userID = ''subscriptionindex/'' @ userID @ ''/''"

definition voteKey :: "string \<Rightarrow> string \<Rightarrow> bytes" where
  "voteKey fragmentID userID = ''vote/'' @ fragmentID @ ''/'' @ userID"

definition votePrefix :: "string \<Rightarrow> bytes" where
  "votePrefix fragmentID = ''vote/'' @ fragmentID @ ''/''"

definition roundIndexKey :: "string \<Rightarrow> string \<Rightarrow> bytes" where
  "roundIndexKey textID roundID = ''roundindex/'' @ textID @ ''/'' @ roundID"

definition roundIndexPrefix :: "string \<Rightarrow> bytes" where
  "roundIndexPrefix textID = ''roundindex/'' @ textID @ ''/''"

definition tagIndexKey :: "string \<Rightarrow> string \<Rightarrow> bytes" where
  "tagIndexKey tag textID = ''tagindex/'' @ tag @ ''/'' @ textID"

definition tagIndexPrefix :: "string \<Rightarrow> bytes" where
  "tagIndexPrefix tag = ''tagindex/'' @ tag @ ''/''"

definition allTagsPrefix :: bytes where
  "allTagsPrefix = ''tagindex/''"

definition userChoiceKey :: "string \<Rightarrow> string \<Rightarrow> string \<Rightarrow> bytes" where
  "userChoiceKey textID slotID userID = ''uservote/'' @ textID @ ''/'' @ slotID @ ''/'' @ userID"

definition userChoicePrefix :: "string \<Rightarrow> bytes" where
  "userChoicePrefix textID = ''uservote/'' @ textID @ ''/''"

lemmas key_defs = textKey_def textPrefix_def roundKey_def currentRoundKey_def currentRoundPrefix_def
  roundCountKey_def supersededByKey_def fragmentKey_def fragmentIndexKey_def fragmentIndexPrefix_def
  subscriptionKey_def subscriptionPrefix_def subscriptionIndexKey_def subscriptionIndexPrefix_def
  voteKey_def votePrefix_def roundIndexKey_def roundIndexPrefix_def tagIndexKey_def tagIndexPrefix_def
  allTagsPrefix_def userChoiceKey_def userChoicePrefix_def

end
