(* ===== verification/Utf8.thy ===== *)
theory Utf8
  imports Prelude
begin

text \<open>
  Go's conversion between strings and runes, \<open>[]rune(s)\<close> and \<open>string(runes)\<close>: UTF-8 decoding
  in which every byte that starts no valid sequence is the rune \<open>U+FFFD\<close>, and encoding in which
  every number that is no Unicode scalar value is written as \<open>U+FFFD\<close>. A rune is Go's \<open>int32\<close>,
  here an \<open>int\<close>.
\<close>

type_synonym rune = int

definition RuneError :: rune where
  "RuneError = 0xFFFD"

definition validRune :: "rune \<Rightarrow> bool" where
  "validRune r \<longleftrightarrow> 0 \<le> r \<and> r < 0xD800 \<or> 0xE000 \<le> r \<and> r < 0x110000"

definition byteOf :: "char \<Rightarrow> int" where
  "byteOf c = of_char c"

section \<open>Encoding\<close>

definition encodeRune :: "rune \<Rightarrow> string" where
  "encodeRune r0 =
     (let r = (if validRune r0 then r0 else RuneError)
      in if r < 0x80 then [char_of r]
         else if r < 0x800 then [char_of (0xC0 + r div 64), char_of (0x80 + r mod 64)]
         else if r < 0x10000
         then [char_of (0xE0 + r div 4096), char_of (0x80 + r div 64 mod 64), char_of (0x80 + r mod 64)]
         else [char_of (0xF0 + r div 262144), char_of (0x80 + r div 4096 mod 64),
               char_of (0x80 + r div 64 mod 64), char_of (0x80 + r mod 64)])"

definition stringOf :: "rune list \<Rightarrow> string" where
  "stringOf rs = concat (map encodeRune rs)"

section \<open>Decoding\<close>

text \<open>The range of the second byte, and the length, of the sequences that a first byte starts.\<close>

definition firstByte :: "int \<Rightarrow> (nat \<times> int \<times> int) option" where
  "firstByte b =
     (if 0xC2 \<le> b \<and> b \<le> 0xDF then Some (2, 0x80, 0xBF)
      else if b = 0xE0 then Some (3, 0xA0, 0xBF)
      else if b = 0xED then Some (3, 0x80, 0x9F)
      else if 0xE1 \<le> b \<and> b \<le> 0xEF then Some (3, 0x80, 0xBF)
      else if b = 0xF0 then Some (4, 0x90, 0xBF)
      else if b = 0xF4 then Some (4, 0x80, 0x8F)
      else if 0xF1 \<le> b \<and> b \<le> 0xF3 then Some (4, 0x80, 0xBF)
      else None)"

definition cont :: "int \<Rightarrow> bool" where
  "cont b \<longleftrightarrow> 0x80 \<le> b \<and> b \<le> 0xBF"

text \<open>\<open>utf8.DecodeRuneInString\<close> on a non-empty string: the rune and its width.\<close>

definition decodeRune :: "string \<Rightarrow> rune \<times> nat" where
  "decodeRune s =
     (let b0 = byteOf (s ! 0) in
      if b0 < 0x80 then (b0, 1)
      else case firstByte b0 of
             None \<Rightarrow> (RuneError, 1)
           | Some (n, lo, hi) \<Rightarrow>
               if length s < n then (RuneError, 1)
               else let b1 = byteOf (s ! 1) in
                 if b1 < lo \<or> hi < b1 then (RuneError, 1)
                 else if n = 2 then ((b0 - 0xC0) * 64 + (b1 - 0x80), 2)
                 else let b2 = byteOf (s ! 2) in
                   if \<not> cont b2 then (RuneError, 1)
                   else if n = 3
                   then ((b0 - 0xE0) * 4096 + (b1 - 0x80) * 64 + (b2 - 0x80), 3)
                   else let b3 = byteOf (s ! 3) in
                     if \<not> cont b3 then (RuneError, 1)
                     else ((b0 - 0xF0) * 262144 + (b1 - 0x80) * 4096 + (b2 - 0x80) * 64 + (b3 - 0x80), 4))"

lemma decodeRune_width: "0 < snd (decodeRune s)"
  by (simp add: decodeRune_def Let_def split: option.split)

function runesOf :: "string \<Rightarrow> rune list" where
  "runesOf s = (if s = [] then [] else let (r, n) = decodeRune s in r # runesOf (drop n s))"
  by pat_completeness auto
termination
proof (relation "measure length")
  fix s :: string and x r n
  assume "s \<noteq> []" "x = decodeRune s" "(r, n) = x"
  moreover from this have "0 < n" using decodeRune_width [of s] by (metis snd_conv)
  ultimately show "(drop n s, s) \<in> measure length" by simp
qed simp

declare runesOf.simps [simp del]

section \<open>Round trip\<close>

lemma byteOf_char_of [simp]: "byteOf (char_of n) = n mod 256"
  by (simp add: byteOf_def)

lemma split2:
  fixes r :: int
  assumes "0x80 \<le> r" and "r < 0x800"
  obtains a b where "r = 64 * a + b" "r div 64 = a" "r mod 64 = b" "2 \<le> a" "a \<le> 31" "0 \<le> b" "b \<le> 63"
proof -
  have "r = 64 * (r div 64) + r mod 64" "0 \<le> r mod 64" "r mod 64 \<le> 63" by simp_all
  then show ?thesis using assms by (intro that [of "r div 64" "r mod 64"]) linarith+
qed

lemma split3:
  fixes r :: int
  assumes "0x800 \<le> r" and "r < 0x10000" and "r < 0xD800 \<or> 0xE000 \<le> r"
  obtains a b c where "r = 4096 * a + 64 * b + c" "r div 4096 = a" "r div 64 mod 64 = b" "r mod 64 = c"
    "0 \<le> a" "a \<le> 15" "0 \<le> b" "b \<le> 63" "0 \<le> c" "c \<le> 63" "a = 0 \<longrightarrow> 32 \<le> b" "a = 13 \<longrightarrow> b \<le> 31"
proof -
  let ?a = "r div 4096" and ?b = "r div 64 mod 64" and ?c = "r mod 64"
  have "r div 64 div 64 = ?a" by (simp add: zdiv_zmult2_eq [symmetric])
  then have "r div 64 = 64 * ?a + ?b" using div_mult_mod_eq [of "r div 64" 64] by linarith
  then have eq: "r = 4096 * ?a + 64 * ?b + ?c" using div_mult_mod_eq [of r 64] by linarith
  have b: "0 \<le> ?b" "?b \<le> 63" "0 \<le> ?c" "?c \<le> 63" by simp_all
  show ?thesis using assms eq b by (intro that [of ?a ?b ?c]) linarith+
qed

lemma split4:
  fixes r :: int
  assumes "0x10000 \<le> r" and "r < 0x110000"
  obtains a b c d where "r = 262144 * a + 4096 * b + 64 * c + d" "r div 262144 = a" "r div 4096 mod 64 = b"
    "r div 64 mod 64 = c" "r mod 64 = d"
    "0 \<le> a" "a \<le> 4" "0 \<le> b" "b \<le> 63" "0 \<le> c" "c \<le> 63" "0 \<le> d" "d \<le> 63"
    "a = 0 \<longrightarrow> 16 \<le> b" "a = 4 \<longrightarrow> b \<le> 15"
proof -
  define a b c d where abcd: "a = r div 262144" "b = r div 4096 mod 64" "c = r div 64 mod 64" "d = r mod 64"
  have "r div 64 div 64 = r div 4096" "r div 4096 div 64 = a" by (simp_all add: abcd zdiv_zmult2_eq [symmetric])
  then have "r = 64 * (64 * (64 * a + b) + c) + d"
    using div_mult_mod_eq [of "r div 4096" 64] div_mult_mod_eq [of "r div 64" 64] div_mult_mod_eq [of r 64]
    by (simp add: abcd mult.commute)
  then have eq: "r = 262144 * a + 4096 * b + 64 * c + d" by (simp add: algebra_simps)
  have bounds: "0 \<le> b" "b \<le> 63" "0 \<le> c" "c \<le> 63" "0 \<le> d" "d \<le> 63" by (simp_all add: abcd)
  have a0: "0 \<le> a" using assms(1) by (simp add: abcd pos_imp_zdiv_nonneg_iff)
  have "262144 * a \<le> r" using eq bounds by linarith
  then have "262144 * a < 262144 * 5" using assms(2) by linarith
  then have "a \<le> 4" by simp
  moreover have "a = 0 \<longrightarrow> 16 \<le> b" using eq bounds assms(1) by (intro impI) simp
  moreover have "a = 4 \<longrightarrow> b \<le> 15" using eq bounds assms(2) by (intro impI) simp
  ultimately show ?thesis
    using that [OF eq abcd(1)[symmetric] abcd(2)[symmetric] abcd(3)[symmetric] abcd(4)[symmetric] a0] bounds
    by blast
qed

lemma decode_encode:
  assumes "validRune r"
  shows "decodeRune (encodeRune r @ s) = (r, length (encodeRune r))"
proof -
  consider "0 \<le> r" "r < 0x80" | "0x80 \<le> r" "r < 0x800" | "0x800 \<le> r" "r < 0x10000" | "0x10000 \<le> r" "r < 0x110000"
    using assms unfolding validRune_def by linarith
  then show ?thesis
  proof cases
    case 1
    then show ?thesis using assms by (simp add: encodeRune_def decodeRune_def Let_def)
  next
    case 2
    then obtain a b where ab: "r = 64 * a + b" "r div 64 = a" "r mod 64 = b" "2 \<le> a" "a \<le> 31" "0 \<le> b" "b \<le> 63"
      by (rule split2)
    have "(0xC0 + a) mod 256 = 0xC0 + a" "(0x80 + b) mod 256 = 0x80 + b" using ab by auto
    then show ?thesis using ab(4-7) 2 assms
      by (simp add: encodeRune_def decodeRune_def firstByte_def Let_def ab(2,3)) (simp add: ab(1))
  next
    case 3
    then have "r < 0xD800 \<or> 0xE000 \<le> r" using assms by (auto simp: validRune_def)
    with 3 obtain a b c where ab: "r = 4096 * a + 64 * b + c" "r div 4096 = a" "r div 64 mod 64 = b" "r mod 64 = c"
      "0 \<le> a" "a \<le> 15" "0 \<le> b" "b \<le> 63" "0 \<le> c" "c \<le> 63" "a = 0 \<longrightarrow> 32 \<le> b" "a = 13 \<longrightarrow> b \<le> 31"
      by (rule split3)
    have m: "(0xE0 + a) mod 256 = 0xE0 + a" "(0x80 + b) mod 256 = 0x80 + b" "(0x80 + c) mod 256 = 0x80 + c"
      using ab(5-10) by simp_all
    have "encodeRune r = [char_of (0xE0 + a), char_of (0x80 + b), char_of (0x80 + c)]"
      using 3 assms by (simp add: encodeRune_def Let_def ab(2-4))
    moreover have "firstByte (0xE0 + a) = Some (3, if a = 0 then 0xA0 else 0x80, if a = 13 then 0x9F else 0xBF)"
      using ab(5,6) by (simp add: firstByte_def)
    ultimately show ?thesis using ab(5-12) m
      by (simp add: decodeRune_def Let_def cont_def) (auto simp: ab(1))
  next
    case 4
    then obtain a b c d where ab: "r = 262144 * a + 4096 * b + 64 * c + d" "r div 262144 = a" "r div 4096 mod 64 = b"
      "r div 64 mod 64 = c" "r mod 64 = d" "0 \<le> a" "a \<le> 4" "0 \<le> b" "b \<le> 63" "0 \<le> c" "c \<le> 63" "0 \<le> d" "d \<le> 63"
      "a = 0 \<longrightarrow> 16 \<le> b" "a = 4 \<longrightarrow> b \<le> 15"
      by (rule split4)
    have m: "(0xF0 + a) mod 256 = 0xF0 + a" "(0x80 + b) mod 256 = 0x80 + b" "(0x80 + c) mod 256 = 0x80 + c"
      "(0x80 + d) mod 256 = 0x80 + d" using ab(6-13) by simp_all
    have "encodeRune r = [char_of (0xF0 + a), char_of (0x80 + b), char_of (0x80 + c), char_of (0x80 + d)]"
      using 4 assms by (simp add: encodeRune_def Let_def ab(2-5))
    moreover have "firstByte (0xF0 + a) = Some (4, if a = 0 then 0x90 else 0x80, if a = 4 then 0x8F else 0xBF)"
      using ab(6,7) by (simp add: firstByte_def)
    ultimately show ?thesis using ab(6-15) m
      by (simp add: decodeRune_def Let_def cont_def) (auto simp: ab(1))
  qed
qed

lemma encodeRune_nonempty [simp]: "encodeRune r \<noteq> []"
  by (simp add: encodeRune_def Let_def)

lemma stringOf_simps [simp]:
  "stringOf [] = []" "stringOf (r # rs) = encodeRune r @ stringOf rs"
  "stringOf (rs @ ss) = stringOf rs @ stringOf ss"
  by (simp_all add: stringOf_def)

lemma runesOf_Nil [simp]: "runesOf [] = []"
  by (simp add: runesOf.simps)

lemma runesOf_encode: "validRune r \<Longrightarrow> runesOf (encodeRune r @ s) = r # runesOf s"
  by (simp add: runesOf.simps [of "encodeRune r @ s"] decode_encode)

lemma runesOf_stringOf_append: "list_all validRune rs \<Longrightarrow> runesOf (stringOf rs @ s) = rs @ runesOf s"
  by (induction rs) (auto simp: runesOf_encode)

lemma runesOf_stringOf [simp]: "list_all validRune rs \<Longrightarrow> runesOf (stringOf rs) = rs"
  using runesOf_stringOf_append [of rs "[]"] by simp

text \<open>Strings that are valid UTF-8, which is what every string read from JSON is.\<close>

definition validString :: "string \<Rightarrow> bool" where
  "validString s \<longleftrightarrow> (\<exists>rs. list_all validRune rs \<and> s = stringOf rs)"

lemma validString_stringOf [simp]: "list_all validRune rs \<Longrightarrow> validString (stringOf rs)"
  by (auto simp: validString_def)

lemma stringOf_runesOf: "validString s \<Longrightarrow> stringOf (runesOf s) = s"
  by (auto simp: validString_def)

lemma validString_runes: "validString s \<Longrightarrow> list_all validRune (runesOf s)"
  by (auto simp: validString_def)

lemma runesOf_append: "validString s \<Longrightarrow> runesOf (s @ t) = runesOf s @ runesOf t"
  by (auto simp: validString_def runesOf_stringOf_append)

end
