(* ===== verification/Tags.thy ===== *)
theory Tags
  imports Utf8
begin

text \<open>
  The labels of a text, \<open>src/api/queel/tags.go\<close>: \<open>ParseTags\<close>, which cuts an author's line into
  labels, and \<open>FoldTag\<close>, the form in which labels are compared without accents. The case table of
  \<open>unicode.ToLower\<close> is the parameter \<open>lower\<close>; white space is that of \<open>unicode.IsSpace\<close>.
\<close>

definition MaxTags :: nat where
  "MaxTags = 10"

definition MaxTagRunes :: nat where
  "MaxTagRunes = 30"

definition IsSpace :: "rune \<Rightarrow> bool" where
  "IsSpace r \<longleftrightarrow> 9 \<le> r \<and> r \<le> 13 \<or> r = 0x20 \<or> r = 0x85 \<or> r = 0xA0 \<or> r = 0x1680
     \<or> 0x2000 \<le> r \<and> r \<le> 0x200A \<or> r = 0x2028 \<or> r = 0x2029 \<or> r = 0x202F \<or> r = 0x205F \<or> r = 0x3000"

definition TrimSpace :: "string \<Rightarrow> string" where
  "TrimSpace s = stringOf (rev (dropWhile IsSpace (rev (dropWhile IsSpace (runesOf s)))))"

definition ToLower :: "(rune \<Rightarrow> rune) \<Rightarrow> string \<Rightarrow> string" where
  "ToLower lower s = stringOf (map lower (runesOf s))"

text \<open>\<open>strings.FieldsFunc\<close>: the maximal runs of runes that do not satisfy \<open>f\<close>.\<close>

fun fieldsFrom :: "(rune \<Rightarrow> bool) \<Rightarrow> rune list \<Rightarrow> rune list \<Rightarrow> rune list list" where
  "fieldsFrom f cur [] = (if cur = [] then [] else [cur])"
| "fieldsFrom f cur (r # rs) =
     (if f r then (if cur = [] then fieldsFrom f [] rs else cur # fieldsFrom f [] rs)
      else fieldsFrom f (cur @ [r]) rs)"

definition FieldsFunc :: "string \<Rightarrow> (rune \<Rightarrow> bool) \<Rightarrow> string list" where
  "FieldsFunc s f = map stringOf (fieldsFrom f [] (runesOf s))"

definition isTagSeparator :: "rune \<Rightarrow> bool" where
  "isTagSeparator r \<longleftrightarrow> r = 0x23 \<or> r = 0x2C \<or> r = 0x3B \<or> IsSpace r"

text \<open>The loop of \<open>ParseTags\<close>, over the pieces of the line.\<close>

fun parseLoop :: "(rune \<Rightarrow> rune) \<Rightarrow> string list \<Rightarrow> string list \<Rightarrow> string list \<Rightarrow> string list" where
  "parseLoop lower [] tags seen = tags"
| "parseLoop lower (raw # raws) tags seen =
     (let tag = ToLower lower (TrimSpace raw) in
      if tag = [] \<or> tag \<in> set seen then parseLoop lower raws tags seen
      else let runes = runesOf tag; long = length runes > MaxTagRunes;
               tag = (if long then stringOf (take MaxTagRunes runes) else tag)
        in if long \<and> tag \<in> set seen then parseLoop lower raws tags seen
           else let tags = tags @ [tag]
             in if length tags = MaxTags then tags else parseLoop lower raws tags (tag # seen))"

definition ParseTags :: "(rune \<Rightarrow> rune) \<Rightarrow> string \<Rightarrow> string list" where
  "ParseTags lower line = parseLoop lower (FieldsFunc line isTagSeparator) [] []"

text \<open>The two tables of \<open>FoldTag\<close>, as code points.\<close>

definition accented :: "rune list" where
  "accented = [0xE0, 0xE1, 0xE2, 0xE4, 0xE3, 0xE5, 0xE7, 0xE8, 0xE9, 0xEA, 0xEB, 0xEC, 0xED, 0xEE, 0xEF,
     0xF1, 0xF2, 0xF3, 0xF4, 0xF6, 0xF5, 0xF9, 0xFA, 0xFB, 0xFC, 0xFD, 0xFF, 0x153, 0xE6]"

definition plain :: "rune list" where
  "plain = map byteOf ''aaaaaaceeeeiiiinooooouuuuyyoa''"

definition foldRune :: "rune \<Rightarrow> rune" where
  "foldRune r = (case map_of (zip accented plain) r of None \<Rightarrow> r | Some p \<Rightarrow> p)"

definition FoldTag :: "(rune \<Rightarrow> rune) \<Rightarrow> string \<Rightarrow> string" where
  "FoldTag lower tag = stringOf (map foldRune (runesOf (ToLower lower tag)))"

section \<open>Lemmas\<close>

lemma stringOf_inj: "list_all validRune rs \<Longrightarrow> list_all validRune ss \<Longrightarrow> stringOf rs = stringOf ss \<longleftrightarrow> rs = ss"
  by (metis runesOf_stringOf)

lemma stringOf_empty [simp]: "stringOf rs = [] \<longleftrightarrow> rs = []"
  by (cases rs) auto

lemma fieldsFrom_set:
  "\<forall>r \<in> set cur. \<not> f r \<Longrightarrow> fld \<in> set (fieldsFrom f cur rs) \<Longrightarrow>
    fld \<noteq> [] \<and> (\<forall>r \<in> set fld. \<not> f r) \<and> set fld \<subseteq> set cur \<union> set rs"
proof (induction rs arbitrary: cur)
  case (Cons r rs)
  show ?case
  proof (cases "f r")
    case True
    then have "fld = cur \<and> cur \<noteq> [] \<or> fld \<in> set (fieldsFrom f [] rs)" using Cons.prems(2) by (auto split: if_splits)
    then show ?thesis using Cons.IH [of "[]"] Cons.prems(1) by auto
  next
    case False
    then have "fld \<noteq> [] \<and> (\<forall>r \<in> set fld. \<not> f r) \<and> set fld \<subseteq> set (cur @ [r]) \<union> set rs"
      using Cons.prems by (intro Cons.IH) auto
    then show ?thesis by auto
  qed
qed (auto split: if_splits)

lemma dropWhile_none: "\<forall>r \<in> set rs. \<not> P r \<Longrightarrow> dropWhile P rs = rs"
  by (cases rs) auto

text \<open>The pieces of a line, as runes, and what a run through the loop makes of one piece.\<close>

definition pieceOk :: "rune list \<Rightarrow> bool" where
  "pieceOk p \<longleftrightarrow> p \<noteq> [] \<and> list_all validRune p \<and> (\<forall>r \<in> set p. \<not> isTagSeparator r)"

lemma FieldsFunc_pieces:
  assumes "validString line"
  shows "\<exists>ps. FieldsFunc line isTagSeparator = map stringOf ps \<and> list_all pieceOk ps"
proof -
  have "list_all validRune (runesOf line)" using assms by (rule validString_runes)
  then have "pieceOk p" if "p \<in> set (fieldsFrom isTagSeparator [] (runesOf line))" for p
    using fieldsFrom_set [of "[]" isTagSeparator p "runesOf line"] that by (auto simp: pieceOk_def list_all_iff)
  then show ?thesis by (auto simp: FieldsFunc_def list_all_iff)
qed

lemma TrimSpace_piece: "pieceOk p \<Longrightarrow> TrimSpace (stringOf p) = stringOf p"
  by (simp add: TrimSpace_def pieceOk_def dropWhile_none isTagSeparator_def)

text \<open>What the model relies on from \<open>unicode.ToLower\<close>: it maps code points to code points, and
  neither makes nor removes a separator.\<close>

definition lowerOk :: "(rune \<Rightarrow> rune) \<Rightarrow> bool" where
  "lowerOk lower \<longleftrightarrow> (\<forall>r. validRune r \<longrightarrow> validRune (lower r))
     \<and> (\<forall>r. validRune r \<longrightarrow> isTagSeparator (lower r) = isTagSeparator r)"

definition tagOk :: "string \<Rightarrow> bool" where
  "tagOk t \<longleftrightarrow> (\<exists>p. t = stringOf p \<and> pieceOk p \<and> length p \<le> MaxTagRunes)"

lemma lower_piece: "lowerOk lower \<Longrightarrow> pieceOk p \<Longrightarrow> pieceOk (map lower p)"
  by (auto simp: lowerOk_def pieceOk_def list_all_iff)

lemma take_piece: "pieceOk p \<Longrightarrow> 0 < n \<Longrightarrow> pieceOk (take n p)"
  by (auto simp: pieceOk_def list_all_iff dest: in_set_takeD)

lemma ToLower_piece: "pieceOk p \<Longrightarrow> ToLower lower (stringOf p) = stringOf (map lower p)"
  by (simp add: ToLower_def pieceOk_def)

lemma parseLoop_ok:
  assumes "lowerOk lower" and "list_all pieceOk ps"
    and "set seen = set tags" and "distinct tags" and "list_all tagOk tags" and "length tags < MaxTags"
  shows "distinct (parseLoop lower (map stringOf ps) tags seen)
    \<and> list_all tagOk (parseLoop lower (map stringOf ps) tags seen)
    \<and> length (parseLoop lower (map stringOf ps) tags seen) \<le> MaxTags"
  using assms(2-)
proof (induction ps arbitrary: tags seen)
  case (Cons p ps)
  define q where "q = map lower p"
  define t where "t = (if length q > MaxTagRunes then take MaxTagRunes q else q)"
  have p: "pieceOk p" using Cons.prems by simp
  then have q: "pieceOk q" unfolding q_def by (rule lower_piece [OF assms(1)])
  then have t: "pieceOk t" "length t \<le> MaxTagRunes"
    by (auto simp: t_def MaxTagRunes_def intro: take_piece)
  have tag: "ToLower lower (TrimSpace (stringOf p)) = stringOf q" "runesOf (stringOf q) = q"
    using TrimSpace_piece [OF p] ToLower_piece [OF p] q by (simp_all add: q_def pieceOk_def)
  show ?case
  proof (cases "stringOf q \<in> set seen \<or> length q > MaxTagRunes \<and> stringOf t \<in> set seen")
    case True
    then have "parseLoop lower (map stringOf (p # ps)) tags seen = parseLoop lower (map stringOf ps) tags seen"
      by (auto simp: tag Let_def t_def)
    then show ?thesis using Cons.IH [of seen tags] Cons.prems by (simp del: parseLoop.simps)
  next
    case False
    then have new: "stringOf t \<notin> set tags" using Cons.prems(2) by (auto simp: t_def split: if_splits)
    have eq: "parseLoop lower (map stringOf (p # ps)) tags seen =
        (if length (tags @ [stringOf t]) = MaxTags then tags @ [stringOf t]
         else parseLoop lower (map stringOf ps) (tags @ [stringOf t]) (stringOf t # seen))"
      using False q by (auto simp: tag Let_def t_def pieceOk_def)
    have "tagOk (stringOf t)" using t by (auto simp: tagOk_def)
    then show ?thesis
      unfolding eq using Cons.IH [of "stringOf t # seen" "tags @ [stringOf t]"] Cons.prems new by auto
  qed
qed simp

section \<open>Properties\<close>

text \<open>The labels parsed from any valid UTF-8 line are at most \<open>MaxTags\<close>, pairwise different, and each is
  a non-empty string of at most \<open>MaxTagRunes\<close> runes without a hash, comma, semicolon or white
  space. The case table \<open>lower\<close> maps code points to code points and keeps separators apart, as
  \<open>unicode.ToLower\<close> does.\<close>

theorem ParseTags_bounds:
  assumes "lowerOk lower" and "validString line"
  shows "length (ParseTags lower line) \<le> MaxTags \<and> distinct (ParseTags lower line)
    \<and> (\<forall>t \<in> set (ParseTags lower line). t \<noteq> [] \<and> length (runesOf t) \<le> MaxTagRunes
         \<and> (\<forall>r \<in> set (runesOf t). \<not> isTagSeparator r))"
proof -
  obtain ps where ps: "FieldsFunc line isTagSeparator = map stringOf ps" "list_all pieceOk ps"
    using FieldsFunc_pieces [OF assms(2)] by blast
  have "distinct (ParseTags lower line) \<and> list_all tagOk (ParseTags lower line) \<and> length (ParseTags lower line) \<le> MaxTags"
    unfolding ParseTags_def ps(1) by (rule parseLoop_ok [OF assms(1) ps(2)]) (simp_all add: MaxTags_def)
  moreover have "t \<noteq> [] \<and> length (runesOf t) \<le> MaxTagRunes \<and> (\<forall>r \<in> set (runesOf t). \<not> isTagSeparator r)"
    if "tagOk t" for t
    using that by (auto simp: tagOk_def pieceOk_def)
  ultimately show ?thesis by (auto simp: list_all_iff)
qed

text \<open>Lower-casing of ASCII letters, an instance for the parameter.\<close>

definition asciiLower :: "rune \<Rightarrow> rune" where
  "asciiLower r = (if 65 \<le> r \<and> r \<le> 90 then r + 32 else r)"

lemma asciiLower_ok: "lowerOk asciiLower"
  by (auto simp: lowerOk_def asciiLower_def validRune_def isTagSeparator_def IsSpace_def)

lemma byteOf_nonneg [simp]: "0 \<le> byteOf c"
  by (metis byteOf_def of_nat_0_le_iff of_nat_of_char)

lemma ascii_valid: "list_all (\<lambda>c. byteOf c < 128) s \<Longrightarrow> validString s"
proof -
  assume "list_all (\<lambda>c. byteOf c < 128) s"
  then have "s = stringOf (map byteOf s) \<and> list_all validRune (map byteOf s)"
    by (induction s) (auto simp: encodeRune_def validRune_def Let_def, simp_all add: byteOf_def)
  then show ?thesis unfolding validString_def by blast
qed

lemma ParseTags_bounds_witness:
  "ParseTags asciiLower ''#Loi loi, Vote#'' = [''loi'', ''vote'']
    \<and> distinct (ParseTags asciiLower ''#Loi loi, Vote#'')"
proof -
  have "ParseTags asciiLower ''#Loi loi, Vote#'' = [''loi'', ''vote'']" by code_simp
  moreover have "validString ''#Loi loi, Vote#''" by (rule ascii_valid) (simp add: byteOf_def)
  ultimately show ?thesis using ParseTags_bounds [OF asciiLower_ok, of "''#Loi loi, Vote#''"] by blast
qed

end
