(* ===== verification/Repository.thy ===== *)
theory Repository
  imports Model Tags
begin

text \<open>
  The voting domain, \<open>src/api/queel/repository.go\<close>: one definition per method of \<open>Repository\<close>, with
  its reads and writes in the order of the code. \<open>R\<close> is the repository: its store and the codec of
  its values. \<open>sort.Slice\<close>, which leaves the order of equal elements open, is a stable sort here.
\<close>

section \<open>Reading\<close>

definition getText :: "('s, 'v) repository \<Rightarrow> string \<Rightarrow> ('s, Text) act" where
  "getText R textID =
     bindE (storeGet R (textKey textID)) (\<lambda>found.
     case found of None \<Rightarrow> raise ErrNotFound | Some val \<Rightarrow> orRaise ErrDecode (decText (codec R) val))"

definition getRound :: "('s, 'v) repository \<Rightarrow> string \<Rightarrow> ('s, Round) act" where
  "getRound R roundID =
     bindE (storeGet R (roundKey roundID)) (\<lambda>found.
     case found of None \<Rightarrow> raise ErrNotFound | Some val \<Rightarrow> orRaise ErrDecode (decRound (codec R) val))"

definition CurrentRound :: "('s, 'v) repository \<Rightarrow> string \<Rightarrow> ('s, Round) act" where
  "CurrentRound R textID =
     bindE (storeGet R (currentRoundKey textID)) (\<lambda>found.
     case found of None \<Rightarrow> raise ErrNotFound | Some val \<Rightarrow> getRound R (decRaw (codec R) val))"

definition IsSuperseded :: "('s, 'v) repository \<Rightarrow> string \<Rightarrow> ('s, bool) act" where
  "IsSuperseded R textID =
     bindE (storeGet R (supersededByKey textID)) (\<lambda>found. ret (found \<noteq> None))"

definition RoundCount :: "('s, 'v) repository \<Rightarrow> string \<Rightarrow> ('s, int) act" where
  "RoundCount R textID =
     bindE (storeGet R (roundCountKey textID)) (\<lambda>found.
     case found of None \<Rightarrow> ret 0 | Some val \<Rightarrow> orRaise ErrAtoi (Atoi (decRaw (codec R) val)))"

definition getFragment :: "('s, 'v) repository \<Rightarrow> string \<Rightarrow> ('s, Fragment) act" where
  "getFragment R fragmentID =
     bindE (storeGet R (fragmentKey fragmentID)) (\<lambda>found.
     case found of None \<Rightarrow> raise ErrNotFound | Some val \<Rightarrow> orRaise ErrDecode (decFragment (codec R) val))"

definition Fragments :: "('s, 'v) repository \<Rightarrow> string \<Rightarrow> string \<Rightarrow> ('s, Fragment list) act" where
  "Fragments R textID slotID =
     bindE (storeScan R (fragmentIndexPrefix textID slotID)) (\<lambda>kvs.
     foldE (\<lambda>(k, v) fragments.
       bindE (getFragment R (decRaw (codec R) v)) (\<lambda>fragment. ret (fragments @ [fragment]))) kvs [])"

definition VoteCount :: "('s, 'v) repository \<Rightarrow> string \<Rightarrow> ('s, int) act" where
  "VoteCount R fragmentID =
     bindE (storeScan R (votePrefix fragmentID)) (\<lambda>kvs. ret (int (length kvs)))"

definition DueScheduledRounds :: "('s, 'v) repository \<Rightarrow> time \<Rightarrow> ('s, Round list) act" where
  "DueScheduledRounds R now =
     bindE (storeScan R currentRoundPrefix) (\<lambda>kvs.
     foldE (\<lambda>(k, v) due.
       bindE (getRound R (decRaw (codec R) v)) (\<lambda>round.
       ret (if round_status round = RoundStatusOpen
              \<and> (case round_scheduledCloseAt round of None \<Rightarrow> False | Some at \<Rightarrow> \<not> now < at)
            then due @ [round] else due))) kvs [])"

text \<open>\<open>RecentTexts\<close>: the page of the texts that no fork has superseded, newest first.\<close>

definition page :: "int \<Rightarrow> int \<Rightarrow> 'a list \<Rightarrow> 'a list" where
  "page limit offset xs =
     (if offset > 0 \<and> offset \<ge> int (length xs) then []
      else let xs = (if offset > 0 then drop (nat offset) xs else xs)
        in if limit > 0 \<and> int (length xs) > limit then take (nat limit) xs else xs)"

definition newestFirst :: "Text list \<Rightarrow> Text list" where
  "newestFirst texts = sort_key (\<lambda>t. - text_createdAt t) texts"

definition RecentTexts :: "('s, 'v) repository \<Rightarrow> int \<Rightarrow> int \<Rightarrow> ('s, Text list) act" where
  "RecentTexts R limit offset =
     bindE (storeScan R textPrefix) (\<lambda>kvs.
     bindE (foldE (\<lambda>(k, v) texts.
       bindE (orRaise ErrDecode (decText (codec R) v)) (\<lambda>t.
       bindE (IsSuperseded R (text_id t)) (\<lambda>superseded.
       ret (if superseded then texts else texts @ [t])))) kvs []) (\<lambda>texts.
     ret (page limit offset (newestFirst texts))))"

definition TextWithSlots :: "('s, 'v) repository \<Rightarrow> string \<Rightarrow> ('s, TextWithSlotsResult) act" where
  "TextWithSlots R textID =
     bindE (getText R textID) (\<lambda>t.
     catchE (bindE (CurrentRound R textID) (\<lambda>round.
       ret \<lparr>tws_text = t, tws_roundNumber = round_number round, tws_slots = round_slots round\<rparr>))
     (\<lambda>e. if e = ErrNotFound then ret \<lparr>tws_text = t, tws_roundNumber = 0, tws_slots = []\<rparr> else raise e))"

definition UserVotes :: "('s, 'v) repository \<Rightarrow> string \<Rightarrow> string \<Rightarrow> ('s, (string \<times> string) list) act" where
  "UserVotes R textID userID =
     (let pre = userChoicePrefix textID in
      bindE (storeScan R pre) (\<lambda>kvs.
      ret (foldl (\<lambda>votes (k, v).
        case Cut (TrimPrefix k pre) CHR ''/'' of
          None \<Rightarrow> votes
        | Some (slotID, keyUserID) \<Rightarrow>
            if keyUserID \<noteq> userID then votes else AList.update slotID (decRaw (codec R) v) votes) [] kvs)))"

definition RoundsForText :: "('s, 'v) repository \<Rightarrow> string \<Rightarrow> ('s, Round list) act" where
  "RoundsForText R textID =
     bindE (storeScan R (roundIndexPrefix textID)) (\<lambda>kvs.
     bindE (foldE (\<lambda>(k, v) rounds.
       bindE (storeGet R (roundKey (decRaw (codec R) v))) (\<lambda>found.
       case found of
         None \<Rightarrow> ret rounds
       | Some val \<Rightarrow> bindE (orRaise ErrDecode (decRound (codec R) val)) (\<lambda>round. ret (rounds @ [round])))) kvs [])
     (\<lambda>rounds. ret (sort_key round_number rounds)))"

text \<open>\<open>TextChain\<close> follows \<open>PreviousTextID\<close> back to the root and \<open>supersededby\<close> forward to the tip.
  The code has no bound on either walk; \<open>fuel\<close> is one, and \<open>Lineage\<close> shows that any fuel
  above the number of stored texts is enough.\<close>

fun chainBack :: "nat \<Rightarrow> ('s, 'v) repository \<Rightarrow> Text \<Rightarrow> Text list \<Rightarrow> ('s, Text list) act" where
  "chainBack 0 R current acc = raise ErrFuel"
| "chainBack (Suc fuel) R current acc =
     (if text_previousTextID current = [] then ret acc
      else bindE (catchE (bindE (getText R (text_previousTextID current)) (\<lambda>t. ret (Some t)))
                         (\<lambda>e. if e = ErrNotFound then ret None else raise e)) (\<lambda>previous.
           case previous of None \<Rightarrow> ret acc | Some t \<Rightarrow> chainBack fuel R t (t # acc)))"

fun chainForward :: "nat \<Rightarrow> ('s, 'v) repository \<Rightarrow> Text \<Rightarrow> Text list \<Rightarrow> ('s, Text list) act" where
  "chainForward 0 R current acc = raise ErrFuel"
| "chainForward (Suc fuel) R current acc =
     bindE (storeGet R (supersededByKey (text_id current))) (\<lambda>found.
     case found of
       None \<Rightarrow> ret acc
     | Some val \<Rightarrow>
         bindE (catchE (bindE (getText R (decRaw (codec R) val)) (\<lambda>t. ret (Some t)))
                       (\<lambda>e. if e = ErrNotFound then ret None else raise e)) (\<lambda>next.
         case next of None \<Rightarrow> ret acc | Some t \<Rightarrow> chainForward fuel R t (acc @ [t])))"

definition TextChain :: "nat \<Rightarrow> ('s, 'v) repository \<Rightarrow> string \<Rightarrow> ('s, Text list) act" where
  "TextChain fuel R textID =
     bindE (getText R textID) (\<lambda>t.
     bindE (chainBack fuel R t [t]) (\<lambda>chain. chainForward fuel R t chain))"

section \<open>Creating texts and rounds\<close>

definition openRoundOps :: "'v codec \<Rightarrow> string \<Rightarrow> int \<Rightarrow> ('s, 'v wop list \<times> Round) act" where
  "openRoundOps cd textID number =
     bindE newID (\<lambda>i.
     bindE timeNow (\<lambda>now.
     let round = \<lparr>round_id = i, round_textID = textID, round_number = number, round_status = RoundStatusOpen,
                  round_slots = [], round_createdAt = now, round_closedAt = None,
                  round_scheduledCloseAt = None, round_scheduledCloseBy = []\<rparr>
     in ret ([PutOp (roundKey i) (encRound cd round), PutOp (currentRoundKey textID) (encRaw cd i),
              PutOp (roundCountKey textID) (encRaw cd (Itoa number)),
              PutOp (roundIndexKey textID i) (encRaw cd i)], round)))"

definition CreateText :: "('s, 'v) repository \<Rightarrow> string \<Rightarrow> string \<Rightarrow> string \<Rightarrow> string list \<Rightarrow> ('s, Text) act" where
  "CreateText R title content authorID tags =
     bindE newID (\<lambda>i.
     bindE timeNow (\<lambda>now.
     let cd = codec R;
         t = \<lparr>text_id = i, text_title = title, text_content = content, text_finalized = False,
              text_createdAt = now, text_previousTextID = [], text_tags = tags, text_createdBy = authorID\<rparr>;
         sub = \<lparr>sub_userID = authorID, sub_textID = i, sub_createdAt = now\<rparr>
     in bindE (openRoundOps cd i 1) (\<lambda>(roundOps, _).
        let ops = [PutOp (textKey i) (encText cd t),
                   PutOp (subscriptionKey i authorID) (encSubscription cd sub),
                   PutOp (subscriptionIndexKey authorID i) (encRaw cd i)] @ roundOps
                  @ map (\<lambda>tag. PutOp (tagIndexKey tag i) (encRaw cd i)) tags
        in bindE (storeBatch R ops) (\<lambda>_. ret t))))"

definition nextRoundNumber :: "('s, 'v) repository \<Rightarrow> string \<Rightarrow> ('s, int) act" where
  "nextRoundNumber R textID =
     bindE (storeGet R (roundCountKey textID)) (\<lambda>found.
     case found of
       None \<Rightarrow> ret 1
     | Some val \<Rightarrow> bindE (orRaise ErrAtoi (Atoi (decRaw (codec R) val))) (\<lambda>previous. ret (previous + 1)))"

definition openRound :: "('s, 'v) repository \<Rightarrow> string \<Rightarrow> ('s, Round) act" where
  "openRound R textID =
     bindE (storeGet R (supersededByKey textID)) (\<lambda>found.
     case found of
       Some val \<Rightarrow> raise (ErrTextSuperseded textID (decRaw (codec R) val))
     | None \<Rightarrow>
         bindE (nextRoundNumber R textID) (\<lambda>number.
         bindE (openRoundOps (codec R) textID number) (\<lambda>(ops, round).
         bindE (storeBatch R ops) (\<lambda>_. ret round))))"

definition ScheduleRoundClose :: "('s, 'v) repository \<Rightarrow> string \<Rightarrow> time \<Rightarrow> string \<Rightarrow> ('s, Round) act" where
  "ScheduleRoundClose R textID closeAt userID =
     bindE (catchE (CurrentRound R textID) (\<lambda>e. raise (if e = ErrNotFound then ErrNoOpenRound else e))) (\<lambda>round.
     if round_slots round = [] then raise ErrEmptyRound
     else let round = round\<lparr>round_scheduledCloseAt := Some closeAt, round_scheduledCloseBy := userID\<rparr>
       in bindE (storePut R (roundKey (round_id round)) (encRound (codec R) round)) (\<lambda>_. ret round))"

section \<open>Proposals and votes\<close>

text \<open>\<open>resolveSlot\<close>: the slot with exactly this range, a new one, or an error for an overlap.\<close>

fun resolveSlot :: "Slot list \<Rightarrow> int \<Rightarrow> int \<Rightarrow> ('s, string \<times> bool) act" where
  "resolveSlot [] start end' = bindE newID (\<lambda>i. ret (i, True))"
| "resolveSlot (s # existing) start end' =
     (if slot_start s = start \<and> slot_end s = end' then ret (slot_id s, False)
      else if start < slot_end s \<and> end' > slot_start s then raise (ErrOverlappingSlot s)
      else resolveSlot existing start end')"

definition addFragment :: "('s, 'v) repository \<Rightarrow> string \<Rightarrow> string \<Rightarrow> string \<Rightarrow> string \<Rightarrow> ('s, Fragment) act" where
  "addFragment R textID slotID content authorID =
     bindE newID (\<lambda>i.
     bindE timeNow (\<lambda>now.
     let fragment = \<lparr>fragment_id = i, fragment_textID = textID, fragment_slotID = slotID,
                     fragment_content = content, fragment_authorID = authorID, fragment_createdAt = now\<rparr>
     in bindE (storeBatch R [PutOp (fragmentKey i) (encFragment (codec R) fragment),
                             PutOp (fragmentIndexKey textID slotID i) (encRaw (codec R) i)])
          (\<lambda>_. ret fragment)))"

definition seedSlot ::
    "('s, 'v) repository \<Rightarrow> string \<Rightarrow> string \<Rightarrow> Round \<Rightarrow> string \<Rightarrow> int \<Rightarrow> int \<Rightarrow> ('s, unit) act" where
  "seedSlot R textID content round slotID start end' =
     bindE newID (\<lambda>seedID.
     bindE timeNow (\<lambda>now.
     let cd = codec R;
         runes = runesOf content;
         seed = \<lparr>fragment_id = seedID, fragment_textID = textID, fragment_slotID = slotID,
                 fragment_content = stringOf (take (nat (end' - start)) (drop (nat start) runes)),
                 fragment_authorID = SeedAuthorID, fragment_createdAt = now\<rparr>;
         round' = round\<lparr>round_slots := round_slots round
           @ [\<lparr>slot_id = slotID, slot_start = start, slot_end = end', slot_round = round_number round\<rparr>]\<rparr>
     in storeBatch R [PutOp (fragmentKey seedID) (encFragment cd seed),
                      PutOp (fragmentIndexKey textID slotID seedID) (encRaw cd seedID),
                      PutOp (roundKey (round_id round)) (encRound cd round')]))"

definition ProposeEdit ::
    "('s, 'v) repository \<Rightarrow> string \<Rightarrow> int \<Rightarrow> int \<Rightarrow> string \<Rightarrow> string \<Rightarrow> ('s, Fragment) act" where
  "ProposeEdit R textID start end' content authorID =
     bindE (getText R textID) (\<lambda>t.
     let contentLen = int (length (runesOf (text_content t))) in
     if start < 0 \<or> end' \<le> start \<or> end' > contentLen then raise (ErrInvalidRange start end' contentLen)
     else bindE (catchE (CurrentRound R textID)
                        (\<lambda>e. if e \<noteq> ErrNotFound then raise e else openRound R textID)) (\<lambda>round.
          bindE (resolveSlot (round_slots round) start end') (\<lambda>(slotID, isNewSlot).
          bindE (if isNewSlot then seedSlot R textID (text_content t) round slotID start end' else ret ()) (\<lambda>_.
          addFragment R textID slotID content authorID))))"

definition CastVote :: "('s, 'v) repository \<Rightarrow> string \<Rightarrow> string \<Rightarrow> ('s, unit) act" where
  "CastVote R fragmentID userID =
     bindE (getFragment R fragmentID) (\<lambda>fragment.
     let choiceKey = userChoiceKey (fragment_textID fragment) (fragment_slotID fragment) userID in
     bindE (storeGet R choiceKey) (\<lambda>previous.
     bindE timeNow (\<lambda>now.
     let cd = codec R;
         vote = \<lparr>vote_userID = userID, vote_fragmentID = fragmentID, vote_createdAt = now\<rparr>;
         ops = [PutOp (voteKey fragmentID userID) (encVote cd vote), PutOp choiceKey (encRaw cd fragmentID)]
           @ (case previous of
                None \<Rightarrow> []
              | Some p \<Rightarrow> if decRaw cd p \<noteq> fragmentID then [DelOp (voteKey (decRaw cd p) userID)] else [])
     in storeBatch R ops)))"

section \<open>Subscriptions\<close>

definition Subscribe :: "('s, 'v) repository \<Rightarrow> string \<Rightarrow> string \<Rightarrow> ('s, Subscription) act" where
  "Subscribe R userID textID =
     bindE (getText R textID) (\<lambda>_.
     bindE timeNow (\<lambda>now.
     let sub = \<lparr>sub_userID = userID, sub_textID = textID, sub_createdAt = now\<rparr>
     in bindE (storeBatch R [PutOp (subscriptionKey textID userID) (encSubscription (codec R) sub),
                             PutOp (subscriptionIndexKey userID textID) (encRaw (codec R) textID)])
          (\<lambda>_. ret sub)))"

definition Unsubscribe :: "('s, 'v) repository \<Rightarrow> string \<Rightarrow> string \<Rightarrow> ('s, unit) act" where
  "Unsubscribe R userID textID =
     storeBatch R [DelOp (subscriptionKey textID userID), DelOp (subscriptionIndexKey userID textID)]"

definition IsSubscribed :: "('s, 'v) repository \<Rightarrow> string \<Rightarrow> string \<Rightarrow> ('s, bool) act" where
  "IsSubscribed R userID textID =
     bindE (storeGet R (subscriptionKey textID userID)) (\<lambda>found. ret (found \<noteq> None))"

definition SubscriptionsForUser :: "('s, 'v) repository \<Rightarrow> string \<Rightarrow> ('s, string list) act" where
  "SubscriptionsForUser R userID =
     bindE (storeScan R (subscriptionIndexPrefix userID)) (\<lambda>kvs.
     ret (map (\<lambda>(k, v). decRaw (codec R) v) kvs))"

definition SubscribersForText :: "('s, 'v) repository \<Rightarrow> string \<Rightarrow> ('s, string list) act" where
  "SubscribersForText R textID =
     bindE (storeScan R (subscriptionPrefix textID)) (\<lambda>kvs.
     foldE (\<lambda>(k, v) userIDs.
       bindE (orRaise ErrDecode (decSubscription (codec R) v)) (\<lambda>sub. ret (userIDs @ [sub_userID sub]))) kvs [])"

text \<open>A batch is written only when there is something in it.\<close>

definition batchUnlessEmpty :: "('s, 'v) repository \<Rightarrow> 'v wop list \<Rightarrow> ('s, unit) act" where
  "batchUnlessEmpty R ops = (if ops = [] then ret () else storeBatch R ops)"

definition DeleteUserSubscriptions :: "('s, 'v) repository \<Rightarrow> string \<Rightarrow> ('s, unit) act" where
  "DeleteUserSubscriptions R userID =
     bindE (storeScan R (subscriptionIndexPrefix userID)) (\<lambda>kvs.
     batchUnlessEmpty R
       (concat (map (\<lambda>(k, v). [DelOp k, DelOp (subscriptionKey (decRaw (codec R) v) userID)]) kvs)))"

section \<open>Labels\<close>

definition carriesAll :: "Text \<Rightarrow> string list \<Rightarrow> bool" where
  "carriesAll t tags \<longleftrightarrow> list_all (\<lambda>wanted. wanted \<in> set (text_tags t)) tags"

text \<open>The label of a key of the label index: what stands before the next slash.\<close>

definition tagOfKey :: "bytes \<Rightarrow> string option" where
  "tagOfKey k = map_option fst (Cut (TrimPrefix k allTagsPrefix) CHR ''/'')"

fun firstFolded :: "(rune \<Rightarrow> rune) \<Rightarrow> string \<Rightarrow> (bytes \<times> 'v) list \<Rightarrow> string option" where
  "firstFolded lower folded [] = None"
| "firstFolded lower folded ((k, v) # kvs) =
     (case tagOfKey k of
        None \<Rightarrow> firstFolded lower folded kvs
      | Some stored \<Rightarrow> if FoldTag lower stored = folded then Some stored else firstFolded lower folded kvs)"

definition resolveTag :: "(rune \<Rightarrow> rune) \<Rightarrow> ('s, 'v) repository \<Rightarrow> string \<Rightarrow> ('s, string) act" where
  "resolveTag lower R tag =
     bindE (storeScan R (tagIndexPrefix tag)) (\<lambda>kvs.
     if kvs \<noteq> [] then ret tag
     else bindE (storeScan R allTagsPrefix) (\<lambda>all.
          ret (case firstFolded lower (FoldTag lower tag) all of None \<Rightarrow> tag | Some stored \<Rightarrow> stored)))"

definition TextsByTags :: "(rune \<Rightarrow> rune) \<Rightarrow> ('s, 'v) repository \<Rightarrow> string list \<Rightarrow> ('s, Text list) act" where
  "TextsByTags lower R tags =
     (if tags = [] then ret []
      else bindE (foldE (\<lambda>tag resolved. bindE (resolveTag lower R tag) (\<lambda>stored. ret (resolved @ [stored]))) tags [])
       (\<lambda>tags.
        bindE (storeScan R (tagIndexPrefix (hd tags))) (\<lambda>kvs.
        bindE (foldE (\<lambda>(k, v) texts.
          bindE (catchE (bindE (getText R (decRaw (codec R) v)) (\<lambda>t. ret (Some t)))
                        (\<lambda>e. if e = ErrNotFound then ret None else raise e)) (\<lambda>found.
          case found of
            None \<Rightarrow> ret texts
          | Some t \<Rightarrow>
              if \<not> carriesAll t (tl tags) then ret texts
              else bindE (IsSuperseded R (text_id t)) (\<lambda>superseded.
                   ret (if superseded then texts else texts @ [t])))) kvs []) (\<lambda>texts.
        ret (newestFirst texts)))))"

definition getTags :: "('s, 'v) repository \<Rightarrow> ('s, TagCount list) act" where
  "getTags R =
     bindE (storeScan R allTagsPrefix) (\<lambda>kvs.
     bindE (foldE (\<lambda>(k, v) counts.
       case tagOfKey k of
         None \<Rightarrow> ret counts
       | Some tag \<Rightarrow>
           bindE (IsSuperseded R (decRaw (codec R) v)) (\<lambda>superseded.
           ret (if superseded then counts
                else AList.update tag ((case map_of counts tag of None \<Rightarrow> 0 | Some n \<Rightarrow> n) + 1) counts))) kvs [])
     (\<lambda>counts.
      ret (sort_key (\<lambda>c. - tag_count c) (sort_key tag_name
            (map (\<lambda>(tag, n). \<lparr>tag_name = tag, tag_count = n\<rparr>) counts)))))"

section \<open>Closing a round\<close>

text \<open>A fragment with its votes, and when it replaces the leading one.\<close>

type_synonym scoredFragment = "Fragment \<times> int"

definition isBetter :: "scoredFragment \<Rightarrow> scoredFragment \<Rightarrow> bool" where
  "isBetter candidate current \<longleftrightarrow>
     (if snd candidate \<noteq> snd current then snd candidate > snd current
      else if fragment_createdAt (fst candidate) \<noteq> fragment_createdAt (fst current)
      then fragment_createdAt (fst candidate) < fragment_createdAt (fst current)
      else fragment_id (fst candidate) < fragment_id (fst current))"

definition WinningFragment :: "('s, 'v) repository \<Rightarrow> string \<Rightarrow> string \<Rightarrow> ('s, Fragment) act" where
  "WinningFragment R textID slotID =
     bindE (Fragments R textID slotID) (\<lambda>fragments.
     case fragments of
       [] \<Rightarrow> raise ErrNotFound
     | f # rest \<Rightarrow>
         bindE (VoteCount R (fragment_id f)) (\<lambda>votes.
         bindE (foldE (\<lambda>fragment best.
           bindE (VoteCount R (fragment_id fragment)) (\<lambda>votes.
           ret (if isBetter (fragment, votes) best then (fragment, votes) else best))) rest (f, votes)) (\<lambda>best.
         ret (fst best))))"

text \<open>\<open>spliceContent\<close> walks the slots in order of \<open>Start\<close>. A slice out of range and a slot without a
  winner are panics in Go, here the result \<open>None\<close>.\<close>

fun spliceLoop :: "rune list \<Rightarrow> Slot list \<Rightarrow> (string \<times> Fragment) list \<Rightarrow> int \<Rightarrow> string \<Rightarrow> string option" where
  "spliceLoop runes [] winners cursor b =
     (if 0 \<le> cursor \<and> cursor \<le> int (length runes) then Some (b @ stringOf (drop (nat cursor) runes)) else None)"
| "spliceLoop runes (slot # slots) winners cursor b =
     (if 0 \<le> cursor \<and> cursor \<le> slot_start slot \<and> slot_start slot \<le> int (length runes)
      then case map_of winners (slot_id slot) of
             None \<Rightarrow> None
           | Some winner \<Rightarrow>
               spliceLoop runes slots winners (slot_end slot)
                 (b @ stringOf (take (nat (slot_start slot - cursor)) (drop (nat cursor) runes))
                    @ fragment_content winner)
      else None)"

definition spliceContent :: "string \<Rightarrow> Slot list \<Rightarrow> (string \<times> Fragment) list \<Rightarrow> string option" where
  "spliceContent content slots winners =
     spliceLoop (runesOf content) (sort_key slot_start slots) winners 0 []"

text \<open>The winner of every slot, and the migration of one subscriber to the fork.\<close>

definition resolveSlots ::
    "('s, 'v) repository \<Rightarrow> string \<Rightarrow> Slot list \<Rightarrow> ('s, (string \<times> Fragment) list \<times> SlotResult list) act" where
  "resolveSlots R textID slots =
     foldE (\<lambda>slot (winners, results).
       bindE (WinningFragment R textID (slot_id slot)) (\<lambda>winner.
       bindE (VoteCount R (fragment_id winner)) (\<lambda>votes.
       ret (AList.update (slot_id slot) winner winners,
            results @ [\<lparr>result_slotID = slot_id slot, result_fragment = winner, result_votes = votes\<rparr>])))) slots ([], [])"

definition migrateOps :: "'v codec \<Rightarrow> string \<Rightarrow> string \<Rightarrow> time \<Rightarrow> bytes \<Rightarrow> 'v wop list" where
  "migrateOps cd textID newTextID now k =
     (let userID = TrimPrefix k (subscriptionPrefix textID);
          migrated = \<lparr>sub_userID = userID, sub_textID = newTextID, sub_createdAt = now\<rparr>
      in [DelOp k, DelOp (subscriptionIndexKey userID textID),
          PutOp (subscriptionKey newTextID userID) (encSubscription cd migrated),
          PutOp (subscriptionIndexKey userID newTextID) (encRaw cd newTextID)])"

definition CloseRound :: "('s, 'v) repository \<Rightarrow> string \<Rightarrow> ('s, RoundOutcome) act" where
  "CloseRound R textID =
     bindE (catchE (CurrentRound R textID) (\<lambda>e. raise (if e = ErrNotFound then ErrNoOpenRound else e))) (\<lambda>round.
     if round_slots round = [] then raise ErrEmptyRound else
     bindE (getText R textID) (\<lambda>t.
     bindE (resolveSlots R textID (round_slots round)) (\<lambda>(winners, slotResults).
     bindE newID (\<lambda>newTextID.
     bindE (orRaise ErrPanic (spliceContent (text_content t) (round_slots round) winners)) (\<lambda>content.
     bindE timeNow (\<lambda>created.
     bindE timeNow (\<lambda>now.
     let cd = codec R;
         newText = \<lparr>text_id = newTextID, text_title = text_title t, text_content = content,
                    text_finalized = True, text_createdAt = created, text_previousTextID = text_id t,
                    text_tags = text_tags t, text_createdBy = text_createdBy t\<rparr>;
         round' = round\<lparr>round_status := RoundStatusClosed, round_closedAt := Some now\<rparr>
     in bindE (openRoundOps cd newTextID (round_number round + 1)) (\<lambda>(nextRoundOps, _).
        bindE (storeScan R (subscriptionPrefix textID)) (\<lambda>subscribers.
        let ops = [PutOp (textKey newTextID) (encText cd newText), PutOp (roundKey (round_id round)) (encRound cd round'),
                   DelOp (currentRoundKey textID), PutOp (supersededByKey textID) (encRaw cd newTextID)]
                  @ nextRoundOps
                  @ concat (map (\<lambda>tag. [DelOp (tagIndexKey tag textID),
                                         PutOp (tagIndexKey tag newTextID) (encRaw cd newTextID)]) (text_tags t))
                  @ concat (map (\<lambda>(k, v). migrateOps cd textID newTextID now k) subscribers)
        in bindE (storeBatch R ops) (\<lambda>_.
           ret \<lparr>outcome_round = round', outcome_text = newText, outcome_slots = slotResults\<rparr>))))))))))"

section \<open>Deleting\<close>

definition DeleteUserVotes :: "('s, 'v) repository \<Rightarrow> string \<Rightarrow> ('s, unit) act" where
  "DeleteUserVotes R userID =
     (let suf = ''/'' @ userID in
      bindE (storeScan R ''vote/'') (\<lambda>votes.
      bindE (storeScan R ''uservote/'') (\<lambda>choices.
      batchUnlessEmpty R
        (map (\<lambda>(k, v). DelOp k) (filter (\<lambda>(k, v). HasSuffix k suf) votes)
         @ map (\<lambda>(k, v). DelOp k) (filter (\<lambda>(k, v). HasSuffix k suf) choices)))))"

text \<open>The deletions for one fragment of a user, one of its votes at a time.\<close>

definition fragmentVoteOps ::
    "('s, 'v) repository \<Rightarrow> Fragment \<Rightarrow> bytes \<times> 'v \<Rightarrow> 'v wop list \<Rightarrow> ('s, 'v wop list) act" where
  "fragmentVoteOps R fragment kv ops =
     bindE (orRaise ErrDecode (decVote (codec R) (snd kv))) (\<lambda>vote.
     let choiceKey = userChoiceKey (fragment_textID fragment) (fragment_slotID fragment) (vote_userID vote) in
     bindE (storeGet R choiceKey) (\<lambda>current.
     ret (ops @ [DelOp (fst kv)]
            @ (case current of
                 None \<Rightarrow> []
               | Some c \<Rightarrow> if decRaw (codec R) c = fragment_id fragment then [DelOp choiceKey] else []))))"

definition DeleteUserFragments :: "('s, 'v) repository \<Rightarrow> string \<Rightarrow> ('s, unit) act" where
  "DeleteUserFragments R userID =
     bindE (storeScan R ''fragment/'') (\<lambda>kvs.
     bindE (foldE (\<lambda>(k, v) ops.
       bindE (orRaise ErrDecode (decFragment (codec R) v)) (\<lambda>fragment.
       if fragment_authorID fragment \<noteq> userID then ret ops
       else bindE (storeScan R (votePrefix (fragment_id fragment))) (\<lambda>votes.
            foldE (fragmentVoteOps R fragment) votes
              (ops @ [DelOp (fragmentKey (fragment_id fragment)),
                      DelOp (fragmentIndexKey (fragment_textID fragment) (fragment_slotID fragment)
                              (fragment_id fragment))])))) kvs []) (\<lambda>ops.
     batchUnlessEmpty R ops))"

text \<open>The deletions that \<open>DeleteText\<close> and \<open>DeleteUserTexts\<close> share: the rounds of some texts, and the
  fragments, votes and choices of one.\<close>

definition roundDeletions :: "('s, 'v) repository \<Rightarrow> (string \<Rightarrow> bool) \<Rightarrow> 'v wop list \<Rightarrow> ('s, 'v wop list) act" where
  "roundDeletions R target ops =
     bindE (storeScan R ''round/'') (\<lambda>kvs.
     foldE (\<lambda>(k, v) ops.
       bindE (orRaise ErrDecode (decRound (codec R) v)) (\<lambda>round.
       ret (if target (round_textID round)
            then ops @ [DelOp (roundKey (round_id round)), DelOp (roundIndexKey (round_textID round) (round_id round))]
            else ops))) kvs ops)"

definition fragmentDeletions :: "('s, 'v) repository \<Rightarrow> string \<Rightarrow> 'v wop list \<Rightarrow> ('s, 'v wop list) act" where
  "fragmentDeletions R textID ops =
     bindE (storeScan R (''fragmentindex/'' @ textID @ ''/'')) (\<lambda>kvs.
     bindE (foldE (\<lambda>(k, v) ops.
       let fragmentID = decRaw (codec R) v in
       bindE (storeScan R (votePrefix fragmentID)) (\<lambda>votes.
       ret (ops @ [DelOp k, DelOp (fragmentKey fragmentID)] @ map (\<lambda>(k, v). DelOp k) votes))) kvs ops) (\<lambda>ops.
     bindE (storeScan R (''uservote/'' @ textID @ ''/'')) (\<lambda>choices.
     ret (ops @ map (\<lambda>(k, v). DelOp k) choices))))"

definition DeleteUserTexts :: "('s, 'v) repository \<Rightarrow> string \<Rightarrow> ('s, string list) act" where
  "DeleteUserTexts R userID =
     bindE (storeScan R textPrefix) (\<lambda>kvs.
     bindE (foldE (\<lambda>(k, v) (targetIDs, ops).
       bindE (orRaise ErrDecode (decText (codec R) v)) (\<lambda>t.
       ret (if text_createdBy t \<noteq> userID then (targetIDs, ops)
            else (targetIDs @ [text_id t],
                  ops @ [DelOp (textKey (text_id t)), DelOp (currentRoundKey (text_id t)),
                         DelOp (roundCountKey (text_id t)), DelOp (supersededByKey (text_id t))])))) kvs ([], []))
     (\<lambda>(targetIDs, ops).
      if targetIDs = [] then ret []
      else bindE (roundDeletions R (\<lambda>i. i \<in> set targetIDs) ops) (\<lambda>ops.
           bindE (foldE (fragmentDeletions R) targetIDs ops) (\<lambda>ops.
           bindE (storeBatch R ops) (\<lambda>_. ret targetIDs)))))"

definition DeleteText :: "('s, 'v) repository \<Rightarrow> string \<Rightarrow> ('s, unit) act" where
  "DeleteText R textID =
     bindE (getText R textID) (\<lambda>t.
     let ops = [DelOp (textKey textID), DelOp (currentRoundKey textID), DelOp (roundCountKey textID),
                DelOp (supersededByKey textID)] @ map (\<lambda>tag. DelOp (tagIndexKey tag textID)) (text_tags t)
     in bindE (roundDeletions R (\<lambda>i. i = textID) ops) (\<lambda>ops.
        bindE (fragmentDeletions R textID ops) (\<lambda>ops.
        bindE (storeScan R (subscriptionPrefix textID)) (\<lambda>subscriptions.
        storeBatch R (ops @ concat (map (\<lambda>(k, v).
          [DelOp k, DelOp (subscriptionIndexKey (TrimPrefix k (subscriptionPrefix textID)) textID)]) subscriptions))))))"

end
