(* ===== verification/RepoSim.thy ===== *)
theory RepoSim
  imports Repository
begin

text \<open>
  The repository does not depend on which store it runs on: over any store that keeps the laws of
  the locale \<open>KVStore\<close>, an operation that meets no store error gives the result, and leaves the
  bindings, that it gives and leaves over the reference store. So the properties of the domain are
  proved once, over sorted lists of bindings.
\<close>

section \<open>Simulation\<close>

definition mkRepo :: "('s, 'v) storeOps \<Rightarrow> 'v codec \<Rightarrow> ('s, 'v) repository" where
  "mkRepo ops cd = \<lparr>store = ops, codec = cd\<rparr>"

lemma mkRepo_simps [simp]: "store (mkRepo ops cd) = ops" "codec (mkRepo ops cd) = cd"
  by (simp_all add: mkRepo_def)

definition simRel :: "('s \<Rightarrow> bytes \<Rightarrow> 'v option) \<Rightarrow> ('s \<Rightarrow> bool) \<Rightarrow> 's world \<Rightarrow> 'v kvs world \<Rightarrow> bool" where
  "simRel view sound w w0 \<longleftrightarrow> sound (st w) \<and> refInv (st w0) \<and> map_of (st w0) = view (st w)
     \<and> ids w0 = ids w \<and> clock w0 = clock w \<and> ticks w0 = ticks w"

definition sim :: "('s \<Rightarrow> bytes \<Rightarrow> 'v option) \<Rightarrow> ('s \<Rightarrow> bool) \<Rightarrow> ('s, 'a) act \<Rightarrow> ('v kvs, 'a) act \<Rightarrow> bool" where
  "sim view sound m m0 \<longleftrightarrow>
     (\<forall>w w0. simRel view sound w w0 \<longrightarrow>
        (case m w of
           (Inl (ErrStore e), w') \<Rightarrow> sound (st w')
         | (r, w') \<Rightarrow> (case m0 w0 of (r0, w0') \<Rightarrow> r0 = r \<and> simRel view sound w' w0')))"

text \<open>The two ways in which related runs can go.\<close>

lemma simD:
  assumes "sim view sound m m0" and "simRel view sound w w0"
  obtains (failed) e w' where "m w = (Inl (ErrStore e), w')" and "sound (st w')"
  | (same) r w' w0' where "m w = (r, w')" and "\<forall>e. r \<noteq> Inl (ErrStore e)" and "m0 w0 = (r, w0')"
      and "simRel view sound w' w0'"
proof -
  obtain r w' where m: "m w = (r, w')" by fastforce
  have s: "case (r, w') of (Inl (ErrStore e), w') \<Rightarrow> sound (st w')
      | (r, w') \<Rightarrow> (case m0 w0 of (r0, w0') \<Rightarrow> r0 = r \<and> simRel view sound w' w0')"
    using assms m unfolding sim_def by fastforce
  show ?thesis
  proof (cases "\<exists>e. r = Inl (ErrStore e)")
    case True
    then show ?thesis using failed m s by auto
  next
    case False
    then show ?thesis using same m s by (cases "m0 w0") (auto split: sum.splits repoErr.splits)
  qed
qed

lemma simI:
  assumes "\<And>w w0. simRel view sound w w0 \<Longrightarrow>
    (\<exists>e w'. m w = (Inl (ErrStore e), w') \<and> sound (st w'))
    \<or> (\<exists>r w' w0'. m w = (r, w') \<and> m0 w0 = (r, w0') \<and> simRel view sound w' w0')"
  shows "sim view sound m m0"
  unfolding sim_def
proof (intro allI impI)
  fix w w0 assume r: "simRel view sound w w0"
  have i: "simRel view sound w' w0' \<Longrightarrow> sound (st w')" for w' w0' by (simp add: simRel_def)
  from assms [OF r] i show "case m w of (Inl (ErrStore e), w') \<Rightarrow> sound (st w')
      | (r, w') \<Rightarrow> (case m0 w0 of (r0, w0') \<Rightarrow> r0 = r \<and> simRel view sound w' w0')"
    by (auto split: sum.splits repoErr.splits)
qed

named_theorems sim_intros \<open>rules that decompose a simulation goal\<close>

lemma sim_ret [sim_intros]: "sim view sound (ret x) (ret x)"
  by (rule simI) (auto simp: ret_def)

lemma sim_raise [sim_intros]: "sim view sound (raise e) (raise e)"
  by (rule simI) (auto simp: raise_def)

lemma sim_bind [sim_intros]:
  assumes "sim view sound m m0" and "\<And>x. sim view sound (f x) (f0 x)"
  shows "sim view sound (bindE m f) (bindE m0 f0)"
proof (rule simI)
  fix w w0 assume r: "simRel view sound w w0"
  from assms(1) r show "(\<exists>e w'. bindE m f w = (Inl (ErrStore e), w') \<and> sound (st w'))
    \<or> (\<exists>r w' w0'. bindE m f w = (r, w') \<and> bindE m0 f0 w0 = (r, w0') \<and> simRel view sound w' w0')"
  proof (cases rule: simD)
    case (same r w' w0')
    show ?thesis
    proof (cases r)
      case (Inr x)
      from assms(2) [of x] same(4) show ?thesis
        by (cases rule: simD) (use same Inr in \<open>auto simp: bindE_def\<close>)
    qed (use same in \<open>auto simp: bindE_def\<close>)
  qed (auto simp: bindE_def)
qed

lemma sim_catch [sim_intros]:
  assumes "sim view sound m m0" and "\<And>e. sim view sound (h e) (h0 e)" and "\<And>e. h (ErrStore e) = raise (ErrStore e)"
  shows "sim view sound (catchE m h) (catchE m0 h0)"
proof (rule simI)
  fix w w0 assume r: "simRel view sound w w0"
  from assms(1) r show "(\<exists>e w'. catchE m h w = (Inl (ErrStore e), w') \<and> sound (st w'))
    \<or> (\<exists>r w' w0'. catchE m h w = (r, w') \<and> catchE m0 h0 w0 = (r, w0') \<and> simRel view sound w' w0')"
  proof (cases rule: simD)
    case (same r w' w0')
    show ?thesis
    proof (cases r)
      case (Inl e)
      from assms(2) [of e] same(4) show ?thesis
        by (cases rule: simD) (use same Inl in \<open>auto simp: catchE_def\<close>)
    qed (use same in \<open>auto simp: catchE_def\<close>)
  qed (auto simp: catchE_def assms(3) raise_def)
qed

lemma sim_orRaise [sim_intros]: "sim view sound (orRaise e r) (orRaise e r)"
  unfolding orRaise_def by (cases r) (auto intro: sim_intros)

lemma sim_fold [sim_intros]:
  assumes "\<And>x b. sim view sound (f x b) (f0 x b)"
  shows "sim view sound (foldE f xs b) (foldE f0 xs b)"
  by (induction xs arbitrary: b) (auto intro: sim_intros assms)

lemma sim_if [sim_intros]:
  "(c \<Longrightarrow> sim view sound a a0) \<Longrightarrow> (\<not> c \<Longrightarrow> sim view sound b b0) \<Longrightarrow>
    sim view sound (if c then a else b) (if c then a0 else b0)"
  by simp

lemma sim_option [sim_intros]:
  "(x = None \<Longrightarrow> sim view sound a a0) \<Longrightarrow> (\<And>y. x = Some y \<Longrightarrow> sim view sound (b y) (b0 y)) \<Longrightarrow>
    sim view sound (case x of None \<Rightarrow> a | Some y \<Rightarrow> b y) (case x of None \<Rightarrow> a0 | Some y \<Rightarrow> b0 y)"
  by (cases x) auto

lemma sim_prod [sim_intros]:
  "(\<And>y z. x = (y, z) \<Longrightarrow> sim view sound (a y z) (a0 y z)) \<Longrightarrow>
    sim view sound (case x of (y, z) \<Rightarrow> a y z) (case x of (y, z) \<Rightarrow> a0 y z)"
  by (cases x) auto

lemma sim_prod_app [sim_intros]:
  "(\<And>y z. x = (y, z) \<Longrightarrow> sim view sound (a y z b) (a0 y z b)) \<Longrightarrow>
    sim view sound ((case x of (y, z) \<Rightarrow> a y z) b) ((case x of (y, z) \<Rightarrow> a0 y z) b)"
  by (cases x) auto

lemma sim_list [sim_intros]:
  "(x = [] \<Longrightarrow> sim view sound a a0) \<Longrightarrow> (\<And>y ys. x = y # ys \<Longrightarrow> sim view sound (b y ys) (b0 y ys)) \<Longrightarrow>
    sim view sound (case x of [] \<Rightarrow> a | y # ys \<Rightarrow> b y ys) (case x of [] \<Rightarrow> a0 | y # ys \<Rightarrow> b0 y ys)"
  by (cases x) auto

lemma sim_newID [sim_intros]: "sim view sound newID newID"
  by (rule simI) (auto simp: newID_def simRel_def split: list.splits)

lemma sim_timeNow [sim_intros]: "sim view sound timeNow timeNow"
  by (rule simI) (auto simp: timeNow_def simRel_def)

lemmas handler_simps = raise_def

section \<open>The operations over any store\<close>

context KVStore
begin

lemma sim_get: "sim view sound (storeGet (mkRepo ops cd) k) (storeGet (mkRepo refOps cd) k)"
proof (rule simI)
  fix w w0 assume r: "simRel view sound w w0"
  obtain x s where g: "sGet ops k (st w) = (x, s)" by fastforce
  then have l: "sound s" "view s = view (st w)" "\<forall>v. x = Inr v \<longrightarrow> v = view (st w) k"
    using get_law [of "st w"] r by (auto simp: simRel_def)
  then show "(\<exists>e w'. storeGet (mkRepo ops cd) k w = (Inl (ErrStore e), w') \<and> sound (st w'))
    \<or> (\<exists>r w' w0'. storeGet (mkRepo ops cd) k w = (r, w') \<and> storeGet (mkRepo refOps cd) k w0 = (r, w0')
        \<and> simRel view sound w' w0')"
    using r g by (cases x) (auto simp: storeGet_def refOps_def simRel_def)
qed

lemma sim_scan: "sim view sound (storeScan (mkRepo ops cd) p) (storeScan (mkRepo refOps cd) p)"
proof (rule simI)
  fix w w0 assume r: "simRel view sound w w0"
  obtain x s where g: "sScan ops p (st w) = (x, s)" by fastforce
  then have l: "sound s" "view s = view (st w)" "\<And>kvs. x = Inr kvs \<Longrightarrow> scanList (view (st w)) p kvs"
    using scan_law [of "st w"] r by (auto simp: simRel_def)
  have "kvs = filter (\<lambda>x. HasPrefix (fst x) p) (st w0)" if "x = Inr kvs" for kvs
  proof (rule scanList_unique)
    show "scanList (view (st w)) p kvs" by (rule l(3) [OF that])
    show "scanList (view (st w)) p (filter (\<lambda>x. HasPrefix (fst x) p) (st w0))"
      using ref_scanList [of "st w0" p] r by (simp add: simRel_def)
  qed
  then show "(\<exists>e w'. storeScan (mkRepo ops cd) p w = (Inl (ErrStore e), w') \<and> sound (st w'))
    \<or> (\<exists>r w' w0'. storeScan (mkRepo ops cd) p w = (r, w') \<and> storeScan (mkRepo refOps cd) p w0 = (r, w0')
        \<and> simRel view sound w' w0')"
    using r g l by (cases x) (auto simp: storeScan_def refOps_def simRel_def)
qed

lemma sim_put: "sim view sound (storePut (mkRepo ops cd) k v) (storePut (mkRepo refOps cd) k v)"
proof (rule simI)
  fix w w0 assume r: "simRel view sound w w0"
  obtain x s where g: "sPut ops k v (st w) = (x, s)" by fastforce
  then have l: "sound s" "x = None \<longrightarrow> view s = (view (st w))(k \<mapsto> v)"
    using put_law [of "st w"] r by (auto simp: simRel_def)
  then show "(\<exists>e w'. storePut (mkRepo ops cd) k v w = (Inl (ErrStore e), w') \<and> sound (st w'))
    \<or> (\<exists>r w' w0'. storePut (mkRepo ops cd) k v w = (r, w') \<and> storePut (mkRepo refOps cd) k v w0 = (r, w0')
        \<and> simRel view sound w' w0')"
    using r g by (cases x) (auto simp: storePut_def refOps_def simRel_def map_of_refPut refInv_refPut)
qed

lemma sim_batch: "sim view sound (storeBatch (mkRepo ops cd) ws) (storeBatch (mkRepo refOps cd) ws)"
proof (rule simI)
  fix w w0 assume r: "simRel view sound w w0"
  obtain x s where g: "sBatch ops ws (st w) = (x, s)" by fastforce
  then have l: "sound s" "x = None \<longrightarrow> view s = foldl wopMap (view (st w)) ws"
    using batch_law [of "st w"] r by (auto simp: simRel_def)
  then show "(\<exists>e w'. storeBatch (mkRepo ops cd) ws w = (Inl (ErrStore e), w') \<and> sound (st w'))
    \<or> (\<exists>r w' w0'. storeBatch (mkRepo ops cd) ws w = (r, w') \<and> storeBatch (mkRepo refOps cd) ws w0 = (r, w0')
        \<and> simRel view sound w' w0')"
    using r g refWops_ok [of "st w0" ws] by (cases x) (auto simp: storeBatch_def refOps_def simRel_def)
qed

lemmas base_intros = sim_intros sim_get sim_scan sim_put sim_batch

lemma sim_getText: "sim view sound (getText (mkRepo ops cd) i) (getText (mkRepo refOps cd) i)"
  unfolding getText_def mkRepo_simps by (intro base_intros)

lemma sim_getRound: "sim view sound (getRound (mkRepo ops cd) i) (getRound (mkRepo refOps cd) i)"
  unfolding getRound_def mkRepo_simps by (intro base_intros)

lemma sim_CurrentRound: "sim view sound (CurrentRound (mkRepo ops cd) i) (CurrentRound (mkRepo refOps cd) i)"
  unfolding CurrentRound_def mkRepo_simps by (intro base_intros sim_getRound)

lemma sim_IsSuperseded: "sim view sound (IsSuperseded (mkRepo ops cd) i) (IsSuperseded (mkRepo refOps cd) i)"
  unfolding IsSuperseded_def by (intro base_intros)

lemma sim_getFragment: "sim view sound (getFragment (mkRepo ops cd) i) (getFragment (mkRepo refOps cd) i)"
  unfolding getFragment_def mkRepo_simps by (intro base_intros)

lemma sim_Fragments: "sim view sound (Fragments (mkRepo ops cd) i j) (Fragments (mkRepo refOps cd) i j)"
  unfolding Fragments_def mkRepo_simps by (intro base_intros sim_getFragment)

lemma sim_VoteCount: "sim view sound (VoteCount (mkRepo ops cd) i) (VoteCount (mkRepo refOps cd) i)"
  unfolding VoteCount_def by (intro base_intros)

lemma sim_openRoundOps: "sim view sound (openRoundOps cd i n) (openRoundOps cd i n)"
  unfolding openRoundOps_def Let_def by (intro base_intros)

lemma sim_openRound: "sim view sound (openRound (mkRepo ops cd) i) (openRound (mkRepo refOps cd) i)"
  unfolding openRound_def nextRoundNumber_def mkRepo_simps by (intro base_intros sim_openRoundOps)

lemma sim_addFragment:
  "sim view sound (addFragment (mkRepo ops cd) i j c a) (addFragment (mkRepo refOps cd) i j c a)"
  unfolding addFragment_def Let_def mkRepo_simps by (intro base_intros)

lemma sim_resolveSlot: "sim view sound (resolveSlot ss a b) (resolveSlot ss a b)"
  by (induction ss) (auto intro!: base_intros)

lemma sim_seedSlot:
  "sim view sound (seedSlot (mkRepo ops cd) i c r j a b) (seedSlot (mkRepo refOps cd) i c r j a b)"
  unfolding seedSlot_def Let_def mkRepo_simps by (intro base_intros)

lemma sim_WinningFragment:
  "sim view sound (WinningFragment (mkRepo ops cd) i j) (WinningFragment (mkRepo refOps cd) i j)"
  unfolding WinningFragment_def by (intro base_intros sim_Fragments sim_VoteCount)

lemma sim_resolveSlots:
  "sim view sound (resolveSlots (mkRepo ops cd) i ss) (resolveSlots (mkRepo refOps cd) i ss)"
  unfolding resolveSlots_def by (intro base_intros sim_WinningFragment sim_VoteCount)

lemma sim_batchUnlessEmpty:
  "sim view sound (batchUnlessEmpty (mkRepo ops cd) ws) (batchUnlessEmpty (mkRepo refOps cd) ws)"
  unfolding batchUnlessEmpty_def by (intro base_intros)

lemma sim_resolveTag:
  "sim view sound (resolveTag lower (mkRepo ops cd) i) (resolveTag lower (mkRepo refOps cd) i)"
  unfolding resolveTag_def by (intro base_intros)

lemma sim_fragmentVoteOps:
  "sim view sound (fragmentVoteOps (mkRepo ops cd) f kv ws) (fragmentVoteOps (mkRepo refOps cd) f kv ws)"
  unfolding fragmentVoteOps_def Let_def mkRepo_simps by (intro base_intros)

lemma sim_roundDeletions:
  "sim view sound (roundDeletions (mkRepo ops cd) t ws) (roundDeletions (mkRepo refOps cd) t ws)"
  unfolding roundDeletions_def mkRepo_simps by (intro base_intros)

lemma sim_fragmentDeletions:
  "sim view sound (fragmentDeletions (mkRepo ops cd) i ws) (fragmentDeletions (mkRepo refOps cd) i ws)"
  unfolding fragmentDeletions_def Let_def mkRepo_simps by (intro base_intros)

lemmas part_intros = base_intros sim_getText sim_getRound sim_CurrentRound sim_IsSuperseded sim_getFragment
  sim_Fragments sim_VoteCount sim_openRoundOps sim_openRound sim_addFragment sim_resolveSlot sim_seedSlot
  sim_WinningFragment sim_resolveSlots sim_batchUnlessEmpty sim_resolveTag sim_fragmentVoteOps
  sim_roundDeletions sim_fragmentDeletions

lemma sim_CreateText:
  "sim view sound (CreateText (mkRepo ops cd) a b c d) (CreateText (mkRepo refOps cd) a b c d)"
  unfolding CreateText_def Let_def mkRepo_simps by (intro part_intros)

lemma sim_ScheduleRoundClose:
  "sim view sound (ScheduleRoundClose (mkRepo ops cd) i t u) (ScheduleRoundClose (mkRepo refOps cd) i t u)"
  unfolding ScheduleRoundClose_def Let_def mkRepo_simps by (intro part_intros) (simp add: raise_def)

lemma sim_ProposeEdit:
  "sim view sound (ProposeEdit (mkRepo ops cd) i a b c u) (ProposeEdit (mkRepo refOps cd) i a b c u)"
  unfolding ProposeEdit_def Let_def mkRepo_simps by (intro part_intros) (simp add: raise_def)

lemma sim_CastVote: "sim view sound (CastVote (mkRepo ops cd) i u) (CastVote (mkRepo refOps cd) i u)"
  unfolding CastVote_def Let_def mkRepo_simps by (intro part_intros)

lemma sim_CloseRound: "sim view sound (CloseRound (mkRepo ops cd) i) (CloseRound (mkRepo refOps cd) i)"
  unfolding CloseRound_def Let_def mkRepo_simps by (intro part_intros) (simp add: raise_def)

lemma sim_Subscribe: "sim view sound (Subscribe (mkRepo ops cd) u i) (Subscribe (mkRepo refOps cd) u i)"
  unfolding Subscribe_def Let_def mkRepo_simps by (intro part_intros)

lemma sim_Unsubscribe: "sim view sound (Unsubscribe (mkRepo ops cd) u i) (Unsubscribe (mkRepo refOps cd) u i)"
  unfolding Unsubscribe_def by (intro part_intros)

lemma sim_DeleteText: "sim view sound (DeleteText (mkRepo ops cd) i) (DeleteText (mkRepo refOps cd) i)"
  unfolding DeleteText_def Let_def by (intro part_intros)

lemma sim_DeleteUserTexts:
  "sim view sound (DeleteUserTexts (mkRepo ops cd) u) (DeleteUserTexts (mkRepo refOps cd) u)"
  unfolding DeleteUserTexts_def mkRepo_simps by (intro part_intros)

lemma sim_DeleteUserVotes:
  "sim view sound (DeleteUserVotes (mkRepo ops cd) u) (DeleteUserVotes (mkRepo refOps cd) u)"
  unfolding DeleteUserVotes_def Let_def by (intro part_intros)

lemma sim_DeleteUserFragments:
  "sim view sound (DeleteUserFragments (mkRepo ops cd) u) (DeleteUserFragments (mkRepo refOps cd) u)"
  unfolding DeleteUserFragments_def mkRepo_simps by (intro part_intros)

lemma sim_DeleteUserSubscriptions:
  "sim view sound (DeleteUserSubscriptions (mkRepo ops cd) u) (DeleteUserSubscriptions (mkRepo refOps cd) u)"
  unfolding DeleteUserSubscriptions_def mkRepo_simps by (intro part_intros)

lemma sim_RecentTexts:
  "sim view sound (RecentTexts (mkRepo ops cd) l n) (RecentTexts (mkRepo refOps cd) l n)"
  unfolding RecentTexts_def mkRepo_simps by (intro part_intros)

lemma sim_TextWithSlots:
  "sim view sound (TextWithSlots (mkRepo ops cd) i) (TextWithSlots (mkRepo refOps cd) i)"
  unfolding TextWithSlots_def by (intro part_intros) (simp add: raise_def)

lemma sim_DueScheduledRounds:
  "sim view sound (DueScheduledRounds (mkRepo ops cd) t) (DueScheduledRounds (mkRepo refOps cd) t)"
  unfolding DueScheduledRounds_def mkRepo_simps by (intro part_intros)

lemma sim_RoundCount: "sim view sound (RoundCount (mkRepo ops cd) i) (RoundCount (mkRepo refOps cd) i)"
  unfolding RoundCount_def mkRepo_simps by (intro part_intros)

lemma sim_RoundsForText:
  "sim view sound (RoundsForText (mkRepo ops cd) i) (RoundsForText (mkRepo refOps cd) i)"
  unfolding RoundsForText_def mkRepo_simps by (intro part_intros)

lemma sim_UserVotes: "sim view sound (UserVotes (mkRepo ops cd) i u) (UserVotes (mkRepo refOps cd) i u)"
  unfolding UserVotes_def Let_def mkRepo_simps by (intro part_intros)

lemma sim_chainBack: "sim view sound (chainBack n (mkRepo ops cd) t acc) (chainBack n (mkRepo refOps cd) t acc)"
  by (induction n arbitrary: t acc) (auto intro!: part_intros)

lemma sim_chainForward:
  "sim view sound (chainForward n (mkRepo ops cd) t acc) (chainForward n (mkRepo refOps cd) t acc)"
  by (induction n arbitrary: t acc) (auto intro!: part_intros)

lemma sim_TextChain: "sim view sound (TextChain n (mkRepo ops cd) i) (TextChain n (mkRepo refOps cd) i)"
  unfolding TextChain_def by (intro part_intros sim_chainBack sim_chainForward)

lemma sim_TextsByTags:
  "sim view sound (TextsByTags lower (mkRepo ops cd) ts) (TextsByTags lower (mkRepo refOps cd) ts)"
  unfolding TextsByTags_def mkRepo_simps by (intro part_intros) simp

lemma sim_getTags: "sim view sound (getTags (mkRepo ops cd)) (getTags (mkRepo refOps cd))"
  unfolding getTags_def mkRepo_simps by (intro part_intros)

lemma sim_IsSubscribed:
  "sim view sound (IsSubscribed (mkRepo ops cd) u i) (IsSubscribed (mkRepo refOps cd) u i)"
  unfolding IsSubscribed_def by (intro part_intros)

lemma sim_SubscriptionsForUser:
  "sim view sound (SubscriptionsForUser (mkRepo ops cd) u) (SubscriptionsForUser (mkRepo refOps cd) u)"
  unfolding SubscriptionsForUser_def mkRepo_simps by (intro part_intros)

lemma sim_SubscribersForText:
  "sim view sound (SubscribersForText (mkRepo ops cd) i) (SubscribersForText (mkRepo refOps cd) i)"
  unfolding SubscribersForText_def mkRepo_simps by (intro part_intros)

end

end
