(* ===== verification/WeakestPre.thy ===== *)
theory WeakestPre
  imports RepoSim
begin

text \<open>
  Reasoning about the operations of the repository over the reference store: the weakest
  precondition \<open>wp\<close> of an action for a postcondition on its value and one on its error, with one
  equation per primitive and an invariant rule for loops. Actions that only read are \<open>readOnly\<close>.
\<close>

section \<open>Weakest preconditions\<close>

definition wp :: "('s, 'a) act \<Rightarrow> ('a \<Rightarrow> 's world \<Rightarrow> bool) \<Rightarrow> (repoErr \<Rightarrow> 's world \<Rightarrow> bool) \<Rightarrow> 's world \<Rightarrow> bool" where
  "wp m Q E w = (case m w of (Inl e, w') \<Rightarrow> E e w' | (Inr x, w') \<Rightarrow> Q x w')"

named_theorems wp_simps \<open>equations for the weakest precondition of the primitives\<close>

lemma wp_ret [wp_simps]: "wp (ret x) Q E w = Q x w"
  by (simp add: wp_def ret_def)

lemma wp_ret_fun: "wp (ret x) Q E = Q x"
  by (rule ext) (rule wp_ret)

lemma wp_raise [wp_simps]: "wp (raise e) Q E w = E e w"
  by (simp add: wp_def raise_def)

lemma wp_bind [wp_simps]: "wp (bindE m f) Q E w = wp m (\<lambda>x. wp (f x) Q E) E w"
  by (auto simp: wp_def bindE_def split: sum.splits prod.splits)

lemma wp_bind_fun: "wp (bindE m f) Q E = wp m (\<lambda>x. wp (f x) Q E) E"
  by (rule ext) (rule wp_bind)

lemma wp_catch [wp_simps]: "wp (catchE m h) Q E w = wp m Q (\<lambda>e. wp (h e) Q E) w"
  by (auto simp: wp_def catchE_def split: sum.splits prod.splits)

lemma wp_orRaise [wp_simps]:
  "wp (orRaise e r) Q E w = (case r of None \<Rightarrow> E e w | Some x \<Rightarrow> Q x w)"
  by (simp add: orRaise_def wp_simps split: option.splits)

lemma wp_if [wp_simps]: "wp (if c then a else b) Q E w = (if c then wp a Q E w else wp b Q E w)"
  by simp

lemma wp_option [wp_simps]:
  "wp (case x of None \<Rightarrow> a | Some y \<Rightarrow> b y) Q E w = (case x of None \<Rightarrow> wp a Q E w | Some y \<Rightarrow> wp (b y) Q E w)"
  by (cases x) auto

lemma wp_prod [wp_simps]: "wp (case x of (y, z) \<Rightarrow> a y z) Q E w = (case x of (y, z) \<Rightarrow> wp (a y z) Q E w)"
  by (cases x) auto

lemma wp_list [wp_simps]:
  "wp (case x of [] \<Rightarrow> a | y # ys \<Rightarrow> b y ys) Q E w = (case x of [] \<Rightarrow> wp a Q E w | y # ys \<Rightarrow> wp (b y ys) Q E w)"
  by (cases x) auto

lemma wp_newID [wp_simps]:
  "wp newID Q E w = (case ids w of [] \<Rightarrow> E ErrRand w | i # rest \<Rightarrow> Q i (w\<lparr>ids := rest\<rparr>))"
  by (simp add: wp_def newID_def split: list.splits)

lemma wp_timeNow [wp_simps]: "wp timeNow Q E w = Q (clock w (ticks w)) (w\<lparr>ticks := ticks w + 1\<rparr>)"
  by (simp add: wp_def timeNow_def)

text \<open>The repository over the reference store, and what its store holds.\<close>

abbreviation refRepo :: "'v codec \<Rightarrow> ('v kvs, 'v) repository" where
  "refRepo cd \<equiv> mkRepo refOps cd"

definition db :: "'v kvs world \<Rightarrow> bytes \<Rightarrow> 'v option" where
  "db w = map_of (st w)"

definition scanned :: "bytes \<Rightarrow> 'v kvs world \<Rightarrow> (bytes \<times> 'v) list" where
  "scanned p w = filter (\<lambda>x. HasPrefix (fst x) p) (st w)"

definition wrote :: "'v wop list \<Rightarrow> 'v kvs world \<Rightarrow> 'v kvs world" where
  "wrote ws w = w\<lparr>st := foldl refWop (st w) ws\<rparr>"

lemma wp_storeGet [wp_simps]: "wp (storeGet (refRepo cd) k) Q E w = Q (db w k) w"
  by (simp add: wp_def storeGet_def refOps_def db_def)

lemma wp_storeScan [wp_simps]: "wp (storeScan (refRepo cd) p) Q E w = Q (scanned p w) w"
  by (simp add: wp_def storeScan_def refOps_def scanned_def)

lemma wp_storeBatch [wp_simps]: "wp (storeBatch (refRepo cd) ws) Q E w = Q () (wrote ws w)"
  by (simp add: wp_def storeBatch_def refOps_def wrote_def)

lemma wp_storePut [wp_simps]: "wp (storePut (refRepo cd) k v) Q E w = Q () (wrote [PutOp k v] w)"
  by (simp add: wp_def storePut_def refOps_def wrote_def)

lemma wp_batchUnlessEmpty [wp_simps]: "wp (batchUnlessEmpty (refRepo cd) ws) Q E w = Q () (wrote ws w)"
  by (simp add: batchUnlessEmpty_def wp_simps) (simp add: wrote_def)

lemma wp_mono:
  assumes "wp m Q E w" and "\<And>x w'. Q x w' \<Longrightarrow> Q' x w'" and "\<And>e w'. E e w' \<Longrightarrow> E' e w'"
  shows "wp m Q' E' w"
  using assms by (auto simp: wp_def split: sum.splits prod.splits)

lemma wp_value: "wp m Q E w \<Longrightarrow> m w = (Inr x, w') \<Longrightarrow> Q x w'"
  by (simp add: wp_def)

lemma wp_error: "wp m Q E w \<Longrightarrow> m w = (Inl e, w') \<Longrightarrow> E e w'"
  by (simp add: wp_def)

lemma wp_conj:
  assumes "wp m Q E w" and "wp m Q' E' w"
  shows "wp m (\<lambda>x w'. Q x w' \<and> Q' x w') (\<lambda>e w'. E e w' \<and> E' e w') w"
  using assms by (auto simp: wp_def split: sum.splits prod.splits)

text \<open>The rule for loops: \<open>I\<close> speaks of the elements still to come.\<close>

lemma wp_fold:
  assumes "I xs b w"
    and "\<And>x xs b w. I (x # xs) b w \<Longrightarrow> wp (f x b) (\<lambda>b'. I xs b') E w"
    and "\<And>b w. I [] b w \<Longrightarrow> Q b w"
  shows "wp (foldE f xs b) Q E w"
  using assms(1)
proof (induction xs arbitrary: b w)
  case Nil
  then show ?case using assms(3) by (simp add: wp_simps)
next
  case (Cons x xs)
  have "wp (f x b) (\<lambda>b'. wp (foldE f xs b') Q E) E w"
    using assms(2) [OF Cons.prems] by (rule wp_mono) (auto intro: Cons.IH)
  then show ?case by (simp add: wp_simps)
qed

section \<open>What a batch leaves\<close>

lemma db_simps [simp]:
  "db (w\<lparr>ids := i\<rparr>) = db w" "db (w\<lparr>ticks := n\<rparr>) = db w" "ids (wrote ws w) = ids w"
  "clock (wrote ws w) = clock w" "ticks (wrote ws w) = ticks w"
  "scanned p (w\<lparr>ids := i\<rparr>) = scanned p w" "scanned p (w\<lparr>ticks := n\<rparr>) = scanned p w"
  by (simp_all add: db_def wrote_def scanned_def)

lemma wrote_simps [simp]:
  "wrote ws (w\<lparr>ticks := n\<rparr>) = (wrote ws w)\<lparr>ticks := n\<rparr>" "wrote ws (w\<lparr>ids := i\<rparr>) = (wrote ws w)\<lparr>ids := i\<rparr>"
  by (simp_all add: wrote_def)

lemma db_wrote: "refInv (st w) \<Longrightarrow> db (wrote ws w) = foldl wopMap (db w) ws"
  using refWops_ok [of "st w" ws] by (simp add: db_def wrote_def)

lemma refInv_wrote: "refInv (st w) \<Longrightarrow> refInv (st (wrote ws w))"
  using refWops_ok [of "st w" ws] by (simp add: wrote_def)

lemma scanned_iff: "refInv (st w) \<Longrightarrow> (k, v) \<in> set (scanned p w) \<longleftrightarrow> db w k = Some v \<and> HasPrefix k p"
  using refInv_distinct [of "st w"] by (auto simp: scanned_def db_def)

lemma scanned_keys_distinct: "refInv (st w) \<Longrightarrow> distinct (map fst (scanned p w))"
  using refInv_filter refInv_distinct unfolding scanned_def by metis

lemma foldl_wopMap_other: "k \<notin> opKey ` set ws \<Longrightarrow> foldl wopMap m ws k = m k"
proof (induction ws arbitrary: m)
  case (Cons w ws)
  then have "wopMap m w k = m k" by (cases w) auto
  then show ?case using Cons by simp
qed simp

text \<open>A batch of deletions removes its keys and nothing else.\<close>

definition isDel :: "'v wop \<Rightarrow> bool" where
  "isDel w = (case w of PutOp k v \<Rightarrow> False | DelOp k \<Rightarrow> True)"

lemma isDel_simps [simp]: "isDel (DelOp k)" "\<not> isDel (PutOp k v)"
  by (simp_all add: isDel_def)

lemma foldl_wopMap_dels:
  "list_all isDel ws \<Longrightarrow> foldl wopMap m ws k = (if k \<in> opKey ` set ws then None else m k)"
proof (induction ws arbitrary: m)
  case (Cons w ws)
  then obtain j where "w = DelOp j" by (cases w) auto
  then show ?case using Cons by auto
qed simp

section \<open>Actions that only read\<close>

definition readOnly :: "('s, 'a) act \<Rightarrow> bool" where
  "readOnly m \<longleftrightarrow> (\<forall>w. snd (m w) = w)"

named_theorems read_intros \<open>rules that show an action to be read-only\<close>

lemma readOnly_ret [read_intros]: "readOnly (ret x)"
  by (simp add: readOnly_def ret_def)

lemma readOnly_raise [read_intros]: "readOnly (raise e)"
  by (simp add: readOnly_def raise_def)

lemma readOnly_bind [read_intros]: "readOnly m \<Longrightarrow> (\<And>x. readOnly (f x)) \<Longrightarrow> readOnly (bindE m f)"
  unfolding readOnly_def bindE_def by (auto split: sum.splits prod.splits) (metis snd_conv)+

lemma readOnly_catch [read_intros]: "readOnly m \<Longrightarrow> (\<And>e. readOnly (h e)) \<Longrightarrow> readOnly (catchE m h)"
  unfolding readOnly_def catchE_def by (auto split: sum.splits prod.splits) (metis snd_conv)+

lemma readOnly_orRaise [read_intros]: "readOnly (orRaise e r)"
  by (cases r) (auto simp: orRaise_def intro: read_intros)

lemma readOnly_fold [read_intros]: "(\<And>x b. readOnly (f x b)) \<Longrightarrow> readOnly (foldE f xs b)"
  by (induction xs arbitrary: b) (auto intro: read_intros)

lemma readOnly_if [read_intros]: "readOnly a \<Longrightarrow> readOnly b \<Longrightarrow> readOnly (if c then a else b)"
  by simp

lemma readOnly_option [read_intros]:
  "readOnly a \<Longrightarrow> (\<And>y. readOnly (b y)) \<Longrightarrow> readOnly (case x of None \<Rightarrow> a | Some y \<Rightarrow> b y)"
  by (cases x) auto

lemma readOnly_prod [read_intros]: "(\<And>y z. readOnly (a y z)) \<Longrightarrow> readOnly (case x of (y, z) \<Rightarrow> a y z)"
  by (cases x) auto

lemma readOnly_prod_app [read_intros]:
  "(\<And>y z. readOnly (a y z b)) \<Longrightarrow> readOnly ((case x of (y, z) \<Rightarrow> a y z) b)"
  by (cases x) auto

lemma readOnly_list [read_intros]:
  "readOnly a \<Longrightarrow> (\<And>y ys. readOnly (b y ys)) \<Longrightarrow> readOnly (case x of [] \<Rightarrow> a | y # ys \<Rightarrow> b y ys)"
  by (cases x) auto

lemma readOnly_storeGet [read_intros]: "readOnly (storeGet (refRepo cd) k)"
  by (simp add: readOnly_def storeGet_def refOps_def)

lemma readOnly_storeScan [read_intros]: "readOnly (storeScan (refRepo cd) p)"
  by (simp add: readOnly_def storeScan_def refOps_def)

lemma wp_readOnly: "readOnly m \<Longrightarrow> Q w \<Longrightarrow> wp m (\<lambda>_. Q) (\<lambda>_. Q) w"
  unfolding readOnly_def wp_def by (auto split: sum.splits prod.splits) (metis snd_conv)+

lemma wp_readOnlyI: "readOnly m \<Longrightarrow> (\<And>x. Q x w) \<Longrightarrow> (\<And>e. E e w) \<Longrightarrow> wp m Q E w"
  unfolding readOnly_def wp_def by (auto split: sum.splits prod.splits) (metis snd_conv)+

lemma readOnly_getText [read_intros]: "readOnly (getText (refRepo cd) i)"
  unfolding getText_def by (intro read_intros)

lemma readOnly_getRound [read_intros]: "readOnly (getRound (refRepo cd) i)"
  unfolding getRound_def by (intro read_intros)

lemma readOnly_CurrentRound [read_intros]: "readOnly (CurrentRound (refRepo cd) i)"
  unfolding CurrentRound_def by (intro read_intros)

lemma readOnly_IsSuperseded [read_intros]: "readOnly (IsSuperseded (refRepo cd) i)"
  unfolding IsSuperseded_def by (intro read_intros)

lemma readOnly_RoundCount [read_intros]: "readOnly (RoundCount (refRepo cd) i)"
  unfolding RoundCount_def by (intro read_intros)

lemma readOnly_getFragment [read_intros]: "readOnly (getFragment (refRepo cd) i)"
  unfolding getFragment_def by (intro read_intros)

lemma readOnly_Fragments [read_intros]: "readOnly (Fragments (refRepo cd) i j)"
  unfolding Fragments_def by (intro read_intros)

lemma readOnly_VoteCount [read_intros]: "readOnly (VoteCount (refRepo cd) i)"
  unfolding VoteCount_def by (intro read_intros)

lemma readOnly_DueScheduledRounds [read_intros]: "readOnly (DueScheduledRounds (refRepo cd) t)"
  unfolding DueScheduledRounds_def by (intro read_intros)

lemma readOnly_RecentTexts [read_intros]: "readOnly (RecentTexts (refRepo cd) l n)"
  unfolding RecentTexts_def by (intro read_intros)

lemma readOnly_TextWithSlots [read_intros]: "readOnly (TextWithSlots (refRepo cd) i)"
  unfolding TextWithSlots_def by (intro read_intros)

lemma readOnly_UserVotes [read_intros]: "readOnly (UserVotes (refRepo cd) i u)"
  unfolding UserVotes_def Let_def by (intro read_intros)

lemma readOnly_RoundsForText [read_intros]: "readOnly (RoundsForText (refRepo cd) i)"
  unfolding RoundsForText_def by (intro read_intros)

lemma readOnly_chains:
  "readOnly (chainBack n (refRepo cd) t acc)" "readOnly (chainForward n (refRepo cd) t acc)"
  by (induction n arbitrary: t acc) (auto intro!: read_intros)

lemma readOnly_TextChain [read_intros]: "readOnly (TextChain n (refRepo cd) i)"
  unfolding TextChain_def by (intro read_intros readOnly_chains)

lemma readOnly_IsSubscribed [read_intros]: "readOnly (IsSubscribed (refRepo cd) u i)"
  unfolding IsSubscribed_def by (intro read_intros)

lemma readOnly_SubscriptionsForUser [read_intros]: "readOnly (SubscriptionsForUser (refRepo cd) u)"
  unfolding SubscriptionsForUser_def by (intro read_intros)

lemma readOnly_SubscribersForText [read_intros]: "readOnly (SubscribersForText (refRepo cd) i)"
  unfolding SubscribersForText_def by (intro read_intros)

lemma readOnly_resolveTag [read_intros]: "readOnly (resolveTag lower (refRepo cd) i)"
  unfolding resolveTag_def by (intro read_intros)

lemma readOnly_TextsByTags [read_intros]: "readOnly (TextsByTags lower (refRepo cd) ts)"
  unfolding TextsByTags_def by (intro read_intros)

lemma readOnly_getTags [read_intros]: "readOnly (getTags (refRepo cd))"
  unfolding getTags_def by (intro read_intros)

lemma readOnly_WinningFragment [read_intros]: "readOnly (WinningFragment (refRepo cd) i j)"
  unfolding WinningFragment_def by (intro read_intros)

lemma readOnly_resolveSlots [read_intros]: "readOnly (resolveSlots (refRepo cd) i ss)"
  unfolding resolveSlots_def by (intro read_intros)

end
