(* ===== verification/Splice.thy ===== *)
theory Splice
  imports Repository "HOL-Library.Product_Lexorder"
begin

text \<open>
  What closing a round computes: the content with the winning fragments spliced in
  (\<open>spliceContent\<close>) and the winner of a slot (\<open>isBetter\<close> and the loop of \<open>WinningFragment\<close>), in
  \<open>src/api/queel/repository.go\<close>. The specification of the splice says position by position what
  the result holds, without an order of slots.
\<close>

section \<open>Slots\<close>

text \<open>The slots of a round: each a non-empty range of the content, no two sharing a rune, and no
  identifier used twice.\<close>

definition disjointSlots :: "Slot \<Rightarrow> Slot \<Rightarrow> bool" where
  "disjointSlots a b \<longleftrightarrow> slot_end a \<le> slot_start b \<or> slot_end b \<le> slot_start a"

definition slotIn :: "int \<Rightarrow> Slot \<Rightarrow> bool" where
  "slotIn n s \<longleftrightarrow> 0 \<le> slot_start s \<and> slot_start s < slot_end s \<and> slot_end s \<le> n"

definition slotsOk :: "int \<Rightarrow> Slot list \<Rightarrow> bool" where
  "slotsOk n slots \<longleftrightarrow> list_all (slotIn n) slots \<and> pairwise disjointSlots (set slots)
     \<and> distinct (map slot_id slots)"

text \<open>What stands at position \<open>i\<close> of the old content in the new one: the winner at the start of a
  slot, nothing inside of it, and everywhere else the old rune.\<close>

definition pieceAt :: "rune list \<Rightarrow> Slot list \<Rightarrow> (string \<Rightarrow> string) \<Rightarrow> nat \<Rightarrow> string" where
  "pieceAt runes slots repl i =
     (case find (\<lambda>s. slot_start s = int i) slots of
        Some s \<Rightarrow> repl (slot_id s)
      | None \<Rightarrow> if \<exists>s \<in> set slots. slot_start s < int i \<and> int i < slot_end s then [] else encodeRune (runes ! i))"

definition spliceSpec :: "rune list \<Rightarrow> Slot list \<Rightarrow> (string \<Rightarrow> string) \<Rightarrow> string" where
  "spliceSpec runes slots repl = concat (map (pieceAt runes slots repl) [0..<length runes])"

lemma pieceAt_start:
  assumes "slotsOk n slots" and "s \<in> set slots" and "slot_start s = int i"
  shows "pieceAt runes slots repl i = repl (slot_id s)"
proof -
  obtain s' where s': "find (\<lambda>s. slot_start s = int i) slots = Some s'"
    using assms(2,3) by (cases "find (\<lambda>s. slot_start s = int i) slots") (auto simp: find_None_iff)
  then have "s' \<in> set slots" "slot_start s' = int i" by (auto simp: find_Some_iff)
  then have "s' = s"
    using assms by (force simp: slotsOk_def pairwise_def disjointSlots_def slotIn_def list_all_iff)
  then show ?thesis using s' by (simp add: pieceAt_def)
qed

lemma pieceAt_inside:
  assumes "slotsOk n slots" and "s \<in> set slots" and "slot_start s < int i" and "int i < slot_end s"
  shows "pieceAt runes slots repl i = []"
proof -
  have "slot_start s' \<noteq> int i" if "s' \<in> set slots" for s'
    using assms that by (force simp: slotsOk_def pairwise_def disjointSlots_def slotIn_def list_all_iff)
  then have "find (\<lambda>s. slot_start s = int i) slots = None" by (auto simp: find_None_iff)
  then show ?thesis using assms by (auto simp: pieceAt_def)
qed

lemma pieceAt_outside:
  assumes "\<And>s. s \<in> set slots \<Longrightarrow> slot_start s \<le> int i \<Longrightarrow> slot_end s \<le> int i"
    and "\<forall>s \<in> set slots. slot_start s < slot_end s"
  shows "pieceAt runes slots repl i = encodeRune (runes ! i)"
proof -
  have "slot_start s \<noteq> int i" if "s \<in> set slots" for s using assms that by force
  then have "find (\<lambda>s. slot_start s = int i) slots = None" by (auto simp: find_None_iff)
  then show ?thesis using assms(1) by (fastforce simp: pieceAt_def)
qed

lemma concat_map_runes: "(\<And>i. i \<in> set js \<Longrightarrow> f i = encodeRune (g i)) \<Longrightarrow> concat (map f js) = stringOf (map g js)"
  by (induction js) auto

lemma concat_map_empty: "(\<And>i. i \<in> set js \<Longrightarrow> f i = []) \<Longrightarrow> concat (map f js) = []"
  by simp

lemma map_nth_upt: "a \<le> b \<Longrightarrow> b \<le> length xs \<Longrightarrow> map ((!) xs) [a..<b] = take (b - a) (drop a xs)"
  by (rule nth_equalityI) auto

lemma upt_split: "a \<le> b \<Longrightarrow> b \<le> c \<Longrightarrow> [a..<c] = [a..<b] @ [b..<c]"
  by (metis le_add_diff_inverse upt_add_eq_append)

text \<open>The walk over the slots from \<open>cursor\<close> on, given that no slot of the rest starts before it and
  that the slots done end before it.\<close>

lemma spliceLoop_spec:
  assumes ok: "slotsOk (int (length runes)) slots" and sub: "set rest \<subseteq> set slots"
    and sorted: "sorted (map slot_start rest)" and dist: "distinct rest"
    and cursor: "cursor \<le> length runes" "\<forall>s \<in> set rest. int cursor \<le> slot_start s"
    and finished: "\<forall>s \<in> set slots - set rest. slot_end s \<le> int cursor"
    and winners: "\<forall>s \<in> set slots. \<exists>f. map_of winners (slot_id s) = Some f \<and> fragment_content f = repl (slot_id s)"
  shows "spliceLoop runes rest winners (int cursor) b =
    Some (b @ concat (map (pieceAt runes slots repl) [cursor..<length runes]))"
  using sub sorted dist cursor finished
proof (induction rest arbitrary: cursor b)
  case Nil
  have "pieceAt runes slots repl i = encodeRune (runes ! i)" if "i \<in> set [cursor..<length runes]" for i
    using that Nil ok by (intro pieceAt_outside) (force simp: slotsOk_def slotIn_def list_all_iff)+
  then have "concat (map (pieceAt runes slots repl) [cursor..<length runes]) = stringOf (map ((!) runes) [cursor..<length runes])"
    by (rule concat_map_runes)
  also have "\<dots> = stringOf (drop cursor runes)" using Nil by (simp add: map_nth_upt)
  finally show ?case using Nil by simp
next
  case (Cons s rest)
  let ?p = "pieceAt runes slots repl" and ?n = "length runes"
  define a e where ae: "a = nat (slot_start s)" "e = nat (slot_end s)"
  have s: "s \<in> set slots" "slotIn (int ?n) s" using Cons.prems ok by (auto simp: slotsOk_def list_all_iff)
  have bounds: "cursor \<le> a" "a < e" "e \<le> ?n" "slot_start s = int a" "slot_end s = int e"
    using s Cons.prems by (auto simp: ae slotIn_def)
  have disj: "slot_end s \<le> slot_start x" if "x \<in> set rest" for x
  proof -
    have "slot_start s \<le> slot_start x" "x \<noteq> s" "x \<in> set slots" using Cons.prems that by auto
    then show ?thesis using ok s by (force simp: slotsOk_def pairwise_def disjointSlots_def slotIn_def list_all_iff)
  qed
  obtain f where f: "map_of winners (slot_id s) = Some f" "fragment_content f = repl (slot_id s)"
    using winners s by blast
  have before: "?p i = encodeRune (runes ! i)" if "i \<in> set [cursor..<a]" for i
  proof (rule pieceAt_outside)
    fix x assume x: "x \<in> set slots" "slot_start x \<le> int i"
    have "x \<noteq> s" "x \<notin> set rest" using x that bounds disj by fastforce+
    then have "x \<in> set slots - set (s # rest)" using x(1) by simp
    then have "slot_end x \<le> int cursor" using Cons.prems(6) by blast
    then show "slot_end x \<le> int i" using that by simp
  qed (use ok in \<open>auto simp: slotsOk_def slotIn_def list_all_iff\<close>)
  have at: "?p a = repl (slot_id s)" using pieceAt_start [OF ok s(1) bounds(4)] .
  have inside: "?p i = []" if "i \<in> set [Suc a..<e]" for i
    using pieceAt_inside [OF ok s(1)] that bounds by auto
  have "[cursor..<?n] = [cursor..<a] @ [a..<?n]" "[a..<?n] = [a..<e] @ [e..<?n]" "[a..<e] = a # [Suc a..<e]"
    using bounds upt_split [of cursor a ?n] upt_split [of a e ?n] by (simp_all add: upt_conv_Cons)
  then have "[cursor..<?n] = [cursor..<a] @ a # [Suc a..<e] @ [e..<?n]" by simp
  then have "concat (map ?p [cursor..<?n]) =
      concat (map ?p [cursor..<a]) @ repl (slot_id s) @ concat (map ?p [Suc a..<e]) @ concat (map ?p [e..<?n])"
    using at by simp
  also have "concat (map ?p [cursor..<a]) = stringOf (take (a - cursor) (drop cursor runes))"
    using concat_map_runes [of "[cursor..<a]" ?p, OF before] bounds by (simp add: map_nth_upt)
  also have "concat (map ?p [Suc a..<e]) = []" using inside by (rule concat_map_empty)
  finally have split: "concat (map ?p [cursor..<?n]) =
      stringOf (take (a - cursor) (drop cursor runes)) @ repl (slot_id s) @ concat (map ?p [e..<?n])" by simp
  have IH: "spliceLoop runes rest winners (int e) b' = Some (b' @ concat (map ?p [e..<?n]))" for b'
  proof (rule Cons.IH)
    show "\<forall>x \<in> set slots - set rest. slot_end x \<le> int e"
    proof
      fix x assume "x \<in> set slots - set rest"
      show "slot_end x \<le> int e"
      proof (cases "x = s")
        case False
        then have "slot_end x \<le> int cursor" using Cons.prems(6) \<open>x \<in> set slots - set rest\<close> by auto
        then show ?thesis using bounds by simp
      qed (use bounds in simp)
    qed
  qed (use Cons.prems bounds disj in auto)
  have "nat (slot_start s - int cursor) = a - cursor" using bounds by simp
  then show ?case using bounds f IH by (simp add: split)
qed

lemma spliceContent_ok:
  assumes "slotsOk (int (length (runesOf content))) slots"
    and "\<forall>s \<in> set slots. \<exists>f. map_of winners (slot_id s) = Some f \<and> fragment_content f = repl (slot_id s)"
  shows "spliceContent content slots winners = Some (spliceSpec (runesOf content) slots repl)"
proof -
  have "distinct slots" using assms(1) by (simp add: slotsOk_def distinct_map)
  moreover have "\<forall>s \<in> set slots. 0 \<le> slot_start s"
    using assms(1) by (auto simp: slotsOk_def slotIn_def list_all_iff)
  ultimately show ?thesis
    unfolding spliceContent_def spliceSpec_def
    using spliceLoop_spec [OF assms(1), of "sort_key slot_start slots" 0 winners repl "[]"] assms(2) by simp
qed

section \<open>The winner of a slot\<close>

text \<open>The order is lexicographic: more votes, then the earlier, then the smaller identifier.\<close>

definition rank :: "scoredFragment \<Rightarrow> int \<times> time \<times> string" where
  "rank a = (- snd a, fragment_createdAt (fst a), fragment_id (fst a))"

lemma isBetter_rank: "isBetter a b \<longleftrightarrow> rank a < rank b"
  by (auto simp: isBetter_def rank_def)

text \<open>The loop of \<open>WinningFragment\<close> without its reads.\<close>

definition bestOf :: "scoredFragment \<Rightarrow> scoredFragment list \<Rightarrow> scoredFragment" where
  "bestOf first rest = foldl (\<lambda>best c. if isBetter c best then c else best) first rest"

lemma bestOf_max: "bestOf a cs \<in> set (a # cs) \<and> (\<forall>c \<in> set (a # cs). rank (bestOf a cs) \<le> rank c)"
proof (induction cs arbitrary: a)
  case (Cons c cs)
  let ?a = "if isBetter c a then c else a"
  have eq: "bestOf a (c # cs) = bestOf ?a cs" by (simp add: bestOf_def)
  have "rank ?a \<le> rank a" "rank ?a \<le> rank c" by (auto simp: isBetter_rank)
  moreover have "rank (bestOf ?a cs) \<le> rank ?a" using Cons.IH [of ?a] by simp
  ultimately show ?case unfolding eq using Cons.IH [of ?a] by (auto split: if_splits)
qed (simp add: bestOf_def)

lemma rank_inj: "rank a = rank b \<Longrightarrow> fragment_id (fst a) = fragment_id (fst b)"
  by (simp add: rank_def)

end
