(* ===== verification/Voting.thy ===== *)
theory Voting
  imports WeakestPre Splice
begin

text \<open>
  The invariant of the voting domain over its store: what the records under each kind of key are
  and how they refer to each other. A database is cut into one family of bindings per kind of key;
  the invariant speaks of the families, and every operation of the repository keeps it, also when
  it stops with an error.
\<close>

section \<open>Families of keys\<close>

definition plainID :: "string \<Rightarrow> bool" where
  "plainID s \<longleftrightarrow> CHR ''/'' \<notin> set s"

text \<open>Two parts of a key with a slash between them.\<close>

definition joined :: "string \<Rightarrow> string \<Rightarrow> string" where
  "joined p x = p @ CHR ''/'' # x"

lemma joined_inj: "plainID a \<Longrightarrow> plainID b \<Longrightarrow> joined a x = joined b y \<longleftrightarrow> a = b \<and> x = y"
  unfolding joined_def by (metis Cut_append plainID_def option.inject prod.inject)

lemma joined_inj2 [simp]: "joined a x = joined a y \<longleftrightarrow> x = y"
  by (simp add: joined_def)

definition fam :: "string \<Rightarrow> (bytes \<Rightarrow> 'v option) \<Rightarrow> string \<Rightarrow> 'v option" where
  "fam p m = (\<lambda>x. m (joined p x))"

definition space :: "bytes \<Rightarrow> string" where
  "space k = takeWhile (\<lambda>c. c \<noteq> CHR ''/'') k"

lemma space_joined [simp]: "plainID p \<Longrightarrow> space (joined p x) = p"
  by (auto simp: space_def plainID_def joined_def takeWhile_tail)

lemma fam_upd:
  "plainID p \<Longrightarrow> plainID q \<Longrightarrow> fam p (m(joined q x := v)) = (if p = q then (fam p m)(x := v) else fam p m)"
  by (auto simp: fam_def fun_eq_iff joined_inj)

lemma fam_upd_other: "plainID p \<Longrightarrow> space k \<noteq> p \<Longrightarrow> fam p (m(k := v)) = fam p m"
  by (auto simp: fam_def fun_eq_iff)

lemma fam_other:
  "plainID p \<Longrightarrow> \<forall>w \<in> set ws. space (opKey w) \<noteq> p \<Longrightarrow> fam p (foldl wopMap m ws) = fam p m"
proof (induction ws arbitrary: m)
  case (Cons w ws)
  then have "fam p (wopMap m w) = fam p m" by (cases w) (simp_all add: fam_upd_other)
  then show ?case using Cons by simp
qed simp

lemma fam_append_other:
  "plainID p \<Longrightarrow> \<forall>w \<in> set vs. space (opKey w) \<noteq> p \<Longrightarrow> fam p (foldl wopMap m (ws @ vs)) = fam p (foldl wopMap m ws)"
  by (simp add: fam_other)

lemma key_forms:
  "textKey t = joined ''text'' t" "roundKey r = joined ''round'' r"
  "currentRoundKey t = joined ''currentround'' t" "roundCountKey t = joined ''roundcount'' t"
  "supersededByKey t = joined ''supersededby'' t" "fragmentKey f = joined ''fragment'' f"
  "fragmentIndexKey t s f = joined ''fragmentindex'' (joined t (joined s f))"
  "subscriptionKey t u = joined ''subscription'' (joined t u)"
  "subscriptionIndexKey u t = joined ''subscriptionindex'' (joined u t)"
  "voteKey f u = joined ''vote'' (joined f u)"
  "roundIndexKey t r = joined ''roundindex'' (joined t r)"
  "tagIndexKey g t = joined ''tagindex'' (joined g t)"
  "userChoiceKey t s u = joined ''uservote'' (joined t (joined s u))"
  by (simp_all add: key_defs joined_def)

lemma plain_spaces [simp]:
  "plainID ''text''" "plainID ''round''" "plainID ''currentround''" "plainID ''roundcount''" "plainID ''supersededby''"
  "plainID ''fragment''" "plainID ''fragmentindex''" "plainID ''subscription''" "plainID ''subscriptionindex''"
  "plainID ''vote''" "plainID ''roundindex''" "plainID ''tagindex''" "plainID ''uservote''"
  by (simp_all add: plainID_def)

lemma space_keys [simp]:
  "space (textKey t) = ''text''" "space (roundKey r) = ''round''" "space (currentRoundKey t) = ''currentround''"
  "space (roundCountKey t) = ''roundcount''" "space (supersededByKey t) = ''supersededby''"
  "space (fragmentKey f) = ''fragment''" "space (fragmentIndexKey t s f) = ''fragmentindex''"
  "space (subscriptionKey t u) = ''subscription''" "space (subscriptionIndexKey u t) = ''subscriptionindex''"
  "space (voteKey f u) = ''vote''" "space (roundIndexKey t r) = ''roundindex''"
  "space (tagIndexKey g t) = ''tagindex''" "space (userChoiceKey t s u) = ''uservote''"
  unfolding key_forms by simp_all

named_theorems fam_simps \<open>what an update of one key does to the families\<close>

lemma fam_keys [fam_simps]:
  assumes "plainID p"
  shows "fam p (m(textKey t := v)) = (if p = ''text'' then (fam p m)(t := v) else fam p m)"
    "fam p (m(roundKey r := v)) = (if p = ''round'' then (fam p m)(r := v) else fam p m)"
    "fam p (m(currentRoundKey t := v)) = (if p = ''currentround'' then (fam p m)(t := v) else fam p m)"
    "fam p (m(fragmentKey f := v)) = (if p = ''fragment'' then (fam p m)(f := v) else fam p m)"
    "fam p (m(fragmentIndexKey t s f := v)) =
      (if p = ''fragmentindex'' then (fam p m)(joined t (joined s f) := v) else fam p m)"
    "fam p (m(voteKey f u := v)) = (if p = ''vote'' then (fam p m)(joined f u := v) else fam p m)"
    "fam p (m(userChoiceKey t s u := v)) =
      (if p = ''uservote'' then (fam p m)(joined t (joined s u) := v) else fam p m)"
  using assms unfolding key_forms by (simp_all add: fam_upd)

lemma fam_get:
  "m (textKey t) = fam ''text'' m t" "m (roundKey r) = fam ''round'' m r"
  "m (currentRoundKey t) = fam ''currentround'' m t" "m (fragmentKey f) = fam ''fragment'' m f"
  "m (voteKey f u) = fam ''vote'' m (joined f u)"
  "m (userChoiceKey t s u) = fam ''uservote'' m (joined t (joined s u))"
  "m (fragmentIndexKey t s f) = fam ''fragmentindex'' m (joined t (joined s f))"
  by (simp_all add: fam_def key_forms)

lemma codec_eqs:
  assumes "codecOk cd"
  shows "decText cd (encText cd t) = Some t" "decRound cd (encRound cd r) = Some r"
    "decFragment cd (encFragment cd f) = Some f" "decVote cd (encVote cd v) = Some v" "decRaw cd (encRaw cd x) = x"
  using assms by (simp_all add: codecOk_def)

section \<open>The invariant\<close>

text \<open>A text is stored under its identifier. A round's slots fit the content of its text, when that
  still exists. A text's current round is a round of that text.\<close>

definition textsOk :: "'v codec \<Rightarrow> (string \<Rightarrow> 'v option) \<Rightarrow> bool" where
  "textsOk cd T \<longleftrightarrow> (\<forall>t v. T t = Some v \<longrightarrow> (\<exists>x. decText cd v = Some x \<and> text_id x = t \<and> plainID t))"

definition roundOk :: "'v codec \<Rightarrow> (string \<Rightarrow> 'v option) \<Rightarrow> string \<Rightarrow> Round \<Rightarrow> bool" where
  "roundOk cd T r x \<longleftrightarrow> round_id x = r \<and> (\<forall>s \<in> set (round_slots x). plainID (slot_id s))
     \<and> (\<forall>v t. T (round_textID x) = Some v \<longrightarrow> decText cd v = Some t \<longrightarrow>
          slotsOk (int (length (runesOf (text_content t)))) (round_slots x))"

definition roundsOk :: "'v codec \<Rightarrow> (string \<Rightarrow> 'v option) \<Rightarrow> (string \<Rightarrow> 'v option) \<Rightarrow> bool" where
  "roundsOk cd T R \<longleftrightarrow> (\<forall>r v. R r = Some v \<longrightarrow> (\<exists>x. decRound cd v = Some x \<and> roundOk cd T r x))"

definition currentOk :: "'v codec \<Rightarrow> (string \<Rightarrow> 'v option) \<Rightarrow> (string \<Rightarrow> 'v option) \<Rightarrow> bool" where
  "currentOk cd R C \<longleftrightarrow> (\<forall>t c v x. C t = Some c \<longrightarrow> R (decRaw cd c) = Some v \<longrightarrow> decRound cd v = Some x \<longrightarrow>
     round_textID x = t)"

text \<open>A fragment is stored under its identifier and indexed under its text and slot, and only there.\<close>

definition fragAt :: "'v codec \<Rightarrow> (string \<Rightarrow> 'v option) \<Rightarrow> string \<Rightarrow> Fragment option" where
  "fragAt cd F f = Option.bind (F f) (decFragment cd)"

definition fragsOk :: "'v codec \<Rightarrow> (string \<Rightarrow> 'v option) \<Rightarrow> bool" where
  "fragsOk cd F \<longleftrightarrow> (\<forall>f v. F f = Some v \<longrightarrow> (\<exists>x. decFragment cd v = Some x \<and> fragment_id x = f \<and> plainID f
     \<and> plainID (fragment_textID x) \<and> plainID (fragment_slotID x)))"

definition inSlot :: "'v codec \<Rightarrow> (string \<Rightarrow> 'v option) \<Rightarrow> string \<Rightarrow> string \<Rightarrow> string \<Rightarrow> bool" where
  "inSlot cd F t s f \<longleftrightarrow> (\<exists>x. fragAt cd F f = Some x \<and> fragment_textID x = t \<and> fragment_slotID x = s)"

definition indexOk :: "'v codec \<Rightarrow> (string \<Rightarrow> 'v option) \<Rightarrow> (string \<Rightarrow> 'v option) \<Rightarrow> bool" where
  "indexOk cd F X \<longleftrightarrow>
     (\<forall>y. X y \<noteq> None \<longrightarrow> (\<exists>t s f. plainID t \<and> plainID s \<and> plainID f \<and> y = joined t (joined s f)))
     \<and> (\<forall>t s f. plainID t \<longrightarrow> plainID s \<longrightarrow> plainID f \<longrightarrow>
     map_option (decRaw cd) (X (joined t (joined s f))) = (if inSlot cd F t s f then Some f else None))"

text \<open>A vote for a fragment is stored exactly for the users whose choice in the fragment's slot it
  is.\<close>

definition voteOf :: "'v codec \<Rightarrow> (string \<Rightarrow> 'v option) \<Rightarrow> string \<Rightarrow> string \<Rightarrow> string option" where
  "voteOf cd V f u = map_option vote_userID (Option.bind (V (joined f u)) (decVote cd))"

definition choiceOf :: "'v codec \<Rightarrow> (string \<Rightarrow> 'v option) \<Rightarrow> string \<Rightarrow> string \<Rightarrow> string \<Rightarrow> string option" where
  "choiceOf cd U t s u = map_option (decRaw cd) (U (joined t (joined s u)))"

definition votesOk ::
    "'v codec \<Rightarrow> (string \<Rightarrow> 'v option) \<Rightarrow> (string \<Rightarrow> 'v option) \<Rightarrow> (string \<Rightarrow> 'v option) \<Rightarrow> bool" where
  "votesOk cd F V U \<longleftrightarrow>
     (\<forall>f u. plainID f \<longrightarrow> V (joined f u) \<noteq> None \<longrightarrow> voteOf cd V f u = Some u
        \<and> (\<exists>t s. inSlot cd F t s f \<and> choiceOf cd U t s u = Some f))
     \<and> (\<forall>t s u f. plainID t \<longrightarrow> plainID s \<longrightarrow> choiceOf cd U t s u = Some f \<longrightarrow>
          inSlot cd F t s f \<and> V (joined f u) \<noteq> None)"

definition textInv :: "'v codec \<Rightarrow> (bytes \<Rightarrow> 'v option) \<Rightarrow> bool" where
  "textInv cd m \<longleftrightarrow> textsOk cd (fam ''text'' m) \<and> roundsOk cd (fam ''text'' m) (fam ''round'' m)
     \<and> currentOk cd (fam ''round'' m) (fam ''currentround'' m)"

definition voteInv :: "'v codec \<Rightarrow> (bytes \<Rightarrow> 'v option) \<Rightarrow> bool" where
  "voteInv cd m \<longleftrightarrow> fragsOk cd (fam ''fragment'' m) \<and> indexOk cd (fam ''fragment'' m) (fam ''fragmentindex'' m)
     \<and> votesOk cd (fam ''fragment'' m) (fam ''vote'' m) (fam ''uservote'' m)"

text \<open>An identifier still to be given out is mentioned by no record.\<close>

definition unused :: "'v codec \<Rightarrow> (string \<Rightarrow> 'v option) \<Rightarrow> (string \<Rightarrow> 'v option) \<Rightarrow> (string \<Rightarrow> 'v option) \<Rightarrow>
    (string \<Rightarrow> 'v option) \<Rightarrow> string \<Rightarrow> bool" where
  "unused cd T R C F i \<longleftrightarrow> T i = None \<and> R i = None \<and> F i = None
     \<and> (\<forall>r v x. R r = Some v \<longrightarrow> decRound cd v = Some x \<longrightarrow> round_textID x \<noteq> i \<and> i \<notin> slot_id ` set (round_slots x))
     \<and> (\<forall>t s f. inSlot cd F t s f \<longrightarrow> t \<noteq> i \<and> s \<noteq> i)
     \<and> (\<forall>t c. C t = Some c \<longrightarrow> decRaw cd c \<noteq> i)"

definition freshID :: "'v codec \<Rightarrow> (bytes \<Rightarrow> 'v option) \<Rightarrow> string \<Rightarrow> bool" where
  "freshID cd m i \<longleftrightarrow> plainID i
     \<and> unused cd (fam ''text'' m) (fam ''round'' m) (fam ''currentround'' m) (fam ''fragment'' m) i"

definition good :: "'v codec \<Rightarrow> 'v kvs world \<Rightarrow> bool" where
  "good cd w \<longleftrightarrow> refInv (st w) \<and> textInv cd (db w) \<and> voteInv cd (db w)
     \<and> distinct (ids w) \<and> (\<forall>i \<in> set (ids w). freshID cd (db w) i)"

lemma good_refInv: "good cd w \<Longrightarrow> refInv (st w)"
  by (simp add: good_def)

lemma st_db: "st (w\<lparr>ids := i\<rparr>) = st w" "st (w\<lparr>ticks := n\<rparr>) = st w"
  by simp_all

lemma good_tick [simp]: "good cd (w\<lparr>ticks := n\<rparr>) = good cd w"
  by (simp add: good_def)

lemma good_pop:
  assumes "good cd w" and "ids w = i # rest"
  shows "good cd (w\<lparr>ids := rest\<rparr>)" and "freshID cd (db w) i" and "i \<notin> set rest"
  using assms by (auto simp: good_def)

lemma good_wrote:
  assumes "good cd w" and "textInv cd (foldl wopMap (db w) ws)" and "voteInv cd (foldl wopMap (db w) ws)"
    and "\<And>i. i \<in> set (ids w) \<Longrightarrow> freshID cd (foldl wopMap (db w) ws) i"
  shows "good cd (wrote ws w)"
  using assms refInv_wrote [of w ws] by (simp add: good_def db_wrote)

text \<open>Writes outside the seven families change nothing here.\<close>

definition watched :: "string set" where
  "watched = {''text'', ''round'', ''currentround'', ''fragment'', ''fragmentindex'', ''vote'', ''uservote''}"

lemma good_other:
  assumes "good cd w" and "\<forall>x \<in> set ws. space (opKey x) \<notin> watched"
  shows "good cd (wrote ws w)"
proof -
  have "fam p (foldl wopMap (db w) ws) = fam p (db w)" if "p \<in> watched" "plainID p" for p
    by (rule fam_other) (use that assms(2) in auto)
  then have "fam ''text'' (foldl wopMap (db w) ws) = fam ''text'' (db w)"
    "fam ''round'' (foldl wopMap (db w) ws) = fam ''round'' (db w)"
    "fam ''currentround'' (foldl wopMap (db w) ws) = fam ''currentround'' (db w)"
    "fam ''fragment'' (foldl wopMap (db w) ws) = fam ''fragment'' (db w)"
    "fam ''fragmentindex'' (foldl wopMap (db w) ws) = fam ''fragmentindex'' (db w)"
    "fam ''vote'' (foldl wopMap (db w) ws) = fam ''vote'' (db w)"
    "fam ''uservote'' (foldl wopMap (db w) ws) = fam ''uservote'' (db w)"
    by (simp_all add: watched_def)
  then show ?thesis
    using assms(1) refInv_wrote [of w ws] by (simp add: good_def db_wrote textInv_def voteInv_def freshID_def)
qed

section \<open>Votes\<close>

lemma inSlot_unique: "inSlot cd F t s f \<Longrightarrow> inSlot cd F t' s' f \<Longrightarrow> t' = t \<and> s' = s"
  by (auto simp: inSlot_def)

lemma inSlot_plain:
  assumes "fragsOk cd F" and "inSlot cd F t s f"
  shows "plainID t \<and> plainID s \<and> plainID f"
proof -
  obtain v x where "F f = Some v" "decFragment cd v = Some x" "fragment_textID x = t" "fragment_slotID x = s"
    using assms(2) by (auto simp: inSlot_def fragAt_def bind_eq_Some_conv)
  then show ?thesis using assms(1) by (fastforce simp: fragsOk_def)
qed

lemma votesOk_vote:
  "votesOk cd F V U \<Longrightarrow> plainID f \<Longrightarrow> V (joined f u) \<noteq> None \<Longrightarrow>
    voteOf cd V f u = Some u \<and> (\<exists>t s. inSlot cd F t s f \<and> choiceOf cd U t s u = Some f)"
  by (simp add: votesOk_def)

lemma votesOk_choice:
  "votesOk cd F V U \<Longrightarrow> plainID t \<Longrightarrow> plainID s \<Longrightarrow> choiceOf cd U t s u = Some f \<Longrightarrow>
    inSlot cd F t s f \<and> V (joined f u) \<noteq> None"
  by (simp add: votesOk_def)

lemma votesOkI:
  assumes "\<And>f u. plainID f \<Longrightarrow> V (joined f u) \<noteq> None \<Longrightarrow> voteOf cd V f u = Some u"
    and "\<And>f u. plainID f \<Longrightarrow> V (joined f u) \<noteq> None \<Longrightarrow> \<exists>t s. inSlot cd F t s f \<and> choiceOf cd U t s u = Some f"
    and "\<And>t s u f. plainID t \<Longrightarrow> plainID s \<Longrightarrow> choiceOf cd U t s u = Some f \<Longrightarrow> inSlot cd F t s f"
    and "\<And>t s u f. plainID t \<Longrightarrow> plainID s \<Longrightarrow> choiceOf cd U t s u = Some f \<Longrightarrow> V (joined f u) \<noteq> None"
  shows "votesOk cd F V U"
  unfolding votesOk_def using assms by blast

text \<open>Casting a vote: the new vote and choice are stored, the previous vote of that user in the
  slot, when it was for another fragment, goes.\<close>

lemma votesOk_cast:
  assumes cd: "codecOk cd" and F: "fragsOk cd F" and ok: "votesOk cd F V U" and f: "inSlot cd F t s f"
    and vote: "vote_userID x = u"
    and V': "\<And>g u'. plainID g \<Longrightarrow> V' (joined g u') = (if g = f \<and> u' = u then Some (encVote cd x)
        else if u' = u \<and> choiceOf cd U t s u = Some g then None else V (joined g u'))"
  shows "votesOk cd F V' (U(joined t (joined s u) \<mapsto> encRaw cd f))"
proof -
  have plain: "plainID t" "plainID s" "plainID f" using inSlot_plain [OF F f] by auto
  define U' where "U' = U(joined t (joined s u) \<mapsto> encRaw cd f)"
  have choice: "choiceOf cd U' t' s' u' = (if t' = t \<and> s' = s \<and> u' = u then Some f else choiceOf cd U t' s' u')"
    if "plainID t'" "plainID s'" for t' s' u'
    using that plain cd by (simp add: U'_def choiceOf_def joined_inj codecOk_def)
  have kept: "V (joined g u') \<noteq> None \<and> voteOf cd V' g u' = voteOf cd V g u' \<and> \<not> (u' = u \<and> choiceOf cd U t s u = Some g)"
    if "plainID g" "V' (joined g u') \<noteq> None" "\<not> (g = f \<and> u' = u)" for g u'
    using that V' [OF that(1), of u'] by (auto simp: voteOf_def split: if_splits)
  have "votesOk cd F V' U'"
  proof (rule votesOkI)
    fix g u' assume g: "plainID g" "V' (joined g u') \<noteq> None"
    show "voteOf cd V' g u' = Some u'"
    proof (cases "g = f \<and> u' = u")
      case True
      then show ?thesis using V' [OF g(1), of u'] vote cd by (simp add: voteOf_def codecOk_def)
    next
      case False
      then show ?thesis using kept [OF g False] votesOk_vote [OF ok g(1), of u'] by simp
    qed
    show "\<exists>t' s'. inSlot cd F t' s' g \<and> choiceOf cd U' t' s' u' = Some g"
    proof (cases "g = f \<and> u' = u")
      case True
      then show ?thesis using f choice [OF plain(1,2), of u] by auto
    next
      case False
      then obtain t' s' where g': "inSlot cd F t' s' g" "choiceOf cd U t' s' u' = Some g"
        using kept [OF g False] votesOk_vote [OF ok g(1), of u'] by blast
      then have "\<not> (t' = t \<and> s' = s \<and> u' = u)" using kept [OF g False] by auto
      then have "choiceOf cd U' t' s' u' = Some g" using choice [of t' s' u'] inSlot_plain [OF F g'(1)] g'(2) by metis
      then show ?thesis using g'(1) by blast
    qed
  next
    fix t' s' u' g assume a: "plainID t'" "plainID s'" "choiceOf cd U' t' s' u' = Some g"
    have *: "inSlot cd F t' s' g \<and> V' (joined g u') \<noteq> None"
    proof (cases "t' = t \<and> s' = s \<and> u' = u")
      case True
      then have "g = f" using a choice [OF a(1,2), of u'] by simp
      then show ?thesis using True f V' [OF plain(3), of u] by simp
    next
      case False
      then have old: "choiceOf cd U t' s' u' = Some g" using a(3) choice [OF a(1,2), of u'] by metis
      then have g: "inSlot cd F t' s' g" "V (joined g u') \<noteq> None" using votesOk_choice [OF ok a(1,2) old] by auto
      have "\<not> (u' = u \<and> choiceOf cd U t s u = Some g)"
        using False inSlot_unique [OF g(1)] votesOk_choice [OF ok plain(1,2), of u g] by blast
      then show ?thesis using V' [of g u'] inSlot_plain [OF F g(1)] g by (cases "g = f \<and> u' = u") auto
    qed
    then show "inSlot cd F t' s' g" by simp
    from * show "V' (joined g u') \<noteq> None" by simp
  qed
  then show ?thesis by (simp add: U'_def)
qed


lemma good_fragment:
  assumes "good cd w" and "db w (fragmentKey f) = Some v"
  obtains x where "decFragment cd v = Some x" and "fragment_id x = f"
    and "inSlot cd (fam ''fragment'' (db w)) (fragment_textID x) (fragment_slotID x) f"
    and "plainID f" and "plainID (fragment_textID x)" and "plainID (fragment_slotID x)"
proof -
  have "fragsOk cd (fam ''fragment'' (db w))" "fam ''fragment'' (db w) f = Some v"
    using assms by (simp_all add: good_def voteInv_def fam_get)
  then show ?thesis using that by (fastforce simp: fragsOk_def inSlot_def fragAt_def)
qed

lemma good_CastVote:
  assumes cd: "codecOk cd" and good: "good cd w"
  shows "wp (CastVote (refRepo cd) f u) (\<lambda>_. good cd) (\<lambda>_. good cd) w"
proof -
  define m where "m = db w"
  define F where "F = fam ''fragment'' m"
  define V where "V = fam ''vote'' m"
  define U where "U = fam ''uservote'' m"
  have inv: "textInv cd m" "fragsOk cd F" "indexOk cd F (fam ''fragmentindex'' m)" "votesOk cd F V U"
    using good by (simp_all add: good_def voteInv_def m_def F_def V_def U_def)
  {
    fix x n
    assume x: "inSlot cd F (fragment_textID x) (fragment_slotID x) f" "plainID f"
      "plainID (fragment_textID x)" "plainID (fragment_slotID x)"
    let ?t = "fragment_textID x" and ?s = "fragment_slotID x"
    let ?v = "\<lparr>vote_userID = u, vote_fragmentID = f, vote_createdAt = clock w (ticks w)\<rparr>"
    let ?ops = "[PutOp (voteKey f u) (encVote cd ?v), PutOp (userChoiceKey ?t ?s u) (encRaw cd f)]
      @ (case m (userChoiceKey ?t ?s u) of None \<Rightarrow> []
         | Some p \<Rightarrow> if decRaw cd p \<noteq> f then [DelOp (voteKey (decRaw cd p) u)] else [])"
    let ?m = "foldl wopMap m ?ops"
    have same: "fam p ?m = fam p m" if "p \<noteq> ''vote''" "p \<noteq> ''uservote''" "plainID p" for p
      using that by (simp add: fam_simps split: option.split)
    have U': "fam ''uservote'' ?m = U(joined ?t (joined ?s u) \<mapsto> encRaw cd f)"
      by (simp add: fam_simps U_def split: option.split)
    have choice: "choiceOf cd U ?t ?s u = map_option (decRaw cd) (m (userChoiceKey ?t ?s u))"
      by (simp add: choiceOf_def U_def fam_get)
    have "votesOk cd F (fam ''vote'' ?m) (U(joined ?t (joined ?s u) \<mapsto> encRaw cd f))"
    proof (rule votesOk_cast [OF cd inv(2,4) x(1), where x = ?v])
      fix g u' assume "plainID g"
      moreover have "plainID p" if "choiceOf cd U ?t ?s u = Some p" for p
        using votesOk_choice [OF inv(4) x(3,4) that] inSlot_plain [OF inv(2)] by blast
      ultimately show "fam ''vote'' ?m (joined g u') = (if g = f \<and> u' = u then Some (encVote cd ?v)
          else if u' = u \<and> choiceOf cd U ?t ?s u = Some g then None else V (joined g u'))"
        using choice x(2) by (cases "m (userChoiceKey ?t ?s u)") (auto simp: fam_simps V_def joined_inj)
    qed simp
    then have "voteInv cd ?m" using inv(2,3) same U' by (simp add: voteInv_def F_def)
    moreover have "textInv cd ?m" using inv(1) same by (simp add: textInv_def)
    moreover have "freshID cd ?m i" if "i \<in> set (ids w)" for i
      using good same that by (simp add: freshID_def good_def m_def)
    ultimately have "good cd (wrote ?ops w)" using good_wrote [OF good] by (simp only: m_def)
  } note cast = this
  show ?thesis
  proof (cases "db w (fragmentKey f)")
    case None
    then show ?thesis using good by (simp add: CastVote_def getFragment_def wp_simps)
  next
    case (Some v)
    with good obtain x where "decFragment cd v = Some x"
      and "inSlot cd (fam ''fragment'' (db w)) (fragment_textID x) (fragment_slotID x) f"
      and "plainID f" "plainID (fragment_textID x)" "plainID (fragment_slotID x)"
      by (rule good_fragment)
    then show ?thesis using Some cast [of x] by (simp add: CastVote_def getFragment_def Let_def wp_simps m_def F_def)
  qed
qed

section \<open>Operations outside the watched families\<close>

definition keepsGood :: "'v codec \<Rightarrow> ('v kvs, 'a) act \<Rightarrow> bool" where
  "keepsGood cd m \<longleftrightarrow> (\<forall>w. good cd w \<longrightarrow> wp m (\<lambda>_. good cd) (\<lambda>_. good cd) w)"

lemma keepsGood_read: "readOnly m \<Longrightarrow> keepsGood cd m"
  unfolding keepsGood_def by (simp add: wp_readOnly)

lemma keepsGood_Subscribe: "keepsGood cd (Subscribe (refRepo cd) u t)"
  by (auto simp: keepsGood_def Subscribe_def getText_def Let_def wp_simps watched_def split: option.split intro!: good_other)

lemma keepsGood_Unsubscribe: "keepsGood cd (Unsubscribe (refRepo cd) u t)"
  by (auto simp: keepsGood_def Unsubscribe_def wp_simps watched_def intro!: good_other)

lemma space_scanned:
  assumes "(k, v) \<in> set (scanned (joined p x) w)" and "plainID p"
  shows "space k = p"
  using assms by (auto simp: scanned_def HasPrefix_def prefix_def joined_def space_def plainID_def takeWhile_tail)

lemma subscriptionIndexPrefix_form: "subscriptionIndexPrefix u = joined ''subscriptionindex'' (joined u [])"
  by (simp add: key_defs joined_def)

lemma keepsGood_DeleteUserSubscriptions: "keepsGood cd (DeleteUserSubscriptions (refRepo cd) u)"
  unfolding keepsGood_def DeleteUserSubscriptions_def subscriptionIndexPrefix_form
  by (auto simp: wp_simps watched_def dest!: space_scanned intro!: good_other)

section \<open>Adding fragments\<close>

lemma inSlot_upd:
  assumes "F f = None" and "codecOk cd"
  shows "inSlot cd (F(f \<mapsto> encFragment cd x)) t s g \<longleftrightarrow>
    (if g = f then t = fragment_textID x \<and> s = fragment_slotID x else inSlot cd F t s g)"
  using assms by (auto simp: inSlot_def fragAt_def codecOk_def)

lemma indexOk_at:
  "indexOk cd F X \<Longrightarrow> plainID t \<Longrightarrow> plainID s \<Longrightarrow> plainID f \<Longrightarrow>
    map_option (decRaw cd) (X (joined t (joined s f))) = (if inSlot cd F t s f then Some f else None)"
  by (simp add: indexOk_def)

lemma indexOk_form:
  "indexOk cd F X \<Longrightarrow> X y \<noteq> None \<Longrightarrow> \<exists>t s f. plainID t \<and> plainID s \<and> plainID f \<and> y = joined t (joined s f)"
  by (simp add: indexOk_def)

lemma indexOkI:
  assumes "\<And>y. X y \<noteq> None \<Longrightarrow> \<exists>t s f. plainID t \<and> plainID s \<and> plainID f \<and> y = joined t (joined s f)"
    and "\<And>t s f. plainID t \<Longrightarrow> plainID s \<Longrightarrow> plainID f \<Longrightarrow>
    map_option (decRaw cd) (X (joined t (joined s f))) = (if inSlot cd F t s f then Some f else None)"
  shows "indexOk cd F X"
  unfolding indexOk_def using assms by blast

lemma unusedD:
  assumes "unused cd T R C F i"
  shows "T i = None" "R i = None" "F i = None" "R r = Some v \<Longrightarrow> decRound cd v = Some x \<Longrightarrow> round_textID x \<noteq> i"
    "R r = Some v \<Longrightarrow> decRound cd v = Some x \<Longrightarrow> i \<notin> slot_id ` set (round_slots x)"
    "inSlot cd F t s f \<Longrightarrow> t \<noteq> i" "inSlot cd F t s f \<Longrightarrow> s \<noteq> i" "C t = Some c \<Longrightarrow> decRaw cd c \<noteq> i"
  using assms unfolding unused_def by blast+

lemma unusedI:
  assumes "T i = None" "R i = None" "F i = None"
    and "\<And>r v x. R r = Some v \<Longrightarrow> decRound cd v = Some x \<Longrightarrow> round_textID x \<noteq> i \<and> i \<notin> slot_id ` set (round_slots x)"
    and "\<And>t s f. inSlot cd F t s f \<Longrightarrow> t \<noteq> i \<and> s \<noteq> i" and "\<And>t c. C t = Some c \<Longrightarrow> decRaw cd c \<noteq> i"
  shows "unused cd T R C F i"
  unfolding unused_def using assms by blast

lemma unused_fragment:
  assumes "unused cd T R C F j" and "F f = None" and "codecOk cd" and "j \<noteq> f" and "fragment_textID x \<noteq> j" "fragment_slotID x \<noteq> j"
  shows "unused cd T R C (F(f \<mapsto> encFragment cd x)) j"
proof (rule unusedI)
  fix t s g assume "inSlot cd (F(f \<mapsto> encFragment cd x)) t s g"
  then show "t \<noteq> j \<and> s \<noteq> j"
    using unusedD(6,7) [OF assms(1)] assms(5,6) inSlot_upd [where F = F and f = f, OF assms(2,3)] by (metis (full_types))
qed (use assms unusedD [OF assms(1)] in auto)

lemma fragment_added:
  assumes cd: "codecOk cd" and F: "fragsOk cd F" and X: "indexOk cd F X" and V: "votesOk cd F V U"
    and new: "F f = None" and x: "fragment_id x = f" "plainID f" "plainID (fragment_textID x)" "plainID (fragment_slotID x)"
  shows "fragsOk cd (F(f \<mapsto> encFragment cd x))"
    and "indexOk cd (F(f \<mapsto> encFragment cd x)) (X(joined (fragment_textID x) (joined (fragment_slotID x) f) \<mapsto> encRaw cd f))"
    and "votesOk cd (F(f \<mapsto> encFragment cd x)) V U"
proof -
  show "fragsOk cd (F(f \<mapsto> encFragment cd x))"
    using F x cd by (auto simp: fragsOk_def codecOk_def)
  have none: "\<not> inSlot cd F t s f" for t s using new by (simp add: inSlot_def fragAt_def)
  show "indexOk cd (F(f \<mapsto> encFragment cd x)) (X(joined (fragment_textID x) (joined (fragment_slotID x) f) \<mapsto> encRaw cd f))"
  proof (rule indexOkI)
    fix y assume "(X(joined (fragment_textID x) (joined (fragment_slotID x) f) \<mapsto> encRaw cd f)) y \<noteq> None"
    then show "\<exists>t s f. plainID t \<and> plainID s \<and> plainID f \<and> y = joined t (joined s f)"
      using indexOk_form [OF X, of y] x by (auto split: if_splits)
  next
    fix t s g assume p: "plainID t" "plainID s" "plainID g"
    show "map_option (decRaw cd) ((X(joined (fragment_textID x) (joined (fragment_slotID x) f) \<mapsto> encRaw cd f)) (joined t (joined s g)))
        = (if inSlot cd (F(f \<mapsto> encFragment cd x)) t s g then Some g else None)"
      using indexOk_at [OF X p] p x none [of t s]
      by (auto simp: joined_inj inSlot_upd [where F = F and f = f, OF new cd] codec_eqs [OF cd] split: if_splits)
  qed
  have old: "inSlot cd F t s g \<Longrightarrow> inSlot cd (F(f \<mapsto> encFragment cd x)) t s g" for t s g
    using none by (auto simp: inSlot_upd [where F = F and f = f, OF new cd])
  show "votesOk cd (F(f \<mapsto> encFragment cd x)) V U"
  proof (rule votesOkI)
    fix g u assume "plainID g" "V (joined g u) \<noteq> None"
    note votesOk_vote [OF V this]
    then show "voteOf cd V g u = Some u" "\<exists>t s. inSlot cd (F(f \<mapsto> encFragment cd x)) t s g \<and> choiceOf cd U t s u = Some g"
      using old by blast+
  next
    fix t s u g assume "plainID t" "plainID s" "choiceOf cd U t s u = Some g"
    note votesOk_choice [OF V this]
    then show "inSlot cd (F(f \<mapsto> encFragment cd x)) t s g" "V (joined g u) \<noteq> None" using old by blast+
  qed
qed

lemma good_addFragment:
  assumes cd: "codecOk cd" and t: "plainID t" "\<exists>v. db w (textKey t) = Some v" and s: "plainID s" "\<forall>i \<in> set (ids w). i \<noteq> s"
    and good: "good cd w"
  shows "wp (addFragment (refRepo cd) t s c a) (\<lambda>_. good cd) (\<lambda>_. good cd) w"
proof (cases "ids w")
  case Nil
  then show ?thesis using good by (simp add: addFragment_def wp_simps)
next
  case (Cons i rest)
  let ?x = "\<lparr>fragment_id = i, fragment_textID = t, fragment_slotID = s, fragment_content = c, fragment_authorID = a,
      fragment_createdAt = clock w (ticks w)\<rparr>"
  let ?ops = "[PutOp (fragmentKey i) (encFragment cd ?x), PutOp (fragmentIndexKey t s i) (encRaw cd i)]"
  let ?w = "w\<lparr>ids := rest\<rparr>" and ?m = "foldl wopMap (db w) ?ops"
  have fresh: "freshID cd (db w) i" "i \<notin> set rest" and good': "good cd ?w" using good_pop [OF good Cons] by auto
  then have i: "plainID i" "fam ''fragment'' (db w) i = None" by (simp_all add: freshID_def unused_def)
  have inv: "fragsOk cd (fam ''fragment'' (db w))" "indexOk cd (fam ''fragment'' (db w)) (fam ''fragmentindex'' (db w))"
    "votesOk cd (fam ''fragment'' (db w)) (fam ''vote'' (db w)) (fam ''uservote'' (db w))" "textInv cd (db w)"
    using good by (simp_all add: good_def voteInv_def)
  note added = fragment_added [OF cd inv(1-3) i(2), of ?x, simplified, OF i(1) t(1) s(1)]
  have "voteInv cd ?m" using added by (simp add: voteInv_def fam_simps)
  moreover have "textInv cd ?m" using inv(4) by (simp add: textInv_def fam_simps)
  moreover have "freshID cd ?m j" if "j \<in> set rest" for j
  proof -
    have j: "freshID cd (db w) j" "j \<noteq> i" "j \<noteq> s" using that good Cons fresh s(2) by (auto simp: good_def)
    then have "j \<noteq> t" using t(2) by (auto simp: freshID_def unused_def fam_get)
    then show ?thesis using j unused_fragment [where F = "fam ''fragment'' (db w)" and f = i and x = ?x and cd = cd]
        i(2) cd by (simp add: freshID_def fam_simps)
  qed
  ultimately have "good cd (wrote ?ops ?w)" using good_wrote [OF good', of ?ops] by simp
  then show ?thesis using good Cons by (simp add: addFragment_def Let_def wp_simps)
qed

section \<open>Adding texts and rounds\<close>

definition roundIs :: "'v codec \<Rightarrow> (string \<Rightarrow> 'v option) \<Rightarrow> Round \<Rightarrow> bool" where
  "roundIs cd R x \<longleftrightarrow> (\<exists>v. R (round_id x) = Some v \<and> decRound cd v = Some x)"

lemma roundsOk_roundIs: "roundsOk cd T R \<Longrightarrow> roundIs cd R x \<Longrightarrow> roundOk cd T (round_id x) x"
  by (fastforce simp: roundsOk_def roundIs_def)

lemma round_added:
  assumes "codecOk cd" and "roundsOk cd T R" and "currentOk cd R C" and "unused cd T R C F j" and "roundOk cd T j x"
  shows "roundsOk cd T (R(j \<mapsto> encRound cd x))"
    and "currentOk cd (R(j \<mapsto> encRound cd x)) (C(round_textID x \<mapsto> encRaw cd j))"
  using assms(2,3,5) unusedD(8) [OF assms(4)] unfolding roundsOk_def currentOk_def
  by (auto simp: codec_eqs [OF assms(1)])

lemma round_set:
  assumes "codecOk cd" and "roundsOk cd T R" and "currentOk cd R C" and "roundIs cd R y" and "round_textID x = round_textID y"
    and "roundOk cd T (round_id y) x"
  shows "roundsOk cd T (R(round_id y \<mapsto> encRound cd x))" and "currentOk cd (R(round_id y \<mapsto> encRound cd x)) C"
proof -
  show "roundsOk cd T (R(round_id y \<mapsto> encRound cd x))"
    using assms(2,6) unfolding roundsOk_def by (auto simp: codec_eqs [OF assms(1)])
  show "currentOk cd (R(round_id y \<mapsto> encRound cd x)) C"
    using assms(3-5) unfolding currentOk_def roundIs_def by (auto simp: codec_eqs [OF assms(1)])
qed

lemma currentOk_less: "currentOk cd R C \<Longrightarrow> currentOk cd R (C(t := None))"
  by (auto simp: currentOk_def)

lemma text_added:
  assumes "codecOk cd" and "textsOk cd T" and "roundsOk cd T R" and "unused cd T R C F (text_id x)" and "plainID (text_id x)"
  shows "textsOk cd (T(text_id x \<mapsto> encText cd x))" and "roundsOk cd (T(text_id x \<mapsto> encText cd x)) R"
proof -
  show "textsOk cd (T(text_id x \<mapsto> encText cd x))"
    using assms(2,5) unfolding textsOk_def by (auto simp: codec_eqs [OF assms(1)])
  have no: "round_textID y \<noteq> text_id x" if "R r = Some v" "decRound cd v = Some y" for r v y
    using unusedD(4) [OF assms(4)] that by blast
  show "roundsOk cd (T(text_id x \<mapsto> encText cd x)) R"
    using assms(3) no unfolding roundsOk_def roundOk_def by fastforce
qed

lemma unused_text: "unused cd T R C F i \<Longrightarrow> i \<noteq> t \<Longrightarrow> unused cd (T(t \<mapsto> v)) R C F i"
  by (simp add: unused_def)

lemma unused_round:
  assumes "codecOk cd" and "unused cd T R C F i" and "i \<noteq> j" and "round_textID x \<noteq> i" and "i \<notin> slot_id ` set (round_slots x)"
  shows "unused cd T (R(j \<mapsto> encRound cd x)) C F i"
  by (rule unusedI)
    (use assms(3-5) unusedD [OF assms(2)] in \<open>auto simp: codec_eqs [OF assms(1)] split: if_splits\<close>)

lemma unused_current:
  assumes "codecOk cd" and "unused cd T R C F i" and "i \<noteq> j"
  shows "unused cd T R (C(t \<mapsto> encRaw cd j)) F i"
  by (rule unusedI)
    (use assms(3) unusedD [OF assms(2)] in \<open>auto simp: codec_eqs [OF assms(1)] split: if_splits\<close>)

lemma unused_current_less: "unused cd T R C F i \<Longrightarrow> unused cd T R (C(t := None)) F i"
  by (simp add: unused_def)

text \<open>The keys that \<open>openRoundOps\<close> writes next to the round and the pointer to it.\<close>

definition roundWrites :: "'v codec \<Rightarrow> Round \<Rightarrow> 'v wop list" where
  "roundWrites cd x = [PutOp (roundKey (round_id x)) (encRound cd x), PutOp (currentRoundKey (round_textID x)) (encRaw cd (round_id x)),
     PutOp (roundCountKey (round_textID x)) (encRaw cd (Itoa (round_number x))),
     PutOp (roundIndexKey (round_textID x) (round_id x)) (encRaw cd (round_id x))]"

definition newRound :: "string \<Rightarrow> string \<Rightarrow> int \<Rightarrow> time \<Rightarrow> Round" where
  "newRound i t n now = \<lparr>round_id = i, round_textID = t, round_number = n, round_status = RoundStatusOpen,
     round_slots = [], round_createdAt = now, round_closedAt = None, round_scheduledCloseAt = None,
     round_scheduledCloseBy = []\<rparr>"

lemma newRound_simps [simp]:
  "round_id (newRound i t n now) = i" "round_textID (newRound i t n now) = t" "round_slots (newRound i t n now) = []"
  "round_number (newRound i t n now) = n" "round_status (newRound i t n now) = RoundStatusOpen"
  by (simp_all add: newRound_def)

lemma wp_openRoundOps [wp_simps]:
  "wp (openRoundOps cd t n) Q E w = (case ids w of [] \<Rightarrow> E ErrRand w
     | i # rest \<Rightarrow> Q (roundWrites cd (newRound i t n (clock w (ticks w))), newRound i t n (clock w (ticks w)))
                    (w\<lparr>ids := rest, ticks := ticks w + 1\<rparr>))"
  by (simp add: openRoundOps_def wp_simps Let_def roundWrites_def newRound_def split: list.split)

lemma fam_roundWrites:
  assumes "plainID p" and "p \<noteq> ''roundcount''" and "p \<noteq> ''roundindex''"
  shows "fam p (foldl wopMap m (roundWrites cd x)) =
    (if p = ''round'' then (fam p m)(round_id x \<mapsto> encRound cd x)
     else if p = ''currentround'' then (fam p m)(round_textID x \<mapsto> encRaw cd (round_id x)) else fam p m)"
  using assms by (simp add: roundWrites_def fam_simps fam_upd_other)

lemma slotsOk_Nil [simp]: "slotsOk n []"
  by (simp add: slotsOk_def)

lemma roundOk_newRound: "roundOk cd T i (newRound i t n now)"
  by (simp add: roundOk_def)

section \<open>Opening a round and proposing\<close>

lemma good_parts:
  assumes "good cd w"
  shows "textsOk cd (fam ''text'' (db w))" "roundsOk cd (fam ''text'' (db w)) (fam ''round'' (db w))"
    "currentOk cd (fam ''round'' (db w)) (fam ''currentround'' (db w))" "fragsOk cd (fam ''fragment'' (db w))"
    "indexOk cd (fam ''fragment'' (db w)) (fam ''fragmentindex'' (db w))"
    "votesOk cd (fam ''fragment'' (db w)) (fam ''vote'' (db w)) (fam ''uservote'' (db w))"
  using assms by (simp_all add: good_def textInv_def voteInv_def)

lemma good_newRound:
  assumes cd: "codecOk cd" and good: "good cd w" and w: "ids w = i # rest" and t: "db w (textKey t) \<noteq> None"
  shows "good cd (wrote (roundWrites cd (newRound i t n now)) (w\<lparr>ids := rest\<rparr>))"
proof -
  let ?x = "newRound i t n now"
  have fresh: "freshID cd (db w) i" "i \<notin> set rest" and good': "good cd (w\<lparr>ids := rest\<rparr>)"
    using good_pop [OF good w] by auto
  have u: "unused cd (fam ''text'' (db w)) (fam ''round'' (db w)) (fam ''currentround'' (db w)) (fam ''fragment'' (db w)) i"
    using fresh by (simp add: freshID_def)
  note added = round_added [OF cd good_parts(2,3) [OF good] u roundOk_newRound [of cd "fam ''text'' (db w)" i t n now]]
  show ?thesis
  proof (rule good_wrote [OF good'])
    show "textInv cd (foldl wopMap (db (w\<lparr>ids := rest\<rparr>)) (roundWrites cd ?x))"
      using added good_parts [OF good] by (simp add: textInv_def fam_roundWrites)
    show "voteInv cd (foldl wopMap (db (w\<lparr>ids := rest\<rparr>)) (roundWrites cd ?x))"
      using good_parts [OF good] by (simp add: voteInv_def fam_roundWrites)
    fix j assume "j \<in> set (ids (w\<lparr>ids := rest\<rparr>))"
    then have j: "freshID cd (db w) j" "j \<noteq> i" using good w fresh by (auto simp: good_def)
    then have "t \<noteq> j" using t by (auto simp: freshID_def unused_def fam_get)
    then show "freshID cd (foldl wopMap (db (w\<lparr>ids := rest\<rparr>)) (roundWrites cd ?x)) j"
      using j by (simp add: freshID_def fam_roundWrites unused_round [OF cd] unused_current [OF cd])
  qed
qed

lemma good_textAt:
  assumes "good cd w" and "db w (textKey t) = Some v"
  obtains x where "decText cd v = Some x" and "text_id x = t" and "plainID t"
  using good_parts(1) [OF assms(1)] assms(2) that by (fastforce simp: textsOk_def fam_get)

lemma wp_CurrentRound_cases:
  assumes good: "good cd w"
    and found: "\<And>x. roundIs cd (fam ''round'' (db w)) x \<Longrightarrow> round_textID x = t \<Longrightarrow>
      roundOk cd (fam ''text'' (db w)) (round_id x) x \<Longrightarrow>
      map_option (decRaw cd) (db w (currentRoundKey t)) = Some (round_id x) \<Longrightarrow> Q x w"
    and missing: "(\<And>i. map_option (decRaw cd) (db w (currentRoundKey t)) = Some i \<Longrightarrow> db w (roundKey i) = None) \<Longrightarrow>
      E ErrNotFound w"
  shows "wp (CurrentRound (refRepo cd) t) Q E w"
proof (cases "db w (currentRoundKey t)")
  case None
  then show ?thesis using missing by (simp add: CurrentRound_def wp_simps)
next
  case (Some c)
  show ?thesis
  proof (cases "db w (roundKey (decRaw cd c))")
    case None
    then show ?thesis using missing Some by (simp add: CurrentRound_def getRound_def wp_simps)
  next
    case val: (Some v)
    then have R: "fam ''round'' (db w) (decRaw cd c) = Some v" by (simp add: fam_get)
    obtain x where x: "decRound cd v = Some x" "roundOk cd (fam ''text'' (db w)) (decRaw cd c) x"
      using good_parts(2) [OF good] R by (fastforce simp: roundsOk_def)
    then have "round_id x = decRaw cd c" by (simp add: roundOk_def)
    moreover have "round_textID x = t"
      using good_parts(3) [OF good] Some R x(1) by (fastforce simp: currentOk_def fam_get)
    ultimately have "Q x w" using found [of x] x R Some by (simp add: roundIs_def)
    then show ?thesis using Some val x by (simp add: CurrentRound_def getRound_def wp_simps)
  qed
qed

lemma wp_CurrentRound_of:
  assumes "good cd w"
    and "\<And>x. roundIs cd (fam ''round'' (db w)) x \<Longrightarrow> round_textID x = t \<Longrightarrow>
      roundOk cd (fam ''text'' (db w)) (round_id x) x \<Longrightarrow>
      map_option (decRaw cd) (db w (currentRoundKey t)) = Some (round_id x) \<Longrightarrow> Q x w"
    and "E ErrNotFound w"
  shows "wp (CurrentRound (refRepo cd) t) Q E w"
  by (rule wp_CurrentRound_cases [OF assms(1)]) (use assms in auto)

lemma wp_CurrentRound:
  assumes "good cd w"
    and "\<And>x. roundIs cd (fam ''round'' (db w)) x \<Longrightarrow> round_textID x = t \<Longrightarrow>
      roundOk cd (fam ''text'' (db w)) (round_id x) x \<Longrightarrow> Q x w"
    and "E ErrNotFound w"
  shows "wp (CurrentRound (refRepo cd) t) Q E w"
  by (rule wp_CurrentRound_of [OF assms(1)]) (use assms(2,3) in blast)+

lemma wp_openRound:
  assumes cd: "codecOk cd" and good: "good cd w" and t: "db w (textKey t) \<noteq> None"
    and opened: "\<And>x w'. good cd w' \<Longrightarrow> roundIs cd (fam ''round'' (db w')) x \<Longrightarrow> round_textID x = t \<Longrightarrow>
      roundOk cd (fam ''text'' (db w')) (round_id x) x \<Longrightarrow> fam ''text'' (db w') = fam ''text'' (db w) \<Longrightarrow> Q x w'"
    and failed: "\<And>e. E e w"
  shows "wp (openRound (refRepo cd) t) Q E w"
proof -
  {
    fix i rest n
    assume w: "ids w = i # rest"
    define x where "x = newRound i t n (clock w (ticks w))"
    let ?w = "wrote (roundWrites cd x) (w\<lparr>ids := rest\<rparr>)"
    have good': "good cd ?w" unfolding x_def by (rule good_newRound [OF cd good w t])
    moreover have "fam ''text'' (db ?w) = fam ''text'' (db w)" "roundIs cd (fam ''round'' (db ?w)) x"
      using good_refInv [OF good] by (simp_all add: db_wrote fam_roundWrites roundIs_def codec_eqs [OF cd])
    ultimately have "Q x (?w\<lparr>ticks := Suc (ticks w)\<rparr>)"
      by (intro opened) (simp_all add: x_def roundOk_newRound)
  }
  then show ?thesis
    by (simp add: openRound_def nextRoundNumber_def wp_simps failed split: option.split list.split)
qed

lemma wp_resolveSlot:
  assumes "\<And>s. s \<in> set ss \<Longrightarrow> Q (slot_id s, False) w"
    and "\<And>i rest. ids w = i # rest \<Longrightarrow> \<forall>s \<in> set ss. slot_end s \<le> a \<or> b \<le> slot_start s \<Longrightarrow> Q (i, True) (w\<lparr>ids := rest\<rparr>)"
    and "\<And>e. E e w"
  shows "wp (resolveSlot ss a b) Q E w"
  using assms
proof (induction ss)
  case Nil
  then show ?case by (simp add: wp_simps split: list.split)
next
  case (Cons s ss)
  show ?case
  proof (cases "slot_start s = a \<and> slot_end s = b \<or> a < slot_end s \<and> b > slot_start s")
    case True
    then show ?thesis using Cons.prems by (auto simp: wp_simps)
  next
    case False
    moreover from this have "wp (resolveSlot ss a b) Q E w" using Cons.prems by (intro Cons.IH) force+
    ultimately show ?thesis by auto
  qed
qed

lemma slotsOk_snoc:
  assumes "slotsOk n ss" and "slotIn n s" and "\<forall>x \<in> set ss. slot_end x \<le> slot_start s \<or> slot_end s \<le> slot_start x"
    and "slot_id s \<notin> slot_id ` set ss"
  shows "slotsOk n (ss @ [s])"
  using assms by (auto simp: slotsOk_def pairwise_def disjointSlots_def)

text \<open>A new slot: its seed fragment, and the round with the slot appended.\<close>

lemma wp_seedSlot:
  assumes cd: "codecOk cd" and good: "good cd w" and r: "roundIs cd (fam ''round'' (db w)) r"
    and ok: "roundOk cd (fam ''text'' (db w)) (round_id r) r"
    and t: "db w (textKey (round_textID r)) = Some v" "decText cd v = Some tx"
    and s: "plainID s" "s \<notin> set (ids w)" "s \<notin> slot_id ` set (round_slots r)"
    and range: "0 \<le> a" "a < b" "b \<le> int (length (runesOf (text_content tx)))"
    and disj: "\<forall>x \<in> set (round_slots r). slot_end x \<le> a \<or> b \<le> slot_start x"
    and seeded: "\<And>w'. good cd w' \<Longrightarrow> db w' (textKey (round_textID r)) = Some v \<Longrightarrow> set (ids w') \<subseteq> set (ids w) \<Longrightarrow> Q () w'"
    and failed: "\<And>e. E e w"
  shows "wp (seedSlot (refRepo cd) (round_textID r) c r s a b) Q E w"
proof (cases "ids w")
  case Nil
  then show ?thesis using failed by (simp add: seedSlot_def wp_simps)
next
  case (Cons i rest)
  let ?t = "round_textID r"
  define x where "x = \<lparr>fragment_id = i, fragment_textID = ?t, fragment_slotID = s,
      fragment_content = stringOf (take (nat (b - a)) (drop (nat a) (runesOf c))), fragment_authorID = SeedAuthorID,
      fragment_createdAt = clock w (ticks w)\<rparr>"
  define r' where "r' = r\<lparr>round_slots := round_slots r @ [\<lparr>slot_id = s, slot_start = a, slot_end = b, slot_round = round_number r\<rparr>]\<rparr>"
  let ?ops = "[PutOp (fragmentKey i) (encFragment cd x), PutOp (fragmentIndexKey ?t s i) (encRaw cd i),
    PutOp (roundKey (round_id r)) (encRound cd r')]"
  let ?w = "w\<lparr>ids := rest\<rparr>" and ?m = "foldl wopMap (db w) ?ops"
  note parts = good_parts [OF good]
  have fresh: "freshID cd (db w) i" "i \<notin> set rest" and good': "good cd ?w" using good_pop [OF good Cons] by auto
  then have i: "plainID i" "fam ''fragment'' (db w) i = None" by (simp_all add: freshID_def unused_def)
  have plain_t: "plainID ?t" using good_textAt [OF good t(1)] by metis
  note added = fragment_added [OF cd parts(4-6) i(2), of x]
  have ok': "roundOk cd (fam ''text'' (db w)) (round_id r) r'"
    using ok s(1,3) range disj t by (auto simp: roundOk_def r'_def fam_get slotIn_def intro!: slotsOk_snoc)
  note set_r = round_set [OF cd parts(2,3) r _ ok']
  have "voteInv cd ?m" using added i(1) s(1) plain_t by (simp add: voteInv_def fam_simps x_def)
  moreover have "textInv cd ?m" using set_r parts(1) by (simp add: textInv_def fam_simps r'_def)
  moreover have "freshID cd ?m j" if j: "j \<in> set rest" for j
  proof -
    have j': "freshID cd (db w) j" "j \<noteq> i" "j \<noteq> s" using j good Cons fresh s(2) by (auto simp: good_def)
    then have u: "unused cd (fam ''text'' (db w)) (fam ''round'' (db w)) (fam ''currentround'' (db w)) (fam ''fragment'' (db w)) j"
      and "plainID j" by (simp_all add: freshID_def)
    have "j \<noteq> ?t" using u t by (auto simp: unused_def fam_get)
    moreover have "j \<noteq> round_id r" "j \<notin> slot_id ` set (round_slots r)"
      using u r unfolding unused_def roundIs_def by force+
    ultimately show ?thesis
      using j' u \<open>plainID j\<close> unused_fragment [where F = "fam ''fragment'' (db w)" and f = i and x = x, OF _ i(2) cd j'(2)]
        unused_round [OF cd, of _ _ _ _ j "round_id r" r']
      by (simp add: freshID_def fam_simps x_def r'_def)
  qed
  ultimately have "good cd (wrote ?ops ?w)" using good_wrote [OF good', of ?ops] by simp
  moreover have "db (wrote ?ops ?w) (textKey ?t) = Some v"
    using t(1) good_refInv [OF good] by (simp add: db_wrote fam_get fam_simps)
  ultimately have "Q () (wrote ?ops ?w\<lparr>ticks := Suc (ticks w)\<rparr>)" using Cons by (intro seeded) auto
  then show ?thesis using Cons by (simp add: seedSlot_def Let_def wp_simps x_def r'_def)
qed

lemma keepsGood_ProposeEdit:
  assumes cd: "codecOk cd"
  shows "keepsGood cd (ProposeEdit (refRepo cd) t a b c u)"
proof -
  {
    fix w v tx r
    assume good: "good cd w" and v: "db w (textKey t) = Some v" "decText cd v = Some tx"
      and range: "0 \<le> a" "a < b" "b \<le> int (length (runesOf (text_content tx)))"
      and r: "roundIs cd (fam ''round'' (db w)) r" "round_textID r = t" "roundOk cd (fam ''text'' (db w)) (round_id r) r"
    have t: "plainID t" using good_textAt [OF good v(1)] by metis
    define P where "P = (\<lambda>x. wp (bindE (if snd x then seedSlot (refRepo cd) t (text_content tx) r (fst x) a b else ret ())
       (\<lambda>_. addFragment (refRepo cd) t (fst x) c u)) (\<lambda>_. good cd) (\<lambda>_. good cd))"
    have "wp (resolveSlot (round_slots r) a b) P (\<lambda>_. good cd) w"
    proof (rule wp_resolveSlot)
      fix s assume s: "s \<in> set (round_slots r)"
      have "plainID (slot_id s)" using r(3) s by (simp add: roundOk_def)
      moreover have "slot_id s \<noteq> i" if "i \<in> set (ids w)" for i
        using good r(1) s that by (fastforce simp: good_def freshID_def unused_def roundIs_def)
      ultimately show "P (slot_id s, False) w"
        using good_addFragment [OF cd t _ _ _ good] v by (auto simp: wp_simps P_def)
    next
      fix i rest
      assume w: "ids w = i # rest" and disj: "\<forall>s \<in> set (round_slots r). slot_end s \<le> a \<or> b \<le> slot_start s"
      have fresh: "freshID cd (db w) i" "i \<notin> set rest" and good': "good cd (w\<lparr>ids := rest\<rparr>)" using good_pop [OF good w] by auto
      then have i: "plainID i" "i \<notin> slot_id ` set (round_slots r)"
        using r(1) unfolding freshID_def unused_def roundIs_def by blast+
      have "wp (seedSlot (refRepo cd) (round_textID r) (text_content tx) r i a b)
          (\<lambda>_. wp (addFragment (refRepo cd) t i c u) (\<lambda>_. good cd) (\<lambda>_. good cd)) (\<lambda>_. good cd) (w\<lparr>ids := rest\<rparr>)"
      proof (rule wp_seedSlot [OF cd good' _ _ _ v(2) i(1) _ i(2) range disj])
        fix w' assume w': "good cd w'" "db w' (textKey (round_textID r)) = Some v" "set (ids w') \<subseteq> set (ids (w\<lparr>ids := rest\<rparr>))"
        then show "wp (addFragment (refRepo cd) t i c u) (\<lambda>_. good cd) (\<lambda>_. good cd) w'"
          using r(2) fresh(2) by (intro good_addFragment [OF cd t _ i(1)]) auto
      qed (use r v fresh good' in auto)
      then show "P (i, True) (w\<lparr>ids := rest\<rparr>)"
        using r(2) by (simp add: P_def wp_bind)
    qed (use good in simp)
    note this [unfolded P_def]
  } note rest = this
  show ?thesis unfolding keepsGood_def
  proof (intro allI impI)
    fix w assume good: "good cd w"
    show "wp (ProposeEdit (refRepo cd) t a b c u) (\<lambda>_. good cd) (\<lambda>_. good cd) w"
    proof (cases "db w (textKey t)")
      case None
      then show ?thesis using good by (simp add: ProposeEdit_def getText_def wp_simps)
    next
      case (Some v)
      then obtain tx where tx: "decText cd v = Some tx" using good_textAt [OF good Some] by metis
      have cur: "wp (CurrentRound (refRepo cd) t) P
          (\<lambda>e. wp (if e \<noteq> ErrNotFound then raise e else openRound (refRepo cd) t) P (\<lambda>_. good cd)) w"
        if ranges: "0 \<le> a" "a < b" "b \<le> int (length (runesOf (text_content tx)))"
          and P: "\<And>r w'. good cd w' \<Longrightarrow> db w' (textKey t) = Some v \<Longrightarrow> roundIs cd (fam ''round'' (db w')) r \<Longrightarrow> round_textID r = t \<Longrightarrow>
            roundOk cd (fam ''text'' (db w')) (round_id r) r \<Longrightarrow> P r w'" for P
      proof (rule wp_CurrentRound [OF good])
        show "wp (if ErrNotFound \<noteq> ErrNotFound then raise ErrNotFound else openRound (refRepo cd) t) P (\<lambda>_. good cd) w"
          using Some good P by (auto intro!: wp_openRound [OF cd good] simp: fam_get)
      qed (use Some good P in auto)
      show ?thesis
      proof (cases "a < 0 \<or> b \<le> a \<or> b > int (length (runesOf (text_content tx)))")
        case True
        then show ?thesis using good Some tx by (simp add: ProposeEdit_def getText_def Let_def wp_simps)
      next
        case False
        then have ranges: "0 \<le> a" "a < b" "b \<le> int (length (runesOf (text_content tx)))" by auto
        define K where "K = (\<lambda>r. bindE (resolveSlot (round_slots r) a b) (\<lambda>x. bindE
            (if snd x then seedSlot (refRepo cd) t (text_content tx) r (fst x) a b else ret ())
            (\<lambda>_. addFragment (refRepo cd) t (fst x) c u)))"
        have step: "wp (K r) (\<lambda>_. good cd) (\<lambda>_. good cd) w'"
          if "good cd w'" "db w' (textKey t) = Some v" "roundIs cd (fam ''round'' (db w')) r" "round_textID r = t"
            "roundOk cd (fam ''text'' (db w')) (round_id r) r" for r w'
          unfolding K_def wp_bind [of "resolveSlot (round_slots r) a b"] using rest [OF that(1,2) tx ranges that(3-5)] .
        have "wp (CurrentRound (refRepo cd) t) (\<lambda>r. wp (K r) (\<lambda>_. good cd) (\<lambda>_. good cd))
          (\<lambda>e. wp (if e \<noteq> ErrNotFound then raise e else openRound (refRepo cd) t)
            (\<lambda>r. wp (K r) (\<lambda>_. good cd) (\<lambda>_. good cd)) (\<lambda>_. good cd)) w"
          by (rule cur [OF ranges step])
        then have "wp (bindE (catchE (CurrentRound (refRepo cd) t)
            (\<lambda>e. if e \<noteq> ErrNotFound then raise e else openRound (refRepo cd) t)) K) (\<lambda>_. good cd) (\<lambda>_. good cd) w"
          by (simp only: wp_bind wp_catch)
        then show ?thesis
          using Some tx False
          by (simp add: ProposeEdit_def getText_def Let_def wp_bind wp_storeGet wp_catch wp_orRaise split_def K_def [abs_def])
      qed
    qed
  qed
qed

section \<open>Creating a text, scheduling and closing\<close>

lemma wrote_append: "wrote (xs @ ys) w = wrote ys (wrote xs w)"
  by (simp add: wrote_def)

lemma good_same:
  assumes "good cd (wrote ws w)" and "refInv (st w)"
    and "\<And>p. p \<in> watched \<Longrightarrow> plainID p \<Longrightarrow> fam p (foldl wopMap (db w) ws') = fam p (foldl wopMap (db w) ws)"
  shows "good cd (wrote ws' w)"
proof -
  have "fam p (db (wrote ws' w)) = fam p (db (wrote ws w))" if "p \<in> watched" "plainID p" for p
    using assms(3) [OF that] assms(2) by (simp add: db_wrote)
  then have "fam ''text'' (db (wrote ws' w)) = fam ''text'' (db (wrote ws w))"
    "fam ''round'' (db (wrote ws' w)) = fam ''round'' (db (wrote ws w))"
    "fam ''currentround'' (db (wrote ws' w)) = fam ''currentround'' (db (wrote ws w))"
    "fam ''fragment'' (db (wrote ws' w)) = fam ''fragment'' (db (wrote ws w))"
    "fam ''fragmentindex'' (db (wrote ws' w)) = fam ''fragmentindex'' (db (wrote ws w))"
    "fam ''vote'' (db (wrote ws' w)) = fam ''vote'' (db (wrote ws w))"
    "fam ''uservote'' (db (wrote ws' w)) = fam ''uservote'' (db (wrote ws w))"
    by (simp_all add: watched_def)
  then show ?thesis
    using assms(1) refInv_wrote [OF assms(2), of ws'] by (simp add: good_def textInv_def voteInv_def freshID_def)
qed

lemma good_newText:
  assumes cd: "codecOk cd" and good: "good cd w" and w: "ids w = i # rest" and x: "text_id x = i"
  shows "good cd (wrote [PutOp (textKey i) (encText cd x)] (w\<lparr>ids := rest\<rparr>))"
proof (rule good_wrote)
  have fresh: "freshID cd (db w) i" "i \<notin> set rest" using good_pop [OF good w] by auto
  then have u: "unused cd (fam ''text'' (db w)) (fam ''round'' (db w)) (fam ''currentround'' (db w)) (fam ''fragment'' (db w)) (text_id x)"
    "plainID (text_id x)" by (simp_all add: freshID_def x)
  show "good cd (w\<lparr>ids := rest\<rparr>)" by (rule good_pop [OF good w])
  show "textInv cd (foldl wopMap (db (w\<lparr>ids := rest\<rparr>)) [PutOp (textKey i) (encText cd x)])"
    using text_added [OF cd good_parts(1,2) [OF good] u] good_parts(3) [OF good] by (simp add: textInv_def fam_simps x)
  show "voteInv cd (foldl wopMap (db (w\<lparr>ids := rest\<rparr>)) [PutOp (textKey i) (encText cd x)])"
    using good_parts [OF good] by (simp add: voteInv_def fam_simps)
  fix j assume "j \<in> set (ids (w\<lparr>ids := rest\<rparr>))"
  then have "freshID cd (db w) j" "j \<noteq> i" using good w fresh by (auto simp: good_def)
  then show "freshID cd (foldl wopMap (db (w\<lparr>ids := rest\<rparr>)) [PutOp (textKey i) (encText cd x)]) j"
    by (simp add: freshID_def fam_simps unused_text)
qed

text \<open>A new text with its first round, and any writes elsewhere.\<close>

lemma good_textRound:
  assumes cd: "codecOk cd" and good: "good cd w" and w: "ids w = i # j # rest" and x: "text_id x = i"
    and same: "\<And>p m. p \<in> watched \<Longrightarrow> plainID p \<Longrightarrow>
      fam p (foldl wopMap m ws) = fam p (foldl wopMap m (PutOp (textKey i) (encText cd x) # roundWrites cd (newRound j i n now)))"
  shows "good cd (wrote ws (w\<lparr>ids := rest\<rparr>))"
proof (rule good_same)
  let ?w = "wrote [PutOp (textKey i) (encText cd x)] (w\<lparr>ids := j # rest\<rparr>)"
  have 1: "good cd ?w" by (rule good_newText [OF cd good w x])
  have "good cd (wrote (roundWrites cd (newRound j i n now)) (?w\<lparr>ids := rest\<rparr>))"
  proof (rule good_newRound [OF cd 1])
    show "db ?w (textKey i) \<noteq> None" using good_refInv [OF good] by (simp add: db_wrote)
  qed simp
  then have "good cd (wrote (roundWrites cd (newRound j i n now)) (wrote [PutOp (textKey i) (encText cd x)] (w\<lparr>ids := rest\<rparr>)))" by simp
  then show "good cd (wrote (PutOp (textKey i) (encText cd x) # roundWrites cd (newRound j i n now)) (w\<lparr>ids := rest\<rparr>))"
    using wrote_append [of "[PutOp (textKey i) (encText cd x)]" "roundWrites cd (newRound j i n now)" "w\<lparr>ids := rest\<rparr>"] by simp
  show "refInv (st (w\<lparr>ids := rest\<rparr>))" using good_refInv [OF good] by simp
qed (rule same)

lemma watched_cases:
  "p \<in> watched \<Longrightarrow> p \<noteq> ''tagindex'' \<and> p \<noteq> ''subscription'' \<and> p \<noteq> ''subscriptionindex'' \<and> p \<noteq> ''supersededby''
    \<and> p \<noteq> ''roundcount'' \<and> p \<noteq> ''roundindex''"
  "p \<in> watched \<Longrightarrow> ''tagindex'' \<noteq> p \<and> ''subscription'' \<noteq> p \<and> ''subscriptionindex'' \<noteq> p \<and> ''supersededby'' \<noteq> p
    \<and> ''roundcount'' \<noteq> p \<and> ''roundindex'' \<noteq> p"
  by (auto simp: watched_def)

lemma keepsGood_CreateText:
  assumes cd: "codecOk cd"
  shows "keepsGood cd (CreateText (refRepo cd) title content u tags)"
  unfolding keepsGood_def
proof (intro allI impI)
  fix w assume good: "good cd w"
  show "wp (CreateText (refRepo cd) title content u tags) (\<lambda>_. good cd) (\<lambda>_. good cd) w"
  proof (cases "\<exists>i j rest. ids w = i # j # rest")
    case False
    then consider "ids w = []" | i where "ids w = [i]" by (metis neq_Nil_conv)
    then show ?thesis
    proof cases
      case 1
      then show ?thesis using good by (simp add: CreateText_def wp_simps)
    next
      case 2
      then show ?thesis using good_pop(1) [OF good 2] by (simp add: CreateText_def Let_def wp_simps)
    qed
  next
    case True
    then obtain i j rest where w: "ids w = i # j # rest" by blast
    let ?now = "clock w (ticks w)"
    define x where "x = \<lparr>text_id = i, text_title = title, text_content = content, text_finalized = False,
      text_createdAt = ?now, text_previousTextID = [], text_tags = tags, text_createdBy = u\<rparr>"
    define sub where "sub = \<lparr>sub_userID = u, sub_textID = i, sub_createdAt = ?now\<rparr>"
    define r where "r = newRound j i 1 (clock w (Suc (ticks w)))"
    have g: "good cd (wrote ([PutOp (textKey i) (encText cd x), PutOp (subscriptionKey i u) (encSubscription cd sub),
        PutOp (subscriptionIndexKey u i) (encRaw cd i)] @ roundWrites cd r
        @ map (\<lambda>tag. PutOp (tagIndexKey tag i) (encRaw cd i)) tags) (w\<lparr>ids := rest\<rparr>))"
    proof (rule good_textRound [OF cd good w, of x])
      fix p :: string and m :: "bytes \<Rightarrow> 'a option" assume p: "p \<in> watched" "plainID p"
      show "fam p (foldl wopMap m ([PutOp (textKey i) (encText cd x), PutOp (subscriptionKey i u) (encSubscription cd sub),
        PutOp (subscriptionIndexKey u i) (encRaw cd i)] @ roundWrites cd r
        @ map (\<lambda>tag. PutOp (tagIndexKey tag i) (encRaw cd i)) tags)) =
        fam p (foldl wopMap m (PutOp (textKey i) (encText cd x) # roundWrites cd (newRound j i 1 (clock w (Suc (ticks w))))))"
        using p watched_cases [OF p(1)] by (subst foldl_append, subst foldl_append, subst fam_other)
          (auto simp: fam_roundWrites fam_simps fam_upd_other r_def)
    qed (simp add: x_def)
    then show ?thesis using w by (simp add: CreateText_def Let_def wp_simps x_def sub_def r_def)
  qed
qed

lemma keepsGood_ScheduleRoundClose:
  assumes cd: "codecOk cd"
  shows "keepsGood cd (ScheduleRoundClose (refRepo cd) t at u)"
  unfolding keepsGood_def
proof (intro allI impI)
  fix w assume good: "good cd w"
  have cur: "wp (CurrentRound (refRepo cd) t) Q E w" if "E ErrNotFound w"
    "\<And>x. roundIs cd (fam ''round'' (db w)) x \<Longrightarrow> roundOk cd (fam ''text'' (db w)) (round_id x) x \<Longrightarrow> Q x w" for Q E
    by (rule wp_CurrentRound [OF good]) (use that in auto)
  show "wp (ScheduleRoundClose (refRepo cd) t at u) (\<lambda>_. good cd) (\<lambda>_. good cd) w"
    unfolding ScheduleRoundClose_def wp_bind wp_catch
  proof (rule cur)
    fix r assume r: "roundIs cd (fam ''round'' (db w)) r" "roundOk cd (fam ''text'' (db w)) (round_id r) r"
    let ?r = "r\<lparr>round_scheduledCloseAt := Some at, round_scheduledCloseBy := u\<rparr>"
    have "good cd (wrote [PutOp (roundKey (round_id r)) (encRound cd ?r)] w)"
    proof (rule good_wrote [OF good])
      have "roundOk cd (fam ''text'' (db w)) (round_id r) ?r" using r by (simp add: roundOk_def)
      then show "textInv cd (foldl wopMap (db w) [PutOp (roundKey (round_id r)) (encRound cd ?r)])"
        using round_set [OF cd good_parts(2,3) [OF good] r(1), of ?r] good_parts(1) [OF good] by (simp add: textInv_def fam_simps)
      show "voteInv cd (foldl wopMap (db w) [PutOp (roundKey (round_id r)) (encRound cd ?r)])"
        using good_parts [OF good] by (simp add: voteInv_def fam_simps)
      fix j assume "j \<in> set (ids w)"
      then have j: "freshID cd (db w) j" using good by (simp add: good_def)
      then have "j \<noteq> round_id r" "round_textID r \<noteq> j" "j \<notin> slot_id ` set (round_slots r)"
        using r(1) unfolding freshID_def unused_def roundIs_def by force+
      then show "freshID cd (foldl wopMap (db w) [PutOp (roundKey (round_id r)) (encRound cd ?r)]) j"
        using j by (simp add: freshID_def fam_simps unused_round [OF cd])
    qed
    then show "wp (if round_slots r = [] then raise ErrEmptyRound
       else let round = r\<lparr>round_scheduledCloseAt := Some at, round_scheduledCloseBy := u\<rparr>
            in bindE (storePut (refRepo cd) (roundKey (round_id round)) (encRound (codec (refRepo cd)) round))
                (\<lambda>_. ret round)) (\<lambda>_. good cd) (\<lambda>_. good cd) w"
      using good by (simp add: Let_def wp_simps)
  qed (use good in \<open>simp add: wp_simps\<close>)
qed

lemma good_closing:
  assumes cd: "codecOk cd" and good: "good cd w" and r: "roundIs cd (fam ''round'' (db w)) r"
    "roundOk cd (fam ''text'' (db w)) (round_id r) r"
  shows "good cd (wrote [PutOp (roundKey (round_id r)) (encRound cd (r\<lparr>round_status := RoundStatusClosed, round_closedAt := c\<rparr>)),
    DelOp (currentRoundKey t)] w)" (is "good cd (wrote ?ops w)")
proof (rule good_wrote [OF good])
  let ?r = "r\<lparr>round_status := RoundStatusClosed, round_closedAt := c\<rparr>"
  have "roundOk cd (fam ''text'' (db w)) (round_id r) ?r" using r by (simp add: roundOk_def)
  then show "textInv cd (foldl wopMap (db w) ?ops)"
    using round_set [OF cd good_parts(2,3) [OF good] r(1), of ?r] good_parts(1) [OF good]
    by (simp add: textInv_def fam_simps currentOk_less)
  show "voteInv cd (foldl wopMap (db w) ?ops)"
    using good_parts [OF good] by (simp add: voteInv_def fam_simps)
  fix j assume "j \<in> set (ids w)"
  then have j: "freshID cd (db w) j" using good by (simp add: good_def)
  then have "j \<noteq> round_id r" "round_textID r \<noteq> j" "j \<notin> slot_id ` set (round_slots r)"
    using r(1) unfolding freshID_def unused_def roundIs_def by force+
  then show "freshID cd (foldl wopMap (db w) ?ops) j"
    using j by (simp add: freshID_def fam_simps unused_round [OF cd] unused_current_less)
qed

lemma space_migrateOps: "x \<in> set (migrateOps cd t t' n k) \<Longrightarrow> space (opKey x) \<notin> watched \<or> opKey x = k"
  by (auto simp: migrateOps_def Let_def watched_def)

lemma subscriptionPrefix_form: "subscriptionPrefix t = joined ''subscription'' (joined t [])"
  by (simp add: key_defs joined_def)

text \<open>The batch of \<open>CloseRound\<close>.\<close>

definition closeOps ::
    "'v codec \<Rightarrow> string \<Rightarrow> Text \<Rightarrow> Round \<Rightarrow> 'v wop list \<Rightarrow> time \<Rightarrow> (bytes \<times> 'v) list \<Rightarrow> 'v wop list" where
  "closeOps cd t x r nextOps now subs =
     [PutOp (textKey (text_id x)) (encText cd x), PutOp (roundKey (round_id r)) (encRound cd r),
      DelOp (currentRoundKey t), PutOp (supersededByKey t) (encRaw cd (text_id x))]
     @ nextOps
     @ concat (map (\<lambda>tag. [DelOp (tagIndexKey tag t), PutOp (tagIndexKey tag (text_id x)) (encRaw cd (text_id x))]) (text_tags x))
     @ concat (map (\<lambda>(k, v). migrateOps cd t (text_id x) now k) subs)"

lemma fam_closeOps:
  assumes p: "p \<in> watched" "plainID p" and subs: "\<forall>kv \<in> set subs. space (fst kv) = ''subscription''"
  shows "fam p (foldl wopMap m (closeOps cd t x r ns now subs)) = fam p (foldl wopMap m
    ([PutOp (textKey (text_id x)) (encText cd x), PutOp (roundKey (round_id r)) (encRound cd r), DelOp (currentRoundKey t),
      PutOp (supersededByKey t) (encRaw cd (text_id x))] @ ns))"
proof -
  let ?others = "concat (map (\<lambda>tag. [DelOp (tagIndexKey tag t), PutOp (tagIndexKey tag (text_id x)) (encRaw cd (text_id x))]) (text_tags x))
     @ concat (map (\<lambda>(k, v). migrateOps cd t (text_id x) now k) subs)"
  have "\<forall>y \<in> set ?others. space (opKey y) \<noteq> p"
    using p(1) watched_cases [OF p(1)] subs by (fastforce dest: space_migrateOps)
  then have "fam p (foldl wopMap m (ws @ ?others)) = fam p (foldl wopMap m ws)" for ws
    by (rule fam_append_other [OF p(2)])
  moreover have "closeOps cd t x r ns now subs = ([PutOp (textKey (text_id x)) (encText cd x), PutOp (roundKey (round_id r)) (encRound cd r),
      DelOp (currentRoundKey t), PutOp (supersededByKey t) (encRaw cd (text_id x))] @ ns) @ ?others"
    by (simp add: closeOps_def)
  ultimately show ?thesis by (simp only:)
qed

lemma good_closeOps:
  assumes cd: "codecOk cd" and good: "good cd w" and w: "ids w = i # j # rest" and x: "text_id x = i"
    and r: "roundIs cd (fam ''round'' (db w)) r" "roundOk cd (fam ''text'' (db w)) (round_id r) r"
    and subs: "\<forall>kv \<in> set subs. space (fst kv) = ''subscription''"
  shows "good cd (wrote (closeOps cd t x (r\<lparr>round_status := RoundStatusClosed, round_closedAt := c\<rparr>)
    (roundWrites cd (newRound j i n now')) now subs) (w\<lparr>ids := rest\<rparr>))"
proof (rule good_same)
  let ?r = "r\<lparr>round_status := RoundStatusClosed, round_closedAt := c\<rparr>"
  let ?first = "[PutOp (roundKey (round_id r)) (encRound cd ?r), DelOp (currentRoundKey t)]"
  let ?second = "PutOp (textKey i) (encText cd x) # roundWrites cd (newRound j i n now')"
  have "good cd (wrote ?first w)" by (rule good_closing [OF cd good r])
  then have "good cd (wrote ?second ((wrote ?first w)\<lparr>ids := rest\<rparr>))"
    by (rule good_textRound [OF cd _ _ x]) (simp_all add: w)
  then show "good cd (wrote (?first @ ?second) (w\<lparr>ids := rest\<rparr>))" by (simp only: wrote_append wrote_simps)
  show "refInv (st (w\<lparr>ids := rest\<rparr>))" using good_refInv [OF good] by simp
  fix p :: string assume p: "p \<in> watched" "plainID p"
  have "fam p (foldl wopMap m ([PutOp (textKey (text_id x)) (encText cd x), PutOp (roundKey (round_id ?r)) (encRound cd ?r),
      DelOp (currentRoundKey t), PutOp (supersededByKey t) (encRaw cd (text_id x))] @ roundWrites cd (newRound j i n now')))
      = fam p (foldl wopMap m (?first @ ?second))" for m
    using p(2) watched_cases [OF p(1)] by (simp add: fam_roundWrites fam_simps fam_upd_other x)
  then show "fam p (foldl wopMap (db (w\<lparr>ids := rest\<rparr>)) (closeOps cd t x ?r (roundWrites cd (newRound j i n now')) now subs)) =
      fam p (foldl wopMap (db (w\<lparr>ids := rest\<rparr>)) (?first @ ?second))"
    using fam_closeOps [OF p subs] by simp
qed

lemma keepsGood_CloseRound:
  assumes cd: "codecOk cd"
  shows "keepsGood cd (CloseRound (refRepo cd) t)"
  unfolding keepsGood_def
proof (intro allI impI)
  fix w assume good: "good cd w"
  have cur: "wp (CurrentRound (refRepo cd) t) Q E w" if "E ErrNotFound w"
    "\<And>x. roundIs cd (fam ''round'' (db w)) x \<Longrightarrow> roundOk cd (fam ''text'' (db w)) (round_id x) x \<Longrightarrow> Q x w" for Q E
    by (rule wp_CurrentRound [OF good]) (use that in auto)
  have subs: "\<forall>kv \<in> set (scanned (subscriptionPrefix t) w). space (fst kv) = ''subscription''"
    unfolding subscriptionPrefix_form by (metis plain_spaces(8) prod.collapse space_scanned)
  show "wp (CloseRound (refRepo cd) t) (\<lambda>_. good cd) (\<lambda>_. good cd) w"
    unfolding CloseRound_def wp_bind wp_catch
  proof (rule cur, goal_cases)
    case 1
    then show ?case using good by (simp add: wp_simps)
  next
    case (2 r)
    have closed: "good cd (wrote (closeOps cd t \<lparr>text_id = i, text_title = text_title tx, text_content = content,
        text_finalized = True, text_createdAt = n1, text_previousTextID = text_id tx, text_tags = text_tags tx,
        text_createdBy = text_createdBy tx\<rparr> (r\<lparr>round_status := RoundStatusClosed, round_closedAt := Some n2\<rparr>)
        (roundWrites cd (newRound j i (round_number r + 1) n3)) n2 (scanned (subscriptionPrefix t) w)) (w\<lparr>ids := rest\<rparr>))"
      if "ids w = i # j # rest" for i j rest tx content n1 n2 n3
      by (rule good_closeOps [OF cd good that _ 2 subs]) simp
    have popped: "good cd (w\<lparr>ids := rest\<rparr>)" if "ids w = i # rest" for i rest using good_pop(1) [OF good that] .
    show ?case
      by (auto intro!: wp_readOnlyI [OF readOnly_getText] wp_readOnlyI [OF readOnly_resolveSlots]
            closed [unfolded closeOps_def, simplified]
          simp: wp_simps good popped Let_def split: list.splits option.splits)
  qed
qed

end
