(* ===== verification/Deletion.thy ===== *)
theory Deletion
  imports Voting
begin

text \<open>
  The deleting operations of the repository keep the invariant of the voting domain: what each
  of them removes is characterised by the set of keys it collects, and a set of keys is closed when
  it takes a fragment with its index entry and its votes, and a vote with the choice behind it.
\<close>

section \<open>Deleting\<close>

lemma fam_dels:
  assumes "list_all isDel ws"
  shows "fam p (foldl wopMap m ws) x = (if joined p x \<in> opKey ` set ws then None else fam p m x)"
  using foldl_wopMap_dels [OF assms, of m "joined p x"] by (simp add: fam_def)

text \<open>A batch of deletions keeps the invariant if it takes a fragment with its index entry and its
  votes, and a vote with the choice it belongs to.\<close>

lemma good_deletions:
  assumes good: "good cd w" and dels: "list_all isDel ws" and K: "K = opKey ` set ws"
    and index: "\<And>t s f. inSlot cd (fam ''fragment'' (db w)) t s f \<Longrightarrow> fragmentKey f \<in> K \<longleftrightarrow> fragmentIndexKey t s f \<in> K"
    and choice: "\<And>t s f u. inSlot cd (fam ''fragment'' (db w)) t s f \<Longrightarrow> fam ''vote'' (db w) (joined f u) \<noteq> None \<Longrightarrow>
      voteKey f u \<in> K \<longleftrightarrow> userChoiceKey t s u \<in> K"
    and votes: "\<And>t s f u. inSlot cd (fam ''fragment'' (db w)) t s f \<Longrightarrow> fam ''vote'' (db w) (joined f u) \<noteq> None \<Longrightarrow>
      fragmentKey f \<in> K \<Longrightarrow> voteKey f u \<in> K"
  shows "good cd (wrote ws w)"
proof (rule good_wrote [OF good])
  let ?m = "foldl wopMap (db w) ws"
  have F: "fam p ?m x = (if joined p x \<in> K then None else fam p (db w) x)" for p x using fam_dels [OF dels] K by simp
  have sub: "fam p ?m x = Some v \<Longrightarrow> fam p (db w) x = Some v" for p x v by (simp add: F split: if_splits)
  note parts = good_parts [OF good]
  show "textInv cd ?m"
    unfolding textInv_def
  proof (intro conjI)
    show "textsOk cd (fam ''text'' ?m)" using parts(1) sub unfolding textsOk_def by blast
    show "roundsOk cd (fam ''text'' ?m) (fam ''round'' ?m)" using parts(2) sub unfolding roundsOk_def roundOk_def by meson
    show "currentOk cd (fam ''round'' ?m) (fam ''currentround'' ?m)" using parts(3) sub unfolding currentOk_def by blast
  qed
  have slot: "inSlot cd (fam ''fragment'' ?m) t s f \<longleftrightarrow> inSlot cd (fam ''fragment'' (db w)) t s f \<and> fragmentKey f \<notin> K" for t s f
    by (auto simp: inSlot_def fragAt_def F key_forms)
  show "voteInv cd ?m"
    unfolding voteInv_def
  proof (intro conjI)
    show "fragsOk cd (fam ''fragment'' ?m)" using parts(4) sub unfolding fragsOk_def by blast
    show "indexOk cd (fam ''fragment'' ?m) (fam ''fragmentindex'' ?m)"
    proof (rule indexOkI)
      fix y assume "fam ''fragmentindex'' ?m y \<noteq> None"
      then show "\<exists>t s f. plainID t \<and> plainID s \<and> plainID f \<and> y = joined t (joined s f)"
        using indexOk_form [OF parts(5), of y] by (auto simp: F split: if_splits)
    next
      fix t s f assume "plainID t" "plainID s" "plainID f"
      then show "map_option (decRaw cd) (fam ''fragmentindex'' ?m (joined t (joined s f)))
        = (if inSlot cd (fam ''fragment'' ?m) t s f then Some f else None)"
        using indexOk_at [OF parts(5), of t s f] index [of t s f] by (auto simp: F slot key_forms split: if_splits)
    qed
    show "votesOk cd (fam ''fragment'' ?m) (fam ''vote'' ?m) (fam ''uservote'' ?m)"
    proof (rule votesOkI)
      fix f u assume f: "plainID f" "fam ''vote'' ?m (joined f u) \<noteq> None"
      then have V: "fam ''vote'' (db w) (joined f u) \<noteq> None" "voteKey f u \<notin> K" by (auto simp: F key_forms split: if_splits)
      obtain t s where ts: "voteOf cd (fam ''vote'' (db w)) f u = Some u" "inSlot cd (fam ''fragment'' (db w)) t s f"
        "choiceOf cd (fam ''uservote'' (db w)) t s u = Some f" using votesOk_vote [OF parts(6) f(1) V(1)] by blast
      show "voteOf cd (fam ''vote'' ?m) f u = Some u" using ts(1) V(2) by (simp add: voteOf_def F key_forms)
      have "inSlot cd (fam ''fragment'' ?m) t s f" using ts(2) votes [OF ts(2) V(1)] V(2) by (auto simp: slot)
      moreover have "choiceOf cd (fam ''uservote'' ?m) t s u = Some f"
        using ts(3) choice [OF ts(2) V(1)] V(2) by (simp add: choiceOf_def F key_forms)
      ultimately show "\<exists>t s. inSlot cd (fam ''fragment'' ?m) t s f \<and> choiceOf cd (fam ''uservote'' ?m) t s u = Some f" by blast
    next
      fix t s u f assume a: "plainID t" "plainID s" "choiceOf cd (fam ''uservote'' ?m) t s u = Some f"
      then have old: "choiceOf cd (fam ''uservote'' (db w)) t s u = Some f" "userChoiceKey t s u \<notin> K"
        by (auto simp: choiceOf_def F key_forms split: if_splits)
      then have f: "inSlot cd (fam ''fragment'' (db w)) t s f" "fam ''vote'' (db w) (joined f u) \<noteq> None"
        using votesOk_choice [OF parts(6) a(1,2)] by blast+
      then have "voteKey f u \<notin> K" using choice old(2) by blast
      then show "fam ''vote'' ?m (joined f u) \<noteq> None" using f(2) by (simp add: F key_forms)
      show "inSlot cd (fam ''fragment'' ?m) t s f" using f votes \<open>voteKey f u \<notin> K\<close> by (auto simp: slot)
    qed
  qed
  fix i assume "i \<in> set (ids w)"
  then have u: "unused cd (fam ''text'' (db w)) (fam ''round'' (db w)) (fam ''currentround'' (db w)) (fam ''fragment'' (db w)) i"
    and "plainID i" using good by (simp_all add: good_def freshID_def)
  moreover have "unused cd (fam ''text'' ?m) (fam ''round'' ?m) (fam ''currentround'' ?m) (fam ''fragment'' ?m) i"
  proof (rule unusedI)
    show "fam ''text'' ?m i = None" "fam ''round'' ?m i = None" "fam ''fragment'' ?m i = None"
      using unusedD(1-3) [OF u] by (simp_all add: F)
    show "round_textID x \<noteq> i \<and> i \<notin> slot_id ` set (round_slots x)"
      if "fam ''round'' ?m r = Some v" "decRound cd v = Some x" for r v x
      using unusedD(4,5) [OF u sub [OF that(1)] that(2)] by blast
    show "t \<noteq> i \<and> s \<noteq> i" if "inSlot cd (fam ''fragment'' ?m) t s f" for t s f
      using unusedD(6,7) [OF u] that unfolding slot by blast
    show "decRaw cd c \<noteq> i" if "fam ''currentround'' ?m t = Some c" for t c
      using unusedD(8) [OF u sub [OF that]] .
  qed
  ultimately show "freshID cd ?m i" by (simp add: freshID_def)
qed

lemma suffix_last_part: "plainID u \<Longrightarrow> suffix (CHR ''/'' # u) (a @ CHR ''/'' # x) \<longleftrightarrow> x = u \<or> suffix (CHR ''/'' # u) x"
  by (auto simp: suffix_append suffix_Cons Cons_eq_append_conv plainID_def)

lemma keepsGood_DeleteUserVotes:
  assumes u: "plainID u"
  shows "keepsGood cd (DeleteUserVotes (refRepo cd) u)"
  unfolding keepsGood_def
proof (intro allI impI)
  fix w assume good: "good cd w"
  define suf where "suf = CHR ''/'' # u"
  define ws :: "'a wop list" where "ws = map (\<lambda>(k, v). DelOp k) (filter (\<lambda>(k, v). HasSuffix k suf) (scanned ''vote/'' w))
         @ map (\<lambda>(k, v). DelOp k) (filter (\<lambda>(k, v). HasSuffix k suf) (scanned ''uservote/'' w))"
  have keys: "opKey ` set (map (\<lambda>(k, v). DelOp k) (filter (\<lambda>(k, v). HasSuffix k suf) (scanned p w)))
      = {k. db w k \<noteq> None \<and> HasSuffix k suf \<and> HasPrefix k p}" (is "?l = ?r") for p
  proof -
    have "?l = {k. \<exists>v. (k, v) \<in> set (scanned p w) \<and> HasSuffix k suf}" by force
    then show ?thesis using scanned_iff [OF good_refInv [OF good]] by auto
  qed
  have K: "k \<in> opKey ` set ws \<longleftrightarrow> db w k \<noteq> None \<and> HasSuffix k suf \<and> (HasPrefix k ''vote/'' \<or> HasPrefix k ''uservote/'')" for k
    unfolding ws_def set_append image_Un keys by blast
  have "good cd (wrote ws w)"
  proof (rule good_deletions [OF good _ refl])
    show "list_all isDel ws" by (auto simp: ws_def list_all_iff)
    fix t s f assume f: "inSlot cd (fam ''fragment'' (db w)) t s f"
    have no: "\<not> HasPrefix (fragmentKey f) p" "\<not> HasPrefix (fragmentIndexKey t s f) p" if "p = ''vote/'' \<or> p = ''uservote/''" for p
      using that by (auto simp: HasPrefix_def key_defs)
    then show "fragmentKey f \<in> opKey ` set ws \<longleftrightarrow> fragmentIndexKey t s f \<in> opKey ` set ws" by (simp add: K)
    fix x assume x: "fam ''vote'' (db w) (joined f x) \<noteq> None"
    then have "choiceOf cd (fam ''uservote'' (db w)) t s x = Some f"
      using votesOk_vote [OF good_parts(6) [OF good] _ x] inSlot_plain [OF good_parts(4) [OF good] f] inSlot_unique [OF f] by metis
    then have "db w (userChoiceKey t s x) \<noteq> None" "db w (voteKey f x) \<noteq> None" using x by (auto simp: choiceOf_def fam_get)
    moreover have "HasSuffix (voteKey f x) suf \<longleftrightarrow> x = u \<or> suffix suf x" "HasSuffix (userChoiceKey t s x) suf \<longleftrightarrow> x = u \<or> suffix suf x"
      using suffix_last_part [OF u, of "''vote/'' @ f" x] suffix_last_part [OF u, of "''uservote/'' @ t @ CHR ''/'' # s" x]
      by (simp_all add: HasSuffix_def suf_def key_defs)
    moreover have "HasPrefix (voteKey f x) ''vote/''" "HasPrefix (userChoiceKey t s x) ''uservote/''"
      by (simp_all add: key_defs HasPrefix_def)
    ultimately show "voteKey f x \<in> opKey ` set ws \<longleftrightarrow> userChoiceKey t s x \<in> opKey ` set ws" by (simp add: K)
    show "voteKey f x \<in> opKey ` set ws" if "fragmentKey f \<in> opKey ` set ws" using that no by (simp add: K)
  qed
  then show "wp (DeleteUserVotes (refRepo cd) u) (\<lambda>_. good cd) (\<lambda>_. good cd) w"
    by (simp add: DeleteUserVotes_def Let_def wp_simps ws_def suf_def)
qed

text \<open>A loop that only reads and collects deletions: its result is characterised by the set of their
  keys.\<close>

definition collects :: "'v kvs world \<Rightarrow> ('v kvs, 'v wop list) act \<Rightarrow> 'v wop list \<Rightarrow> bytes set \<Rightarrow> bool" where
  "collects w m ops D \<longleftrightarrow> wp m (\<lambda>ops' w'. w' = w \<and> (list_all isDel ops \<longrightarrow> list_all isDel ops')
     \<and> opKey ` set ops' = opKey ` set ops \<union> D) (\<lambda>e w'. w' = w) w"

lemma collects_bind:
  assumes "collects w m ops D" and "\<And>ops'. collects w (f ops') ops' D'"
  shows "collects w (bindE m f) ops (D \<union> D')"
  unfolding collects_def wp_bind
proof (rule wp_mono [OF assms(1) [unfolded collects_def]])
  fix ops' :: "'a wop list" and w'
  assume a: "w' = w \<and> (list_all isDel ops \<longrightarrow> list_all isDel ops') \<and> opKey ` set ops' = opKey ` set ops \<union> D"
  show "wp (f ops') (\<lambda>ops' w'. w' = w \<and> (list_all isDel ops \<longrightarrow> list_all isDel ops') \<and> opKey ` set ops' = opKey ` set ops \<union> (D \<union> D'))
      (\<lambda>e w'. w' = w) w'"
    using assms(2) [of ops'] a unfolding collects_def by (auto elim!: wp_mono)
qed simp

lemma collects_fold:
  assumes "\<And>x ops. x \<in> set xs \<Longrightarrow> collects w (f x ops) ops (D x)"
  shows "collects w (foldE f xs ops) ops (\<Union>x \<in> set xs. D x)"
  using assms
proof (induction xs arbitrary: ops)
  case Nil
  then show ?case by (simp add: collects_def wp_simps)
next
  case (Cons x xs)
  have "collects w (bindE (f x ops) (foldE f xs)) ops (D x \<union> (\<Union>x \<in> set xs. D x))"
    by (rule collects_bind) (use Cons in auto)
  then show ?case by simp
qed

lemma collects_scan:
  assumes "collects w (f (scanned p w)) ops D"
  shows "collects w (bindE (storeScan (refRepo cd) p) f) ops D"
  using assms by (simp add: collects_def wp_simps)

text \<open>The keys that the loops of the deleting operations collect.\<close>

definition roundKeys :: "'v codec \<Rightarrow> (string \<Rightarrow> bool) \<Rightarrow> 'v kvs world \<Rightarrow> bytes set" where
  "roundKeys cd target w = (\<Union>(k, v) \<in> set (scanned ''round/'' w). case decRound cd v of None \<Rightarrow> {}
     | Some x \<Rightarrow> if target (round_textID x) then {roundKey (round_id x), roundIndexKey (round_textID x) (round_id x)} else {})"

lemma collects_roundDeletions: "collects w (roundDeletions (refRepo cd) target ops) ops (roundKeys cd target w)"
  unfolding roundDeletions_def roundKeys_def
  by (intro collects_scan collects_fold) (auto simp: collects_def wp_simps split: option.split)

definition fragmentKeys :: "'v codec \<Rightarrow> string \<Rightarrow> 'v kvs world \<Rightarrow> bytes set" where
  "fragmentKeys cd t w = (\<Union>(k, v) \<in> set (scanned (''fragmentindex/'' @ t @ ''/'') w).
       {k, fragmentKey (decRaw cd v)} \<union> fst ` set (scanned (votePrefix (decRaw cd v)) w))
     \<union> fst ` set (scanned (''uservote/'' @ t @ ''/'') w)"

lemma opKey_map_DelOp: "opKey ` set (map (\<lambda>(k, v). DelOp k) kvs) = fst ` set kvs"
  by force

lemma isDel_map_DelOp [simp]: "list_all isDel (map (\<lambda>(k, v). DelOp k) kvs)"
  by (auto simp: list_all_iff)

lemma collects_fragmentDeletions: "collects w (fragmentDeletions (refRepo cd) t ops) ops (fragmentKeys cd t w)"
  unfolding fragmentDeletions_def fragmentKeys_def
proof (intro collects_scan collects_bind collects_fold)
  fix x :: "bytes \<times> 'a" and ops :: "'a wop list"
  show "collects w ((case x of (k, v) \<Rightarrow> \<lambda>ops. let fragmentID = decRaw (codec (refRepo cd)) v in
       bindE (storeScan (refRepo cd) (votePrefix fragmentID)) (\<lambda>votes.
       ret (ops @ [DelOp k, DelOp (fragmentKey fragmentID)] @ map (\<lambda>(k, v). DelOp k) votes))) ops) ops
     (case x of (k, v) \<Rightarrow> {k, fragmentKey (decRaw cd v)} \<union> fst ` set (scanned (votePrefix (decRaw cd v)) w))"
    by (cases x) (auto simp: collects_def Let_def wp_simps image_Un opKey_map_DelOp [unfolded set_map])
next
  fix ops :: "'a wop list"
  show "collects w (ret (ops @ map (\<lambda>(k, v). DelOp k) (scanned (''uservote/'' @ t @ ''/'') w))) ops
     (fst ` set (scanned (''uservote/'' @ t @ ''/'') w))"
    by (simp add: collects_def wp_simps image_Un opKey_map_DelOp [unfolded set_map])
qed

lemma in_fst_scanned: "refInv (st w) \<Longrightarrow> k \<in> fst ` set (scanned p w) \<longleftrightarrow> db w k \<noteq> None \<and> HasPrefix k p"
  using scanned_iff [of w k _ p] by (force simp: image_iff)

lemma HasPrefix_joined:
  "HasPrefix (joined a (joined b x)) (a @ CHR ''/'' # b @ ''/'')"
  "plainID a \<Longrightarrow> plainID c \<Longrightarrow> plainID b \<Longrightarrow> plainID d \<Longrightarrow>
    HasPrefix (joined a (joined b x)) (c @ CHR ''/'' # d @ ''/'') \<longleftrightarrow> a = c \<and> b = d"
proof -
  show "HasPrefix (joined a (joined b x)) (a @ CHR ''/'' # b @ ''/'')"
    by (simp add: HasPrefix_def joined_def)
  assume p: "plainID a" "plainID c" "plainID b" "plainID d"
  have "HasPrefix (joined a (joined b x)) (c @ CHR ''/'' # d @ ''/'') \<longleftrightarrow> (\<exists>y. joined a (joined b x) = joined c (joined d y))"
    by (auto simp: HasPrefix_def prefix_def joined_def)
  then show "HasPrefix (joined a (joined b x)) (c @ CHR ''/'' # d @ ''/'') \<longleftrightarrow> a = c \<and> b = d"
    using p by (auto simp: joined_inj)
qed

lemma scan_prefixes:
  "''fragmentindex/'' @ t @ ''/'' = ''fragmentindex'' @ CHR ''/'' # t @ ''/''"
  "''uservote/'' @ t @ ''/'' = ''uservote'' @ CHR ''/'' # t @ ''/''"
  "votePrefix f = ''vote'' @ CHR ''/'' # f @ ''/''"
  by (simp_all add: key_defs)

text \<open>The index entries of a text are those of its fragments.\<close>

lemma indexed_entry:
  assumes good: "good cd w" and t: "plainID t" and kv: "(k, v) \<in> set (scanned (''fragmentindex/'' @ t @ ''/'') w)"
  obtains s f where "k = fragmentIndexKey t s f" and "decRaw cd v = f" and "inSlot cd (fam ''fragment'' (db w)) t s f"
proof -
  have k: "db w k = Some v" "HasPrefix k (''fragmentindex'' @ CHR ''/'' # t @ ''/'')"
    using kv unfolding scanned_iff [OF good_refInv [OF good]] by simp_all
  then obtain y where y: "k = joined ''fragmentindex'' (joined t y)" by (auto simp: HasPrefix_def prefix_def joined_def)
  then have "fam ''fragmentindex'' (db w) (joined t y) = Some v" using k(1) by (simp add: fam_def)
  moreover from this obtain t1 s1 f1 where q: "plainID t1" "plainID s1" "plainID f1" "joined t y = joined t1 (joined s1 f1)"
    using indexOk_form [OF good_parts(5) [OF good], of "joined t y"] by auto
  ultimately show ?thesis
    using indexOk_at [OF good_parts(5) [OF good] q(1-3)] y t that [of s1 f1] by (auto simp: joined_inj key_forms split: if_splits)
qed

lemma indexed_listed:
  assumes good: "good cd w" and i: "inSlot cd (fam ''fragment'' (db w)) t s f"
  shows "\<exists>v. (fragmentIndexKey t s f, v) \<in> set (scanned (''fragmentindex/'' @ t @ ''/'') w) \<and> decRaw cd v = f"
proof -
  obtain v where "db w (fragmentIndexKey t s f) = Some v" "decRaw cd v = f"
    using indexOk_at [OF good_parts(5) [OF good]] inSlot_plain [OF good_parts(4) [OF good] i] i by (fastforce simp: fam_get)
  moreover have "HasPrefix (fragmentIndexKey t s f) (''fragmentindex/'' @ t @ ''/'')"
    by (simp add: HasPrefix_def prefix_def key_defs)
  ultimately show ?thesis unfolding scanned_iff [OF good_refInv [OF good]] by blast
qed

lemma space_scans:
  "refInv (st w) \<Longrightarrow> k \<in> fst ` set (scanned (votePrefix g) w) \<Longrightarrow> space k = ''vote''"
  "refInv (st w) \<Longrightarrow> k \<in> fst ` set (scanned (''uservote/'' @ t @ ''/'') w) \<Longrightarrow> space k = ''uservote''"
  using in_fst_scanned [of w k] space_joined [OF plain_spaces(10)] space_joined [OF plain_spaces(13)]
  by (auto simp: HasPrefix_def prefix_def joined_def key_defs)

text \<open>The votes scanned for a fragment, among the keys of votes of fragments.\<close>

lemma vote_scanned:
  assumes "refInv (st w)" and "plainID f" and "plainID g"
  shows "voteKey f u \<in> fst ` set (scanned (votePrefix g) w) \<longleftrightarrow> g = f \<and> db w (voteKey f u) \<noteq> None"
  unfolding in_fst_scanned [OF assms(1)] scan_prefixes key_forms
  using HasPrefix_joined(2) [OF plain_spaces(10,10) assms(2,3)] by auto

lemma choice_scanned:
  assumes "refInv (st w)" and "plainID t" and "plainID t'"
  shows "userChoiceKey t s u \<in> fst ` set (scanned (''uservote/'' @ t' @ ''/'') w) \<longleftrightarrow> t' = t \<and> db w (userChoiceKey t s u) \<noteq> None"
  unfolding in_fst_scanned [OF assms(1)] scan_prefixes key_forms
  using HasPrefix_joined(2) [OF plain_spaces(13,13) assms(2,3)] by auto

lemma choice_present:
  assumes good: "good cd w" and f: "inSlot cd (fam ''fragment'' (db w)) t s f" and u: "db w (voteKey f u) \<noteq> None"
  shows "map_option (decRaw cd) (db w (userChoiceKey t s u)) = Some f"
proof -
  have "choiceOf cd (fam ''uservote'' (db w)) t s u = Some f"
    using votesOk_vote [OF good_parts(6) [OF good], of f u] inSlot_plain [OF good_parts(4) [OF good] f] inSlot_unique [OF f] u
    unfolding fam_get by metis
  then show ?thesis by (simp add: choiceOf_def fam_get)
qed

lemma keys_differ:
  "fragmentKey f \<noteq> fragmentIndexKey t s g" "fragmentIndexKey t s g \<noteq> fragmentKey f" "voteKey f u \<noteq> fragmentIndexKey t s g"
  "voteKey f u \<noteq> fragmentKey g" "userChoiceKey t s u \<noteq> fragmentIndexKey t' s' g" "userChoiceKey t s u \<noteq> fragmentKey g"
  "userChoiceKey t s u \<noteq> voteKey f u'" "voteKey f u' \<noteq> userChoiceKey t s u"
  by (simp_all add: key_defs)

lemma key_injs:
  "fragmentKey f = fragmentKey g \<longleftrightarrow> f = g"
  "plainID t \<Longrightarrow> plainID t' \<Longrightarrow> plainID s \<Longrightarrow> plainID s' \<Longrightarrow>
    fragmentIndexKey t s f = fragmentIndexKey t' s' g \<longleftrightarrow> t = t' \<and> s = s' \<and> f = g"
  by (simp_all add: key_forms joined_inj)

text \<open>Which keys of fragments, votes and choices the deletion of a text takes: those of its own
  fragments.\<close>

lemma fragmentKeys_iff:
  assumes good: "good cd w" and t: "plainID t" and f: "inSlot cd (fam ''fragment'' (db w)) t' s f"
  shows "fragmentKey f \<in> fragmentKeys cd t w \<longleftrightarrow> t' = t"
    and "fragmentIndexKey t' s f \<in> fragmentKeys cd t w \<longleftrightarrow> t' = t"
    and "db w (voteKey f u) \<noteq> None \<Longrightarrow> voteKey f u \<in> fragmentKeys cd t w \<longleftrightarrow> t' = t"
    and "db w (voteKey f u) \<noteq> None \<Longrightarrow> userChoiceKey t' s u \<in> fragmentKeys cd t w \<longleftrightarrow> t' = t"
proof -
  let ?F = "fam ''fragment'' (db w)" and ?own = "\<lambda>g. \<exists>s. inSlot cd (fam ''fragment'' (db w)) t s g"
  note ref = good_refInv [OF good]
  have p: "plainID t'" "plainID s" "plainID f" using inSlot_plain [OF good_parts(4) [OF good] f] by auto
  have K: "x \<in> fragmentKeys cd t w \<longleftrightarrow> (\<exists>s g. inSlot cd ?F t s g \<and> (x = fragmentIndexKey t s g \<or> x = fragmentKey g
      \<or> x \<in> fst ` set (scanned (votePrefix g) w))) \<or> x \<in> fst ` set (scanned (''uservote/'' @ t @ ''/'') w)" (is "_ = ?r") for x
  proof
    assume x: "x \<in> fragmentKeys cd t w"
    show ?r
    proof (cases "x \<in> fst ` set (scanned (''uservote/'' @ t @ ''/'') w)")
      case False
      then obtain k v where kv: "(k, v) \<in> set (scanned (''fragmentindex/'' @ t @ ''/'') w)"
        "x = k \<or> x = fragmentKey (decRaw cd v) \<or> x \<in> fst ` set (scanned (votePrefix (decRaw cd v)) w)"
        using x unfolding fragmentKeys_def by blast
      obtain s f where "k = fragmentIndexKey t s f" "decRaw cd v = f" "inSlot cd ?F t s f"
        using indexed_entry [OF good t kv(1)] .
      then show ?r using kv(2) by blast
    qed blast
  next
    assume r: ?r
    show "x \<in> fragmentKeys cd t w"
    proof (cases "x \<in> fst ` set (scanned (''uservote/'' @ t @ ''/'') w)")
      case False
      then obtain s g where g: "inSlot cd ?F t s g" "x = fragmentIndexKey t s g \<or> x = fragmentKey g
          \<or> x \<in> fst ` set (scanned (votePrefix g) w)" using r by blast
      then show ?thesis using indexed_listed [OF good g(1)] unfolding fragmentKeys_def by blast
    qed (simp add: fragmentKeys_def)
  qed
  have own: "inSlot cd ?F t s' f \<longleftrightarrow> t' = t \<and> s' = s" for s' using inSlot_unique [OF f] f by metis
  have no_f: "fragmentKey f \<notin> fst ` set (scanned (votePrefix g) w)" "fragmentKey f \<notin> fst ` set (scanned (''uservote/'' @ t @ ''/'') w)" for g
    using space_scans [OF ref, of "fragmentKey f"] by auto
  have no_i: "fragmentIndexKey t' s f \<notin> fst ` set (scanned (votePrefix g) w)"
    "fragmentIndexKey t' s f \<notin> fst ` set (scanned (''uservote/'' @ t @ ''/'') w)" for g
    using space_scans [OF ref, of "fragmentIndexKey t' s f"] by auto
  show "fragmentKey f \<in> fragmentKeys cd t w \<longleftrightarrow> t' = t"
    unfolding K using no_f own keys_differ(1) key_injs(1) by metis
  have "fragmentIndexKey t' s f = fragmentIndexKey t s' g \<longleftrightarrow> t' = t \<and> s = s' \<and> f = g" if "inSlot cd ?F t s' g" for s' g
    using key_injs(2) p t inSlot_plain [OF good_parts(4) [OF good] that] by blast
  then show "fragmentIndexKey t' s f \<in> fragmentKeys cd t w \<longleftrightarrow> t' = t"
    unfolding K using no_i own keys_differ(2) f by metis
  assume u: "db w (voteKey f u) \<noteq> None"
  have "voteKey f u \<notin> fst ` set (scanned (''uservote/'' @ t @ ''/'') w)" using space_scans(2) [OF ref, of "voteKey f u" t] by auto
  moreover have "voteKey f u \<in> fst ` set (scanned (votePrefix g) w) \<longleftrightarrow> g = f" if "inSlot cd ?F t s' g" for s' g
    using vote_scanned [OF ref p(3)] inSlot_plain [OF good_parts(4) [OF good] that] u by blast
  ultimately show "voteKey f u \<in> fragmentKeys cd t w \<longleftrightarrow> t' = t"
    unfolding K using own keys_differ(3,4) by metis
  have "userChoiceKey t' s u \<in> fst ` set (scanned (''uservote/'' @ t @ ''/'') w) \<longleftrightarrow> t' = t"
    using choice_scanned [OF ref p(1) t] choice_present [OF good f u] by auto
  moreover have "userChoiceKey t' s u \<notin> fst ` set (scanned (votePrefix g) w)" for g
    using space_scans(1) [OF ref, of "userChoiceKey t' s u" g] by auto
  ultimately show "userChoiceKey t' s u \<in> fragmentKeys cd t w \<longleftrightarrow> t' = t"
    unfolding K using keys_differ(5,6) by metis
qed

definition votingSpaces :: "string set" where
  "votingSpaces = {''fragment'', ''fragmentindex'', ''vote'', ''uservote''}"

lemma good_textDeletions:
  assumes good: "good cd w" and dels: "list_all isDel ws" and ts: "\<And>t. t \<in> ts \<Longrightarrow> plainID t"
    and K: "opKey ` set ws = (\<Union>t \<in> ts. fragmentKeys cd t w) \<union> B" and B: "\<And>x. x \<in> B \<Longrightarrow> space x \<notin> votingSpaces"
  shows "good cd (wrote ws w)"
proof (rule good_deletions [OF good dels refl])
  have in_K: "x \<in> opKey ` set ws \<longleftrightarrow> (\<exists>t \<in> ts. x \<in> fragmentKeys cd t w)" if "space x \<in> votingSpaces" for x
    using B that unfolding K by blast
  have v: "space (fragmentKey f) \<in> votingSpaces" "space (fragmentIndexKey t s f) \<in> votingSpaces"
    "space (voteKey f u) \<in> votingSpaces" "space (userChoiceKey t s u) \<in> votingSpaces" for t s f u
    by (simp_all add: votingSpaces_def)
  fix t s f assume f: "inSlot cd (fam ''fragment'' (db w)) t s f"
  note iff = fragmentKeys_iff [OF good ts f]
  show "fragmentKey f \<in> opKey ` set ws \<longleftrightarrow> fragmentIndexKey t s f \<in> opKey ` set ws"
    unfolding in_K [OF v(1)] in_K [OF v(2)] using iff(1,2) by blast
  fix u assume "fam ''vote'' (db w) (joined f u) \<noteq> None"
  then have u: "db w (voteKey f u) \<noteq> None" by (simp add: fam_get)
  show "voteKey f u \<in> opKey ` set ws \<longleftrightarrow> userChoiceKey t s u \<in> opKey ` set ws"
    unfolding in_K [OF v(3)] in_K [OF v(4)] using iff(3,4) [OF _ u] by blast
  show "voteKey f u \<in> opKey ` set ws" if "fragmentKey f \<in> opKey ` set ws"
    using that iff(1,3) [OF _ ] u unfolding in_K [OF v(1)] in_K [OF v(3)] by blast
qed

lemma space_roundKeys: "x \<in> roundKeys cd target w \<Longrightarrow> space x \<notin> votingSpaces"
  by (auto simp: roundKeys_def votingSpaces_def split: option.splits if_splits)

lemma space_subs: "kv \<in> set (scanned (subscriptionPrefix t) w) \<Longrightarrow> space (fst kv) = ''subscription''"
  unfolding subscriptionPrefix_form by (metis plain_spaces(8) prod.collapse space_scanned)

text \<open>The keys that the deletion of a text takes.\<close>

definition ownKeys :: "string \<Rightarrow> Text \<Rightarrow> 'v kvs world \<Rightarrow> bytes set" where
  "ownKeys t x w = {textKey t, currentRoundKey t, roundCountKey t, supersededByKey t} \<union> (\<lambda>tag. tagIndexKey tag t) ` set (text_tags x)
     \<union> (\<Union>(k, v) \<in> set (scanned (subscriptionPrefix t) w). {k, subscriptionIndexKey (TrimPrefix k (subscriptionPrefix t)) t})"

definition textKeys :: "'v codec \<Rightarrow> string \<Rightarrow> Text \<Rightarrow> 'v kvs world \<Rightarrow> bytes set" where
  "textKeys cd t x w = ownKeys t x w \<union> roundKeys cd (\<lambda>i. i = t) w \<union> fragmentKeys cd t w"

lemma wp_DeleteText:
  assumes good: "good cd w"
  shows "wp (DeleteText (refRepo cd) t)
     (\<lambda>_ w'. \<exists>v x ws. db w (textKey t) = Some v \<and> decText cd v = Some x \<and> list_all isDel ws
        \<and> opKey ` set ws = textKeys cd t x w \<and> w' = wrote ws w)
     (\<lambda>e w'. e = ErrNotFound \<and> db w (textKey t) = None \<and> w' = w \<or> db w (textKey t) \<noteq> None \<and> w' = w) w" (is "wp _ ?Q ?E w")
proof (cases "db w (textKey t)")
  case None
  then show ?thesis by (simp add: DeleteText_def getText_def wp_simps)
next
  case (Some v)
  obtain x where x: "decText cd v = Some x" by (rule good_textAt [OF good Some])
  define ops :: "'a wop list" where "ops = [DelOp (textKey t), DelOp (currentRoundKey t), DelOp (roundCountKey t),
              DelOp (supersededByKey t)] @ map (\<lambda>tag. DelOp (tagIndexKey tag t)) (text_tags x)"
  define tl where "tl = (concat (map (\<lambda>(k, v). [DelOp k, DelOp (subscriptionIndexKey (TrimPrefix k (subscriptionPrefix t)) t)])
    (scanned (subscriptionPrefix t) w)) :: 'a wop list)"
  have c: "collects w (bindE (roundDeletions (refRepo cd) (\<lambda>i. i = t) ops) (fragmentDeletions (refRepo cd) t)) ops
      (roundKeys cd (\<lambda>i. i = t) w \<union> fragmentKeys cd t w)"
    by (intro collects_bind collects_roundDeletions collects_fragmentDeletions)
  have own: "opKey ` set ops \<union> opKey ` set tl = ownKeys t x w"
    unfolding ownKeys_def ops_def tl_def by (simp add: image_image image_UN case_prod_beta)
  have del: "list_all isDel ops" "list_all isDel tl" by (auto simp: ops_def tl_def list_all_iff)
  have "wp (bindE (bindE (roundDeletions (refRepo cd) (\<lambda>i. i = t) ops) (fragmentDeletions (refRepo cd) t))
      (\<lambda>ops. bindE (storeScan (refRepo cd) (subscriptionPrefix t)) (\<lambda>subscriptions.
      storeBatch (refRepo cd) (ops @ concat (map (\<lambda>(k, v).
        [DelOp k, DelOp (subscriptionIndexKey (TrimPrefix k (subscriptionPrefix t)) t)]) subscriptions))))) ?Q ?E w"
  proof (subst wp_bind, rule wp_mono [OF c [unfolded collects_def]])
    fix ops' :: "'a wop list" and w'
    assume a: "w' = w \<and> (list_all isDel ops \<longrightarrow> list_all isDel ops')
      \<and> opKey ` set ops' = opKey ` set ops \<union> (roundKeys cd (\<lambda>i. i = t) w \<union> fragmentKeys cd t w)"
    have "opKey ` set (ops' @ tl) = textKeys cd t x w"
      unfolding set_append image_Un conjunct2 [OF conjunct2 [OF a]] textKeys_def own [symmetric] by blast
    moreover have "list_all isDel (ops' @ tl)" using a del by simp
    ultimately have "\<exists>v x ws. db w (textKey t) = Some v \<and> decText cd v = Some x \<and> list_all isDel ws
        \<and> opKey ` set ws = textKeys cd t x w \<and> wrote (ops' @ tl) w = wrote ws w" using Some x by blast
    then show "wp (bindE (storeScan (refRepo cd) (subscriptionPrefix t)) (\<lambda>subscriptions.
      storeBatch (refRepo cd) (ops' @ concat (map (\<lambda>(k, v).
        [DelOp k, DelOp (subscriptionIndexKey (TrimPrefix k (subscriptionPrefix t)) t)]) subscriptions)))) ?Q ?E w'"
      using a unfolding wp_bind wp_storeScan wp_storeBatch tl_def by simp
  qed (use Some in simp)
  then show ?thesis using Some x
    by (simp add: DeleteText_def getText_def Let_def wp_bind_fun wp_storeGet wp_orRaise ops_def)
qed

lemma space_ownKeys: "k \<in> ownKeys t x w \<Longrightarrow> space k \<notin> votingSpaces"
proof -
  have "space k \<notin> votingSpaces" if "(a, b) \<in> set (scanned (subscriptionPrefix t) w)"
    "k = a \<or> k = subscriptionIndexKey (TrimPrefix a (subscriptionPrefix t)) t" for a b
    using that(2) space_subs [OF that(1)] by (auto simp: votingSpaces_def)
  then show "space k \<notin> votingSpaces" if "k \<in> ownKeys t x w"
    using that unfolding ownKeys_def by (auto simp: votingSpaces_def)
qed

lemma keepsGood_DeleteText: "keepsGood cd (DeleteText (refRepo cd) t)"
  unfolding keepsGood_def
proof (intro allI impI)
  fix w assume good: "good cd w"
  show "wp (DeleteText (refRepo cd) t) (\<lambda>_. good cd) (\<lambda>_. good cd) w"
  proof (rule wp_mono [OF wp_DeleteText [OF good]])
    fix r w' assume "\<exists>v x ws. db w (textKey t) = Some v \<and> decText cd v = Some x \<and> list_all isDel ws
        \<and> opKey ` set ws = textKeys cd t x w \<and> w' = wrote ws w"
    then obtain v x ws where v: "db w (textKey t) = Some v" and ws: "list_all isDel ws" "opKey ` set ws = textKeys cd t x w" "w' = wrote ws w"
      by blast
    have "plainID t" by (rule good_textAt [OF good v])
    moreover have "opKey ` set ws = (\<Union>t \<in> {t}. fragmentKeys cd t w) \<union> (ownKeys t x w \<union> roundKeys cd (\<lambda>i. i = t) w)"
      unfolding ws(2) textKeys_def by blast
    ultimately show "good cd w'" unfolding ws(3)
      by (intro good_textDeletions [OF good ws(1), where ts = "{t}"]) (auto dest: space_ownKeys space_roundKeys)
  qed (use good in auto)
qed

text \<open>Deleting all texts of a user is the deletion of each of them in one batch. The loop over all
  texts collects the user's.\<close>

definition ownText :: "'v codec \<Rightarrow> string \<Rightarrow> bytes \<times> 'v \<Rightarrow> string list \<times> 'v wop list \<Rightarrow> ('s, string list \<times> 'v wop list) act" where
  "ownText cd u = (\<lambda>(k, v) (targetIDs, ops). bindE (orRaise ErrDecode (decText cd v)) (\<lambda>t.
       ret (if text_createdBy t \<noteq> u then (targetIDs, ops)
            else (targetIDs @ [text_id t],
                  ops @ [DelOp (textKey (text_id t)), DelOp (currentRoundKey (text_id t)),
                         DelOp (roundCountKey (text_id t)), DelOp (supersededByKey (text_id t))]))))"

definition ownTexts :: "string list \<times> 'v wop list \<Rightarrow> bool" where
  "ownTexts r \<longleftrightarrow> list_all plainID (fst r) \<and> list_all isDel (snd r) \<and> (\<forall>k \<in> opKey ` set (snd r). space k \<notin> votingSpaces)"

lemma wp_ownText:
  assumes good: "good cd w"
  shows "wp (foldE (ownText cd u) (scanned textPrefix w) ([], [])) (\<lambda>r w'. w' = w \<and> ownTexts r) (\<lambda>_ w'. w' = w) w"
proof (rule wp_fold [where I = "\<lambda>kvs r w'. w' = w \<and> set kvs \<subseteq> set (scanned textPrefix w) \<and> ownTexts r"])
  fix kv kvs and r :: "string list \<times> 'a wop list" and w'
  assume I: "w' = w \<and> set (kv # kvs) \<subseteq> set (scanned textPrefix w) \<and> ownTexts r"
  obtain k v ts ops where kv: "kv = (k, v)" "r = (ts, ops)" by (metis surj_pair)
  then have "db w k = Some v" "HasPrefix k textPrefix"
    using I scanned_iff [OF good_refInv [OF good], of k v textPrefix] by simp_all
  then obtain t where "db w (textKey t) = Some v" by (auto simp: HasPrefix_def prefix_def key_defs)
  then obtain x where "decText cd v = Some x" "text_id x = t" "plainID t" by (rule good_textAt [OF good])
  then show "wp (ownText cd u kv r) (\<lambda>r' w'. w' = w \<and> set kvs \<subseteq> set (scanned textPrefix w) \<and> ownTexts r') (\<lambda>_ w'. w' = w) w'"
    using I by (simp add: ownText_def kv wp_simps ownTexts_def votingSpaces_def)
qed (auto simp: ownTexts_def)

lemma keepsGood_DeleteUserTexts: "keepsGood cd (DeleteUserTexts (refRepo cd) u)"
  unfolding keepsGood_def
proof (intro allI impI)
  fix w assume good: "good cd w"
  have tail: "wp (bindE (roundDeletions (refRepo cd) (\<lambda>i. i \<in> set ts) ops) (\<lambda>ops.
           bindE (foldE (fragmentDeletions (refRepo cd)) ts ops) (\<lambda>ops.
           bindE (storeBatch (refRepo cd) ops) (\<lambda>_. ret ts)))) (\<lambda>_. good cd) (\<lambda>_. good cd) w"
    if f: "ownTexts (ts, ops)" for ts ops
  proof -
    have c: "collects w (bindE (roundDeletions (refRepo cd) (\<lambda>i. i \<in> set ts) ops) (foldE (fragmentDeletions (refRepo cd)) ts)) ops
        (roundKeys cd (\<lambda>i. i \<in> set ts) w \<union> (\<Union>t \<in> set ts. fragmentKeys cd t w))"
      by (intro collects_bind collects_roundDeletions collects_fold collects_fragmentDeletions)
    have g: "good cd (wrote ops' w)" if "list_all isDel ops'"
      and K: "opKey ` set ops' = opKey ` set ops \<union> (roundKeys cd (\<lambda>i. i \<in> set ts) w \<union> (\<Union>t \<in> set ts. fragmentKeys cd t w))" for ops'
    proof (rule good_textDeletions [OF good that(1), where ts = "set ts" and B = "opKey ` set ops \<union> roundKeys cd (\<lambda>i. i \<in> set ts) w"])
      show "opKey ` set ops' = (\<Union>t \<in> set ts. fragmentKeys cd t w) \<union> (opKey ` set ops \<union> roundKeys cd (\<lambda>i. i \<in> set ts) w)"
        unfolding K by blast
      show "space k \<notin> votingSpaces" if k: "k \<in> opKey ` set ops \<union> roundKeys cd (\<lambda>i. i \<in> set ts) w" for k
        using k f space_roundKeys unfolding ownTexts_def by (elim UnE) auto
      show "plainID t" if "t \<in> set ts" for t using f that by (simp add: ownTexts_def list_all_iff)
    qed
    have "wp (bindE (bindE (roundDeletions (refRepo cd) (\<lambda>i. i \<in> set ts) ops) (foldE (fragmentDeletions (refRepo cd)) ts))
        (\<lambda>ops. bindE (storeBatch (refRepo cd) ops) (\<lambda>_. ret ts))) (\<lambda>_. good cd) (\<lambda>_. good cd) w"
    proof (subst wp_bind, rule wp_mono [OF c [unfolded collects_def]])
      fix ops' :: "'a wop list" and w' assume "w' = w \<and> (list_all isDel ops \<longrightarrow> list_all isDel ops') \<and> opKey ` set ops' = opKey ` set ops
        \<union> (roundKeys cd (\<lambda>i. i \<in> set ts) w \<union> (\<Union>t \<in> set ts. fragmentKeys cd t w))"
      then show "wp (bindE (storeBatch (refRepo cd) ops') (\<lambda>_. ret ts)) (\<lambda>_. good cd) (\<lambda>_. good cd) w'"
        using g [of ops'] f by (simp add: wp_simps ownTexts_def)
    qed (use good in simp)
    then show ?thesis by (simp add: wp_bind_fun)
  qed
  have "wp (bindE (foldE (ownText cd u) (scanned textPrefix w) ([], [])) (\<lambda>(ts, ops). if ts = [] then ret []
      else bindE (roundDeletions (refRepo cd) (\<lambda>i. i \<in> set ts) ops) (\<lambda>ops.
           bindE (foldE (fragmentDeletions (refRepo cd)) ts ops) (\<lambda>ops.
           bindE (storeBatch (refRepo cd) ops) (\<lambda>_. ret ts))))) (\<lambda>_. good cd) (\<lambda>_. good cd) w"
    unfolding wp_bind [of "foldE (ownText cd u) _ _"]
  proof (rule wp_mono [OF wp_ownText [OF good]])
    fix r :: "string list \<times> 'a wop list" and w' assume r: "w' = w \<and> ownTexts r"
    obtain ts ops where "r = (ts, ops)" by (metis surj_pair)
    then show "wp (case r of (ts, ops) \<Rightarrow> if ts = [] then ret []
      else bindE (roundDeletions (refRepo cd) (\<lambda>i. i \<in> set ts) ops) (\<lambda>ops.
           bindE (foldE (fragmentDeletions (refRepo cd)) ts ops) (\<lambda>ops.
           bindE (storeBatch (refRepo cd) ops) (\<lambda>_. ret ts)))) (\<lambda>_. good cd) (\<lambda>_. good cd) w'"
      using r tail [of ts ops] good by (simp add: wp_ret)
  qed (use good in simp)
  then show "wp (DeleteUserTexts (refRepo cd) u) (\<lambda>_. good cd) (\<lambda>_. good cd) w"
    unfolding DeleteUserTexts_def ownText_def mkRepo_simps by (subst wp_bind, subst wp_storeScan)
qed

text \<open>Deleting the fragments of a user: with each of them its votes and the choices behind them.\<close>

definition fragDel :: "'v kvs world \<Rightarrow> Fragment \<Rightarrow> bytes set" where
  "fragDel w x = {fragmentKey (fragment_id x), fragmentIndexKey (fragment_textID x) (fragment_slotID x) (fragment_id x)}
     \<union> (\<Union>u \<in> {u. db w (voteKey (fragment_id x) u) \<noteq> None}.
          {voteKey (fragment_id x) u, userChoiceKey (fragment_textID x) (fragment_slotID x) u})"

lemma collects_fragmentVotes:
  assumes good: "good cd w" and f: "inSlot cd (fam ''fragment'' (db w)) (fragment_textID x) (fragment_slotID x) (fragment_id x)"
  shows "collects w (foldE (fragmentVoteOps (refRepo cd) x) (scanned (votePrefix (fragment_id x)) w) ops) ops
    (\<Union>u \<in> {u. db w (voteKey (fragment_id x) u) \<noteq> None}.
      {voteKey (fragment_id x) u, userChoiceKey (fragment_textID x) (fragment_slotID x) u})"
proof -
  let ?f = "fragment_id x" and ?t = "fragment_textID x" and ?s = "fragment_slotID x"
  note ref = good_refInv [OF good]
  have key: "\<exists>u. k = voteKey ?f u \<and> db w (voteKey ?f u) = Some v" if "(k, v) \<in> set (scanned (votePrefix ?f) w)" for k v
    using that scanned_iff [OF ref, of k v] by (auto simp: HasPrefix_def prefix_def key_defs)
  have user: "TrimPrefix (voteKey ?f u) (votePrefix ?f) = u" for u by (simp add: key_defs TrimPrefix_def)
  have "collects w (foldE (fragmentVoteOps (refRepo cd) x) (scanned (votePrefix ?f) w) ops) ops
      (\<Union>kv \<in> set (scanned (votePrefix ?f) w). {fst kv, userChoiceKey ?t ?s (TrimPrefix (fst kv) (votePrefix ?f))})"
  proof (rule collects_fold)
    fix kv and ops :: "'a wop list" assume kv: "kv \<in> set (scanned (votePrefix ?f) w)"
    obtain k v where "kv = (k, v)" by (cases kv)
    with kv key [of k v] obtain u where u: "kv = (voteKey ?f u, v)" "db w (voteKey ?f u) = Some v" by blast
    have "voteOf cd (fam ''vote'' (db w)) ?f u = Some u"
      using votesOk_vote [OF good_parts(6) [OF good], of ?f u] inSlot_plain [OF good_parts(4) [OF good] f] u(2) by (simp add: fam_get)
    then obtain y where y: "decVote cd v = Some y" "vote_userID y = u" using u(2) by (auto simp: voteOf_def fam_get bind_eq_Some_conv)
    obtain c where "db w (userChoiceKey ?t ?s u) = Some c" "decRaw cd c = ?f" using choice_present [OF good f, of u] u(2) by auto
    then show "collects w (fragmentVoteOps (refRepo cd) x kv ops) ops {fst kv, userChoiceKey ?t ?s (TrimPrefix (fst kv) (votePrefix ?f))}"
      using u y user by (simp add: collects_def fragmentVoteOps_def Let_def wp_simps)
  qed
  moreover have "(\<Union>kv \<in> set (scanned (votePrefix ?f) w). {fst kv, userChoiceKey ?t ?s (TrimPrefix (fst kv) (votePrefix ?f))})
      = (\<Union>u \<in> {u. db w (voteKey ?f u) \<noteq> None}. {voteKey ?f u, userChoiceKey ?t ?s u})" (is "?l = ?r")
  proof
    show "?l \<subseteq> ?r"
    proof (rule UN_least)
      fix kv assume kv: "kv \<in> set (scanned (votePrefix ?f) w)"
      obtain k v where "kv = (k, v)" by (cases kv)
      with kv key [of k v] obtain u where u: "fst kv = voteKey ?f u" "db w (voteKey ?f u) \<noteq> None" by auto
      then show "{fst kv, userChoiceKey ?t ?s (TrimPrefix (fst kv) (votePrefix ?f))} \<subseteq> ?r" unfolding u(1) user by blast
    qed
    have "(voteKey ?f u, v) \<in> set (scanned (votePrefix ?f) w)" if "db w (voteKey ?f u) = Some v" for u v
      using that scanned_iff [OF ref] by (simp add: HasPrefix_def key_defs)
    then have "{voteKey ?f u, userChoiceKey ?t ?s u} \<subseteq> ?l" if "db w (voteKey ?f u) \<noteq> None" for u
      using that user [of u] by force
    then show "?r \<subseteq> ?l" by (intro UN_least) blast
  qed
  ultimately show ?thesis by simp
qed

lemma fragDel_iff:
  assumes good: "good cd w" and f: "inSlot cd (fam ''fragment'' (db w)) t s f"
    and x: "inSlot cd (fam ''fragment'' (db w)) (fragment_textID x) (fragment_slotID x) (fragment_id x)"
  shows "fragmentKey f \<in> fragDel w x \<longleftrightarrow> fragment_id x = f"
    and "fragmentIndexKey t s f \<in> fragDel w x \<longleftrightarrow> fragment_id x = f"
    and "db w (voteKey f u) \<noteq> None \<Longrightarrow> voteKey f u \<in> fragDel w x \<longleftrightarrow> fragment_id x = f"
    and "db w (voteKey f u) \<noteq> None \<Longrightarrow> userChoiceKey t s u \<in> fragDel w x \<longleftrightarrow> fragment_id x = f"
proof -
  let ?x = "fragment_id x"
  have p: "plainID t" "plainID s" "plainID f" "plainID (fragment_textID x)" "plainID (fragment_slotID x)" "plainID ?x"
    using inSlot_plain [OF good_parts(4) [OF good]] f x by blast+
  have same: "fragment_textID x = t \<and> fragment_slotID x = s" if "?x = f" using inSlot_unique [OF f] x that by metis
  show "fragmentKey f \<in> fragDel w x \<longleftrightarrow> ?x = f"
    unfolding fragDel_def using key_injs(1) keys_differ [symmetric] keys_differ by auto
  show "fragmentIndexKey t s f \<in> fragDel w x \<longleftrightarrow> ?x = f"
    unfolding fragDel_def using key_injs(2) [OF p(1,4,2,5)] keys_differ [symmetric] keys_differ same by auto
  have vote: "voteKey f u = voteKey ?x u' \<longleftrightarrow> f = ?x \<and> u = u'" for u' using p by (auto simp: key_forms joined_inj)
  have choice: "userChoiceKey t s u = userChoiceKey (fragment_textID x) (fragment_slotID x) u'
      \<longleftrightarrow> t = fragment_textID x \<and> s = fragment_slotID x \<and> u = u'" for u' using p by (auto simp: key_forms joined_inj)
  assume u: "db w (voteKey f u) \<noteq> None"
  show "voteKey f u \<in> fragDel w x \<longleftrightarrow> ?x = f"
    unfolding fragDel_def using vote u keys_differ [symmetric] keys_differ by auto
  have "f = ?x" if "db w (voteKey ?x u) \<noteq> None" "t = fragment_textID x" "s = fragment_slotID x"
    using choice_present [OF good f u] choice_present [OF good x that(1)] that(2,3) by simp
  then show "userChoiceKey t s u \<in> fragDel w x \<longleftrightarrow> ?x = f"
    unfolding fragDel_def using choice u keys_differ [symmetric] keys_differ same by auto
qed

definition userFragDels :: "'v codec \<Rightarrow> string \<Rightarrow> 'v kvs world \<Rightarrow> bytes \<times> 'v \<Rightarrow> bytes set" where
  "userFragDels cd u w kv = (case decFragment cd (snd kv) of None \<Rightarrow> {}
     | Some x \<Rightarrow> if fragment_authorID x \<noteq> u then {} else fragDel w x)"

lemma keepsGood_DeleteUserFragments: "keepsGood cd (DeleteUserFragments (refRepo cd) u)"
  unfolding keepsGood_def
proof (intro allI impI)
  fix w assume good: "good cd w"
  define step :: "bytes \<times> 'a \<Rightarrow> 'a wop list \<Rightarrow> ('a kvs, 'a wop list) act" where "step = (\<lambda>(k, v) ops.
       bindE (orRaise ErrDecode (decFragment cd v)) (\<lambda>fragment.
       if fragment_authorID fragment \<noteq> u then ret ops
       else bindE (storeScan (refRepo cd) (votePrefix (fragment_id fragment))) (\<lambda>votes.
            foldE (fragmentVoteOps (refRepo cd) fragment) votes
              (ops @ [DelOp (fragmentKey (fragment_id fragment)),
                      DelOp (fragmentIndexKey (fragment_textID fragment) (fragment_slotID fragment) (fragment_id fragment))]))))"
  have stored: "\<exists>x. decFragment cd v = Some x \<and> k = fragmentKey (fragment_id x)
      \<and> inSlot cd (fam ''fragment'' (db w)) (fragment_textID x) (fragment_slotID x) (fragment_id x)"
    if kv: "(k, v) \<in> set (scanned ''fragment/'' w)" for k v
  proof -
    obtain f where "k = fragmentKey f" "db w (fragmentKey f) = Some v"
      using kv scanned_iff [OF good_refInv [OF good], of k v] by (auto simp: HasPrefix_def prefix_def key_defs)
    then show ?thesis using good_fragment [OF good, of f v] by metis
  qed
  have c: "collects w (foldE step (scanned ''fragment/'' w) []) [] (\<Union>kv \<in> set (scanned ''fragment/'' w). userFragDels cd u w kv)"
  proof (rule collects_fold)
    fix kv and ops :: "'a wop list" assume kv: "kv \<in> set (scanned ''fragment/'' w)"
    obtain k v where kv': "kv = (k, v)" by (cases kv)
    then obtain x where x: "decFragment cd v = Some x"
      "inSlot cd (fam ''fragment'' (db w)) (fragment_textID x) (fragment_slotID x) (fragment_id x)" using stored kv by blast
    note votes = collects_fragmentVotes [OF good x(2), of "ops @ [DelOp (fragmentKey (fragment_id x)),
      DelOp (fragmentIndexKey (fragment_textID x) (fragment_slotID x) (fragment_id x))]"]
    show "collects w (step kv ops) ops (userFragDels cd u w kv)"
    proof (cases "fragment_authorID x = u")
      case False
      then show ?thesis using x by (simp add: kv' step_def userFragDels_def collects_def wp_simps)
    next
      case True
      have "collects w (foldE (fragmentVoteOps (refRepo cd) x) (scanned (votePrefix (fragment_id x)) w) (ops @ [DelOp (fragmentKey (fragment_id x)),
        DelOp (fragmentIndexKey (fragment_textID x) (fragment_slotID x) (fragment_id x))])) ops (fragDel w x)"
        unfolding collects_def by (rule wp_mono [OF votes [unfolded collects_def]]) (auto simp: fragDel_def)
      then show ?thesis using x True by (simp add: kv' step_def userFragDels_def collects_def wp_simps)
    qed
  qed
  let ?K = "\<Union>kv \<in> set (scanned ''fragment/'' w). userFragDels cd u w kv"
  define S where "S = {x. \<exists>v. (fragmentKey (fragment_id x), v) \<in> set (scanned ''fragment/'' w) \<and> decFragment cd v = Some x
    \<and> fragment_authorID x = u}"
  have K_eq: "?K = (\<Union>x \<in> S. fragDel w x)"
  proof
    show "?K \<subseteq> (\<Union>x \<in> S. fragDel w x)"
    proof (rule UN_least)
      fix kv assume kv: "kv \<in> set (scanned ''fragment/'' w)"
      obtain k v where kv': "kv = (k, v)" by (cases kv)
      then obtain x where "decFragment cd v = Some x" "k = fragmentKey (fragment_id x)" using stored kv by blast
      then show "userFragDels cd u w kv \<subseteq> (\<Union>x \<in> S. fragDel w x)"
        using kv by (cases "fragment_authorID x = u") (auto simp: S_def userFragDels_def kv')
    qed
    show "(\<Union>x \<in> S. fragDel w x) \<subseteq> ?K" unfolding S_def userFragDels_def by fastforce
  qed
  have slot: "inSlot cd (fam ''fragment'' (db w)) (fragment_textID x) (fragment_slotID x) (fragment_id x)" if "x \<in> S" for x
    using that stored unfolding S_def by fastforce
  have batch: "good cd (wrote ops w)" if dels: "list_all isDel ops" and K: "opKey ` set ops = ?K" for ops
  proof (rule good_deletions [OF good dels refl])
    have mem: "k \<in> opKey ` set ops \<longleftrightarrow> (\<exists>x \<in> S. k \<in> fragDel w x)" for k unfolding K K_eq by blast
    fix t s f assume f: "inSlot cd (fam ''fragment'' (db w)) t s f"
    note iff = fragDel_iff [OF good f slot]
    show "fragmentKey f \<in> opKey ` set ops \<longleftrightarrow> fragmentIndexKey t s f \<in> opKey ` set ops"
      unfolding mem using iff(1,2) by blast
    fix u' assume "fam ''vote'' (db w) (joined f u') \<noteq> None"
    then have u': "db w (voteKey f u') \<noteq> None" by (simp add: fam_get)
    show "voteKey f u' \<in> opKey ` set ops \<longleftrightarrow> userChoiceKey t s u' \<in> opKey ` set ops"
      unfolding mem using iff(3,4) [OF _ u'] by blast
    show "voteKey f u' \<in> opKey ` set ops" if "fragmentKey f \<in> opKey ` set ops"
      using that iff(1) iff(3) [OF _ u'] unfolding mem by blast
  qed
  have "wp (bindE (foldE step (scanned ''fragment/'' w) []) (batchUnlessEmpty (refRepo cd))) (\<lambda>_. good cd) (\<lambda>_. good cd) w"
  proof (subst wp_bind, rule wp_mono [OF c [unfolded collects_def]])
    fix ops' :: "'a wop list" and w'
    assume "w' = w \<and> (list_all isDel [] \<longrightarrow> list_all isDel ops') \<and> opKey ` set ops' = opKey ` set [] \<union> ?K"
    then show "wp (batchUnlessEmpty (refRepo cd) ops') (\<lambda>_. good cd) (\<lambda>_. good cd) w'"
      using batch [of ops'] by (simp add: wp_simps)
  qed (use good in simp)
  then show "wp (DeleteUserFragments (refRepo cd) u) (\<lambda>_. good cd) (\<lambda>_. good cd) w"
    unfolding DeleteUserFragments_def step_def mkRepo_simps by (subst wp_bind, subst wp_storeScan)
qed

end
