(* ===== verification/History.thy ===== *)
theory History
  imports Deletion
begin

text \<open>
  Histories of calls of the repository. A request is a call of one of its methods with the
  arguments; serving a list of requests gives the list of answers and the world left. The laws of
  the simulation and of the invariant are lifted to histories.
\<close>

section \<open>Requests and answers\<close>

datatype request =
    QCreateText string string string "string list"
  | QText string
  | QRecentTexts int int
  | QTextWithSlots string
  | QCurrentRound string
  | QRoundCount string
  | QRoundsForText string
  | QTextChain string
  | QScheduleRoundClose string time string
  | QDueScheduledRounds time
  | QProposeEdit string int int string string
  | QFragments string string
  | QFragment string
  | QCastVote string string
  | QVoteCount string
  | QUserVotes string string
  | QWinningFragment string string
  | QCloseRound string
  | QTextsByTags "string list"
  | QTags
  | QSubscribe string string
  | QUnsubscribe string string
  | QIsSubscribed string string
  | QSubscriptionsForUser string
  | QSubscribersForText string
  | QDeleteText string
  | QDeleteUserTexts string
  | QDeleteUserFragments string
  | QDeleteUserVotes string
  | QDeleteUserSubscriptions string

datatype answer =
    AUnit
  | AText Text
  | ATexts "Text list"
  | ATextWithSlots TextWithSlotsResult
  | ARound Round
  | ARounds "Round list"
  | AInt int
  | ABool bool
  | AFragment Fragment
  | AFragments "Fragment list"
  | AVotes "(string \<times> string) list"
  | AOutcome RoundOutcome
  | ATags "TagCount list"
  | ASubscription Subscription
  | AStrings "string list"

definition answering :: "('a \<Rightarrow> answer) \<Rightarrow> ('s, 'a) act \<Rightarrow> ('s, answer) act" where
  "answering c m = bindE m (\<lambda>x. ret (c x))"

text \<open>\<open>fuel\<close> bounds the two walks of \<open>TextChain\<close>, \<open>lower\<close> is the case table of the labels.\<close>

fun serve :: "nat \<Rightarrow> (rune \<Rightarrow> rune) \<Rightarrow> ('s, 'v) repository \<Rightarrow> request \<Rightarrow> ('s, answer) act" where
  "serve fuel lower R (QCreateText title content u tags) = answering AText (CreateText R title content u tags)"
| "serve fuel lower R (QText t) = answering AText (getText R t)"
| "serve fuel lower R (QRecentTexts n k) = answering ATexts (RecentTexts R n k)"
| "serve fuel lower R (QTextWithSlots t) = answering ATextWithSlots (TextWithSlots R t)"
| "serve fuel lower R (QCurrentRound t) = answering ARound (CurrentRound R t)"
| "serve fuel lower R (QRoundCount t) = answering AInt (RoundCount R t)"
| "serve fuel lower R (QRoundsForText t) = answering ARounds (RoundsForText R t)"
| "serve fuel lower R (QTextChain t) = answering ATexts (TextChain fuel R t)"
| "serve fuel lower R (QScheduleRoundClose t at u) = answering ARound (ScheduleRoundClose R t at u)"
| "serve fuel lower R (QDueScheduledRounds now) = answering ARounds (DueScheduledRounds R now)"
| "serve fuel lower R (QProposeEdit t a b c u) = answering AFragment (ProposeEdit R t a b c u)"
| "serve fuel lower R (QFragments t s) = answering AFragments (Fragments R t s)"
| "serve fuel lower R (QFragment f) = answering AFragment (getFragment R f)"
| "serve fuel lower R (QCastVote f u) = answering (\<lambda>_. AUnit) (CastVote R f u)"
| "serve fuel lower R (QVoteCount f) = answering AInt (VoteCount R f)"
| "serve fuel lower R (QUserVotes t u) = answering AVotes (UserVotes R t u)"
| "serve fuel lower R (QWinningFragment t s) = answering AFragment (WinningFragment R t s)"
| "serve fuel lower R (QCloseRound t) = answering AOutcome (CloseRound R t)"
| "serve fuel lower R (QTextsByTags tags) = answering ATexts (TextsByTags lower R tags)"
| "serve fuel lower R QTags = answering ATags (getTags R)"
| "serve fuel lower R (QSubscribe u t) = answering ASubscription (Subscribe R u t)"
| "serve fuel lower R (QUnsubscribe u t) = answering (\<lambda>_. AUnit) (Unsubscribe R u t)"
| "serve fuel lower R (QIsSubscribed u t) = answering ABool (IsSubscribed R u t)"
| "serve fuel lower R (QSubscriptionsForUser u) = answering AStrings (SubscriptionsForUser R u)"
| "serve fuel lower R (QSubscribersForText t) = answering AStrings (SubscribersForText R t)"
| "serve fuel lower R (QDeleteText t) = answering (\<lambda>_. AUnit) (DeleteText R t)"
| "serve fuel lower R (QDeleteUserTexts u) = answering AStrings (DeleteUserTexts R u)"
| "serve fuel lower R (QDeleteUserFragments u) = answering (\<lambda>_. AUnit) (DeleteUserFragments R u)"
| "serve fuel lower R (QDeleteUserVotes u) = answering (\<lambda>_. AUnit) (DeleteUserVotes R u)"
| "serve fuel lower R (QDeleteUserSubscriptions u) = answering (\<lambda>_. AUnit) (DeleteUserSubscriptions R u)"

fun serveAll :: "nat \<Rightarrow> (rune \<Rightarrow> rune) \<Rightarrow> ('s, 'v) repository \<Rightarrow> request list \<Rightarrow> 's world \<Rightarrow>
    (repoErr + answer) list \<times> 's world" where
  "serveAll fuel lower R [] w = ([], w)"
| "serveAll fuel lower R (q # qs) w =
     (case serve fuel lower R q w of (r, w1) \<Rightarrow> case serveAll fuel lower R qs w1 of (rs, w2) \<Rightarrow> (r # rs, w2))"

definition storeFailed :: "repoErr + answer \<Rightarrow> bool" where
  "storeFailed r \<longleftrightarrow> (case r of Inl (ErrStore e) \<Rightarrow> True | _ \<Rightarrow> False)"

section \<open>The same history over any store\<close>

context KVStore
begin

lemma sim_answering: "sim view sound m m0 \<Longrightarrow> sim view sound (answering c m) (answering c m0)"
  unfolding answering_def by (intro base_intros)

lemma sim_serve: "sim view sound (serve n lower (mkRepo ops cd) q) (serve n lower (mkRepo refOps cd) q)"
  by (cases q)
    (simp_all add: sim_answering sim_CreateText sim_getText sim_RecentTexts sim_TextWithSlots sim_CurrentRound
      sim_RoundCount sim_RoundsForText sim_TextChain sim_ScheduleRoundClose sim_DueScheduledRounds sim_ProposeEdit
      sim_Fragments sim_getFragment sim_CastVote sim_VoteCount sim_UserVotes sim_WinningFragment sim_CloseRound
      sim_TextsByTags sim_getTags sim_Subscribe sim_Unsubscribe sim_IsSubscribed sim_SubscriptionsForUser
      sim_SubscribersForText sim_DeleteText sim_DeleteUserTexts sim_DeleteUserFragments sim_DeleteUserVotes
      sim_DeleteUserSubscriptions)

lemma sim_serveAll:
  assumes "simRel view sound w w0" and "serveAll n lower (mkRepo ops cd) qs w = (rs, w')" and "\<not> list_ex storeFailed rs"
  shows "\<exists>w0'. serveAll n lower (mkRepo refOps cd) qs w0 = (rs, w0') \<and> simRel view sound w' w0'"
  using assms
proof (induction qs arbitrary: w w0 rs)
  case (Cons q qs)
  obtain r w1 where q: "serve n lower (mkRepo ops cd) q w = (r, w1)" by fastforce
  obtain rs1 where qs: "serveAll n lower (mkRepo ops cd) qs w1 = (rs1, w')" "rs = r # rs1"
    using Cons.prems(2) q by (auto split: prod.splits)
  from sim_serve [where n = n and lower = lower and cd = cd and q = q] Cons.prems(1) show ?case
  proof (cases rule: simD)
    case (failed e w2)
    then have "r = Inl (ErrStore e)" using q by simp
    then show ?thesis using Cons.prems(3) qs(2) by (simp add: storeFailed_def)
  next
    case (same r' w2 w0')
    then show ?thesis using Cons.IH [OF same(4)] Cons.prems(3) q qs by auto
  qed
qed auto

end

section \<open>The invariant along a history\<close>

text \<open>An identifier of a user whose votes are deleted holds no slash: the deletion finds the votes
  by the end of their keys.\<close>

definition requestOk :: "request \<Rightarrow> bool" where
  "requestOk q = (case q of QDeleteUserVotes u \<Rightarrow> plainID u | _ \<Rightarrow> True)"

lemma keepsGood_answering: "keepsGood cd m \<Longrightarrow> keepsGood cd (answering c m)"
  by (auto simp: keepsGood_def answering_def wp_bind wp_ret elim!: wp_mono)

lemma keepsGood_CastVote: "codecOk cd \<Longrightarrow> keepsGood cd (CastVote (refRepo cd) f u)"
  by (simp add: keepsGood_def good_CastVote)

lemma keepsGood_serve:
  assumes "codecOk cd" and "requestOk q"
  shows "keepsGood cd (serve n lower (refRepo cd) q)"
  using assms
  by (cases q)
    (simp_all add: requestOk_def keepsGood_answering keepsGood_CreateText keepsGood_ScheduleRoundClose keepsGood_ProposeEdit
      keepsGood_CastVote keepsGood_CloseRound keepsGood_Subscribe keepsGood_Unsubscribe keepsGood_DeleteText
      keepsGood_DeleteUserTexts keepsGood_DeleteUserFragments keepsGood_DeleteUserVotes keepsGood_DeleteUserSubscriptions
      keepsGood_read read_intros)

lemma good_step: "keepsGood cd m \<Longrightarrow> good cd w \<Longrightarrow> m w = (r, w') \<Longrightarrow> good cd w'"
  unfolding keepsGood_def wp_def by (auto split: sum.splits prod.splits)

lemma good_serveAll:
  assumes "codecOk cd" and "list_all requestOk qs" and "good cd w"
  shows "good cd (snd (serveAll n lower (refRepo cd) qs w))"
  using assms(2,3)
proof (induction qs arbitrary: w)
  case (Cons q qs)
  obtain r w1 where q: "serve n lower (refRepo cd) q w = (r, w1)" by fastforce
  have "good cd w1" using good_step [OF keepsGood_serve [OF assms(1)] Cons.prems(2) q] Cons.prems(1) by simp
  then show ?case using Cons.IH [of w1] Cons.prems(1) q by (auto split: prod.splits)
qed simp

text \<open>The start: an empty store and distinct identifiers without a slash, such as the hexadecimal
  ones of \<open>newID\<close>.\<close>

definition freshWorld :: "string list \<Rightarrow> (nat \<Rightarrow> time) \<Rightarrow> 'v kvs world" where
  "freshWorld is c = \<lparr>st = [], ids = is, clock = c, ticks = 0\<rparr>"

lemma good_freshWorld: "distinct is \<Longrightarrow> list_all plainID is \<Longrightarrow> good cd (freshWorld is c)"
  by (auto simp: good_def freshWorld_def refInv_def db_def textInv_def voteInv_def textsOk_def roundsOk_def currentOk_def
      fragsOk_def indexOk_def votesOk_def fam_def choiceOf_def freshID_def unused_def inSlot_def fragAt_def list_all_iff)

end
