(* ===== verification/Closing.thy ===== *)
theory Closing
  imports History
begin

text \<open>
  Closing a round, the operation in which the parts of the domain meet: what \<open>CloseRound\<close> of
  \<open>src/api/queel/repository.go\<close> answers and leaves in the store, for every state that a history of
  calls can reach.
\<close>

section \<open>What the store holds\<close>

definition textOf :: "'v codec \<Rightarrow> 'v kvs world \<Rightarrow> string \<Rightarrow> Text option" where
  "textOf cd w t = Option.bind (db w (textKey t)) (decText cd)"

definition currentRoundOf :: "'v codec \<Rightarrow> 'v kvs world \<Rightarrow> string \<Rightarrow> Round \<Rightarrow> bool" where
  "currentRoundOf cd w t r \<longleftrightarrow> map_option (decRaw cd) (db w (currentRoundKey t)) = Some (round_id r)
     \<and> Option.bind (db w (roundKey (round_id r))) (decRound cd) = Some r"

definition slotFragments :: "'v codec \<Rightarrow> 'v kvs world \<Rightarrow> string \<Rightarrow> string \<Rightarrow> Fragment set" where
  "slotFragments cd w t s = {x. Option.bind (db w (fragmentKey (fragment_id x))) (decFragment cd) = Some x
     \<and> fragment_textID x = t \<and> fragment_slotID x = s}"

definition voters :: "'v kvs world \<Rightarrow> string \<Rightarrow> string set" where
  "voters w f = {u. db w (voteKey f u) \<noteq> None}"

definition votesFor :: "'v kvs world \<Rightarrow> string \<Rightarrow> int" where
  "votesFor w f = int (card (voters w f))"

text \<open>The winner of a slot: most votes, then the earliest, then the smallest identifier.\<close>

definition slotWinner :: "'v codec \<Rightarrow> 'v kvs world \<Rightarrow> string \<Rightarrow> string \<Rightarrow> Fragment \<Rightarrow> bool" where
  "slotWinner cd w t s x \<longleftrightarrow> x \<in> slotFragments cd w t s
     \<and> (\<forall>y \<in> slotFragments cd w t s. rank (x, votesFor w (fragment_id x)) \<le> rank (y, votesFor w (fragment_id y)))"

section \<open>Counting and listing\<close>

lemma wp_VoteCount:
  assumes "refInv (st w)"
  shows "wp (VoteCount (refRepo cd) f) Q E w = Q (votesFor w f) w"
proof -
  have "fst ` set (scanned (votePrefix f) w) = voteKey f ` voters w f"
  proof (rule set_eqI)
    fix k
    have "HasPrefix k (votePrefix f) \<longleftrightarrow> (\<exists>u. k = voteKey f u)" by (auto simp: HasPrefix_def prefix_def key_defs)
    then show "k \<in> fst ` set (scanned (votePrefix f) w) \<longleftrightarrow> k \<in> voteKey f ` voters w f"
      unfolding in_fst_scanned [OF assms] voters_def by blast
  qed
  moreover have "inj (voteKey f)" by (auto simp: inj_def key_forms)
  ultimately have "card (fst ` set (scanned (votePrefix f) w)) = card (voters w f)"
    by (simp add: card_image inj_on_subset)
  moreover have "card (fst ` set (scanned (votePrefix f) w)) = length (scanned (votePrefix f) w)"
    using scanned_keys_distinct [OF assms] by (metis distinct_card length_map set_map)
  ultimately show ?thesis by (simp add: VoteCount_def wp_simps votesFor_def)
qed

lemma indexed_slot_entry:
  assumes good: "good cd w" and p: "plainID t" "plainID s" and kv: "(k, v) \<in> set (scanned (fragmentIndexPrefix t s) w)"
  shows "\<exists>x. decRaw cd v = fragment_id x \<and> x \<in> slotFragments cd w t s"
proof -
  have k: "db w k = Some v" "HasPrefix k (fragmentIndexPrefix t s)"
    using kv unfolding scanned_iff [OF good_refInv [OF good]] by simp_all
  then obtain y where y: "k = fragmentIndexKey t s y" by (auto simp: HasPrefix_def prefix_def key_defs)
  then have X: "fam ''fragmentindex'' (db w) (joined t (joined s y)) = Some v" using k(1) by (simp add: fam_get)
  then obtain t1 s1 f1 where q: "plainID t1" "plainID s1" "plainID f1" "joined t (joined s y) = joined t1 (joined s1 f1)"
    using indexOk_form [OF good_parts(5) [OF good], of "joined t (joined s y)"] by auto
  then have "t1 = t" "s1 = s" "y = f1" using p by (auto simp: joined_inj)
  then have "decRaw cd v = y" "inSlot cd (fam ''fragment'' (db w)) t s y"
    using indexOk_at [OF good_parts(5) [OF good] q(1-3)] X by (auto split: if_splits)
  moreover from this(2) obtain x where "fragAt cd (fam ''fragment'' (db w)) y = Some x" "fragment_textID x = t" "fragment_slotID x = s"
    by (auto simp: inSlot_def)
  moreover from this have "fragment_id x = y" using good_parts(4) [OF good] by (fastforce simp: fragAt_def fragsOk_def bind_eq_Some_conv)
  ultimately show ?thesis by (intro exI [of _ x]) (simp add: slotFragments_def fragAt_def fam_get)
qed

lemma slotFragments_listed:
  assumes good: "good cd w" and x: "x \<in> slotFragments cd w t s"
  shows "\<exists>v. (fragmentIndexKey t s (fragment_id x), v) \<in> set (scanned (fragmentIndexPrefix t s) w) \<and> decRaw cd v = fragment_id x"
proof -
  have i: "inSlot cd (fam ''fragment'' (db w)) t s (fragment_id x)"
    using x by (auto simp: slotFragments_def inSlot_def fragAt_def fam_get)
  obtain v where "db w (fragmentIndexKey t s (fragment_id x)) = Some v" "decRaw cd v = fragment_id x"
    using indexOk_at [OF good_parts(5) [OF good]] inSlot_plain [OF good_parts(4) [OF good] i] i by (fastforce simp: fam_get)
  moreover have "HasPrefix (fragmentIndexKey t s (fragment_id x)) (fragmentIndexPrefix t s)"
    by (simp add: HasPrefix_def key_defs)
  ultimately show ?thesis unfolding scanned_iff [OF good_refInv [OF good]] by blast
qed

lemma slotFragments_eq: "x \<in> slotFragments cd w t s \<Longrightarrow> y \<in> slotFragments cd w t s \<Longrightarrow> fragment_id x = fragment_id y \<Longrightarrow> x = y"
  by (simp add: slotFragments_def)

lemma wp_Fragments:
  assumes good: "good cd w" and p: "plainID t" "plainID s"
    and Q: "\<And>xs. set xs = slotFragments cd w t s \<Longrightarrow> Q xs w"
  shows "wp (Fragments (refRepo cd) t s) Q E w"
proof -
  let ?S = "slotFragments cd w t s" and ?kvs = "scanned (fragmentIndexPrefix t s) w"
  define rem where "rem = (\<lambda>kvs :: (bytes \<times> 'a) list. {x \<in> ?S. fragment_id x \<in> decRaw cd ` snd ` set kvs})"
  have "wp (foldE (\<lambda>(k, v) fragments. bindE (getFragment (refRepo cd) (decRaw cd v)) (\<lambda>fragment. ret (fragments @ [fragment]))) ?kvs []) Q E w"
  proof (rule wp_fold [where I = "\<lambda>kvs xs w'. w' = w \<and> set kvs \<subseteq> set ?kvs \<and> set xs \<union> rem kvs = ?S"])
    have "?S \<subseteq> rem ?kvs" using slotFragments_listed [OF good] unfolding rem_def by force
    then show "w = w \<and> set ?kvs \<subseteq> set ?kvs \<and> set [] \<union> rem ?kvs = ?S" by (auto simp: rem_def)
  next
    fix kv kvs xs w' assume I: "w' = w \<and> set (kv # kvs) \<subseteq> set ?kvs \<and> set xs \<union> rem (kv # kvs) = ?S"
    obtain k v where kv: "kv = (k, v)" by (cases kv)
    then obtain x where x: "decRaw cd v = fragment_id x" "x \<in> ?S" using I indexed_slot_entry [OF good p, of k v] by auto
    then have "rem (kv # kvs) = insert x (rem kvs)" using slotFragments_eq [of _ cd w t s x] by (auto simp: rem_def kv)
    moreover obtain f where "db w (fragmentKey (fragment_id x)) = Some f" "decFragment cd f = Some x"
      using x(2) by (auto simp: slotFragments_def bind_eq_Some_conv)
    ultimately show "wp ((case kv of (k, v) \<Rightarrow> \<lambda>fragments. bindE (getFragment (refRepo cd) (decRaw cd v)) (\<lambda>fragment. ret (fragments @ [fragment]))) xs)
        (\<lambda>xs w'. w' = w \<and> set kvs \<subseteq> set ?kvs \<and> set xs \<union> rem kvs = ?S) E w'"
      using I x(1) by (simp add: kv getFragment_def wp_simps insert_commute)
  next
    fix xs w' assume "w' = w \<and> set [] \<subseteq> set ?kvs \<and> set xs \<union> rem [] = ?S"
    then show "Q xs w'" using Q by (simp add: rem_def)
  qed
  then show ?thesis by (simp add: Fragments_def wp_simps)
qed

lemma wp_WinningFragment:
  assumes good: "good cd w" and p: "plainID t" "plainID s"
    and Q: "\<And>x. slotWinner cd w t s x \<Longrightarrow> Q x w" and E: "slotFragments cd w t s = {} \<Longrightarrow> E ErrNotFound w"
  shows "wp (WinningFragment (refRepo cd) t s) Q E w"
  unfolding WinningFragment_def wp_bind
proof (rule wp_Fragments [OF good p])
  fix xs assume xs: "set xs = slotFragments cd w t s"
  note count = wp_VoteCount [OF good_refInv [OF good]]
  let ?sc = "\<lambda>x. (x, votesFor w (fragment_id x))"
  show "wp (case xs of [] \<Rightarrow> raise ErrNotFound | f # rest \<Rightarrow> bindE (VoteCount (refRepo cd) (fragment_id f)) (\<lambda>votes.
         bindE (foldE (\<lambda>fragment best. bindE (VoteCount (refRepo cd) (fragment_id fragment)) (\<lambda>votes.
           ret (if isBetter (fragment, votes) best then (fragment, votes) else best))) rest (f, votes)) (\<lambda>best. ret (fst best)))) Q E w"
  proof (cases xs)
    case Nil
    then show ?thesis using E xs by (simp add: wp_simps)
  next
    case (Cons f rest)
    have "wp (foldE (\<lambda>fragment best. bindE (VoteCount (refRepo cd) (fragment_id fragment)) (\<lambda>votes.
           ret (if isBetter (fragment, votes) best then (fragment, votes) else best))) rest (?sc f)) (\<lambda>best. Q (fst best)) E w"
    proof (rule wp_fold [where I = "\<lambda>ys best w'. w' = w \<and> set ys \<subseteq> set xs \<and> best \<in> ?sc ` set xs
        \<and> (\<forall>y \<in> set xs - set ys. rank best \<le> rank (?sc y))"])
      show "w = w \<and> set rest \<subseteq> set xs \<and> ?sc f \<in> ?sc ` set xs \<and> (\<forall>y \<in> set xs - set rest. rank (?sc f) \<le> rank (?sc y))"
        using Cons by auto
    next
      fix y ys best w' assume I: "w' = w \<and> set (y # ys) \<subseteq> set xs \<and> best \<in> ?sc ` set xs
        \<and> (\<forall>y \<in> set xs - set (y # ys). rank best \<le> rank (?sc y))"
      define best' where "best' = (if isBetter (?sc y) best then ?sc y else best)"
      have "rank best' \<le> rank (?sc y)" "rank best' \<le> rank best" by (auto simp: best'_def isBetter_rank)
      then have "\<forall>z \<in> set xs - set ys. rank best' \<le> rank (?sc z)"
        using I order_trans by (metis DiffE DiffI set_ConsD)
      then show "wp (bindE (VoteCount (refRepo cd) (fragment_id y)) (\<lambda>votes. ret (if isBetter (y, votes) best then (y, votes) else best)))
          (\<lambda>best w'. w' = w \<and> set ys \<subseteq> set xs \<and> best \<in> ?sc ` set xs \<and> (\<forall>y \<in> set xs - set ys. rank best \<le> rank (?sc y))) E w'"
        using I unfolding wp_bind by (simp add: count wp_simps best'_def)
    next
      fix best w' assume I: "w' = w \<and> set [] \<subseteq> set xs \<and> best \<in> ?sc ` set xs \<and> (\<forall>y \<in> set xs - set []. rank best \<le> rank (?sc y))"
      then show "Q (fst best) w'" using Q xs by (force simp: slotWinner_def)
    qed
    then show ?thesis using Cons by (simp add: wp_bind wp_ret_fun count)
  qed
qed

section \<open>The winners of a round\<close>

definition slotResult :: "'v kvs world \<Rightarrow> (string \<Rightarrow> Fragment) \<Rightarrow> Slot \<Rightarrow> SlotResult" where
  "slotResult w win s = \<lparr>result_slotID = slot_id s, result_fragment = win (slot_id s),
     result_votes = votesFor w (fragment_id (win (slot_id s)))\<rparr>"

lemma distinct_map_split: "distinct (map f (xs @ x # ys)) \<Longrightarrow> y \<in> set xs \<Longrightarrow> f y \<noteq> f x"
  by (induction xs) auto

lemma wp_resolveSlots:
  assumes good: "good cd w" and t: "plainID t" and s: "\<forall>s \<in> set slots. plainID (slot_id s)" "distinct (map slot_id slots)"
    and Q: "\<And>win winners. \<forall>s \<in> set slots. slotWinner cd w t (slot_id s) (win (slot_id s))
        \<and> map_of winners (slot_id s) = Some (win (slot_id s)) \<Longrightarrow> Q (winners, map (slotResult w win) slots) w"
    and E: "\<And>s. s \<in> set slots \<Longrightarrow> slotFragments cd w t (slot_id s) = {} \<Longrightarrow> E ErrNotFound w"
  shows "wp (resolveSlots (refRepo cd) t slots) Q E w"
  unfolding resolveSlots_def
proof (rule wp_fold [where I = "\<lambda>rest b w'. case b of (winners, results) \<Rightarrow> w' = w \<and> (\<exists>fin. slots = fin @ rest \<and> (\<exists>win.
    (\<forall>s \<in> set fin. slotWinner cd w t (slot_id s) (win (slot_id s)) \<and> map_of winners (slot_id s) = Some (win (slot_id s)))
    \<and> results = map (slotResult w win) fin))"])
  fix x rest b w'
  assume I: "case b of (winners, results) \<Rightarrow> w' = w \<and> (\<exists>fin. slots = fin @ x # rest \<and> (\<exists>win.
    (\<forall>s \<in> set fin. slotWinner cd w t (slot_id s) (win (slot_id s)) \<and> map_of winners (slot_id s) = Some (win (slot_id s)))
    \<and> results = map (slotResult w win) fin))"
  obtain winners results where b: "b = (winners, results)" by (cases b)
  then obtain fin win where fin: "w' = w" "slots = fin @ x # rest"
    "\<forall>s \<in> set fin. slotWinner cd w t (slot_id s) (win (slot_id s)) \<and> map_of winners (slot_id s) = Some (win (slot_id s))"
    "results = map (slotResult w win) fin" using I by auto
  have x: "plainID (slot_id x)" using s(1) fin(2) by simp
  have other: "slot_id y \<noteq> slot_id x" if "y \<in> set fin" for y using s(2) that unfolding fin(2) by (rule distinct_map_split)
  show "wp (case b of (winners, results) \<Rightarrow> bindE (WinningFragment (refRepo cd) t (slot_id x)) (\<lambda>winner.
       bindE (VoteCount (refRepo cd) (fragment_id winner)) (\<lambda>votes. ret (AList.update (slot_id x) winner winners,
            results @ [\<lparr>result_slotID = slot_id x, result_fragment = winner, result_votes = votes\<rparr>]))))
     (\<lambda>b w'. case b of (winners, results) \<Rightarrow> w' = w \<and> (\<exists>fin. slots = fin @ rest \<and> (\<exists>win.
    (\<forall>s \<in> set fin. slotWinner cd w t (slot_id s) (win (slot_id s)) \<and> map_of winners (slot_id s) = Some (win (slot_id s)))
    \<and> results = map (slotResult w win) fin))) E w'"
    unfolding b prod.case wp_bind fin(1)
  proof (rule wp_WinningFragment [OF good t x])
    fix f assume f: "slotWinner cd w t (slot_id x) f"
    let ?win = "win(slot_id x := f)"
    have "slots = (fin @ [x]) @ rest" using fin(2) by simp
    moreover have "\<forall>s \<in> set (fin @ [x]). slotWinner cd w t (slot_id s) (?win (slot_id s))
        \<and> map_of (AList.update (slot_id x) f winners) (slot_id s) = Some (?win (slot_id s))"
      using fin(3) f other by (auto simp: update_conv')
    moreover have "results @ [\<lparr>result_slotID = slot_id x, result_fragment = f, result_votes = votesFor w (fragment_id f)\<rparr>]
        = map (slotResult w ?win) (fin @ [x])"
      using fin(4) other by (auto simp: slotResult_def)
    ultimately have post: "\<exists>fin. slots = fin @ rest \<and> (\<exists>win. (\<forall>s \<in> set fin. slotWinner cd w t (slot_id s) (win (slot_id s))
        \<and> map_of (AList.update (slot_id x) f winners) (slot_id s) = Some (win (slot_id s)))
        \<and> results @ [\<lparr>result_slotID = slot_id x, result_fragment = f, result_votes = votesFor w (fragment_id f)\<rparr>]
          = map (slotResult w win) fin)" by blast
    then show "wp (VoteCount (refRepo cd) (fragment_id f)) (\<lambda>votes. wp (ret (AList.update (slot_id x) f winners,
            results @ [\<lparr>result_slotID = slot_id x, result_fragment = f, result_votes = votes\<rparr>]))
       (\<lambda>b w'. case b of (winners, results) \<Rightarrow> w' = w \<and> (\<exists>fin. slots = fin @ rest \<and> (\<exists>win.
    (\<forall>s \<in> set fin. slotWinner cd w t (slot_id s) (win (slot_id s)) \<and> map_of winners (slot_id s) = Some (win (slot_id s)))
    \<and> results = map (slotResult w win) fin))) E) E w"
      unfolding wp_VoteCount [OF good_refInv [OF good]] wp_ret by simp
  qed (use E [of x] fin(2) in simp)
next
  fix b w' assume "case b of (winners, results) \<Rightarrow> w' = w \<and> (\<exists>fin. slots = fin @ [] \<and> (\<exists>win.
    (\<forall>s \<in> set fin. slotWinner cd w t (slot_id s) (win (slot_id s)) \<and> map_of winners (slot_id s) = Some (win (slot_id s)))
    \<and> results = map (slotResult w win) fin))"
  then show "Q b w'" using Q by (cases b) auto
qed simp

section \<open>Closing\<close>

definition isSubscribed :: "'v kvs world \<Rightarrow> string \<Rightarrow> string \<Rightarrow> bool" where
  "isSubscribed w u t \<longleftrightarrow> db w (subscriptionKey t u) \<noteq> None"

text \<open>A batch changes a key to what its last write to the key says.\<close>

lemma foldl_wopMap_unique:
  assumes "x \<in> set ws" and "\<And>y. y \<in> set ws \<Longrightarrow> opKey y = opKey x \<Longrightarrow> y = x"
  shows "foldl wopMap m ws (opKey x) = (case x of PutOp k v \<Rightarrow> Some v | DelOp k \<Rightarrow> None)"
  using assms
proof (induction ws arbitrary: m)
  case (Cons y ws)
  show ?case
  proof (cases "x \<in> set ws")
    case False
    then have "opKey x \<notin> opKey ` set ws" "y = x" using Cons.prems by force+
    then show ?thesis by (cases x) (auto simp: foldl_wopMap_other)
  qed (use Cons in auto)
qed simp

text \<open>What a closing answers and leaves: \<open>tx\<close> is the text, \<open>r\<close> its round, \<open>win\<close> gives the winner of
  each slot and \<open>next\<close> is the round opened on the new version.\<close>

definition closesRound :: "'v codec \<Rightarrow> 'v kvs world \<Rightarrow> string \<Rightarrow> RoundOutcome \<Rightarrow> 'v kvs world \<Rightarrow>
    Text \<Rightarrow> Round \<Rightarrow> (string \<Rightarrow> Fragment) \<Rightarrow> Round \<Rightarrow> bool" where
  "closesRound cd w t out w' tx r win next \<longleftrightarrow>
     (let x = outcome_text out; r' = outcome_round out in
        textOf cd w t = Some tx \<and> currentRoundOf cd w t r \<and> round_slots r \<noteq> []
      \<and> (\<forall>s \<in> set (round_slots r). slotWinner cd w t (slot_id s) (win (slot_id s)))
      \<and> outcome_slots out = map (slotResult w win) (round_slots r)
      \<and> text_content x = spliceSpec (runesOf (text_content tx)) (round_slots r) (\<lambda>s. fragment_content (win s))
      \<and> text_previousTextID x = t \<and> text_finalized x \<and> text_title x = text_title tx \<and> text_tags x = text_tags tx
      \<and> text_createdBy x = text_createdBy tx
      \<and> round_status r' = RoundStatusClosed \<and> round_slots r' = round_slots r \<and> round_id r' = round_id r
      \<and> textOf cd w (text_id x) = None \<and> textOf cd w' (text_id x) = Some x \<and> textOf cd w' t = Some tx
      \<and> Option.bind (db w' (roundKey (round_id r))) (decRound cd) = Some r'
      \<and> db w' (currentRoundKey t) = None
      \<and> map_option (decRaw cd) (db w' (supersededByKey t)) = Some (text_id x)
      \<and> currentRoundOf cd w' (text_id x) next \<and> round_slots next = [] \<and> round_status next = RoundStatusOpen
      \<and> round_number next = round_number r + 1
      \<and> (\<forall>u. isSubscribed w u t \<longrightarrow> isSubscribed w' u (text_id x) \<and> \<not> isSubscribed w' u t))"

lemma closeOps_cases:
  assumes "y \<in> set (closeOps cd t x r (roundWrites cd nx) now subs)"
  obtains (named) "space (opKey y) \<noteq> ''supersededby''" "space (opKey y) \<noteq> ''subscription''"
  | (superseded) "y = PutOp (supersededByKey t) (encRaw cd (text_id x))"
  | (subscriber) k v where "(k, v) \<in> set subs" "y \<in> set (migrateOps cd t (text_id x) now k)"
proof -
  have "y \<in> set [PutOp (textKey (text_id x)) (encText cd x), PutOp (roundKey (round_id r)) (encRound cd r),
      DelOp (currentRoundKey t)] \<or> y = PutOp (supersededByKey t) (encRaw cd (text_id x)) \<or> y \<in> set (roundWrites cd nx)
    \<or> (\<exists>tag. y = DelOp (tagIndexKey tag t) \<or> y = PutOp (tagIndexKey tag (text_id x)) (encRaw cd (text_id x)))
    \<or> (\<exists>(k, v) \<in> set subs. y \<in> set (migrateOps cd t (text_id x) now k))"
    using assms unfolding closeOps_def by auto
  then show ?thesis
  proof (elim disjE exE)
    assume "y \<in> set (roundWrites cd nx)"
    then show ?thesis using named by (auto simp: roundWrites_def)
  qed (use named superseded subscriber in auto)
qed

lemma migrateOps_cases:
  assumes "y \<in> set (migrateOps cd t t' now (subscriptionKey t u))"
  shows "y = DelOp (subscriptionKey t u) \<or> y = PutOp (subscriptionKey t' u)
      (encSubscription cd \<lparr>sub_userID = u, sub_textID = t', sub_createdAt = now\<rparr>) \<or> space (opKey y) = ''subscriptionindex''"
proof -
  have "TrimPrefix (subscriptionKey t u) (subscriptionPrefix t) = u" by (simp add: key_defs TrimPrefix_def)
  then show ?thesis using assms by (auto simp: migrateOps_def Let_def)
qed

lemma opKey_closeOps:
  assumes subs: "\<forall>kv \<in> set subs. \<exists>u. fst kv = subscriptionKey t u" and y: "y \<in> set (closeOps cd t x r (roundWrites cd nx) now subs)"
  shows "space (opKey y) = ''supersededby'' \<Longrightarrow> y = PutOp (supersededByKey t) (encRaw cd (text_id x))"
    and "space (opKey y) = ''subscription'' \<Longrightarrow> \<exists>u. y = DelOp (subscriptionKey t u) \<or> y = PutOp (subscriptionKey (text_id x) u)
      (encSubscription cd \<lparr>sub_userID = u, sub_textID = text_id x, sub_createdAt = now\<rparr>)"
proof -
  have sub: "\<exists>u. y \<in> set (migrateOps cd t (text_id x) now (subscriptionKey t u))"
    if "(k, v) \<in> set subs" "y \<in> set (migrateOps cd t (text_id x) now k)" for k v using that subs by fastforce
  show "y = PutOp (supersededByKey t) (encRaw cd (text_id x))" if "space (opKey y) = ''supersededby''"
    using y
  proof (cases rule: closeOps_cases)
    case (subscriber k v)
    then show ?thesis using sub [OF subscriber] migrateOps_cases that by fastforce
  qed (use that in auto)
  show "\<exists>u. y = DelOp (subscriptionKey t u) \<or> y = PutOp (subscriptionKey (text_id x) u)
      (encSubscription cd \<lparr>sub_userID = u, sub_textID = text_id x, sub_createdAt = now\<rparr>)" if "space (opKey y) = ''subscription''"
    using y
  proof (cases rule: closeOps_cases)
    case (subscriber k v)
    then show ?thesis using sub [OF subscriber] migrateOps_cases that by fastforce
  qed (use that in auto)
qed

lemma closeOps_others:
  assumes subs: "\<forall>kv \<in> set subs. \<exists>u. fst kv = subscriptionKey t u" and p: "plainID t" "plainID (text_id x)" "t \<noteq> text_id x"
  shows "foldl wopMap m (closeOps cd t x r (roundWrites cd nx) now subs) (supersededByKey t) = Some (encRaw cd (text_id x))"
    and "(subscriptionKey t u, v) \<in> set subs \<Longrightarrow> foldl wopMap m (closeOps cd t x r (roundWrites cd nx) now subs) (subscriptionKey t u) = None"
    and "(subscriptionKey t u, v) \<in> set subs \<Longrightarrow>
      foldl wopMap m (closeOps cd t x r (roundWrites cd nx) now subs) (subscriptionKey (text_id x) u) \<noteq> None"
proof -
  let ?ops = "closeOps cd t x r (roundWrites cd nx) now subs"
  let ?sup = "PutOp (supersededByKey t) (encRaw cd (text_id x))"
  let ?new = "\<lambda>u. PutOp (subscriptionKey (text_id x) u) (encSubscription cd \<lparr>sub_userID = u, sub_textID = text_id x, sub_createdAt = now\<rparr>)"
  have "foldl wopMap m ?ops (opKey ?sup) = (case ?sup of PutOp k v \<Rightarrow> Some v | DelOp k \<Rightarrow> None)"
  proof (rule foldl_wopMap_unique)
    show "?sup \<in> set ?ops" by (simp add: closeOps_def)
    show "y = ?sup" if "y \<in> set ?ops" "opKey y = opKey ?sup" for y
      using opKey_closeOps(1) [OF subs that(1)] that(2) by simp
  qed
  then show "foldl wopMap m ?ops (supersededByKey t) = Some (encRaw cd (text_id x))" by simp
  have differ: "subscriptionKey t a \<noteq> subscriptionKey (text_id x) b" for a b using p by (simp add: key_forms joined_inj)
  have inj: "subscriptionKey i a = subscriptionKey i b \<longleftrightarrow> a = b" for i a b by (simp add: key_forms)
  assume uv: "(subscriptionKey t u, v) \<in> set subs"
  have mem: "DelOp (subscriptionKey t u) \<in> set ?ops" "?new u \<in> set ?ops"
  proof -
    have "set (migrateOps cd t (text_id x) now (subscriptionKey t u)) \<subseteq> set ?ops" using uv by (force simp: closeOps_def)
    moreover have "TrimPrefix (subscriptionKey t u) (subscriptionPrefix t) = u" by (simp add: key_defs TrimPrefix_def)
    ultimately show "DelOp (subscriptionKey t u) \<in> set ?ops" "?new u \<in> set ?ops" by (simp_all add: migrateOps_def Let_def)
  qed
  have "foldl wopMap m ?ops (opKey (DelOp (subscriptionKey t u) :: 'a wop)) = None"
  proof (subst foldl_wopMap_unique [OF mem(1)])
    fix y assume y: "y \<in> set ?ops" "opKey y = opKey (DelOp (subscriptionKey t u) :: 'a wop)"
    then obtain a where "y = DelOp (subscriptionKey t a) \<or> y = ?new a" using opKey_closeOps(2) [OF subs y(1)] by auto
    then show "y = DelOp (subscriptionKey t u)" using y(2) differ [of u] differ [of u, symmetric] inj [of t] by auto
  qed simp
  then show "foldl wopMap m ?ops (subscriptionKey t u) = None" by simp
  have "foldl wopMap m ?ops (opKey (?new u)) \<noteq> None"
  proof (subst foldl_wopMap_unique [OF mem(2)])
    fix y assume y: "y \<in> set ?ops" "opKey y = opKey (?new u)"
    then obtain a where "y = DelOp (subscriptionKey t a) \<or> y = ?new a" using opKey_closeOps(2) [OF subs y(1)] by auto
    then show "y = ?new u" using y(2) differ [of a u] differ [of a u, symmetric] inj [of "text_id x"] by auto
  qed simp
  then show "foldl wopMap m ?ops (subscriptionKey (text_id x) u) \<noteq> None" by simp
qed

lemma closes_final:
  assumes cd: "codecOk cd" and good: "good cd w" and w: "ids w = i # j # rest"
    and tx: "textOf cd w t = Some tx" and r: "currentRoundOf cd w t r" "round_slots r \<noteq> []"
    and win: "\<forall>s \<in> set (round_slots r). slotWinner cd w t (slot_id s) (win (slot_id s))"
    and x: "text_id x = i" "text_content x = spliceSpec (runesOf (text_content tx)) (round_slots r) (\<lambda>s. fragment_content (win s))"
      "text_previousTextID x = text_id tx" "text_finalized x" "text_title x = text_title tx" "text_tags x = text_tags tx"
      "text_createdBy x = text_createdBy tx"
    and r': "r' = r\<lparr>round_status := RoundStatusClosed, round_closedAt := c\<rparr>" and nx: "nx = newRound j i (round_number r + 1) n"
    and w': "db w' = foldl wopMap (db w) (closeOps cd t x r' (roundWrites cd nx) now (scanned (subscriptionPrefix t) w))"
  shows "closesRound cd w t \<lparr>outcome_round = r', outcome_text = x, outcome_slots = map (slotResult w win) (round_slots r)\<rparr> w' tx r win nx"
proof -
  let ?subs = "scanned (subscriptionPrefix t) w" and ?m = "db w"
  note ref = good_refInv [OF good]
  obtain v where v: "db w (textKey t) = Some v" "decText cd v = Some tx" using tx by (auto simp: textOf_def bind_eq_Some_conv)
  then obtain "text_id tx = t" "plainID t" using good_textAt [OF good v(1)] by auto
  have fresh: "freshID cd (db w) i" "freshID cd (db w) j" "i \<noteq> j" using good w by (auto simp: good_def)
  then have i: "plainID i" "fam ''text'' (db w) i = None" by (simp_all add: freshID_def unused_def)
  have "i \<noteq> t" using i(2) v(1) by (auto simp: fam_get)
  have "j \<noteq> round_id r" using fresh(2) r(1) by (auto simp: freshID_def unused_def currentRoundOf_def fam_get bind_eq_Some_conv)
  have sub: "\<exists>u. fst kv = subscriptionKey t u" if "kv \<in> set ?subs" for kv
  proof -
    obtain k v where "kv = (k, v)" by (cases kv)
    then show ?thesis using that scanned_iff [OF ref, of k v "subscriptionPrefix t"] by (auto simp: HasPrefix_def prefix_def key_defs)
  qed
  then have space: "\<forall>kv \<in> set ?subs. space (fst kv) = ''subscription''" by fastforce
  have fams: "fam p (db w') = (if p = ''text'' then (fam p ?m)(i \<mapsto> encText cd x)
      else if p = ''round'' then (fam p ?m)(round_id r \<mapsto> encRound cd r', j \<mapsto> encRound cd nx)
      else if p = ''currentround'' then (fam p ?m)(t := None, i \<mapsto> encRaw cd j) else fam p ?m)"
    if "p \<in> watched" "plainID p" for p
    unfolding w' fam_closeOps [OF that space]
    using that(2) watched_cases [OF that(1)] by (simp add: fam_roundWrites fam_simps fam_upd_other x(1) r' nx)
  have in_text: "fam ''text'' (db w') = (fam ''text'' ?m)(i \<mapsto> encText cd x)"
    and in_round: "fam ''round'' (db w') = (fam ''round'' ?m)(round_id r \<mapsto> encRound cd r', j \<mapsto> encRound cd nx)"
    and in_current: "fam ''currentround'' (db w') = (fam ''currentround'' ?m)(t := None, i \<mapsto> encRaw cd j)"
    using fams by (simp_all add: watched_def)
  have sup: "db w' (supersededByKey t) = Some (encRaw cd i)"
    unfolding w' using closeOps_others(1) [of ?subs t x] sub \<open>plainID t\<close> i(1) \<open>i \<noteq> t\<close> x(1) by simp
  have moved: "isSubscribed w' u i \<and> \<not> isSubscribed w' u t" if u: "isSubscribed w u t" for u
  proof -
    have "HasPrefix (subscriptionKey t u) (subscriptionPrefix t)" by (simp add: HasPrefix_def key_defs)
    then obtain y where "(subscriptionKey t u, y) \<in> set ?subs"
      using u unfolding isSubscribed_def scanned_iff [OF ref] by auto
    then show ?thesis unfolding isSubscribed_def w'
      using closeOps_others(2,3) [of ?subs t x] sub \<open>plainID t\<close> i(1) \<open>i \<noteq> t\<close> x(1) by auto
  qed
  show ?thesis
    using tx r win x i(2) \<open>i \<noteq> t\<close> \<open>j \<noteq> round_id r\<close> \<open>text_id tx = t\<close> sup moved v
    by (simp add: closesRound_def Let_def textOf_def currentRoundOf_def fam_get in_text in_round in_current codec_eqs [OF cd] r' nx)
qed

text \<open>The errors of a closing and when they are met.\<close>

definition closeFails :: "'v codec \<Rightarrow> 'v kvs world \<Rightarrow> string \<Rightarrow> repoErr \<Rightarrow> bool" where
  "closeFails cd w t e \<longleftrightarrow>
     e = ErrNoOpenRound \<and> (\<nexists>r. currentRoundOf cd w t r)
   \<or> e = ErrEmptyRound \<and> (\<exists>r. currentRoundOf cd w t r \<and> round_slots r = [])
   \<or> e = ErrNotFound \<and> (textOf cd w t = None
       \<or> (\<exists>r s. currentRoundOf cd w t r \<and> s \<in> set (round_slots r) \<and> slotFragments cd w t (slot_id s) = {}))
   \<or> e = ErrRand \<and> length (ids w) < 2"

lemma wp_CloseRound:
  assumes cd: "codecOk cd" and good: "good cd w"
  shows "wp (CloseRound (refRepo cd) t) (\<lambda>out w'. \<exists>tx r win nx. closesRound cd w t out w' tx r win nx)
    (\<lambda>e w'. closeFails cd w t e \<and> db w' = db w) w" (is "wp _ ?Q ?E w")
  unfolding CloseRound_def wp_bind wp_catch
proof (rule wp_CurrentRound_cases [OF good], goal_cases)
  case (1 r)
  have r: "currentRoundOf cd w t r" using 1(1,4) by (auto simp: currentRoundOf_def roundIs_def fam_get)
  show ?case
  proof (cases "round_slots r = []")
    case True
    then show ?thesis using r by (auto simp: wp_simps closeFails_def)
  next
    case False
    show ?thesis
    proof (cases "db w (textKey t)")
      case None
      then show ?thesis using False by (simp add: getText_def wp_simps closeFails_def textOf_def)
    next
      case (Some v)
      obtain tx where tx: "decText cd v = Some tx" "text_id tx = t" "plainID t" by (rule good_textAt [OF good Some])
      have ok: "slotsOk (int (length (runesOf (text_content tx)))) (round_slots r)" "\<forall>s \<in> set (round_slots r). plainID (slot_id s)"
        using 1(2,3) Some tx by (auto simp: roundOk_def fam_get)
      have dist: "distinct (map slot_id (round_slots r))" using ok(1) by (simp add: slotsOk_def)
      define K where "K = (\<lambda>(winners, slotResults). bindE newID (\<lambda>newTextID.
     bindE (orRaise ErrPanic (spliceContent (text_content tx) (round_slots r) winners)) (\<lambda>content.
     bindE timeNow (\<lambda>created. bindE timeNow (\<lambda>now.
     let newText = \<lparr>text_id = newTextID, text_title = text_title tx, text_content = content,
                    text_finalized = True, text_createdAt = created, text_previousTextID = text_id tx,
                    text_tags = text_tags tx, text_createdBy = text_createdBy tx\<rparr>;
         round' = r\<lparr>round_status := RoundStatusClosed, round_closedAt := Some now\<rparr>
     in bindE (openRoundOps cd newTextID (round_number r + 1)) (\<lambda>(nextRoundOps, _).
        bindE (storeScan (refRepo cd) (subscriptionPrefix t)) (\<lambda>subscribers.
        bindE (storeBatch (refRepo cd) (closeOps cd t newText round' nextRoundOps now subscribers)) (\<lambda>_.
           ret \<lparr>outcome_round = round', outcome_text = newText, outcome_slots = slotResults\<rparr>))))))))"
      have "wp (resolveSlots (refRepo cd) t (round_slots r)) (\<lambda>b. wp (K b) ?Q ?E) ?E w"
      proof (rule wp_resolveSlots [OF good tx(3) ok(2) dist])
        fix win winners
        assume win: "\<forall>s \<in> set (round_slots r). slotWinner cd w t (slot_id s) (win (slot_id s))
          \<and> map_of winners (slot_id s) = Some (win (slot_id s))"
        have content: "spliceContent (text_content tx) (round_slots r) winners
            = Some (spliceSpec (runesOf (text_content tx)) (round_slots r) (\<lambda>s. fragment_content (win s)))"
          by (rule spliceContent_ok [OF ok(1)]) (use win in auto)
        have win': "\<forall>s \<in> set (round_slots r). slotWinner cd w t (slot_id s) (win (slot_id s))" using win by simp
        have tx': "textOf cd w t = Some tx" using Some tx by (simp add: textOf_def)
        show "wp (K (winners, map (slotResult w win) (round_slots r))) ?Q ?E w"
          unfolding K_def using content
          by (auto simp: wp_simps Let_def db_wrote [OF good_refInv [OF good]] closeFails_def split: list.split
              intro!: exI closes_final [OF cd good _ tx' r False win'])
      qed (use r in \<open>auto simp: closeFails_def\<close>)
      then show ?thesis using False Some tx
        by (simp add: K_def getText_def Let_def wp_bind_fun wp_storeGet wp_orRaise split_def closeOps_def)
    qed
  qed
next
  case 2
  then have "\<nexists>r. currentRoundOf cd w t r" by (auto simp: currentRoundOf_def)
  then show ?case by (simp add: wp_simps closeFails_def)
qed

end
