(* ===== verification/Domain.thy ===== *)
theory Domain
  imports Closing
begin

text \<open>
  The properties of the voting domain, for every state that a history of calls reaches from an
  empty store (\<open>reachable\<close>), and that such histories run on the storage engine as they do on the
  reference store.
\<close>

definition reachable :: "'v codec \<Rightarrow> 'v kvs world \<Rightarrow> bool" where
  "reachable cd w \<longleftrightarrow> (\<exists>n lower is c qs. distinct is \<and> list_all plainID is \<and> list_all requestOk qs
     \<and> w = snd (serveAll n lower (refRepo cd) qs (freshWorld is c)))"

lemma reachable_good: "codecOk cd \<Longrightarrow> reachable cd w \<Longrightarrow> good cd w"
  unfolding reachable_def using good_serveAll good_freshWorld by blast

text \<open>A small history: a text, an edit of it and three votes.\<close>

definition demoHistory :: "request list" where
  "demoHistory = [QCreateText ''T'' ''hello'' ''u'' [], QProposeEdit ''a'' 0 2 ''J'' ''v'', QCastVote ''e'' ''u'',
     QCastVote ''d'' ''v'', QCastVote ''e'' ''v'']"

definition demoStart :: "payload kvs world" where
  "demoStart = freshWorld [''a'', ''b'', ''c'', ''d'', ''e'', ''f'', ''g'', ''h''] int"

definition demoWorld :: "payload kvs world" where
  "demoWorld = snd (serveAll 5 asciiLower (refRepo payloadCodec) demoHistory demoStart)"

lemma demo_reachable: "reachable payloadCodec demoWorld"
proof -
  have "distinct [''a'', ''b'', ''c'', ''d'', ''e'', ''f'', ''g'', ''h'']" by simp
  moreover have "list_all plainID [''a'', ''b'', ''c'', ''d'', ''e'', ''f'', ''g'', ''h'']" by (simp add: plainID_def)
  moreover have "list_all requestOk demoHistory" by (simp add: demoHistory_def requestOk_def)
  ultimately show ?thesis unfolding reachable_def demoWorld_def demoStart_def by blast
qed


lemma payload_codec [simp]: "codec (refRepo payloadCodec) = payloadCodec"
  by simp

section \<open>One vote per slot\<close>

lemma slot_member:
  assumes "good cd w" and "x \<in> slotFragments cd w t s"
  shows "inSlot cd (fam ''fragment'' (db w)) t s (fragment_id x)" "plainID t" "plainID s" "plainID (fragment_id x)"
proof -
  show i: "inSlot cd (fam ''fragment'' (db w)) t s (fragment_id x)"
    using assms(2) by (auto simp: slotFragments_def inSlot_def fragAt_def fam_get)
  show "plainID t" "plainID s" "plainID (fragment_id x)"
    using inSlot_plain [OF good_parts(4) [OF assms(1)] i] by auto
qed

lemma voter_choice:
  assumes good: "good cd w" and x: "x \<in> slotFragments cd w t s"
  shows "u \<in> voters w (fragment_id x) \<longleftrightarrow> map_option (decRaw cd) (db w (userChoiceKey t s u)) = Some (fragment_id x)"
  using choice_present [OF good slot_member(1) [OF good x], of u]
    votesOk_choice [OF good_parts(6) [OF good] slot_member(2,3) [OF good x], of u "fragment_id x"]
  by (auto simp: voters_def choiceOf_def fam_get)

lemma finite_db: "finite (dom (db w))"
  by (simp add: db_def finite_dom_map_of)

lemma finite_voters: "finite (voters w f)"
proof -
  have "voteKey f ` voters w f \<subseteq> dom (db w)" by (auto simp: voters_def)
  moreover have "inj (voteKey f)" by (auto simp: inj_def key_forms)
  ultimately show ?thesis using finite_db finite_subset finite_imageD inj_on_subset by (metis subset_UNIV)
qed

lemma finite_slotFragments: "finite (slotFragments cd w t s)"
proof -
  have "inj_on (\<lambda>x. fragmentKey (fragment_id x)) (slotFragments cd w t s)"
    by (auto simp: inj_on_def key_injs(1) intro: slotFragments_eq)
  moreover have "(\<lambda>x. fragmentKey (fragment_id x)) ` slotFragments cd w t s \<subseteq> dom (db w)"
    by (auto simp: slotFragments_def bind_eq_Some_conv)
  ultimately show ?thesis using finite_db finite_subset finite_imageD by metis
qed

lemma chosen_voters:
  assumes good: "good cd w" and p: "plainID t" "plainID s"
  shows "{u. db w (userChoiceKey t s u) \<noteq> None} = (\<Union>x \<in> slotFragments cd w t s. voters w (fragment_id x))"
proof (rule set_eqI)
  fix u
  show "u \<in> {u. db w (userChoiceKey t s u) \<noteq> None} \<longleftrightarrow> u \<in> (\<Union>x \<in> slotFragments cd w t s. voters w (fragment_id x))"
  proof
    assume "u \<in> {u. db w (userChoiceKey t s u) \<noteq> None}"
    then obtain c where c: "db w (userChoiceKey t s u) = Some c" by auto
    then have "choiceOf cd (fam ''uservote'' (db w)) t s u = Some (decRaw cd c)" by (simp add: choiceOf_def fam_get)
    then obtain x where "fragAt cd (fam ''fragment'' (db w)) (decRaw cd c) = Some x" "fragment_textID x = t" "fragment_slotID x = s"
      and v: "fam ''vote'' (db w) (joined (decRaw cd c) u) \<noteq> None"
      using votesOk_choice [OF good_parts(6) [OF good] p] by (auto simp: inSlot_def)
    moreover from this have "fragment_id x = decRaw cd c"
      using good_parts(4) [OF good] by (fastforce simp: fragAt_def fragsOk_def bind_eq_Some_conv)
    ultimately have "x \<in> slotFragments cd w t s" "u \<in> voters w (fragment_id x)"
      by (simp_all add: slotFragments_def fragAt_def fam_get voters_def)
    then show "u \<in> (\<Union>x \<in> slotFragments cd w t s. voters w (fragment_id x))" by blast
  next
    assume "u \<in> (\<Union>x \<in> slotFragments cd w t s. voters w (fragment_id x))"
    then obtain x where "x \<in> slotFragments cd w t s" "u \<in> voters w (fragment_id x)" by auto
    then show "u \<in> {u. db w (userChoiceKey t s u) \<noteq> None}" using voter_choice [OF good] by fastforce
  qed
qed

text \<open>C2: After any history of calls of the repository a user has at most one vote in a slot, and the votes
  of a slot's fragments add up to the number of users who made a choice in it; but the history must not
  delete the votes of a user whose identifier contains a slash (\<open>requestOk\<close>): that deletion can take
  the choice of another user and leave the vote. Texts and slots have identifiers without a slash, as
  all that \<open>newID\<close> makes.\<close>

theorem one_vote_per_slot:
  assumes "codecOk cd" and "reachable cd w" and "plainID t" and "plainID s"
  shows "(\<Sum>x \<in> slotFragments cd w t s. votesFor w (fragment_id x)) = int (card {u. db w (userChoiceKey t s u) \<noteq> None})
    \<and> (\<forall>x y u. x \<in> slotFragments cd w t s \<longrightarrow> y \<in> slotFragments cd w t s \<longrightarrow>
        u \<in> voters w (fragment_id x) \<longrightarrow> u \<in> voters w (fragment_id y) \<longrightarrow> x = y)"
proof -
  note good = reachable_good [OF assms(1,2)]
  have one: "x = y" if "x \<in> slotFragments cd w t s" "y \<in> slotFragments cd w t s"
      "u \<in> voters w (fragment_id x)" "u \<in> voters w (fragment_id y)" for x y u
    using that voter_choice [OF good] by (auto intro: slotFragments_eq)
  have "card (\<Union>x \<in> slotFragments cd w t s. voters w (fragment_id x)) = (\<Sum>x \<in> slotFragments cd w t s. card (voters w (fragment_id x)))"
    by (rule card_UN_disjoint) (use one finite_voters finite_slotFragments in auto)
  then show ?thesis unfolding chosen_voters [OF good assms(3,4)] votesFor_def using one by auto
qed

theorem one_vote_per_slot_witness:
  "(\<Sum>x \<in> slotFragments payloadCodec demoWorld ''a'' ''c''. votesFor demoWorld (fragment_id x))
    = int (card {u. db demoWorld (userChoiceKey ''a'' ''c'' u) \<noteq> None}) \<and> db demoWorld (voteKey ''e'' ''v'') \<noteq> None"
proof -
  have "plainID ''a''" "plainID ''c''" by (simp_all add: plainID_def)
  moreover have "db demoWorld (voteKey ''e'' ''v'') \<noteq> None" by code_simp
  ultimately show ?thesis using one_vote_per_slot [OF payloadCodec_ok demo_reachable, of "''a''" "''c''"] by simp
qed

section \<open>Casting a vote\<close>

lemma voteKey_eq: "plainID f \<Longrightarrow> plainID g \<Longrightarrow> voteKey f u = voteKey g a \<longleftrightarrow> f = g \<and> u = a"
  by (simp add: key_forms joined_inj)

text \<open>C3: A vote that is accepted is for a stored fragment, counts for it, and is taken from whatever
  other fragment of the slot the user had voted for; every other vote stays.\<close>

theorem cast_vote_moves:
  assumes "codecOk cd" and "reachable cd w" and "CastVote (refRepo cd) f u w = (Inr r, w')"
  shows "\<exists>x. fragment_id x = f \<and> x \<in> slotFragments cd w (fragment_textID x) (fragment_slotID x)
    \<and> (\<forall>t s. slotFragments cd w' t s = slotFragments cd w t s)
    \<and> (\<forall>t s y. y \<in> slotFragments cd w t s \<longrightarrow> voters w' (fragment_id y) =
        (if y = x then insert u (voters w f)
         else if t = fragment_textID x \<and> s = fragment_slotID x then voters w (fragment_id y) - {u}
         else voters w (fragment_id y)))"
proof -
  note good = reachable_good [OF assms(1,2)]
  obtain v where v: "db w (fragmentKey f) = Some v"
    using assms(3) by (cases "db w (fragmentKey f)")
      (simp_all add: CastVote_def getFragment_def bindE_def raise_def storeGet_def refOps_def db_def)
  obtain x where x: "decFragment cd v = Some x" "fragment_id x = f" "plainID f" "plainID (fragment_textID x)" "plainID (fragment_slotID x)"
    by (rule good_fragment [OF good v])
  let ?t = "fragment_textID x" and ?s = "fragment_slotID x"
  have mem: "x \<in> slotFragments cd w ?t ?s" using v x by (simp add: slotFragments_def)
  define old where "old = map_option (decRaw cd) (db w (userChoiceKey ?t ?s u))"
  have plain_old: "plainID g" if "old = Some g" for g
    using votesOk_choice [OF good_parts(6) [OF good] x(4,5), of u g] that inSlot_plain [OF good_parts(4) [OF good]]
    by (auto simp: old_def choiceOf_def fam_get)
  have "wp (CastVote (refRepo cd) f u) (\<lambda>_ w'. fam ''fragment'' (db w') = fam ''fragment'' (db w)
      \<and> (\<forall>g a. plainID g \<longrightarrow> (db w' (voteKey g a) \<noteq> None) = (g = f \<and> a = u \<or> db w (voteKey g a) \<noteq> None \<and> \<not> (a = u \<and> old = Some g))))
    (\<lambda>_ _. True) w"
    using v x plain_old by (auto simp: CastVote_def getFragment_def Let_def wp_simps db_wrote [OF good_refInv [OF good]] old_def
        fam_simps keys_differ voteKey_eq split: option.split)
  from wp_value [OF this assms(3)] have frag: "fam ''fragment'' (db w') = fam ''fragment'' (db w)"
    and vote: "\<And>g a. plainID g \<Longrightarrow> (db w' (voteKey g a) \<noteq> None) = (g = f \<and> a = u \<or> db w (voteKey g a) \<noteq> None \<and> \<not> (a = u \<and> old = Some g))"
    by auto
  have same: "slotFragments cd w' t s = slotFragments cd w t s" for t s using frag by (simp add: slotFragments_def fam_get)
  have "voters w' (fragment_id y) = (if y = x then insert u (voters w f)
         else if t = ?t \<and> s = ?s then voters w (fragment_id y) - {u} else voters w (fragment_id y))"
    if y: "y \<in> slotFragments cd w t s" for t s y
  proof -
    have ts: "t = fragment_textID y" "s = fragment_slotID y" using y by (simp_all add: slotFragments_def)
    have "old = Some (fragment_id y) \<longleftrightarrow> t = ?t \<and> s = ?s \<and> u \<in> voters w (fragment_id y)"
    proof (cases "t = ?t \<and> s = ?s")
      case True
      then show ?thesis using voter_choice [OF good y, of u] by (simp add: old_def)
    next
      case False
      have "inSlot cd (fam ''fragment'' (db w)) ?t ?s (fragment_id y)" if "old = Some (fragment_id y)"
        using votesOk_choice [OF good_parts(6) [OF good] x(4,5), of u "fragment_id y"] that
        by (simp add: old_def choiceOf_def fam_get)
      then show ?thesis using False inSlot_unique [OF slot_member(1) [OF good y]] by blast
    qed
    moreover have "y = x \<longleftrightarrow> fragment_id y = f" using y mem x(2) by (auto simp: slotFragments_def)
    ultimately show ?thesis using vote [OF slot_member(4) [OF good y]] x(2) ts by (auto simp: voters_def)
  qed
  then show ?thesis using x(2) mem same by blast
qed

theorem cast_vote_moves_witness:
  "\<exists>r w'. CastVote (refRepo payloadCodec) ''d'' ''u'' demoWorld = (Inr r, w')
    \<and> (\<forall>t s. slotFragments payloadCodec w' t s = slotFragments payloadCodec demoWorld t s)"
proof -
  have "isl (fst (CastVote (refRepo payloadCodec) ''d'' ''u'' demoWorld)) = False" by code_simp
  then obtain r w' where run: "CastVote (refRepo payloadCodec) ''d'' ''u'' demoWorld = (Inr r, w')"
    by (metis isl_def prod.collapse sum.collapse(2))
  then show ?thesis using cast_vote_moves [OF payloadCodec_ok demo_reachable run] by blast
qed

section \<open>Closing a round\<close>

text \<open>C1: A closing succeeds exactly as the contract says: each slot of the open round has a winner, the
  fragment with the most votes, then the earliest; the text's content with every slot replaced by
  its winner is stored as a new version, which supersedes the text, takes over its subscribers and
  has a fresh open round; the old round is closed. A closing that fails has one of the four causes
  and changes nothing.\<close>

theorem close_round:
  assumes "codecOk cd" and "reachable cd w" and "CloseRound (refRepo cd) t w = (res, w')"
  shows "case res of Inr out \<Rightarrow> \<exists>tx r win nx. closesRound cd w t out w' tx r win nx
    | Inl e \<Rightarrow> closeFails cd w t e \<and> db w' = db w"
  using wp_CloseRound [OF assms(1) reachable_good [OF assms(1,2)], of t] assms(3)
  by (auto simp: wp_def split: sum.splits)

theorem close_round_witness:
  "\<exists>out w' tx r win nx. CloseRound (refRepo payloadCodec) ''a'' demoWorld = (Inr out, w')
    \<and> text_content (outcome_text out) = ''Jllo'' \<and> closesRound payloadCodec demoWorld ''a'' out w' tx r win nx"
proof -
  have "case fst (CloseRound (refRepo payloadCodec) ''a'' demoWorld) of
      Inr out \<Rightarrow> text_content (outcome_text out) = ''Jllo'' | Inl e \<Rightarrow> False" by code_simp
  then obtain out w' where run: "CloseRound (refRepo payloadCodec) ''a'' demoWorld = (Inr out, w')"
    and content: "text_content (outcome_text out) = ''Jllo''"
    by (cases "CloseRound (refRepo payloadCodec) ''a'' demoWorld") (auto split: sum.splits)
  show ?thesis using close_round [OF payloadCodec_ok demo_reachable run] run content by auto
qed

section \<open>The slots of a round\<close>

text \<open>C6: After any history of calls (that deletes no votes of a user whose identifier has a slash) the
  slots of a text's current round have distinct identifiers, are disjoint
  and lie within its content, so a closing can splice every winner.\<close>

theorem slots_fit:
  assumes "codecOk cd" and "reachable cd w" and "currentRoundOf cd w t r" and "textOf cd w t = Some x"
  shows "slotsOk (int (length (runesOf (text_content x)))) (round_slots r)
    \<and> (\<forall>frag. (\<forall>s. s \<in> set (round_slots r) \<longrightarrow> map_of frag (slot_id s) \<noteq> None) \<longrightarrow>
         spliceContent (text_content x) (round_slots r) frag
           = Some (spliceSpec (runesOf (text_content x)) (round_slots r) (\<lambda>s. fragment_content (the (map_of frag s)))))"
proof -
  note good = reachable_good [OF assms(1,2)]
  obtain v c y where v: "db w (textKey t) = Some v" "decText cd v = Some x"
    and c: "db w (currentRoundKey t) = Some c" "decRaw cd c = round_id r" "db w (roundKey (round_id r)) = Some y" "decRound cd y = Some r"
    using assms(3,4) by (auto simp: textOf_def currentRoundOf_def bind_eq_Some_conv)
  have "round_textID r = t"
    using good_parts(3) [OF good] c unfolding currentOk_def fam_get [symmetric] by metis
  moreover have "roundOk cd (fam ''text'' (db w)) (round_id r) r"
    using good_parts(2) [OF good] c(3,4) by (fastforce simp: roundsOk_def fam_get)
  ultimately have ok: "slotsOk (int (length (runesOf (text_content x)))) (round_slots r)"
    using v by (auto simp: roundOk_def fam_get)
  then show ?thesis
    using spliceContent_ok [OF ok, where repl = "\<lambda>s. fragment_content (the (map_of frag s))" and winners = frag for frag] by force
qed

theorem slots_fit_witness:
  "\<exists>r (x :: Text). currentRoundOf payloadCodec demoWorld ''a'' r \<and> round_slots r \<noteq> []
    \<and> slotsOk (int (length (runesOf (text_content x)))) (round_slots r)"
proof -
  have t: "textOf payloadCodec demoWorld ''a'' \<noteq> None" by code_simp
  have "case Option.bind (db demoWorld (roundKey ''b'')) (decRound payloadCodec) of None \<Rightarrow> False
      | Some r \<Rightarrow> round_id r = ''b'' \<and> round_slots r \<noteq> []" by code_simp
  then obtain r where r: "Option.bind (db demoWorld (roundKey ''b'')) (decRound payloadCodec) = Some r"
    "round_id r = ''b''" "round_slots r \<noteq> []" by (auto split: option.splits)
  have "map_option (decRaw payloadCodec) (db demoWorld (currentRoundKey ''a'')) = Some ''b''" by code_simp
  then have c: "currentRoundOf payloadCodec demoWorld ''a'' r" using r by (simp add: currentRoundOf_def)
  from t obtain x where "textOf payloadCodec demoWorld ''a'' = Some x" by auto
  with slots_fit [OF payloadCodec_ok demo_reachable c this] c r(3) show ?thesis by (intro exI [of _ r] exI [of _ x]) simp
qed

section \<open>Deleting a text\<close>

lemma space_textKeys:
  assumes "refInv (st w)"
  shows "k \<in> fragmentKeys cd t w \<Longrightarrow> space k \<in> votingSpaces"
    and "k \<in> roundKeys cd target w \<Longrightarrow> space k \<in> {''round'', ''roundindex''}"
    and "k \<in> ownKeys t x w \<Longrightarrow> space k \<in> {''text'', ''currentround'', ''roundcount'', ''supersededby'', ''tagindex'', ''subscription'',
      ''subscriptionindex''}"
proof -
  have pre: "space k = p" if "(k, v) \<in> set (scanned (p @ CHR ''/'' # q) w)" "plainID p" for k v p q
    using that unfolding scanned_iff [OF assms]
    by (auto simp: HasPrefix_def prefix_def space_joined [unfolded joined_def])
  have pre': "space k = p" if "k \<in> fst ` set (scanned (p @ CHR ''/'' # q) w)" "plainID p" for k p q using that pre by auto
  show "space k \<in> votingSpaces" if "k \<in> fragmentKeys cd t w"
  proof (cases "k \<in> fst ` set (scanned (''uservote/'' @ t @ ''/'') w)")
    case True
    then show ?thesis using pre' unfolding scan_prefixes by (auto simp: votingSpaces_def)
  next
    case False
    then obtain k' v where "(k', v) \<in> set (scanned (''fragmentindex/'' @ t @ ''/'') w)"
      "k = k' \<or> k = fragmentKey (decRaw cd v) \<or> k \<in> fst ` set (scanned (votePrefix (decRaw cd v)) w)"
      using \<open>k \<in> fragmentKeys cd t w\<close> unfolding fragmentKeys_def by blast
    then have "k = k' \<or> k = fragmentKey (decRaw cd v) \<or> space k = ''vote''" "space k' = ''fragmentindex''"
      using pre pre' unfolding scan_prefixes by auto
    then show ?thesis by (auto simp: votingSpaces_def)
  qed
  show "space k \<in> {''round'', ''roundindex''}" if "k \<in> roundKeys cd target w"
    using that by (auto simp: roundKeys_def split: option.splits if_splits)
  show "space k \<in> {''text'', ''currentround'', ''roundcount'', ''supersededby'', ''tagindex'', ''subscription'', ''subscriptionindex''}"
    if "k \<in> ownKeys t x w" using that unfolding ownKeys_def by (auto dest: space_subs)
qed

text \<open>What the deletion of \<open>t\<close> takes from the records that the properties speak of.\<close>

lemma in_textKeys:
  assumes good: "good cd w" and t: "plainID t"
  shows "textKey a \<in> textKeys cd t x w \<longleftrightarrow> a = t" and "currentRoundKey a \<in> textKeys cd t x w \<longleftrightarrow> a = t"
    and "plainID a \<Longrightarrow> isSubscribed w u a \<Longrightarrow> subscriptionKey a u \<in> textKeys cd t x w \<longleftrightarrow> a = t"
    and "Option.bind (db w (roundKey i)) (decRound cd) = Some r \<Longrightarrow> roundKey i \<in> textKeys cd t x w \<longleftrightarrow> round_textID r = t"
    and "y \<in> slotFragments cd w a s \<Longrightarrow> fragmentKey (fragment_id y) \<in> textKeys cd t x w \<longleftrightarrow> a = t"
    and "y \<in> slotFragments cd w a s \<Longrightarrow> u \<in> voters w (fragment_id y) \<Longrightarrow> voteKey (fragment_id y) u \<in> textKeys cd t x w \<longleftrightarrow> a = t"
proof -
  note ref = good_refInv [OF good]
  note spaces = space_textKeys [OF ref]
  have own: "k \<in> textKeys cd t x w \<longleftrightarrow> k \<in> ownKeys t x w"
    if "space k \<in> {''text'', ''currentround'', ''subscription''}" for k
    using that spaces(1) [of k cd t] spaces(2) [of k cd "\<lambda>i. i = t"] unfolding textKeys_def by (auto simp: votingSpaces_def)
  show "textKey a \<in> textKeys cd t x w \<longleftrightarrow> a = t" "currentRoundKey a \<in> textKeys cd t x w \<longleftrightarrow> a = t"
    by (auto simp: own ownKeys_def key_forms joined_inj dest: space_subs)
  show "subscriptionKey a u \<in> textKeys cd t x w \<longleftrightarrow> a = t" if a: "plainID a" "isSubscribed w u a"
  proof
    assume "subscriptionKey a u \<in> textKeys cd t x w"
    then obtain v where "(subscriptionKey a u, v) \<in> set (scanned (subscriptionPrefix t) w)"
      by (auto simp: own ownKeys_def key_forms joined_inj)
    then obtain z where "subscriptionKey a u = subscriptionPrefix t @ z"
      unfolding scanned_iff [OF ref] HasPrefix_def prefix_def by blast
    then have "joined a u = joined t z" by (simp add: key_defs joined_def)
    then show "a = t" using a(1) t by (simp add: joined_inj)
  next
    assume "a = t"
    obtain v where "db w (subscriptionKey a u) = Some v" using a(2) by (auto simp: isSubscribed_def)
    then have "(subscriptionKey a u, v) \<in> set (scanned (subscriptionPrefix t) w)"
      unfolding scanned_iff [OF ref] \<open>a = t\<close> by (simp add: HasPrefix_def key_defs)
    then show "subscriptionKey a u \<in> textKeys cd t x w" unfolding textKeys_def ownKeys_def by blast
  qed
  show "roundKey i \<in> textKeys cd t x w \<longleftrightarrow> round_textID r = t" if r: "Option.bind (db w (roundKey i)) (decRound cd) = Some r"
  proof -
    have "roundKey i \<in> textKeys cd t x w \<longleftrightarrow> roundKey i \<in> roundKeys cd (\<lambda>i. i = t) w"
      using spaces(1) [of "roundKey i" cd t] spaces(3) [of "roundKey i" t x] unfolding textKeys_def by (auto simp: votingSpaces_def)
    moreover obtain v where v: "db w (roundKey i) = Some v" "decRound cd v = Some r" using r by (auto simp: bind_eq_Some_conv)
    have stored: "round_id y = j \<and> k = roundKey j" if "k = roundKey j" "db w k = Some b" "decRound cd b = Some y" for j k b y
      using good_parts(2) [OF good] that by (fastforce simp: roundsOk_def roundOk_def fam_get)
    have scan: "(k, b) \<in> set (scanned ''round/'' w) \<longleftrightarrow> (\<exists>j. k = roundKey j) \<and> db w k = Some b" for k b
      unfolding scanned_iff [OF ref] by (auto simp: HasPrefix_def prefix_def key_defs)
    have "roundKey i \<in> roundKeys cd (\<lambda>i. i = t) w \<longleftrightarrow> round_textID r = t"
    proof
      assume "roundKey i \<in> roundKeys cd (\<lambda>i. i = t) w"
      then obtain k b y where "(k, b) \<in> set (scanned ''round/'' w)" "decRound cd b = Some y" "round_textID y = t"
        "roundKey i = roundKey (round_id y)"
        by (auto simp: roundKeys_def key_forms joined_inj split: option.splits if_splits)
      then show "round_textID r = t" using stored [of k _ b y] scan v by (auto simp: key_forms)
    next
      assume "round_textID r = t"
      moreover have "(roundKey i, v) \<in> set (scanned ''round/'' w)" "round_id r = i" using scan v stored [OF refl v] by auto
      ultimately show "roundKey i \<in> roundKeys cd (\<lambda>i. i = t) w" using v(2) unfolding roundKeys_def by force
    qed
    ultimately show ?thesis by simp
  qed
  have frag: "k \<in> textKeys cd t x w \<longleftrightarrow> k \<in> fragmentKeys cd t w" if "space k \<in> votingSpaces" for k
    using that spaces(2) [of k cd "\<lambda>i. i = t"] spaces(3) [of k t x] unfolding textKeys_def by (auto simp: votingSpaces_def)
  assume y: "y \<in> slotFragments cd w a s"
  note iff = fragmentKeys_iff [OF good t slot_member(1) [OF good y]]
  show "fragmentKey (fragment_id y) \<in> textKeys cd t x w \<longleftrightarrow> a = t"
    using iff(1) by (simp add: frag votingSpaces_def)
  show "voteKey (fragment_id y) u \<in> textKeys cd t x w \<longleftrightarrow> a = t" if "u \<in> voters w (fragment_id y)"
    using iff(3) [of u] that by (simp add: frag votingSpaces_def voters_def)
qed

lemma DeleteText_erases:
  assumes "codecOk cd" and "reachable cd w" and "DeleteText (refRepo cd) t w = (Inr r, w')"
  shows "textOf cd w' t = None \<and> (\<forall>x. \<not> currentRoundOf cd w' t x)
    \<and> (\<forall>i x. Option.bind (db w' (roundKey i)) (decRound cd) = Some x \<longrightarrow> round_textID x \<noteq> t)
    \<and> (\<forall>s. slotFragments cd w' t s = {}) \<and> (\<forall>u. \<not> isSubscribed w' u t)
    \<and> (\<forall>s x. x \<in> slotFragments cd w t s \<longrightarrow> voters w' (fragment_id x) = {})
    \<and> (\<forall>a. a \<noteq> t \<longrightarrow> textOf cd w' a = textOf cd w a \<and> (\<forall>x. currentRoundOf cd w' a x \<longleftrightarrow> currentRoundOf cd w a x)
        \<and> (\<forall>s. slotFragments cd w' a s = slotFragments cd w a s)
        \<and> (\<forall>s x. x \<in> slotFragments cd w a s \<longrightarrow> voters w' (fragment_id x) = voters w (fragment_id x))
        \<and> (plainID a \<longrightarrow> (\<forall>u. isSubscribed w' u a \<longleftrightarrow> isSubscribed w u a)))"
proof -
  note good = reachable_good [OF assms(1,2)]
  obtain v x ws where v: "db w (textKey t) = Some v" "decText cd v = Some x" and ws: "list_all isDel ws"
    "opKey ` set ws = textKeys cd t x w" "w' = wrote ws w"
    using wp_value [OF wp_DeleteText [OF good] assms(3)] by blast
  have t: "plainID t" by (rule good_textAt [OF good v(1)])
  have left: "db w' k = (if k \<in> textKeys cd t x w then None else db w k)" for k
    unfolding ws(3) db_wrote [OF good_refInv [OF good]] using foldl_wopMap_dels [OF ws(1)] ws(2) by metis
  note gone = in_textKeys [OF good t, where x = x]
  have frags: "slotFragments cd w' a s = (if a = t then {} else slotFragments cd w a s)" for a s
  proof -
    have "slotFragments cd w' a s \<subseteq> slotFragments cd w a s"
      by (auto simp: slotFragments_def left bind_eq_Some_conv split: if_splits)
    moreover have "y \<in> slotFragments cd w' a s \<longleftrightarrow> a \<noteq> t" if "y \<in> slotFragments cd w a s" for y
      using gone(5) [OF that] that by (auto simp: slotFragments_def left)
    ultimately show ?thesis by auto
  qed
  have votes: "voters w' (fragment_id y) = (if a = t then {} else voters w (fragment_id y))" if "y \<in> slotFragments cd w a s" for y a s
  proof (rule set_eqI)
    fix u show "u \<in> voters w' (fragment_id y) \<longleftrightarrow> u \<in> (if a = t then {} else voters w (fragment_id y))"
      using gone(6) [OF that, of u] by (cases "u \<in> voters w (fragment_id y)") (auto simp: voters_def left)
  qed
  have rounds: "Option.bind (db w' (roundKey i)) (decRound cd) = Some y \<longleftrightarrow>
      Option.bind (db w (roundKey i)) (decRound cd) = Some y \<and> round_textID y \<noteq> t" for i y
    using gone(4) [of i y] by (auto simp: left)
  have current: "round_textID y = a" if "currentRoundOf cd w a y" for a y
    using that good_parts(3) [OF good] unfolding currentOk_def currentRoundOf_def fam_get [symmetric] bind_eq_Some_conv by force
  have sub: "isSubscribed w' u a \<longleftrightarrow> isSubscribed w u a \<and> a \<noteq> t" if "plainID a" for u a
    using gone(3) [OF that, of u] by (cases "isSubscribed w u a") (auto simp: isSubscribed_def left)
  have "textOf cd w' a = (if a = t then None else textOf cd w a)" for a by (simp add: textOf_def left gone(1))
  moreover have "currentRoundOf cd w' a y \<longleftrightarrow> currentRoundOf cd w a y \<and> a \<noteq> t" for a y
    using rounds current [of a y] by (auto simp: currentRoundOf_def left gone(2))
  ultimately show ?thesis using rounds frags votes sub t by auto
qed

text \<open>C5: Deleting a text leaves nothing of it, its content, rounds, fragments, votes and subscriptions,
  and leaves every other text with its content, current round, fragments, votes and subscribers as
  they were; a deletion that fails changes nothing at all.\<close>

theorem delete_text_erases:
  assumes "codecOk cd" and "reachable cd w" and "DeleteText (refRepo cd) t w = (res, w')"
  shows "case res of
     Inl e \<Rightarrow> w' = w
   | Inr r \<Rightarrow> textOf cd w' t = None \<and> (\<forall>x. \<not> currentRoundOf cd w' t x)
      \<and> (\<forall>i x. Option.bind (db w' (roundKey i)) (decRound cd) = Some x \<longrightarrow> round_textID x \<noteq> t)
      \<and> (\<forall>s. slotFragments cd w' t s = {}) \<and> (\<forall>u. \<not> isSubscribed w' u t)
      \<and> (\<forall>s x. x \<in> slotFragments cd w t s \<longrightarrow> voters w' (fragment_id x) = {})
      \<and> (\<forall>a. a \<noteq> t \<longrightarrow> textOf cd w' a = textOf cd w a \<and> (\<forall>x. currentRoundOf cd w' a x \<longleftrightarrow> currentRoundOf cd w a x)
          \<and> (\<forall>s. slotFragments cd w' a s = slotFragments cd w a s)
          \<and> (\<forall>s x. x \<in> slotFragments cd w a s \<longrightarrow> voters w' (fragment_id x) = voters w (fragment_id x))
          \<and> (plainID a \<longrightarrow> (\<forall>u. isSubscribed w' u a \<longleftrightarrow> isSubscribed w u a)))"
proof (cases res)
  case (Inl e)
  then show ?thesis using wp_error [OF wp_DeleteText [OF reachable_good [OF assms(1,2)]]] assms(3) by auto
next
  case (Inr r)
  show ?thesis unfolding Inr sum.case by (rule DeleteText_erases [OF assms(1,2) assms(3) [unfolded Inr]])
qed

theorem delete_text_erases_witness:
  "\<exists>r w'. DeleteText (refRepo payloadCodec) ''a'' demoWorld = (Inr r, w') \<and> textOf payloadCodec demoWorld ''a'' \<noteq> None
    \<and> textOf payloadCodec w' ''a'' = None"
proof -
  have "isl (fst (DeleteText (refRepo payloadCodec) ''a'' demoWorld)) = False" by code_simp
  then obtain r w' where run: "DeleteText (refRepo payloadCodec) ''a'' demoWorld = (Inr r, w')"
    by (metis isl_def prod.collapse sum.collapse(2))
  moreover have "textOf payloadCodec demoWorld ''a'' \<noteq> None" by code_simp
  moreover have "textOf payloadCodec w' ''a'' = None"
    using delete_text_erases [OF payloadCodec_ok demo_reachable run] by simp
  ultimately show ?thesis by blast
qed

section \<open>On the storage engine\<close>

text \<open>C4: A history of calls that meets no store error answers on the storage engine what it answers on
  the reference store, and leaves the same bindings.\<close>

theorem engine_repository:
  assumes "engInv (st w)" and "\<not> list_ex storeFailed (fst (serveAll n lower (mkRepo engOps cd) qs w))"
    and "refInv (st w0)" and "map_of (st w0) = absMap (st w)" and "ids w0 = ids w" and "clock w0 = clock w" and "ticks w0 = ticks w"
  shows "fst (serveAll n lower (refRepo cd) qs w0) = fst (serveAll n lower (mkRepo engOps cd) qs w)
    \<and> engInv (st (snd (serveAll n lower (mkRepo engOps cd) qs w)))
    \<and> map_of (st (snd (serveAll n lower (refRepo cd) qs w0))) = absMap (st (snd (serveAll n lower (mkRepo engOps cd) qs w)))"
proof -
  have r: "simRel absMap engInv w w0" using assms by (simp add: simRel_def)
  obtain rs w' where run: "serveAll n lower (mkRepo engOps cd) qs w = (rs, w')" by fastforce
  show ?thesis using eng.sim_serveAll [OF r run] assms(2) run by (auto simp: simRel_def)
qed

text \<open>A codec of bytes for the demonstration: its history reads no record.\<close>

definition bareCodec :: "bytes codec" where
  "bareCodec = \<lparr>encText = text_content, decText = (\<lambda>b. None), encRound = round_id, decRound = (\<lambda>b. None),
     encFragment = fragment_content, decFragment = (\<lambda>b. None), encVote = vote_userID, decVote = (\<lambda>b. None),
     encSubscription = sub_userID, decSubscription = (\<lambda>b. None), encRaw = (\<lambda>b. b), decRaw = (\<lambda>b. b)\<rparr>"

lemma engine_unsubscribe:
  assumes "engInv (st w)" and "kvFits (subscriptionKey t u) []" and "kvFits (subscriptionIndexKey u t) []"
  shows "\<not> list_ex storeFailed (fst (serveAll n lower (mkRepo engOps cd) [QUnsubscribe u t, QIsSubscribed u t] w))"
proof -
  obtain r s where b: "sBatch engOps [DelOp (subscriptionKey t u), DelOp (subscriptionIndexKey u t)] (st w) = (r, s)" by fastforce
  have "r = None" "engInv s"
    using engBatchOp_law [OF assms(1), of "[DelOp (subscriptionKey t u), DelOp (subscriptionIndexKey u t)]" r s] b assms(2,3)
    by (simp_all add: engOps_def opFits_def)
  then show ?thesis using b
    by (simp add: answering_def Unsubscribe_def IsSubscribed_def bindE_def ret_def storeBatch_def storeGet_def storeFailed_def
        engOps_def engGetOp_def EngGet_abs)
qed

theorem engine_repository_witness:
  "\<exists>e s. fst (serveAll 0 asciiLower (mkRepo engOps bareCodec) [QUnsubscribe ''u'' ''t'', QIsSubscribed ''u'' ''t'']
        \<lparr>st = emptyEngine 1 [], ids = [], clock = int, ticks = 0\<rparr>) = [Inr AUnit, Inr (ABool False)]
    \<and> engInv e \<and> map_of s = absMap e"
proof -
  let ?w = "\<lparr>st = emptyEngine 1 [], ids = [], clock = int, ticks = 0\<rparr>" and ?ref = "freshWorld [] int :: bytes kvs world"
    and ?qs = "[QUnsubscribe ''u'' ''t'', QIsSubscribed ''u'' ''t'']"
  have "\<not> list_ex storeFailed (fst (serveAll 0 asciiLower (mkRepo engOps bareCodec) ?qs ?w))"
    by (rule engine_unsubscribe) (simp_all add: kvFits_def key_defs)
  then have run: "fst (serveAll 0 asciiLower (refRepo bareCodec) ?qs ?ref) = fst (serveAll 0 asciiLower (mkRepo engOps bareCodec) ?qs ?w)
    \<and> engInv (st (snd (serveAll 0 asciiLower (mkRepo engOps bareCodec) ?qs ?w)))
    \<and> map_of (st (snd (serveAll 0 asciiLower (refRepo bareCodec) ?qs ?ref)))
      = absMap (st (snd (serveAll 0 asciiLower (mkRepo engOps bareCodec) ?qs ?w)))"
    by (intro engine_repository) (simp_all add: freshWorld_def refInv_def)
  have "fst (serveAll 0 asciiLower (refRepo bareCodec) ?qs ?ref) = [Inr AUnit, Inr (ABool False)]"
    by (simp add: freshWorld_def answering_def Unsubscribe_def IsSubscribed_def bindE_def ret_def storeBatch_def storeGet_def
        refOps_def refDelete_def)
  then show ?thesis using run by metis
qed

end
