(* ===== verification/Token.thy ===== *)
theory Token
  imports Rbac
begin

text \<open>
  Tokens, \<open>src/api/queel/rbac/jwt.go\<close> and \<open>google.go\<close>: the signed session tokens that carry a user's
  mask, and the verification of Google's identity tokens with the cache of Google's keys. Base64 is
  modelled; JSON, HMAC-SHA-256, SHA-256 and RSA are parameters, and the clock is an argument.
\<close>

section \<open>Base64\<close>

text \<open>\<open>base64.RawURLEncoding\<close>: the URL alphabet, no padding. The decoder skips line breaks and does not
  look at the unused bits of the last character.\<close>

definition b64Alphabet :: string where
  "b64Alphabet = ''ABCDEFGHIJKLMNOPQRSTUVWXYZabcdefghijklmnopqrstuvwxyz0123456789-_''"

definition b64Char :: "nat \<Rightarrow> char" where
  "b64Char n = b64Alphabet ! n"

fun b64Index :: "string \<Rightarrow> char \<Rightarrow> nat option" where
  "b64Index [] c = None"
| "b64Index (a # as) c = (if a = c then Some 0 else map_option Suc (b64Index as c))"

fun b64Digits :: "nat list \<Rightarrow> nat list" where
  "b64Digits (a # b # c # bs) = a div 4 # (a mod 4 * 16 + b div 16) # (b mod 16 * 4 + c div 64) # c mod 64 # b64Digits bs"
| "b64Digits [a, b] = [a div 4, (a mod 4) * 16 + b div 16, (b mod 16) * 4]"
| "b64Digits [a] = [a div 4, (a mod 4) * 16]"
| "b64Digits [] = []"

fun b64Bytes :: "nat list \<Rightarrow> nat list option" where
  "b64Bytes (w # x # y # z # ds) =
     map_option (\<lambda>bs. (w * 4 + x div 16) # (x mod 16 * 16 + y div 4) # (y mod 4 * 64 + z) # bs) (b64Bytes ds)"
| "b64Bytes [w, x, y] = Some [w * 4 + x div 16, (x mod 16) * 16 + y div 4]"
| "b64Bytes [w, x] = Some [w * 4 + x div 16]"
| "b64Bytes [w] = None"
| "b64Bytes [] = Some []"

definition b64Encode :: "bytes \<Rightarrow> string" where
  "b64Encode bs = map b64Char (b64Digits (map of_char bs))"

definition b64Decode :: "string \<Rightarrow> bytes option" where
  "b64Decode s =
     (let ds = map (b64Index b64Alphabet) (filter (\<lambda>c. c \<noteq> CHR 0x0A \<and> c \<noteq> CHR 0x0D) s)
      in if None \<in> set ds then None else map_option (map char_of) (b64Bytes (map the ds)))"

lemma b64Digits_less: "\<forall>b \<in> set bs. b < 256 \<Longrightarrow> d \<in> set (b64Digits bs) \<Longrightarrow> d < 64"
  by (induction bs rule: b64Digits.induct) auto

lemma b64Bytes_Digits: "\<forall>b \<in> set bs. b < 256 \<Longrightarrow> b64Bytes (b64Digits bs) = Some bs"
  by (induction bs rule: b64Digits.induct) (auto simp: div_mult2_eq [symmetric])

lemma b64Alphabet_length: "length b64Alphabet = 64"
  by (simp add: b64Alphabet_def)

lemma b64Index_nth: "distinct as \<Longrightarrow> n < length as \<Longrightarrow> b64Index as (as ! n) = Some n"
proof (induction as arbitrary: n)
  case (Cons a as)
  then show ?case by (cases n) auto
qed simp

lemma b64Index_Char: "n < 64 \<Longrightarrow> b64Index b64Alphabet (b64Char n) = Some n"
  unfolding b64Char_def by (rule b64Index_nth) (simp_all add: b64Alphabet_length, simp add: b64Alphabet_def)

lemma b64Char_plain: "n < 64 \<Longrightarrow> b64Char n \<notin> {CHR 0x0A, CHR 0x0D, CHR ''.''}"
proof -
  assume "n < 64"
  then have "b64Char n \<in> set b64Alphabet" unfolding b64Char_def by (intro nth_mem) (simp add: b64Alphabet_length)
  then show ?thesis by (auto simp: b64Alphabet_def)
qed

lemma Decode_Encode: "b64Decode (b64Encode bs) = Some bs"
proof -
  let ?ds = "b64Digits (map of_char bs) :: nat list"
  have small: "d < 64" if "d \<in> set ?ds" for d using b64Digits_less [OF _ that] by auto
  then have "filter (\<lambda>c. c \<noteq> CHR 0x0A \<and> c \<noteq> CHR 0x0D) (map b64Char ?ds) = map b64Char ?ds"
    using b64Char_plain by (auto simp: filter_id_conv)
  moreover have "map (b64Index b64Alphabet) (map b64Char ?ds) = map Some ?ds"
    using small b64Index_Char by simp
  moreover have "b64Bytes ?ds = Some (map of_char bs)" by (rule b64Bytes_Digits) auto
  moreover have "map the (map Some ?ds) = ?ds" "None \<notin> set (map Some ?ds)" by (simp_all add: map_idI)
  ultimately show ?thesis unfolding b64Decode_def b64Encode_def Let_def by (simp add: map_idI)
qed

lemma Encode_no_dot: "CHR ''.'' \<notin> set (b64Encode bs)"
proof -
  have "d < 64" if "d \<in> set (b64Digits (map of_char bs) :: nat list)" for d using b64Digits_less [OF _ that] by auto
  then show ?thesis using b64Char_plain by (fastforce simp: b64Encode_def)
qed

section \<open>Session tokens\<close>

text \<open>\<open>strings.Split\<close> at a one-byte separator.\<close>

fun SplitByte :: "string \<Rightarrow> char \<Rightarrow> string list" where
  "SplitByte [] c = [[]]"
| "SplitByte (x # xs) c =
     (if x = c then [] # SplitByte xs c
      else case SplitByte xs c of [] \<Rightarrow> [[x]] | p # ps \<Rightarrow> (x # p) # ps)"

lemma SplitByte_plain: "c \<notin> set a \<Longrightarrow> SplitByte a c = [a]"
  by (induction a) auto

lemma SplitByte_append: "c \<notin> set a \<Longrightarrow> SplitByte (a @ c # b) c = a # SplitByte b c"
  by (induction a) auto

lemma SplitByte_ne: "SplitByte s c \<noteq> []"
  by (induction s) (auto split: list.splits)

lemma SplitByte_Cons: "SplitByte s c = a # ps \<longleftrightarrow>
    c \<notin> set a \<and> (if ps = [] then s = a else \<exists>b. s = a @ c # b \<and> SplitByte b c = ps)"
proof (induction s arbitrary: a)
  case (Cons x xs)
  show ?case
  proof (cases "x = c")
    case True
    then show ?thesis using SplitByte_ne [of xs c] by (cases a) auto
  next
    case False
    obtain p qs where p: "SplitByte xs c = p # qs" using SplitByte_ne [of xs c] by (cases "SplitByte xs c") auto
    then show ?thesis using False Cons.IH [of p] Cons.IH [of "List.tl a"] by (cases a) (auto split: if_splits)
  qed
qed auto

record Claims =
  cl_Subject :: string
  cl_Root :: bool
  cl_Perms :: PermBit
  cl_ExpiresAt :: int

definition ClaimsAllows :: "Claims \<Rightarrow> Action \<Rightarrow> bool" where
  "ClaimsAllows c action = (if cl_Root c then True else Allows (cl_Perms c) action)"

datatype tokenErr = ErrExpiredToken | ErrInvalidToken

text \<open>The parameters: \<open>json.Marshal\<close> and \<open>json.Unmarshal\<close> of claims, and HMAC-SHA-256 of a secret and a
  message.\<close>

record tokenLib =
  encClaims :: "Claims \<Rightarrow> bytes option"
  decClaims :: "bytes \<Rightarrow> Claims option"
  hmac :: "bytes \<Rightarrow> bytes \<Rightarrow> bytes"

definition jwtHeader :: string where
  "jwtHeader = ''{'' @ [CHR 0x22] @ ''alg'' @ [CHR 0x22] @ '':'' @ [CHR 0x22] @ ''HS256'' @ [CHR 0x22] @ '','' @ [CHR 0x22] @ ''typ''
     @ [CHR 0x22] @ '':'' @ [CHR 0x22] @ ''JWT'' @ [CHR 0x22] @ ''}''"

definition signInput :: "tokenLib \<Rightarrow> string \<Rightarrow> bytes \<Rightarrow> string" where
  "signInput L signingInput secret = b64Encode (hmac L secret signingInput)"

definition SignToken :: "tokenLib \<Rightarrow> Claims \<Rightarrow> bytes \<Rightarrow> string option" where
  "SignToken L claims secret =
     (case encClaims L claims of
        None \<Rightarrow> None
      | Some payload \<Rightarrow>
          (let signingInput = b64Encode jwtHeader @ ''.'' @ b64Encode payload
           in Some (signingInput @ ''.'' @ signInput L signingInput secret)))"

definition VerifyToken :: "tokenLib \<Rightarrow> int \<Rightarrow> string \<Rightarrow> bytes \<Rightarrow> tokenErr + Claims" where
  "VerifyToken L now token secret =
     (case SplitByte token CHR ''.'' of
        [p0, p1, p2] \<Rightarrow>
          (if signInput L (p0 @ ''.'' @ p1) secret \<noteq> p2 then Inl ErrInvalidToken
           else case b64Decode p1 of
                  None \<Rightarrow> Inl ErrInvalidToken
                | Some payload \<Rightarrow>
                    (case decClaims L payload of
                       None \<Rightarrow> Inl ErrInvalidToken
                     | Some claims \<Rightarrow> if now > cl_ExpiresAt claims then Inl ErrExpiredToken else Inr claims))
      | _ \<Rightarrow> Inl ErrInvalidToken)"

definition tokenLibOk :: "tokenLib \<Rightarrow> bool" where
  "tokenLibOk L \<longleftrightarrow> (\<forall>c v. encClaims L c = Some v \<longrightarrow> decClaims L v = Some c)"

lemma Split3:
  "SplitByte s c = [p0, p1, p2] \<longleftrightarrow> s = p0 @ c # p1 @ c # p2 \<and> c \<notin> set p0 \<and> c \<notin> set p1 \<and> c \<notin> set p2"
  unfolding SplitByte_Cons by (auto simp: SplitByte_Cons)

lemma Verify_iff:
  "VerifyToken L now token secret = Inr c \<longleftrightarrow>
    (\<exists>p0 p1 payload. CHR ''.'' \<notin> set p0 \<and> CHR ''.'' \<notin> set p1
      \<and> token = p0 @ ''.'' @ p1 @ ''.'' @ signInput L (p0 @ ''.'' @ p1) secret
      \<and> b64Decode p1 = Some payload \<and> decClaims L payload = Some c \<and> now \<le> cl_ExpiresAt c)" (is "?l \<longleftrightarrow> ?r")
proof
  assume ?l
  then obtain p0 p1 p2 where s: "SplitByte token CHR ''.'' = [p0, p1, p2]"
    by (auto simp: VerifyToken_def split: list.splits)
  with \<open>?l\<close> obtain payload where "p2 = signInput L (p0 @ ''.'' @ p1) secret" "b64Decode p1 = Some payload"
      "decClaims L payload = Some c" "now \<le> cl_ExpiresAt c"
    by (auto simp: VerifyToken_def split: if_splits option.splits)
  moreover have "token = p0 @ ''.'' @ p1 @ ''.'' @ p2" "CHR ''.'' \<notin> set p0" "CHR ''.'' \<notin> set p1"
    using s unfolding Split3 by simp_all
  ultimately show ?r by blast
next
  assume ?r
  then obtain p0 p1 payload where p: "CHR ''.'' \<notin> set p0" "CHR ''.'' \<notin> set p1"
      "token = p0 @ ''.'' @ p1 @ ''.'' @ signInput L (p0 @ ''.'' @ p1) secret"
      "b64Decode p1 = Some payload" "decClaims L payload = Some c" "now \<le> cl_ExpiresAt c" by blast
  then have "SplitByte token CHR ''.'' = [p0, p1, signInput L (p0 @ ''.'' @ p1) secret]"
    unfolding Split3 by (simp add: signInput_def Encode_no_dot)
  then show ?l using p by (simp add: VerifyToken_def)
qed

lemma Verify_Sign:
  assumes "tokenLibOk L" and "SignToken L c secret = Some token"
  shows "VerifyToken L now token secret = (if now > cl_ExpiresAt c then Inl ErrExpiredToken else Inr c)"
proof -
  obtain v where v: "encClaims L c = Some v" and t: "token = b64Encode jwtHeader @ ''.'' @ b64Encode v @ ''.'' @
      signInput L (b64Encode jwtHeader @ ''.'' @ b64Encode v) secret"
    using assms(2) by (auto simp: SignToken_def Let_def split: option.splits)
  have "SplitByte token CHR ''.'' = [b64Encode jwtHeader, b64Encode v,
      signInput L (b64Encode jwtHeader @ ''.'' @ b64Encode v) secret]"
    unfolding Split3 t by (simp add: signInput_def Encode_no_dot)
  moreover have "decClaims L v = Some c" using assms(1) v by (simp add: tokenLibOk_def)
  ultimately show ?thesis by (simp add: VerifyToken_def Decode_Encode)
qed

text \<open>The claims that a login puts into the token of a user.\<close>

definition claimsOf :: "User \<Rightarrow> int \<Rightarrow> Claims" where
  "claimsOf u expires =
     \<lparr>cl_Subject = user_ID u, cl_Root = user_Root u, cl_Perms = Bits (user_Permissions u), cl_ExpiresAt = expires\<rparr>"

lemma ClaimsAllows_claimsOf: "ClaimsAllows (claimsOf u expires) action = UserCan u action"
proof -
  have "Allows (Bits (user_Permissions u)) action \<longleftrightarrow> UserCan (u\<lparr>user_Root := False\<rparr>) action"
    unfolding Allows_FromBits [where i = "[]" and c = 0] FromBits_Bits UserCan_def by simp
  then show ?thesis by (simp add: ClaimsAllows_def claimsOf_def UserCan_def)
qed

text \<open>C38: A token verifies exactly when it is three parts without dots, of which the last is the
  signature of the first two under the secret and the middle one encodes claims that have not
  expired; a signed token verifies until its expiry and gives back the claims it was signed for,
  which allow what the directory allows the user.\<close>

theorem token_verification:
  assumes "tokenLibOk L"
  shows "(VerifyToken L now token secret = Inr c \<longleftrightarrow>
      (\<exists>p0 p1 payload. CHR ''.'' \<notin> set p0 \<and> CHR ''.'' \<notin> set p1
        \<and> token = p0 @ ''.'' @ p1 @ ''.'' @ signInput L (p0 @ ''.'' @ p1) secret
        \<and> b64Decode p1 = Some payload \<and> decClaims L payload = Some c \<and> now \<le> cl_ExpiresAt c))
    \<and> (SignToken L (claimsOf u expires) secret = Some token \<longrightarrow>
        (if now > expires then VerifyToken L now token secret = Inl ErrExpiredToken
         else \<exists>d. VerifyToken L now token secret = Inr d \<and> cl_Subject d = user_ID u
           \<and> (\<forall>action. ClaimsAllows d action = UserCan u action)))"
proof -
  have "cl_ExpiresAt (claimsOf u expires) = expires" "cl_Subject (claimsOf u expires) = user_ID u" by (simp_all add: claimsOf_def)
  then show ?thesis using Verify_iff Verify_Sign [OF assms] by (simp add: ClaimsAllows_claimsOf)
qed

text \<open>Parameters for demonstrations: claims of one letter, and a code that is the secret and the
  message reversed.\<close>

definition demoLib :: tokenLib where
  "demoLib = \<lparr>encClaims = (\<lambda>c. if c = \<lparr>cl_Subject = ''u'', cl_Root = False, cl_Perms = 1, cl_ExpiresAt = 9\<rparr> then Some ''c'' else None),
     decClaims = (\<lambda>v. if v = ''c'' then Some \<lparr>cl_Subject = ''u'', cl_Root = False, cl_Perms = 1, cl_ExpiresAt = 9\<rparr> else None),
     hmac = (\<lambda>k m. rev m @ k)\<rparr>"

definition voterOnly :: User where
  "voterOnly = \<lparr>user_ID = ''u'', user_Root = False, user_Permissions = noPermissions\<lparr>CanVote := True\<rparr>, user_CreatedAt = 0\<rparr>"

theorem token_verification_witness:
  "\<exists>token d. SignToken demoLib (claimsOf voterOnly 9) ''k'' = Some token \<and> VerifyToken demoLib 9 token ''k'' = Inr d
    \<and> ClaimsAllows d ActionVote \<and> \<not> ClaimsAllows d ActionCloseText
    \<and> VerifyToken demoLib 10 token ''k'' = Inl ErrExpiredToken"
proof -
  have ok: "tokenLibOk demoLib" by (simp add: tokenLibOk_def demoLib_def)
  have "Bits (user_Permissions voterOnly) = 1" unfolding voterOnly_def noPermissions_def Bits_def perm_defs by simp
  then have "claimsOf voterOnly 9 = \<lparr>cl_Subject = ''u'', cl_Root = False, cl_Perms = 1, cl_ExpiresAt = 9\<rparr>"
    by (simp add: claimsOf_def voterOnly_def)
  then obtain token where t: "SignToken demoLib (claimsOf voterOnly 9) ''k'' = Some token"
    by (simp add: SignToken_def demoLib_def Let_def)
  have can: "UserCan voterOnly ActionVote" "\<not> UserCan voterOnly ActionCloseText"
    by (simp_all add: UserCan_def voterOnly_def noPermissions_def action_defs)
  have "\<exists>d. VerifyToken demoLib 9 token ''k'' = Inr d \<and> cl_Subject d = user_ID voterOnly
      \<and> (\<forall>action. ClaimsAllows d action = UserCan voterOnly action)"
    using conjunct2 [OF token_verification [OF ok, of 9 token "''k''" _ voterOnly 9]] t by simp
  moreover have "VerifyToken demoLib 10 token ''k'' = Inl ErrExpiredToken"
    using conjunct2 [OF token_verification [OF ok, of 10 token "''k''" _ voterOnly 9]] t by simp
  ultimately show ?thesis using t can by blast
qed

section \<open>Google's identity tokens\<close>

text \<open>\<open>email_verified\<close> is a boolean or a string, depending on the issuer.\<close>

datatype jsonAny = JBool bool | JString string | JOther

record googleHeader =
  gh_Alg :: string
  gh_Kid :: string

record googleClaims =
  gc_Iss :: string
  gc_Aud :: string
  gc_Sub :: string
  gc_Email :: string
  gc_EmailVerified :: jsonAny
  gc_Exp :: int

record GoogleIdentity =
  gi_Subject :: string
  gi_Email :: string
  gi_EmailVerified :: bool

text \<open>An RSA public key: the modulus and the exponent, a 64-bit \<open>int\<close>.\<close>

record rsaKey =
  rsa_N :: nat
  rsa_E :: "64 word"

datatype googleErr = ErrGoogleTokenInvalid | ErrGoogleTokenExpired | ErrGoogleKey | ErrFetch

record googleLib =
  decHeader :: "bytes \<Rightarrow> googleHeader option"
  decGoogleClaims :: "bytes \<Rightarrow> googleClaims option"
  sha256 :: "bytes \<Rightarrow> bytes"
  verifyPKCS1v15 :: "rsaKey \<Rightarrow> bytes \<Rightarrow> bytes \<Rightarrow> bool"
  toLower :: "string \<Rightarrow> string"

definition googleIssuers :: "string list" where
  "googleIssuers = [''https://accounts.google.com'', ''accounts.google.com'']"

definition verifyGoogleIDToken ::
    "googleLib \<Rightarrow> int \<Rightarrow> string \<Rightarrow> string \<Rightarrow> (string \<Rightarrow> 'c \<Rightarrow> (googleErr + rsaKey) \<times> 'c) \<Rightarrow> 'c \<Rightarrow> (googleErr + GoogleIdentity) \<times> 'c" where
  "verifyGoogleIDToken L now idToken clientID lookupKey c =
     (case SplitByte idToken CHR ''.'' of
        [p0, p1, p2] \<Rightarrow>
          (case Option.bind (b64Decode p0) (decHeader L) of
             None \<Rightarrow> (Inl ErrGoogleTokenInvalid, c)
           | Some header \<Rightarrow>
               if gh_Alg header \<noteq> ''RS256'' then (Inl ErrGoogleTokenInvalid, c)
               else case lookupKey (gh_Kid header) c of
                 (Inl e, c) \<Rightarrow> (Inl e, c)
               | (Inr key, c) \<Rightarrow>
                   (case b64Decode p2 of
                      None \<Rightarrow> (Inl ErrGoogleTokenInvalid, c)
                    | Some signature \<Rightarrow>
                        if \<not> verifyPKCS1v15 L key (sha256 L (p0 @ ''.'' @ p1)) signature then (Inl ErrGoogleTokenInvalid, c)
                        else case Option.bind (b64Decode p1) (decGoogleClaims L) of
                          None \<Rightarrow> (Inl ErrGoogleTokenInvalid, c)
                        | Some claims \<Rightarrow>
                            if gc_Iss claims \<notin> set googleIssuers then (Inl ErrGoogleTokenInvalid, c)
                            else if clientID = [] \<or> gc_Aud claims \<noteq> clientID then (Inl ErrGoogleTokenInvalid, c)
                            else if now \<ge> gc_Exp claims then (Inl ErrGoogleTokenExpired, c)
                            else (Inr \<lparr>gi_Subject = gc_Sub claims, gi_Email = toLower L (gc_Email claims),
                                       gi_EmailVerified = (case gc_EmailVerified claims of
                                          JBool b \<Rightarrow> b | JString s \<Rightarrow> s = ''true'' | JOther \<Rightarrow> False)\<rparr>, c)))
      | _ \<Rightarrow> (Inl ErrGoogleTokenInvalid, c))"

text \<open>The cache of the keys; times in nanoseconds. \<open>fetch\<close> is the answer to the request for the key set,
  should one be made.\<close>

record googleJWK =
  jwk_Kid :: string
  jwk_Kty :: string
  jwk_N :: string
  jwk_E :: string

definition rsaPublicKeyFromJWK :: "googleJWK \<Rightarrow> rsaKey option" where
  "rsaPublicKeyFromJWK k =
     (case b64Decode (jwk_N k) of
        None \<Rightarrow> None
      | Some nBytes \<Rightarrow>
          (case b64Decode (jwk_E k) of
             None \<Rightarrow> None
           | Some eBytes \<Rightarrow>
               Some \<lparr>rsa_N = foldl (\<lambda>n b. 256 * n + of_char b) 0 nBytes,
                     rsa_E = foldl (\<lambda>e b. push_bit 8 e OR of_char b) 0 eBytes\<rparr>))"

definition addJWK :: "(string \<rightharpoonup> rsaKey) \<Rightarrow> googleJWK \<Rightarrow> (string \<rightharpoonup> rsaKey)" where
  "addJWK keys k =
     (if jwk_Kty k \<noteq> ''RSA'' then keys
      else case rsaPublicKeyFromJWK k of None \<Rightarrow> keys | Some pub \<Rightarrow> keys(jwk_Kid k \<mapsto> pub))"

text \<open>The answer: no response, or a status with a body; \<open>decSet\<close> decodes the key set.\<close>

definition fetchGoogleJWKS ::
    "(bytes \<Rightarrow> googleJWK list option) \<Rightarrow> (nat \<times> bytes option) option \<Rightarrow> (string \<rightharpoonup> rsaKey) option" where
  "fetchGoogleJWKS decSet response =
     (case response of
        None \<Rightarrow> None
      | Some (status, body) \<Rightarrow>
          if status \<noteq> 200 then None
          else (case Option.bind body decSet of None \<Rightarrow> None | Some ks \<Rightarrow> Some (foldl addJWK Map.empty ks)))"

record googleJWKSCache =
  jc_keys :: "(string \<rightharpoonup> rsaKey) option"
  jc_fetched :: int

definition googleKeysTTL :: int where
  "googleKeysTTL = 3600 * 10 ^ 9"

definition cacheGet ::
    "int \<Rightarrow> (string \<rightharpoonup> rsaKey) option \<Rightarrow> string \<Rightarrow> googleJWKSCache \<Rightarrow> (googleErr + rsaKey) \<times> googleJWKSCache" where
  "cacheGet now fetch kid c =
     (if jc_keys c = None \<or> now - jc_fetched c > googleKeysTTL then
        (case fetch of
           None \<Rightarrow>
             (case Option.bind (jc_keys c) (\<lambda>keys. keys kid) of Some key \<Rightarrow> (Inr key, c) | None \<Rightarrow> (Inl ErrFetch, c))
         | Some keys \<Rightarrow>
             (let c = c\<lparr>jc_keys := Some keys, jc_fetched := now\<rparr>
              in case keys kid of Some key \<Rightarrow> (Inr key, c) | None \<Rightarrow> (Inl ErrGoogleKey, c)))
      else case Option.bind (jc_keys c) (\<lambda>keys. keys kid) of Some key \<Rightarrow> (Inr key, c) | None \<Rightarrow> (Inl ErrGoogleKey, c))"

definition VerifyGoogleIDToken ::
    "googleLib \<Rightarrow> int \<Rightarrow> (string \<rightharpoonup> rsaKey) option \<Rightarrow> string \<Rightarrow> string \<Rightarrow> googleJWKSCache \<Rightarrow> (googleErr + GoogleIdentity) \<times> googleJWKSCache" where
  "VerifyGoogleIDToken L now fetch idToken clientID c =
     verifyGoogleIDToken L (now div 10 ^ 9) idToken clientID (cacheGet now fetch) c"

text \<open>An identity is confirmed only for a token signed with RS256 under a key that the cache holds, for
  this client, by Google and before its expiry.\<close>

lemma cacheGet_key:
  assumes "cacheGet now fetch kid c = (Inr key, c')"
  shows "(\<exists>keys. jc_keys c' = Some keys \<and> keys kid = Some key)
    \<and> (c' = c \<or> fetch \<noteq> None \<and> jc_keys c' = fetch \<and> jc_fetched c' = now)"
  using assms by (auto simp: cacheGet_def Let_def bind_eq_Some_conv split: if_splits option.splits)

theorem google_identity_checked:
  assumes "VerifyGoogleIDToken L now fetch idToken clientID c = (Inr g, c')"
  shows "\<exists>p0 p1 p2 header keys key signature claims.
      idToken = p0 @ ''.'' @ p1 @ ''.'' @ p2 \<and> Option.bind (b64Decode p0) (decHeader L) = Some header
    \<and> gh_Alg header = ''RS256'' \<and> jc_keys c' = Some keys \<and> keys (gh_Kid header) = Some key
    \<and> b64Decode p2 = Some signature \<and> verifyPKCS1v15 L key (sha256 L (p0 @ ''.'' @ p1)) signature
    \<and> Option.bind (b64Decode p1) (decGoogleClaims L) = Some claims
    \<and> gc_Iss claims \<in> set googleIssuers \<and> clientID \<noteq> [] \<and> gc_Aud claims = clientID \<and> now div 10 ^ 9 < gc_Exp claims
    \<and> gi_Subject g = gc_Sub claims \<and> gi_Email g = toLower L (gc_Email claims)"
proof -
  note run = assms [unfolded VerifyGoogleIDToken_def verifyGoogleIDToken_def]
  obtain p0 p1 p2 where s: "SplitByte idToken CHR ''.'' = [p0, p1, p2]"
    using run by (auto split: list.splits)
  obtain header where h: "Option.bind (b64Decode p0) (decHeader L) = Some header" "gh_Alg header = ''RS256''"
    using run s by (auto split: option.splits if_splits)
  obtain key c1 where k: "cacheGet now fetch (gh_Kid header) c = (Inr key, c1)"
    using run s h by (auto split: prod.splits sum.splits)
  obtain signature where sg: "b64Decode p2 = Some signature" "verifyPKCS1v15 L key (sha256 L (p0 @ ''.'' @ p1)) signature"
    using run s h k by (auto split: option.splits if_splits)
  obtain claims where cl: "Option.bind (b64Decode p1) (decGoogleClaims L) = Some claims"
    using run s h k sg by (auto split: option.splits)
  have rest: "gc_Iss claims \<in> set googleIssuers" "clientID \<noteq> []" "gc_Aud claims = clientID" "now div 10 ^ 9 < gc_Exp claims"
    "gi_Subject g = gc_Sub claims" "gi_Email g = toLower L (gc_Email claims)" "c' = c1"
    using run by (simp_all add: s h k sg cl split: if_splits) auto
  obtain keys where keys: "jc_keys c' = Some keys" "keys (gh_Kid header) = Some key" using cacheGet_key [OF k] rest(7) by auto
  have "idToken = p0 @ ''.'' @ p1 @ ''.'' @ p2" using s unfolding Split3 by simp
  then show ?thesis using h keys sg cl rest(1-6) by blast
qed

end
