(* ===== verification/Server.thy ===== *)
theory Server
  imports Domain Token Membership
begin

text \<open>
  The HTTP interface of queel, \<open>src/api/queel/server\<close>: the handlers of \<open>server.go\<close> and their table of
  routes, the gossip endpoint and the health check. A handler is an action on the repository's world
  whose value is the response; a response carries its status and its body before JSON encoding.
  Decoding of request bodies is a parameter.
\<close>

section \<open>Requests and responses\<close>

record httpRequest =
  rq_path :: "string \<Rightarrow> string"
  rq_query :: "(string \<times> string) list"
  rq_auth :: string
  rq_body :: bytes

text \<open>\<open>r.URL.Query().Get\<close>: the first value of a parameter, empty when there is none.\<close>

definition QueryGet :: "httpRequest \<Rightarrow> string \<Rightarrow> string" where
  "QueryGet r k = (case map_of (rq_query r) k of None \<Rightarrow> [] | Some v \<Rightarrow> v)"

definition QueryAll :: "httpRequest \<Rightarrow> string \<Rightarrow> string list" where
  "QueryAll r k = map snd (filter (\<lambda>(k', v). k' = k) (rq_query r))"

record recentTextResult =
  rtr_text :: Text
  rtr_roundNumber :: int
  rtr_subscribed :: bool

record historySlot =
  hs_slotID :: string
  hs_original :: string
  hs_winner :: string
  hs_votes :: int
  hs_authorID :: string

record historyRound =
  hr_number :: int
  hr_status :: RoundStatus
  hr_slots :: "historySlot list"

record historyVersion =
  hv_textID :: string
  hv_title :: string
  hv_content :: string
  hv_finalized :: bool
  hv_rounds :: "historyRound list"

text \<open>The text of an error: that of an error value, or a message.\<close>

datatype errText = ErrValue repoErr | Msg string

datatype respBody =
    NoContent
  | BError errText
  | BSuperseded repoErr string
  | BText Text
  | BTexts "recentTextResult list"
  | BTags "TagCount list"
  | BTextWithSlots TextWithSlotsResult
  | BFragment Fragment
  | BFragments "Fragment list"
  | BRound Round
  | BOutcome RoundOutcome
  | BScheduled time
  | BSubscribed bool
  | BVotes "(string \<times> string) list"
  | BHistory "historyVersion list"
  | BSubscribedTexts "(string \<times> string) list"
  | BVoteCount int

record response =
  rs_status :: int
  rs_body :: respBody

definition writeJSON :: "int \<Rightarrow> respBody \<Rightarrow> response" where
  "writeJSON status payload = \<lparr>rs_status = status, rs_body = payload\<rparr>"

definition writeError :: "int \<Rightarrow> errText \<Rightarrow> response" where
  "writeError status message = writeJSON status (BError message)"

definition writeRepositoryError :: "repoErr \<Rightarrow> response" where
  "writeRepositoryError e =
     (case e of
        ErrNotFound \<Rightarrow> writeError 404 (ErrValue e)
      | ErrNoOpenRound \<Rightarrow> writeError 409 (ErrValue e)
      | ErrEmptyRound \<Rightarrow> writeError 409 (ErrValue e)
      | ErrOverlappingSlot s \<Rightarrow> writeError 400 (ErrValue e)
      | ErrTextSuperseded t by \<Rightarrow> writeJSON 409 (BSuperseded e by)
      | _ \<Rightarrow> writeError 400 (ErrValue e))"

text \<open>\<open>x, err := m; if err != nil { ...; return }\<close>. A panic is no error value: it ends the handler.\<close>

definition crash :: "repoErr \<Rightarrow> bool" where
  "crash e \<longleftrightarrow> e = ErrPanic \<or> e = ErrFuel"

definition attempt :: "('s, 'a) act \<Rightarrow> (repoErr \<Rightarrow> ('s, 'b) act) \<Rightarrow> ('a \<Rightarrow> ('s, 'b) act) \<Rightarrow> ('s, 'b) act" where
  "attempt m h k = (\<lambda>w. case m w of
     (Inl e, w') \<Rightarrow> if crash e then (Inl e, w') else h e w' | (Inr x, w') \<Rightarrow> k x w')"

text \<open>The bodies of the requests, and the parameters of the server: the case table of labels, a bound on
  the walks of \<open>TextChain\<close>, the token library and the decoders of the bodies.\<close>

record createTextRequest =
  ctr_title :: string
  ctr_content :: string
  ctr_authorID :: string
  ctr_tags :: string

record proposeEditRequest =
  per_start :: int
  per_end :: int
  per_content :: string
  per_authorID :: string

record castVoteRequest =
  cvr_fragmentID :: string
  cvr_userID :: string

record serverLib =
  lib_lower :: "rune \<Rightarrow> rune"
  lib_fuel :: nat
  lib_token :: tokenLib
  decCreateText :: "bytes \<Rightarrow> createTextRequest option"
  decProposeEdit :: "bytes \<Rightarrow> proposeEditRequest option"
  decScheduleClose :: "bytes \<Rightarrow> int option"
  decSubscribe :: "bytes \<Rightarrow> string option"
  decCastVote :: "bytes \<Rightarrow> castVoteRequest option"

definition badBody :: "('s, response) act" where
  "badBody = ret (writeError 400 (Msg ''invalid request body''))"

section \<open>The checks\<close>

definition bearerToken :: "httpRequest \<Rightarrow> string" where
  "bearerToken r =
     (if \<not> HasPrefix (rq_auth r) ''Bearer '' then [] else TrimSpace (TrimPrefix (rq_auth r) ''Bearer ''))"

text \<open>A check gives the refusal, or nothing when the request may proceed.\<close>

definition checkAction :: "serverLib \<Rightarrow> bytes \<Rightarrow> Action \<Rightarrow> httpRequest \<Rightarrow> ('s, response option) act" where
  "checkAction L jwtSecret action r =
     (if jwtSecret = [] then ret None
      else let token = bearerToken r
        in if token = [] then ret (Some (writeError 401 (Msg ''missing bearer token'')))
           else bindE timeNow (\<lambda>now.
             case VerifyToken (lib_token L) (now div 10 ^ 9) token jwtSecret of
               Inl e \<Rightarrow> ret (Some (writeError 401 (Msg ''invalid or expired token'')))
             | Inr claims \<Rightarrow>
                 ret (if \<not> ClaimsAllows claims action
                      then Some (writeError 403 (Msg (''insufficient permissions: '' @ action))) else None)))"

definition checkSubscription :: "('s, 'v) repository \<Rightarrow> string \<Rightarrow> string \<Rightarrow> ('s, response option) act" where
  "checkSubscription R textID userID =
     (if userID = [] then ret None
      else attempt (IsSubscribed R userID textID) (\<lambda>e. ret (Some (writeRepositoryError e))) (\<lambda>subscribed.
        ret (if \<not> subscribed then Some (writeError 403 (Msg ''not subscribed to this text'')) else None)))"

definition unlessRefused :: "('s, response option) act \<Rightarrow> ('s, response) act \<Rightarrow> ('s, response) act" where
  "unlessRefused check k = bindE check (\<lambda>refusal. case refusal of Some resp \<Rightarrow> ret resp | None \<Rightarrow> k)"

definition queryTags :: "serverLib \<Rightarrow> httpRequest \<Rightarrow> string list" where
  "queryTags L r =
     foldl (\<lambda>tags raw. foldl (\<lambda>tags tag. if tag \<in> set tags then tags else tags @ [tag]) tags (ParseTags (lib_lower L) raw))
       [] (QueryAll r ''tag'')"

section \<open>The handlers\<close>

type_synonym ('s, 'v) handler = "serverLib \<Rightarrow> bytes \<Rightarrow> ('s, 'v) repository \<Rightarrow> httpRequest \<Rightarrow> ('s, response) act"

abbreviation repoError :: "repoErr \<Rightarrow> ('s, response) act" where
  "repoError e \<equiv> ret (writeRepositoryError e)"

definition createTextHandler :: "('s, 'v) handler" where
  "createTextHandler L jwtSecret R r =
     unlessRefused (checkAction L jwtSecret ActionCreateText r)
       (case decCreateText L (rq_body r) of
          None \<Rightarrow> badBody
        | Some req \<Rightarrow>
            attempt (CreateText R (ctr_title req) (ctr_content req) (ctr_authorID req) (ParseTags (lib_lower L) (ctr_tags req)))
              repoError (\<lambda>t. ret (writeJSON 201 (BText t))))"

definition defaultRecentTextsLimit :: int where
  "defaultRecentTextsLimit = 20"

definition maxRecentTextsLimit :: int where
  "maxRecentTextsLimit = 100"

definition internalError :: "('s, response) act" where
  "internalError = ret (writeError 500 (Msg ''internal error''))"

text \<open>The two numbers of the query, \<open>None\<close> when one is refused.\<close>

definition queryLimit :: "httpRequest \<Rightarrow> int option" where
  "queryLimit r =
     (let raw = QueryGet r ''limit''
      in case (if raw = [] then Some defaultRecentTextsLimit
               else case Atoi raw of None \<Rightarrow> None | Some parsed \<Rightarrow> if parsed \<le> 0 then None else Some parsed) of
           None \<Rightarrow> None
         | Some limit \<Rightarrow> Some (if limit > maxRecentTextsLimit then maxRecentTextsLimit else limit))"

definition queryOffset :: "httpRequest \<Rightarrow> int option" where
  "queryOffset r =
     (let raw = QueryGet r ''offset''
      in if raw = [] then Some 0
         else case Atoi raw of None \<Rightarrow> None | Some parsed \<Rightarrow> if parsed < 0 then None else Some parsed)"

definition taggedPage :: "int \<Rightarrow> int \<Rightarrow> Text list \<Rightarrow> Text list" where
  "taggedPage limit offset texts =
     (if offset \<ge> int (length texts) then []
      else let texts = drop (nat offset) texts
        in if int (length texts) > limit then take (nat limit) texts else texts)"

definition listedText :: "('s, 'v) repository \<Rightarrow> string \<Rightarrow> Text \<Rightarrow> recentTextResult list \<Rightarrow> ('s, recentTextResult list) act" where
  "listedText R userID t results =
     bindE (RoundCount R (text_id t)) (\<lambda>roundNumber.
     bindE (if userID \<noteq> [] then IsSubscribed R userID (text_id t) else ret False) (\<lambda>subscribed.
     ret (results @ [\<lparr>rtr_text = t, rtr_roundNumber = roundNumber, rtr_subscribed = subscribed\<rparr>])))"

definition recentTextsHandler :: "('s, 'v) handler" where
  "recentTextsHandler L jwtSecret R r =
     (case queryLimit r of
        None \<Rightarrow> ret (writeError 400 (Msg ''invalid limit''))
      | Some limit \<Rightarrow>
          (case queryOffset r of
             None \<Rightarrow> ret (writeError 400 (Msg ''invalid offset''))
           | Some offset \<Rightarrow>
               attempt
                 (let tags = queryTags L r
                  in if tags \<noteq> []
                     then bindE (TextsByTags (lib_lower L) R tags) (\<lambda>texts. ret (taggedPage limit offset texts))
                     else RecentTexts R limit offset)
                 (\<lambda>e. internalError) (\<lambda>texts.
               attempt (foldE (listedText R (QueryGet r ''userId'')) texts []) (\<lambda>e. internalError) (\<lambda>results.
               ret (writeJSON 200 (BTexts results))))))"

definition tagsHandler :: "('s, 'v) handler" where
  "tagsHandler L jwtSecret R r = attempt (getTags R) repoError (\<lambda>tags. ret (writeJSON 200 (BTags tags)))"

definition getTextHandler :: "('s, 'v) handler" where
  "getTextHandler L jwtSecret R r = attempt (getText R (rq_path r ''id'')) repoError (\<lambda>t. ret (writeJSON 200 (BText t)))"

definition textWithSlotsHandler :: "('s, 'v) handler" where
  "textWithSlotsHandler L jwtSecret R r =
     attempt (TextWithSlots R (rq_path r ''id'')) repoError (\<lambda>x. ret (writeJSON 200 (BTextWithSlots x)))"

definition deleteTextHandler :: "('s, 'v) handler" where
  "deleteTextHandler L jwtSecret R r =
     unlessRefused (checkAction L jwtSecret ActionCreateText r)
       (unlessRefused (checkSubscription R (rq_path r ''id'') (QueryGet r ''userId''))
         (attempt (DeleteText R (rq_path r ''id'')) repoError (\<lambda>_. ret (writeJSON 204 NoContent))))"

definition proposeEditHandler :: "('s, 'v) handler" where
  "proposeEditHandler L jwtSecret R r =
     (let textID = rq_path r ''id''
      in case decProposeEdit L (rq_body r) of
           None \<Rightarrow> badBody
         | Some req \<Rightarrow>
             unlessRefused (checkAction L jwtSecret ActionEditText r)
               (unlessRefused (checkSubscription R textID (per_authorID req))
                 (attempt (ProposeEdit R textID (per_start req) (per_end req) (per_content req) (per_authorID req))
                   repoError (\<lambda>fragment. ret (writeJSON 201 (BFragment fragment))))))"

definition currentRoundHandler :: "('s, 'v) handler" where
  "currentRoundHandler L jwtSecret R r =
     attempt (CurrentRound R (rq_path r ''id'')) repoError (\<lambda>round. ret (writeJSON 200 (BRound round)))"

definition closeRoundHandler :: "('s, 'v) handler" where
  "closeRoundHandler L jwtSecret R r =
     unlessRefused (checkAction L jwtSecret ActionCloseText r)
       (unlessRefused (checkSubscription R (rq_path r ''id'') (QueryGet r ''userId''))
         (attempt (CloseRound R (rq_path r ''id'')) repoError (\<lambda>outcome. ret (writeJSON 200 (BOutcome outcome)))))"

definition scheduleCloseMaxDays :: int where
  "scheduleCloseMaxDays = 365"

text \<open>Times are nanoseconds: a day is \<open>24 * 3600 * 10 ^ 9\<close>. The pointer to the scheduled time is
  dereferenced.\<close>

definition scheduleCloseHandler :: "('s, 'v) handler" where
  "scheduleCloseHandler L jwtSecret R r =
     unlessRefused (checkAction L jwtSecret ActionCloseText r)
       (unlessRefused (checkSubscription R (rq_path r ''id'') (QueryGet r ''userId''))
         (case decScheduleClose L (rq_body r) of
            None \<Rightarrow> badBody
          | Some days \<Rightarrow>
              if days < 1 \<or> days > scheduleCloseMaxDays
              then ret (writeError 400 (Msg (''days must be between 1 and '' @ Itoa scheduleCloseMaxDays)))
              else bindE timeNow (\<lambda>now.
                attempt (ScheduleRoundClose R (rq_path r ''id'') (now + days * (24 * 3600 * 10 ^ 9)) (QueryGet r ''userId''))
                  repoError (\<lambda>round.
                case round_scheduledCloseAt round of
                  None \<Rightarrow> raise ErrPanic
                | Some at \<Rightarrow> ret (writeJSON 200 (BScheduled at))))))"

definition subscribeHandler :: "('s, 'v) handler" where
  "subscribeHandler L jwtSecret R r =
     unlessRefused (checkAction L jwtSecret ActionSubscribe r)
       (case decSubscribe L (rq_body r) of
          None \<Rightarrow> badBody
        | Some userID \<Rightarrow>
            attempt (Subscribe R userID (rq_path r ''id'')) repoError (\<lambda>_. ret (writeJSON 200 (BSubscribed True))))"

definition unsubscribeHandler :: "('s, 'v) handler" where
  "unsubscribeHandler L jwtSecret R r =
     (case decSubscribe L (rq_body r) of
        None \<Rightarrow> badBody
      | Some userID \<Rightarrow>
          attempt (Unsubscribe R userID (rq_path r ''id'')) repoError (\<lambda>_. ret (writeJSON 200 (BSubscribed False))))"

definition userVotesHandler :: "('s, 'v) handler" where
  "userVotesHandler L jwtSecret R r =
     attempt (UserVotes R (rq_path r ''id'') (rq_path r ''userId'')) repoError (\<lambda>votes. ret (writeJSON 200 (BVotes votes)))"

text \<open>\<open>errors.Is(err, queel.ErrNotFound)\<close> skips an element of a listing.\<close>

definition orMissing :: "('s, 'a) act \<Rightarrow> ('s, 'a option) act" where
  "orMissing m = catchE (bindE m (\<lambda>x. ret (Some x))) (\<lambda>e. if e = ErrNotFound then ret None else raise e)"

definition resolvedSlot ::
    "('s, 'v) repository \<Rightarrow> string \<Rightarrow> rune list \<Rightarrow> Slot \<Rightarrow> historySlot list \<Rightarrow> ('s, historySlot list) act" where
  "resolvedSlot R textID runes slot resolved =
     bindE (orMissing (WinningFragment R textID (slot_id slot))) (\<lambda>found.
     case found of
       None \<Rightarrow> ret resolved
     | Some winner \<Rightarrow>
         bindE (VoteCount R (fragment_id winner)) (\<lambda>votes.
         ret (if slot_start slot < 0 \<or> slot_end slot > int (length runes) \<or> slot_start slot > slot_end slot then resolved
              else resolved @ [\<lparr>hs_slotID = slot_id slot,
                hs_original = stringOf (take (nat (slot_end slot - slot_start slot)) (drop (nat (slot_start slot)) runes)),
                hs_winner = fragment_content winner, hs_votes = votes, hs_authorID = fragment_authorID winner\<rparr>])))"

definition resolvedRound ::
    "('s, 'v) repository \<Rightarrow> string \<Rightarrow> rune list \<Rightarrow> Round \<Rightarrow> historyRound list \<Rightarrow> ('s, historyRound list) act" where
  "resolvedRound R textID runes round rounds =
     bindE (foldE (resolvedSlot R textID runes) (round_slots round) []) (\<lambda>slots.
     ret (rounds @ [\<lparr>hr_number = round_number round, hr_status = round_status round, hr_slots = slots\<rparr>]))"

definition versionOf :: "('s, 'v) repository \<Rightarrow> Text \<Rightarrow> historyVersion list \<Rightarrow> ('s, historyVersion list) act" where
  "versionOf R t versions =
     bindE (RoundsForText R (text_id t)) (\<lambda>rounds.
     bindE (foldE (resolvedRound R (text_id t) (runesOf (text_content t))) rounds []) (\<lambda>resolved.
     ret (versions @ [\<lparr>hv_textID = text_id t, hv_title = text_title t, hv_content = text_content t,
       hv_finalized = text_finalized t, hv_rounds = resolved\<rparr>])))"

definition historyHandler :: "('s, 'v) handler" where
  "historyHandler L jwtSecret R r =
     attempt (bindE (TextChain (lib_fuel L) R (rq_path r ''id'')) (\<lambda>chain. foldE (versionOf R) chain []))
       repoError (\<lambda>versions. ret (writeJSON 200 (BHistory versions)))"

definition subscribedText :: "('s, 'v) repository \<Rightarrow> string \<Rightarrow> (string \<times> string) list \<Rightarrow> ('s, (string \<times> string) list) act" where
  "subscribedText R i texts =
     bindE (orMissing (getText R i)) (\<lambda>found.
     ret (case found of None \<Rightarrow> texts | Some t \<Rightarrow> texts @ [(text_id t, text_title t)]))"

definition subscriptionsHandler :: "('s, 'v) handler" where
  "subscriptionsHandler L jwtSecret R r =
     attempt (bindE (SubscriptionsForUser R (rq_path r ''userId'')) (\<lambda>textIDs. foldE (subscribedText R) textIDs []))
       repoError (\<lambda>texts. ret (writeJSON 200 (BSubscribedTexts texts)))"

definition fragmentsHandler :: "('s, 'v) handler" where
  "fragmentsHandler L jwtSecret R r =
     attempt (Fragments R (rq_path r ''id'') (rq_path r ''slotId'')) repoError (\<lambda>fragments. ret (writeJSON 200 (BFragments fragments)))"

definition getFragmentHandler :: "('s, 'v) handler" where
  "getFragmentHandler L jwtSecret R r =
     attempt (getFragment R (rq_path r ''id'')) repoError (\<lambda>fragment. ret (writeJSON 200 (BFragment fragment)))"

definition castVoteHandler :: "('s, 'v) handler" where
  "castVoteHandler L jwtSecret R r =
     unlessRefused (checkAction L jwtSecret ActionVote r)
       (case decCastVote L (rq_body r) of
          None \<Rightarrow> badBody
        | Some req \<Rightarrow>
            attempt (CastVote R (cvr_fragmentID req) (cvr_userID req)) repoError (\<lambda>_. ret (writeJSON 204 NoContent)))"

definition voteCountHandler :: "('s, 'v) handler" where
  "voteCountHandler L jwtSecret R r =
     attempt (VoteCount R (rq_path r ''id'')) repoError (\<lambda>count. ret (writeJSON 200 (BVoteCount count)))"

section \<open>The routes\<close>

text \<open>\<open>http.ServeMux\<close>: a pattern is a method and segments, literal or named; a named one matches any
  segment that is not empty. \<open>GET\<close> also serves \<open>HEAD\<close>. A path that only other methods serve is
  answered with 405, any other with 404.\<close>

datatype seg = Lit string | Var string

fun matchPath :: "seg list \<Rightarrow> string list \<Rightarrow> (string \<times> string) list option" where
  "matchPath [] [] = Some []"
| "matchPath (Lit a # ps) (s # ss) = (if a = s then matchPath ps ss else None)"
| "matchPath (Var v # ps) (s # ss) = (if s = [] then None else map_option (\<lambda>vs. (v, s) # vs) (matchPath ps ss))"
| "matchPath _ _ = None"

definition methodMatches :: "string \<Rightarrow> string \<Rightarrow> bool" where
  "methodMatches pattern m \<longleftrightarrow> pattern = m \<or> pattern = ''GET'' \<and> m = ''HEAD''"

definition serveRoutes ::
    "(string \<times> seg list \<times> ('s, 'v) handler) list \<Rightarrow> serverLib \<Rightarrow> bytes \<Rightarrow> ('s, 'v) repository \<Rightarrow> string \<Rightarrow> string list
      \<Rightarrow> httpRequest \<Rightarrow> ('s, response) act" where
  "serveRoutes rs L jwtSecret R m segs r =
     (case find (\<lambda>(p, path, h). methodMatches p m \<and> matchPath path segs \<noteq> None) rs of
        Some (p, path, h) \<Rightarrow>
          h L jwtSecret R (r\<lparr>rq_path := \<lambda>v. case map_of (the (matchPath path segs)) v of None \<Rightarrow> [] | Some x \<Rightarrow> x\<rparr>)
      | None \<Rightarrow>
          if list_ex (\<lambda>(p, path, h). matchPath path segs \<noteq> None) rs
          then ret (writeError 405 (Msg ''Method Not Allowed'')) else ret (writeError 404 (Msg ''404 page not found'')))"

definition routes :: "(string \<times> seg list \<times> ('s, 'v) handler) list" where
  "routes =
     [(''POST'', [Lit ''texts''], createTextHandler),
      (''GET'', [Lit ''texts''], recentTextsHandler),
      (''GET'', [Lit ''tags''], tagsHandler),
      (''GET'', [Lit ''texts'', Var ''id''], getTextHandler),
      (''GET'', [Lit ''texts'', Var ''id'', Lit ''with-slots''], textWithSlotsHandler),
      (''DELETE'', [Lit ''texts'', Var ''id''], deleteTextHandler),
      (''POST'', [Lit ''texts'', Var ''id'', Lit ''propose-edit''], proposeEditHandler),
      (''GET'', [Lit ''texts'', Var ''id'', Lit ''round''], currentRoundHandler),
      (''GET'', [Lit ''texts'', Var ''id'', Lit ''history''], historyHandler),
      (''POST'', [Lit ''texts'', Var ''id'', Lit ''close-round''], closeRoundHandler),
      (''POST'', [Lit ''texts'', Var ''id'', Lit ''schedule-close''], scheduleCloseHandler),
      (''POST'', [Lit ''texts'', Var ''id'', Lit ''subscribe''], subscribeHandler),
      (''DELETE'', [Lit ''texts'', Var ''id'', Lit ''subscribe''], unsubscribeHandler),
      (''GET'', [Lit ''users'', Var ''userId'', Lit ''subscriptions''], subscriptionsHandler),
      (''GET'', [Lit ''texts'', Var ''id'', Lit ''slots'', Var ''slotId'', Lit ''fragments''], fragmentsHandler),
      (''GET'', [Lit ''texts'', Var ''id'', Lit ''votes'', Var ''userId''], userVotesHandler),
      (''GET'', [Lit ''fragments'', Var ''id''], getFragmentHandler),
      (''POST'', [Lit ''vote''], castVoteHandler),
      (''GET'', [Lit ''fragments'', Var ''id'', Lit ''votes''], voteCountHandler)]"

definition NewHandler ::
    "serverLib \<Rightarrow> bytes \<Rightarrow> ('s, 'v) repository \<Rightarrow> string \<Rightarrow> string list \<Rightarrow> httpRequest \<Rightarrow> ('s, response) act" where
  "NewHandler = serveRoutes routes"

section \<open>Gossip and health\<close>

text \<open>A body that does not decode is \<open>None\<close>.\<close>

definition GossipHandler :: "Member list option \<Rightarrow> Membership \<Rightarrow> (int \<times> Member list option) \<times> Membership" where
  "GossipHandler body membership =
     (case body of
        None \<Rightarrow> ((400, None), membership)
      | Some theirView \<Rightarrow> (case HandleGossip membership theirView of (ourView, m) \<Rightarrow> ((200, Some ourView), m)))"

record healthResponse =
  health_status :: string
  health_store :: "serr option"
  health_clustered :: bool
  health_aliveNodes :: nat

definition healthzKey :: bytes where
  "healthzKey = ''__healthz__''"

definition HealthHandler :: "('s, 'v) storeOps \<Rightarrow> Membership option \<Rightarrow> 's \<Rightarrow> (int \<times> healthResponse) \<times> 's" where
  "HealthHandler ops membership s =
     (case sGet ops healthzKey s of
        (r, s') \<Rightarrow>
          (let resp = (case r of
                 Inl e \<Rightarrow> \<lparr>health_status = ''unhealthy'', health_store = Some e, health_clustered = False, health_aliveNodes = 0\<rparr>
               | Inr _ \<Rightarrow> \<lparr>health_status = ''ok'', health_store = None, health_clustered = False, health_aliveNodes = 0\<rparr>);
               resp = (case membership of
                 None \<Rightarrow> resp
               | Some m \<Rightarrow> resp\<lparr>health_clustered := True, health_aliveNodes := length (AliveNodes m)\<rparr>);
               status = (if health_status resp \<noteq> ''ok'' then 503 else 200)
           in ((status, resp), s')))"

section \<open>What may change the store\<close>

text \<open>An action that changes the reference store only from worlds where \<open>P\<close> holds.\<close>

definition changesIf :: "('v kvs world \<Rightarrow> bool) \<Rightarrow> ('v kvs, 'a) act \<Rightarrow> bool" where
  "changesIf P m \<longleftrightarrow> (\<forall>w r w'. m w = (r, w') \<longrightarrow> st w' = st w \<or> P w)"

lemma changesIfD: "changesIf P m \<Longrightarrow> m w = (r, w') \<Longrightarrow> st w' \<noteq> st w \<Longrightarrow> P w"
  by (auto simp: changesIf_def)

lemma changesIf_any: "changesIf (\<lambda>w. True) m"
  by (simp add: changesIf_def)

lemma changesIf_readOnly: "readOnly m \<Longrightarrow> changesIf P m"
  unfolding changesIf_def readOnly_def by (metis snd_conv)

lemma changesIf_mono: "changesIf P m \<Longrightarrow> (\<And>w. P w \<Longrightarrow> Q w) \<Longrightarrow> changesIf Q m"
  by (auto simp: changesIf_def)

lemma readOnly_attempt [read_intros]:
  "readOnly m \<Longrightarrow> (\<And>e. readOnly (h e)) \<Longrightarrow> (\<And>x. readOnly (k x)) \<Longrightarrow> readOnly (attempt m h k)"
  by (auto simp: readOnly_def attempt_def split: prod.splits sum.splits) (metis snd_conv)+

definition permits :: "serverLib \<Rightarrow> bytes \<Rightarrow> httpRequest \<Rightarrow> Action \<Rightarrow> 's world \<Rightarrow> bool" where
  "permits L jwtSecret r action w \<longleftrightarrow> jwtSecret = [] \<or> (\<exists>claims.
     VerifyToken (lib_token L) (clock w (ticks w) div 10 ^ 9) (bearerToken r) jwtSecret = Inr claims \<and> ClaimsAllows claims action)"

lemma checkAction_cases:
  assumes "checkAction L jwtSecret action r w = (q, w')"
  obtains (refused) resp where "q = Inr (Some resp)" "st w' = st w" "rs_status resp \<in> {401, 403}"
  | (passed) "q = Inr None" "st w' = st w" "permits L jwtSecret r action w" "\<exists>n. w' = w\<lparr>ticks := n\<rparr>"
proof (cases "jwtSecret = []")
  case True
  then have w: "q = Inr None" "w' = w" using assms by (simp_all add: checkAction_def ret_def)
  have "w' = w\<lparr>ticks := ticks w\<rparr>" using w by simp
  then show ?thesis using passed True w by (metis permits_def)
next
  case False
  then show ?thesis using assms refused passed
    by (fastforce simp: checkAction_def ret_def permits_def bindE_def timeNow_def Let_def writeError_def writeJSON_def
        split: if_splits sum.splits)
qed

lemma changesIf_checkAction:
  assumes "changesIf P k" and "\<And>w n. P (w\<lparr>ticks := n\<rparr>) = P w"
  shows "changesIf (\<lambda>w. permits L jwtSecret r action w \<and> P w) (unlessRefused (checkAction L jwtSecret action r) k)"
  unfolding changesIf_def
proof (intro allI impI)
  fix w res w' assume run: "unlessRefused (checkAction L jwtSecret action r) k w = (res, w')"
  obtain q w1 where c: "checkAction L jwtSecret action r w = (q, w1)" by fastforce
  then show "st w' = st w \<or> permits L jwtSecret r action w \<and> P w"
  proof (cases rule: checkAction_cases)
    case (refused resp)
    then show ?thesis using run c by (simp add: unlessRefused_def bindE_def ret_def)
  next
    case passed
    then have "k w1 = (res, w')" using run c by (simp add: unlessRefused_def bindE_def)
    then show ?thesis using assms(1) passed assms(2) unfolding changesIf_def by metis
  qed
qed

lemma changesIf_checkSubscription:
  assumes "changesIf P k"
  shows "changesIf (\<lambda>w. (u = [] \<or> isSubscribed w u t) \<and> P w) (unlessRefused (checkSubscription (refRepo cd) t u) k)"
proof -
  have sub: "IsSubscribed (refRepo cd) u t w = (Inr (isSubscribed w u t), w)" for w
    by (simp add: IsSubscribed_def bindE_def ret_def storeGet_def refOps_def isSubscribed_def db_def)
  show ?thesis using assms
    by (auto simp: changesIf_def unlessRefused_def checkSubscription_def bindE_def ret_def attempt_def sub split: if_splits)
qed

lemmas change_intros = changesIf_checkAction changesIf_checkSubscription

lemmas reader_defs = recentTextsHandler_def tagsHandler_def getTextHandler_def textWithSlotsHandler_def currentRoundHandler_def
  historyHandler_def subscriptionsHandler_def fragmentsHandler_def userVotesHandler_def getFragmentHandler_def voteCountHandler_def

lemma readOnly_listed: "readOnly (listedText (refRepo cd) u t x)"
  unfolding listedText_def by (intro read_intros)

lemma readOnly_orMissing [read_intros]: "readOnly m \<Longrightarrow> readOnly (orMissing m)"
  unfolding orMissing_def by (intro read_intros)

lemma readOnly_version: "readOnly (versionOf (refRepo cd) t x)"
  unfolding versionOf_def resolvedRound_def resolvedSlot_def by (intro read_intros)

lemma readOnly_subscribedText: "readOnly (subscribedText (refRepo cd) t x)"
  unfolding subscribedText_def by (intro read_intros)

lemma readers:
  "readOnly (recentTextsHandler L s (refRepo cd) r)" "readOnly (tagsHandler L s (refRepo cd) r)"
  "readOnly (getTextHandler L s (refRepo cd) r)" "readOnly (textWithSlotsHandler L s (refRepo cd) r)"
  "readOnly (currentRoundHandler L s (refRepo cd) r)" "readOnly (historyHandler L s (refRepo cd) r)"
  "readOnly (subscriptionsHandler L s (refRepo cd) r)" "readOnly (fragmentsHandler L s (refRepo cd) r)"
  "readOnly (userVotesHandler L s (refRepo cd) r)" "readOnly (getFragmentHandler L s (refRepo cd) r)"
  "readOnly (voteCountHandler L s (refRepo cd) r)"
  unfolding reader_defs internalError_def Let_def
  by (intro read_intros readOnly_listed readOnly_version readOnly_subscribedText)+

section \<open>Authorization\<close>

text \<open>The policy, by method and path: the right that a request needs, whether it acts on a text that only
  its subscribers may act on, and who is named as acting.\<close>

definition neededRight :: "string \<Rightarrow> string list \<Rightarrow> Action option" where
  "neededRight m segs =
     (if m = ''POST'' \<and> segs = [''texts''] then Some ActionCreateText
      else if m = ''POST'' \<and> segs = [''vote''] then Some ActionVote
      else if m = ''DELETE'' \<and> length segs = 2 \<and> segs ! 0 = ''texts'' then Some ActionCreateText
      else if m = ''POST'' \<and> length segs = 3 \<and> segs ! 0 = ''texts'' then
        (if segs ! 2 = ''propose-edit'' then Some ActionEditText
         else if segs ! 2 = ''close-round'' \<or> segs ! 2 = ''schedule-close'' then Some ActionCloseText
         else if segs ! 2 = ''subscribe'' then Some ActionSubscribe else None)
      else None)"

definition forSubscribers :: "string \<Rightarrow> string list \<Rightarrow> bool" where
  "forSubscribers m segs \<longleftrightarrow> m = ''DELETE'' \<and> length segs = 2
     \<or> m = ''POST'' \<and> length segs = 3 \<and> segs ! 2 \<in> {''propose-edit'', ''close-round'', ''schedule-close''}"

definition namedUser :: "serverLib \<Rightarrow> string list \<Rightarrow> httpRequest \<Rightarrow> string" where
  "namedUser L segs r =
     (if length segs = 3 \<and> segs ! 2 = ''propose-edit''
      then (case decProposeEdit L (rq_body r) of None \<Rightarrow> [] | Some req \<Rightarrow> per_authorID req) else QueryGet r ''userId'')"

lemma matchPath_simps [simp]:
  "matchPath [] segs = Some vs \<longleftrightarrow> segs = [] \<and> vs = []"
  "matchPath (Lit a # ps) segs = Some vs \<longleftrightarrow> (\<exists>ss. segs = a # ss \<and> matchPath ps ss = Some vs)"
  "matchPath (Var v # ps) segs = Some vs \<longleftrightarrow>
    (\<exists>s ss us. segs = s # ss \<and> s \<noteq> [] \<and> matchPath ps ss = Some us \<and> vs = (v, s) # us)"
  by (cases segs; auto)+

lemma gated_handlers:
  "changesIf (\<lambda>w. permits L s r ActionCreateText w) (createTextHandler L s (refRepo cd) r)"
  "changesIf (\<lambda>w. permits L s r ActionCreateText w \<and> (QueryGet r ''userId'' = [] \<or> isSubscribed w (QueryGet r ''userId'') (rq_path r ''id'')))
     (deleteTextHandler L s (refRepo cd) r)"
  "changesIf (\<lambda>w. permits L s r ActionEditText w \<and> (case decProposeEdit L (rq_body r) of None \<Rightarrow> False
       | Some req \<Rightarrow> per_authorID req = [] \<or> isSubscribed w (per_authorID req) (rq_path r ''id'')))
     (proposeEditHandler L s (refRepo cd) r)"
  "changesIf (\<lambda>w. permits L s r ActionCloseText w \<and> (QueryGet r ''userId'' = [] \<or> isSubscribed w (QueryGet r ''userId'') (rq_path r ''id'')))
     (closeRoundHandler L s (refRepo cd) r)"
  "changesIf (\<lambda>w. permits L s r ActionCloseText w \<and> (QueryGet r ''userId'' = [] \<or> isSubscribed w (QueryGet r ''userId'') (rq_path r ''id'')))
     (scheduleCloseHandler L s (refRepo cd) r)"
  "changesIf (\<lambda>w. permits L s r ActionSubscribe w) (subscribeHandler L s (refRepo cd) r)"
  "changesIf (\<lambda>w. permits L s r ActionVote w) (castVoteHandler L s (refRepo cd) r)"
proof -
  have gate: "changesIf (\<lambda>w. permits L s r a w) (unlessRefused (checkAction L s a r) k)" for a and k :: "('a kvs, response) act"
    by (rule changesIf_mono [OF changesIf_checkAction [OF changesIf_any]]) simp_all
  have gate2: "changesIf (\<lambda>w. permits L s r a w \<and> (u = [] \<or> isSubscribed w u t))
      (unlessRefused (checkAction L s a r) (unlessRefused (checkSubscription (refRepo cd) t u) k))" for a u t and k :: "('a kvs, response) act"
    by (rule changesIf_mono [OF changesIf_checkAction [OF changesIf_checkSubscription [OF changesIf_any]]])
      (simp_all add: isSubscribed_def)
  show "changesIf (\<lambda>w. permits L s r ActionCreateText w) (createTextHandler L s (refRepo cd) r)"
    "changesIf (\<lambda>w. permits L s r ActionSubscribe w) (subscribeHandler L s (refRepo cd) r)"
    "changesIf (\<lambda>w. permits L s r ActionVote w) (castVoteHandler L s (refRepo cd) r)"
    unfolding createTextHandler_def subscribeHandler_def castVoteHandler_def by (rule gate)+
  show "changesIf (\<lambda>w. permits L s r ActionCreateText w \<and> (QueryGet r ''userId'' = [] \<or> isSubscribed w (QueryGet r ''userId'') (rq_path r ''id'')))
     (deleteTextHandler L s (refRepo cd) r)"
    "changesIf (\<lambda>w. permits L s r ActionCloseText w \<and> (QueryGet r ''userId'' = [] \<or> isSubscribed w (QueryGet r ''userId'') (rq_path r ''id'')))
     (closeRoundHandler L s (refRepo cd) r)"
    "changesIf (\<lambda>w. permits L s r ActionCloseText w \<and> (QueryGet r ''userId'' = [] \<or> isSubscribed w (QueryGet r ''userId'') (rq_path r ''id'')))
     (scheduleCloseHandler L s (refRepo cd) r)"
    unfolding deleteTextHandler_def closeRoundHandler_def scheduleCloseHandler_def by (rule gate2)+
  show "changesIf (\<lambda>w. permits L s r ActionEditText w \<and> (case decProposeEdit L (rq_body r) of None \<Rightarrow> False
       | Some req \<Rightarrow> per_authorID req = [] \<or> isSubscribed w (per_authorID req) (rq_path r ''id'')))
     (proposeEditHandler L s (refRepo cd) r)"
    unfolding proposeEditHandler_def Let_def badBody_def
    using gate2 changesIf_readOnly [OF readOnly_ret] by (auto split: option.split)
qed

lemma serveRoutes_cases:
  assumes "serveRoutes rs L jwtSecret R m segs r w = (res, w')"
  obtains (none) status message where "res = Inr (writeError status message)" "status \<in> {404, 405}" "w' = w"
  | (found) p path h vs where "(p, path, h) \<in> set rs" "methodMatches p m" "matchPath path segs = Some vs"
      "h L jwtSecret R (r\<lparr>rq_path := \<lambda>v. case map_of vs v of None \<Rightarrow> [] | Some x \<Rightarrow> x\<rparr>) w = (res, w')"
proof (cases "find (\<lambda>(p, path, h). methodMatches p m \<and> matchPath path segs \<noteq> None) rs")
  case None
  then show ?thesis using assms none unfolding serveRoutes_def by (auto simp: ret_def split: if_splits)
next
  case (Some e)
  obtain p path h where e: "e = (p, path, h)" by (cases e)
  have mem: "(p, path, h) \<in> set rs" "methodMatches p m" "matchPath path segs \<noteq> None"
    using Some unfolding e find_Some_iff by (auto simp: in_set_conv_nth)
  then obtain vs where "matchPath path segs = Some vs" by auto
  then show ?thesis using assms found [OF mem(1,2)] Some unfolding serveRoutes_def e by simp
qed

text \<open>C32: With a secret configured, no request changes the store unless its token verifies now and allows the
  action that its route needs; acting on a text under a name also needs that name to be subscribed
  to it. Taking back one's subscription is the only change that needs no right.\<close>

theorem server_gate:
  assumes "NewHandler L jwtSecret (refRepo cd) m segs r w = (res, w')" and "st w' \<noteq> st w"
  shows "m = ''DELETE'' \<and> length segs = 3 \<and> segs ! 0 = ''texts'' \<and> segs ! 2 = ''subscribe''
    \<or> (\<exists>action. neededRight m segs = Some action \<and> permits L jwtSecret r action w)
      \<and> (forSubscribers m segs \<longrightarrow> namedUser L segs r = [] \<or> isSubscribed w (namedUser L segs r) (segs ! 1))"
  using assms(1) unfolding NewHandler_def
proof (cases rule: serveRoutes_cases)
  case (none status message)
  then show ?thesis using assms(2) by simp
next
  case (found p path h vs)
  define r' where "r' = r\<lparr>rq_path := \<lambda>v. case map_of vs v of None \<Rightarrow> [] | Some x \<Rightarrow> x\<rparr>"
  have r': "QueryGet r' k = QueryGet r k" "rq_body r' = rq_body r" for k by (simp_all add: r'_def QueryGet_def)
  have per: "permits L jwtSecret r' a w = permits L jwtSecret r a w" for a by (simp add: permits_def r'_def bearerToken_def)
  have run: "h L jwtSecret (refRepo cd) r' w = (res, w')" using found(4) by (simp add: r'_def)
  have go: "P w" if "changesIf P k" "k = h L jwtSecret (refRepo cd) r'" for P k
    using changesIfD [OF that(1)] run assms(2) that(2) by blast
  note path = found(3) r'_def
  have reads: ?thesis if "readOnly (h L jwtSecret (refRepo cd) r')" using go [OF changesIf_readOnly [OF that] refl] by blast
  show ?thesis using found(1) [unfolded routes_def list.set insert_iff empty_iff prod.inject]
  proof (elim disjE conjE FalseE, goal_cases)
    case 1
    then have "permits L jwtSecret r' ActionCreateText w" by (intro go [OF gated_handlers(1)]) simp
    moreover have "segs = [''texts'']" "m = p" using 1 found(2) path by (auto simp: methodMatches_def)
    ultimately show ?case using 1(1) by (simp add: per neededRight_def forSubscribers_def)
  next
    case 6
    then obtain i where i: "segs = [''texts'', i]" "rq_path r' ''id'' = i" "m = p" using found(2) path by (auto simp: methodMatches_def)
    have "permits L jwtSecret r' ActionCreateText w \<and> (QueryGet r' ''userId'' = [] \<or> isSubscribed w (QueryGet r' ''userId'') (rq_path r' ''id''))"
      using 6 by (intro go [OF gated_handlers(2)]) simp
    then show ?case using i 6(1) by (simp add: per r' neededRight_def forSubscribers_def namedUser_def)
  next
    case 7
    then obtain i where i: "segs = [''texts'', i, ''propose-edit'']" "rq_path r' ''id'' = i" "m = p"
      using found(2) path by (auto simp: methodMatches_def)
    have "permits L jwtSecret r' ActionEditText w \<and> (case decProposeEdit L (rq_body r') of None \<Rightarrow> False
        | Some req \<Rightarrow> per_authorID req = [] \<or> isSubscribed w (per_authorID req) (rq_path r' ''id''))"
      using 7 by (intro go [OF gated_handlers(3)]) simp
    then show ?case using i 7(1) by (auto simp: per r' neededRight_def forSubscribers_def namedUser_def split: option.splits)
  next
    case 10
    then obtain i where i: "segs = [''texts'', i, ''close-round'']" "rq_path r' ''id'' = i" "m = p" using found(2) path by (auto simp: methodMatches_def)
    have "permits L jwtSecret r' ActionCloseText w \<and> (QueryGet r' ''userId'' = [] \<or> isSubscribed w (QueryGet r' ''userId'') (rq_path r' ''id''))"
      using 10 by (intro go [OF gated_handlers(4)]) simp
    then show ?case using i 10(1) by (simp add: per r' neededRight_def forSubscribers_def namedUser_def)
  next
    case 11
    then obtain i where i: "segs = [''texts'', i, ''schedule-close'']" "rq_path r' ''id'' = i" "m = p" using found(2) path by (auto simp: methodMatches_def)
    have "permits L jwtSecret r' ActionCloseText w \<and> (QueryGet r' ''userId'' = [] \<or> isSubscribed w (QueryGet r' ''userId'') (rq_path r' ''id''))"
      using 11 by (intro go [OF gated_handlers(5)]) simp
    then show ?case using i 11(1) by (simp add: per r' neededRight_def forSubscribers_def namedUser_def)
  next
    case 12
    then have "permits L jwtSecret r' ActionSubscribe w" by (intro go [OF gated_handlers(6)]) simp
    moreover obtain i where "segs = [''texts'', i, ''subscribe'']" "m = p" using 12 found(2) path by (auto simp: methodMatches_def)
    ultimately show ?case using 12(1) by (simp add: per neededRight_def forSubscribers_def)
  next
    case 13
    then obtain i where "segs = [''texts'', i, ''subscribe'']" "m = p" using found(2) path by (auto simp: methodMatches_def)
    then show ?case using 13(1) by simp
  next
    case 18
    then have "permits L jwtSecret r' ActionVote w" by (intro go [OF gated_handlers(7)]) simp
    moreover have "segs = [''vote'']" "m = p" using 18 found(2) path by (auto simp: methodMatches_def)
    ultimately show ?case using 18(1) by (simp add: per neededRight_def forSubscribers_def)
  qed (rule reads, simp only: readers)+
qed

text \<open>A server for demonstrations, with an author who may create texts until the ninth second.\<close>

definition authorClaims :: Claims where
  "authorClaims = \<lparr>cl_Subject = ''u'', cl_Root = False, cl_Perms = 2, cl_ExpiresAt = 9\<rparr>"

definition demoServer :: serverLib where
  "demoServer = \<lparr>lib_lower = asciiLower, lib_fuel = 3,
     lib_token = \<lparr>encClaims = (\<lambda>c. if c = authorClaims then Some ''c'' else None),
       decClaims = (\<lambda>v. if v = ''c'' then Some authorClaims else None), hmac = (\<lambda>k m. m @ k)\<rparr>,
     decCreateText = (\<lambda>b. Some \<lparr>ctr_title = b, ctr_content = b, ctr_authorID = ''u'', ctr_tags = []\<rparr>),
     decProposeEdit = (\<lambda>b. None), decScheduleClose = (\<lambda>b. None), decSubscribe = (\<lambda>b. Some b), decCastVote = (\<lambda>b. None)\<rparr>"

definition authorRequest :: httpRequest where
  "authorRequest = \<lparr>rq_path = (\<lambda>v. []), rq_query = [],
     rq_auth = ''Bearer '' @ the (SignToken (lib_token demoServer) authorClaims ''k''), rq_body = ''hi''\<rparr>"

theorem server_gate_witness:
  "\<exists>res w'. NewHandler demoServer ''k'' (refRepo payloadCodec) ''POST'' [''texts''] authorRequest
      (freshWorld [''a'', ''b''] int :: payload kvs world) = (res, w') \<and> st w' \<noteq> []
    \<and> permits demoServer ''k'' authorRequest ActionCreateText (freshWorld [''a'', ''b''] int :: payload kvs world)"
proof -
  let ?w = "freshWorld [''a'', ''b''] int :: payload kvs world"
  obtain res w' where run: "NewHandler demoServer ''k'' (refRepo payloadCodec) ''POST'' [''texts''] authorRequest ?w = (res, w')"
    by fastforce
  have "(case NewHandler demoServer ''k'' (refRepo payloadCodec) ''POST'' [''texts''] authorRequest ?w of (res, w') \<Rightarrow> st w' = []) = False"
    by code_simp
  then have changed: "st w' \<noteq> []" by (simp add: run)
  then have "st w' \<noteq> st ?w" by (simp add: freshWorld_def)
  from server_gate [OF run this] show ?thesis using run changed by (auto simp: neededRight_def)
qed

end
