(* ===== verification/Access.thy ===== *)
theory Access
  imports Accounts Server
begin

text \<open>
  Who may do what in the host API: the cache of rights (\<open>src/api/permission_cache.go\<close>), the middleware
  (\<open>src/api/middleware.go\<close>) and the process state its handlers share. A handler of the API is an action
  on that state: the world of the repository, whose store also holds the directory of rights as in
  cluster mode, the relational database, the caches, and the work handed to background goroutines.
\<close>

section \<open>The cache of rights\<close>

record cachedRights =
  cr_perms :: Permissions
  cr_root :: bool
  cr_storedAt :: int

text \<open>The map, in the order in which it is walked. Ranging over a Go map has no fixed order: what is
  proved holds for every list.\<close>

type_synonym permissionCache = "(string \<times> cachedRights) list"

definition maxCachedPermissions :: int where
  "maxCachedPermissions = 10000"

definition newPermissionCache :: permissionCache where
  "newPermissionCache = []"

fun oldestEntry :: "permissionCache \<Rightarrow> string \<Rightarrow> int \<Rightarrow> string" where
  "oldestEntry [] oldestID oldestAt = oldestID"
| "oldestEntry ((i, entry) # c) oldestID oldestAt =
     (if oldestID = [] \<or> cr_storedAt entry < oldestAt then oldestEntry c i (cr_storedAt entry)
      else oldestEntry c oldestID oldestAt)"

definition evictOldestLocked :: "permissionCache \<Rightarrow> permissionCache" where
  "evictOldestLocked c = AList.delete (oldestEntry c [] 0) c"

definition remember :: "string \<Rightarrow> Permissions \<Rightarrow> bool \<Rightarrow> int \<Rightarrow> permissionCache \<Rightarrow> permissionCache" where
  "remember userID perms root now c =
     (let c = (if int (length c) \<ge> maxCachedPermissions then if map_of c userID = None then evictOldestLocked c else c else c)
      in AList.update userID \<lparr>cr_perms = perms, cr_root = root, cr_storedAt = now\<rparr> c)"

definition recall :: "string \<Rightarrow> permissionCache \<Rightarrow> (Permissions \<times> bool) option" where
  "recall userID c = map_option (\<lambda>entry. (cr_perms entry, cr_root entry)) (map_of c userID)"

text \<open>What is dropped is an entry of the cache no fresher than any other. The empty identifier, which no
  account has, would make the walk start over.\<close>

lemma oldest_walk:
  assumes "oldestID \<noteq> []" and "\<forall>i \<in> fst ` set c. i \<noteq> []"
  obtains t where "t \<le> oldestAt" "\<forall>(j, e) \<in> set c. t \<le> cr_storedAt e"
    "oldestEntry c oldestID oldestAt = oldestID \<and> t = oldestAt
      \<or> (\<exists>e. (oldestEntry c oldestID oldestAt, e) \<in> set c \<and> cr_storedAt e = t)"
  using assms
proof (induction c arbitrary: oldestID oldestAt thesis)
  case (Cons x c)
  obtain j e where x: "x = (j, e)" by (cases x)
  show ?case
  proof (cases "cr_storedAt e < oldestAt")
    case True
    show ?thesis
    proof (rule Cons.IH [of "cr_storedAt e" j])
      fix t assume t: "t \<le> cr_storedAt e" "\<forall>(j, e) \<in> set c. t \<le> cr_storedAt e"
        "oldestEntry c j (cr_storedAt e) = j \<and> t = cr_storedAt e \<or> (\<exists>y. (oldestEntry c j (cr_storedAt e), y) \<in> set c \<and> cr_storedAt y = t)"
      show ?thesis using t True x by (intro Cons.prems(1) [of t]) auto
    qed (use Cons.prems x in auto)
  next
    case False
    show ?thesis
    proof (rule Cons.IH [of oldestAt oldestID])
      fix t assume t: "t \<le> oldestAt" "\<forall>(j, e) \<in> set c. t \<le> cr_storedAt e"
        "oldestEntry c oldestID oldestAt = oldestID \<and> t = oldestAt \<or> (\<exists>y. (oldestEntry c oldestID oldestAt, y) \<in> set c \<and> cr_storedAt y = t)"
      show ?thesis using t False x Cons.prems(2) by (intro Cons.prems(1) [of t]) auto
    qed (use Cons.prems in auto)
  qed
qed auto

lemma evictOldest:
  assumes "c \<noteq> []" and "\<forall>i \<in> fst ` set c. i \<noteq> []"
  obtains i e where "(i, e) \<in> set c" "\<forall>(j, x) \<in> set c. cr_storedAt e \<le> cr_storedAt x" "evictOldestLocked c = AList.delete i c"
proof -
  obtain j x rest where c: "c = (j, x) # rest" using assms(1) by (metis list.exhaust surj_pair)
  then have j: "j \<noteq> []" "\<forall>i \<in> fst ` set rest. i \<noteq> []" using assms(2) by auto
  obtain t where t: "t \<le> cr_storedAt x" "\<forall>(j, e) \<in> set rest. t \<le> cr_storedAt e"
    "oldestEntry rest j (cr_storedAt x) = j \<and> t = cr_storedAt x \<or> (\<exists>e. (oldestEntry rest j (cr_storedAt x), e) \<in> set rest \<and> cr_storedAt e = t)"
    using oldest_walk [OF j] by metis
  have e: "evictOldestLocked c = AList.delete (oldestEntry rest j (cr_storedAt x)) c" by (simp add: evictOldestLocked_def c)
  from t(3) obtain e where "(oldestEntry rest j (cr_storedAt x), e) \<in> set c" "cr_storedAt e = t" by (auto simp: c)
  then show ?thesis using t(1,2) e by (intro that [of _ e]) (auto simp: c)
qed

lemma remember_bounds:
  assumes "distinct (map fst c)" and "int (length c) \<le> maxCachedPermissions" and "\<forall>i \<in> fst ` set c. i \<noteq> []"
  shows "int (length (remember u p r now c)) \<le> maxCachedPermissions"
proof (cases "map_of c u")
  case (Some e)
  then have "length (AList.update u v c) = length c" for v by (induction c) (auto split: if_splits)
  then show ?thesis using Some assms(2) by (simp add: remember_def Let_def)
next
  case None
  then have upd: "length (AList.update u v c') = length c' + 1" if "map_of c' u = None" for v and c' :: permissionCache
    using that by (induction c') (auto split: if_splits)
  show ?thesis
  proof (cases "int (length c) \<ge> maxCachedPermissions")
    case True
    then have "c \<noteq> []" by (auto simp: maxCachedPermissions_def)
    then obtain i e where i: "(i, e) \<in> set c" "evictOldestLocked c = AList.delete i c" using evictOldest assms(3) by metis
    have "length (AList.delete i c) < length c"
      using i(1) by (auto simp: AList.delete_eq intro!: length_filter_less)
    moreover have "map_of (AList.delete i c) u = None" using None by (simp add: AList.delete_conv')
    ultimately show ?thesis using True None upd assms(2) i(2) by (simp add: remember_def Let_def)
  next
    case False
    then show ?thesis using None upd by (simp add: remember_def Let_def)
  qed
qed

lemma remember_recall:
  assumes "\<forall>i \<in> fst ` set c. i \<noteq> []"
  shows "recall u (remember u p r now c) = Some (p, r)"
    and "v \<noteq> u \<Longrightarrow> recall v (remember u p r now c) = recall v c
      \<or> recall v (remember u p r now c) = None \<and> int (length c) \<ge> maxCachedPermissions
        \<and> (\<exists>e. (v, e) \<in> set c \<and> (\<forall>(j, x) \<in> set c. cr_storedAt e \<le> cr_storedAt x))"
proof -
  show "recall u (remember u p r now c) = Some (p, r)" by (simp add: recall_def remember_def Let_def AList.update_conv')
  assume v: "v \<noteq> u"
  show "recall v (remember u p r now c) = recall v c
      \<or> recall v (remember u p r now c) = None \<and> int (length c) \<ge> maxCachedPermissions
        \<and> (\<exists>e. (v, e) \<in> set c \<and> (\<forall>(j, x) \<in> set c. cr_storedAt e \<le> cr_storedAt x))"
  proof (cases "int (length c) \<ge> maxCachedPermissions \<and> map_of c u = None")
    case True
    then have "c \<noteq> []" by (auto simp: maxCachedPermissions_def)
    then obtain i e where i: "(i, e) \<in> set c" "\<forall>(j, x) \<in> set c. cr_storedAt e \<le> cr_storedAt x" "evictOldestLocked c = AList.delete i c"
      using evictOldest assms by metis
    then show ?thesis using True v by (cases "i = v") (auto simp: recall_def remember_def Let_def AList.update_conv' AList.delete_conv')
  next
    case False
    then show ?thesis using v by (auto simp: recall_def remember_def Let_def AList.update_conv')
  qed
qed

section \<open>The state of the process\<close>

text \<open>What background goroutines are to do: tell the followers of a text about an event, and the calls
  to the search index, whose failure is only logged.\<close>

record Notification =
  no_Title :: string
  no_Body :: string
  no_Data :: "(string \<times> string) list"

datatype job =
    TextEvent string string "string \<Rightarrow> Notification"
  | VoteEvent string string

datatype indexCall = IndexText Text | RemoveText string

record 's host =
  h_repo :: "'s world"
  h_pg :: postgres
  h_cache :: permissionCache
  h_google :: googleJWKSCache
  h_jobs :: "job list"
  h_index :: "indexCall list"

type_synonym ('s, 'a) hact = "'s host \<Rightarrow> (repoErr + 'a) \<times> 's host"

definition hret :: "'a \<Rightarrow> ('s, 'a) hact" where
  "hret x = (\<lambda>h. (Inr x, h))"

definition hbind :: "('s, 'a) hact \<Rightarrow> ('a \<Rightarrow> ('s, 'b) hact) \<Rightarrow> ('s, 'b) hact" where
  "hbind m f = (\<lambda>h. case m h of (Inl e, h') \<Rightarrow> (Inl e, h') | (Inr x, h') \<Rightarrow> f x h')"

fun hfold :: "('a \<Rightarrow> 'b \<Rightarrow> ('s, 'b) hact) \<Rightarrow> 'a list \<Rightarrow> 'b \<Rightarrow> ('s, 'b) hact" where
  "hfold f [] b = hret b"
| "hfold f (x # xs) b = hbind (f x b) (hfold f xs)"

text \<open>A call of the repository, of the database or of the directory, with what follows an error and what
  follows a value.\<close>

definition onRepo :: "('s, 'a) act \<Rightarrow> (repoErr \<Rightarrow> ('s, 'b) hact) \<Rightarrow> ('a \<Rightarrow> ('s, 'b) hact) \<Rightarrow> ('s, 'b) hact" where
  "onRepo m err k = (\<lambda>h. case m (h_repo h) of
     (Inl e, w) \<Rightarrow> if crash e then (Inl e, h\<lparr>h_repo := w\<rparr>) else err e (h\<lparr>h_repo := w\<rparr>)
   | (Inr x, w) \<Rightarrow> k x (h\<lparr>h_repo := w\<rparr>))"

definition onPg :: "'a sqlAct \<Rightarrow> (sqlErr \<Rightarrow> ('s, 'b) hact) \<Rightarrow> ('a \<Rightarrow> ('s, 'b) hact) \<Rightarrow> ('s, 'b) hact" where
  "onPg q err k = (\<lambda>h. case q (h_pg h) of
     (Inl e, p) \<Rightarrow> err e (h\<lparr>h_pg := p\<rparr>) | (Inr x, p) \<Rightarrow> k x (h\<lparr>h_pg := p\<rparr>))"

definition onDir :: "('s \<Rightarrow> (rbacErr + 'a) \<times> 's) \<Rightarrow> (rbacErr \<Rightarrow> ('s, 'b) hact) \<Rightarrow> ('a \<Rightarrow> ('s, 'b) hact) \<Rightarrow> ('s, 'b) hact" where
  "onDir f err k = (\<lambda>h. case f (st (h_repo h)) of
     (Inl e, s) \<Rightarrow> err e (h\<lparr>h_repo := (h_repo h)\<lparr>st := s\<rparr>\<rparr>)
   | (Inr x, s) \<Rightarrow> k x (h\<lparr>h_repo := (h_repo h)\<lparr>st := s\<rparr>\<rparr>))"

text \<open>\<open>time.Now\<close>.\<close>

definition hostNow :: "('s, int) hact" where
  "hostNow h = onRepo timeNow (\<lambda>e h. (Inl e, h)) hret h"

definition spawn :: "job \<Rightarrow> ('s, unit) hact" where
  "spawn j = (\<lambda>h. (Inr (), h\<lparr>h_jobs := h_jobs h @ [j]\<rparr>))"

definition callIndex :: "indexCall \<Rightarrow> ('s, unit) hact" where
  "callIndex c = (\<lambda>h. (Inr (), h\<lparr>h_index := h_index h @ [c]\<rparr>))"

section \<open>Requests and responses of the API\<close>

definition maxRequestBodyBytes :: int where
  "maxRequestBodyBytes = 2 * 2 ^ 20"

text \<open>The body as a handler can read it: the bytes up to the limit, and whether an error follows them.\<close>

definition withBodyLimit :: "bytes \<Rightarrow> bytes \<times> bool" where
  "withBodyLimit body =
     (if int (length body) > maxRequestBodyBytes then (take (nat maxRequestBodyBytes) body, True) else (body, False))"

datatype 'a decoded = Decoded 'a | BodyTooLarge | BadBody

record apiRequest =
  ar_http :: httpRequest
  ar_client :: string
  ar_claims :: "Claims option"

abbreviation apiPath :: "apiRequest \<Rightarrow> string \<Rightarrow> string" where
  "apiPath r \<equiv> rq_path (ar_http r)"

abbreviation limitedBody :: "apiRequest \<Rightarrow> bytes \<times> bool" where
  "limitedBody r \<equiv> withBodyLimit (rq_body (ar_http r))"

text \<open>Messages are in French, in UTF-8.\<close>

abbreviation eacute :: string where
  "eacute \<equiv> [CHR 0xC3, CHR 0xA9]"

abbreviation agrave :: string where
  "agrave \<equiv> [CHR 0xC3, CHR 0xA0]"

definition serverError :: string where
  "serverError = ''erreur serveur''"

definition missingToken :: string where
  "missingToken = ''token manquant''"

definition badRequestBody :: string where
  "badRequestBody = ''corps de requ'' @ [CHR 0xC3, CHR 0xAA] @ ''te invalide''"

definition bodyTooLarge :: string where
  "bodyTooLarge = ''corps de requ'' @ [CHR 0xC3, CHR 0xAA] @ ''te trop volumineux''"

record sessionResponse =
  se_Token :: string
  se_ExpiresAt :: int
  se_UserID :: string
  se_Email :: string
  se_Pseudo :: string
  se_Root :: bool
  se_Permissions :: Permissions

record adminUserResponse =
  ad_ID :: string
  ad_Email :: string
  ad_Root :: bool
  ad_Permissions :: Permissions

record meResponse =
  me_UserID :: string
  me_Email :: string
  me_Pseudo :: string
  me_Root :: bool
  me_Permissions :: Permissions

record SearchResult =
  sr_TextID :: string
  sr_Title :: string
  sr_RoundNumber :: int
  sr_Subscribed :: bool

datatype apiBody =
    ANone
  | AError string
  | ARepoError repoErr
  | ASuperseded string string
  | ATextID string
  | AText Text
  | ATexts "recentTextResult list"
  | ATags "TagCount list"
  | ATextWithSlots TextWithSlotsResult
  | AFragment Fragment
  | AFragments "Fragment list"
  | AOutcome RoundOutcome
  | AScheduled time
  | ASubscribed bool
  | AVotes "(string \<times> string) list"
  | AHistory "(historyVersion \<times> time) list"
  | ASubscribedTexts "(string \<times> string) list"
  | ASearch "SearchResult list"
  | AMe meResponse
  | ASession sessionResponse
  | ANeedsPseudo
  | ARegistered string
  | AConfirmed
  | AAdminUsers "adminUserResponse list"
  | ARbacUser User
  | AInbox "storedNotification list" int
  | AUpdated nat
  | AHealth string "serr option" bool bool nat

record apiResponse =
  as_status :: int
  as_body :: apiBody

definition apiJSON :: "int \<Rightarrow> apiBody \<Rightarrow> ('s, apiResponse) hact" where
  "apiJSON status payload = hret \<lparr>as_status = status, as_body = payload\<rparr>"

definition apiError :: "int \<Rightarrow> string \<Rightarrow> ('s, apiResponse) hact" where
  "apiError status message = apiJSON status (AError message)"

section \<open>The middleware\<close>

record ('s, 'v) hostLib =
  hl_repo :: "('s, 'v) repository"
  hl_dir :: "'s userBackend"
  hl_token :: tokenLib
  hl_secret :: bytes
  hl_lower :: "rune \<Rightarrow> rune"
  hl_fuel :: nat

definition publicAPIPaths :: "string list" where
  "publicAPIPaths = [''/api/auth/register'', ''/api/auth/login'', ''/api/auth/confirm'', ''/api/auth/google'']"

text \<open>\<open>r.URL.Path\<close> from its segments.\<close>

definition pathOf :: "string list \<Rightarrow> string" where
  "pathOf segs = concat (map (\<lambda>s. ''/'' @ s) segs)"

definition recallRights :: "Claims \<Rightarrow> ('s, Permissions \<times> bool) hact" where
  "recallRights claims = (\<lambda>h.
     (Inr (case recall (cl_Subject claims) (h_cache h) of
        Some rights \<Rightarrow> rights | None \<Rightarrow> (PermissionsFromBits (cl_Perms claims), cl_Root claims)), h))"

definition currentPermissions :: "'s userBackend \<Rightarrow> Claims \<Rightarrow> ('s, Permissions \<times> bool) hact" where
  "currentPermissions B claims =
     onPg (UserByID (cl_Subject claims)) (\<lambda>e. recallRights claims) (\<lambda>user.
     case au_RbacUUID user of
       None \<Rightarrow> recallRights claims
     | Some uuid \<Rightarrow>
         onDir (beGet B uuid) (\<lambda>e. recallRights claims) (\<lambda>u.
         hbind hostNow (\<lambda>now h.
           (Inr (user_Permissions u, user_Root u),
            h\<lparr>h_cache := remember (cl_Subject claims) (user_Permissions u) (user_Root u) now (h_cache h)\<rparr>))))"

definition requireToken ::
    "('s, 'v) hostLib \<Rightarrow> (apiRequest \<Rightarrow> ('s, apiResponse) hact) \<Rightarrow> string list \<Rightarrow> apiRequest \<Rightarrow> ('s, apiResponse) hact" where
  "requireToken L next segs r =
     (if \<not> HasPrefix (pathOf segs) ''/api'' \<or> pathOf segs \<in> set publicAPIPaths then next r
      else let token = bearerToken (ar_http r)
        in if token = [] then apiError 401 missingToken
           else hbind hostNow (\<lambda>now.
             case VerifyToken (hl_token L) (now div 10 ^ 9) token (hl_secret L) of
               Inl ErrExpiredToken \<Rightarrow> apiError 401 (''session expir'' @ eacute @ ''e'')
             | Inl e \<Rightarrow> apiError 401 (''token invalide ou expir'' @ eacute)
             | Inr claims \<Rightarrow>
                 hbind (currentPermissions (hl_dir L) claims) (\<lambda>(perms, root).
                 next (r\<lparr>ar_claims := Some (claims\<lparr>cl_Perms := Bits perms, cl_Root := root\<rparr>)\<rparr>))))"

text \<open>The checks of the handlers, with what follows when they pass.\<close>

definition withClaims :: "apiRequest \<Rightarrow> (Claims \<Rightarrow> ('s, apiResponse) hact) \<Rightarrow> ('s, apiResponse) hact" where
  "withClaims r k = (case ar_claims r of None \<Rightarrow> apiError 401 missingToken | Some claims \<Rightarrow> k claims)"

definition lacksRights :: "('s, apiResponse) hact" where
  "lacksRights = apiError 403 ''droits insuffisants''"

definition requirePermission :: "apiRequest \<Rightarrow> Action \<Rightarrow> ('s, apiResponse) hact \<Rightarrow> ('s, apiResponse) hact" where
  "requirePermission r action k = withClaims r (\<lambda>claims. if \<not> ClaimsAllows claims action then lacksRights else k)"

definition requireSubscription ::
    "('s, 'v) repository \<Rightarrow> apiRequest \<Rightarrow> string \<Rightarrow> ('s, apiResponse) hact \<Rightarrow> ('s, apiResponse) hact" where
  "requireSubscription R r textID k =
     withClaims r (\<lambda>claims.
       if cl_Root claims then k
       else onRepo (IsSubscribed R (cl_Subject claims) textID) (\<lambda>e. apiError 500 serverError) (\<lambda>subscribed.
         if \<not> subscribed then apiError 403 (''abonnez-vous '' @ agrave @ '' ce texte pour agir dessus'') else k))"

section \<open>Live rights\<close>

text \<open>What \<open>currentPermissions\<close> answers: the rights of the directory when both look-ups answer, else the
  last ones read for this caller, else those of the token.\<close>

lemma currentPermissions_live:
  assumes "currentPermissions B claims h = (Inr (perms, root), h')"
  shows "(\<exists>user uuid u p s. UserByID (cl_Subject claims) (h_pg h) = (Inr user, p) \<and> au_RbacUUID user = Some uuid
        \<and> beGet B uuid (st (h_repo h)) = (Inr u, s) \<and> perms = user_Permissions u \<and> root = user_Root u
        \<and> recall (cl_Subject claims) (h_cache h') = Some (perms, root))
    \<or> h_cache h' = h_cache h
      \<and> (perms, root) = (case recall (cl_Subject claims) (h_cache h) of
          Some rights \<Rightarrow> rights | None \<Rightarrow> (PermissionsFromBits (cl_Perms claims), cl_Root claims))"
  using assms
  by (auto simp: currentPermissions_def onPg_def onDir_def recallRights_def hbind_def hostNow_def onRepo_def timeNow_def hret_def
      recall_def remember_def Let_def AList.update_conv' split: prod.splits sum.splits option.splits)

end
