(* ===== verification/TextApi.thy ===== *)
theory TextApi
  imports Access
begin

text \<open>
  The handlers of the host API that act on texts: \<open>src/api/texts.go\<close>, \<open>slots.go\<close>, \<open>votes.go\<close>,
  \<open>history.go\<close>, \<open>subscriptions.go\<close>, and the worker of \<open>scheduled_close.go\<close>. They call the repository as
  the handlers of queel do, with the caller taken from the claims that \<open>requireToken\<close> attached. The
  search services are parameters: whether they accept a text, and what they answer.
\<close>

record textPayload =
  tp_title :: string
  tp_content :: string
  tp_tags :: string

record editPayload =
  ep_start :: int
  ep_end :: int
  ep_content :: string

record textLib =
  tl_text :: "bytes \<times> bool \<Rightarrow> textPayload decoded"
  tl_edit :: "bytes \<times> bool \<Rightarrow> editPayload decoded"
  tl_days :: "bytes \<times> bool \<Rightarrow> int decoded"
  tl_indexed :: "Text \<Rightarrow> bool"
  tl_prune :: bool
  tl_found :: "string \<Rightarrow> int \<Rightarrow> (string \<times> string) list option"

type_synonym ('s, 'v) apiHandler = "('s, 'v) hostLib \<Rightarrow> textLib \<Rightarrow> apiRequest \<Rightarrow> ('s, apiResponse) hact"

section \<open>The search index\<close>

definition callIndexText :: "Text \<Rightarrow> ('s, unit) hact" where
  "callIndexText t = callIndex (IndexText t)"

definition IndexFinalizedText :: "textLib \<Rightarrow> Text \<Rightarrow> ('s, unit) hact" where
  "IndexFinalizedText T t =
     hbind (callIndex (IndexText t)) (\<lambda>_.
       if tl_indexed T t \<and> tl_prune T \<and> text_previousTextID t \<noteq> [] then callIndex (RemoveText (text_previousTextID t))
       else hret ())"

section \<open>Notifications of an event\<close>

definition eventData :: "string \<Rightarrow> string \<Rightarrow> string \<Rightarrow> (string \<times> string) list" where
  "eventData eventType textID actor =
     [(''type'', eventType), (''textId'', textID)] @ (if actor \<noteq> [] then [(''actor'', actor)] else [])"

abbreviation quoted :: "string \<Rightarrow> string" where
  "quoted title \<equiv> [CHR 0xC2, CHR 0xAB] @ '' '' @ title @ '' '' @ [CHR 0xC2, CHR 0xBB]"

definition EditProposed :: "string \<Rightarrow> string \<Rightarrow> string \<Rightarrow> ('s, unit) hact" where
  "EditProposed textID title actorID =
     spawn (TextEvent textID actorID (\<lambda>actor.
       \<lparr>no_Title = ''Modification propos'' @ eacute @ ''e'',
        no_Body = (if actor \<noteq> [] then actor @ '' a propos'' @ eacute @ '' une modification sur '' @ quoted title @ ''.''
                   else ''Une modification vient d'' @ [CHR 0x27] @ [CHR 0xC3, CHR 0xAA] @ ''tre propos'' @ eacute @ ''e sur ''
                     @ quoted title @ ''.''),
        no_Data = eventData ''text.edit-proposed'' textID actor\<rparr>))"

definition RoundClosed :: "Text \<Rightarrow> string \<Rightarrow> ('s, unit) hact" where
  "RoundClosed t actorID =
     spawn (TextEvent (text_id t) actorID (\<lambda>actor.
       \<lparr>no_Title = ''Tour de vote clos'',
        no_Body = (if actor \<noteq> [] then actor @ '' a clos le vote sur '' @ quoted (text_title t) @ '', la nouvelle version est disponible.''
                   else ''Le vote sur '' @ quoted (text_title t) @ '' est clos, la nouvelle version est disponible.''),
        no_Data = eventData ''text.round-closed'' (text_id t) actor\<rparr>))"

definition VoteCast :: "string \<Rightarrow> string \<Rightarrow> ('s, unit) hact" where
  "VoteCast fragmentID actorID = spawn (VoteEvent fragmentID actorID)"

section \<open>Texts\<close>

definition maxTitleRunes :: int where
  "maxTitleRunes = 300"

definition maxContentRunes :: int where
  "maxContentRunes = 300000"

definition RuneCountInString :: "string \<Rightarrow> int" where
  "RuneCountInString s = int (length (runesOf s))"

text \<open>The two refusals of a body that does not decode.\<close>

definition decodeBody :: "'a decoded \<Rightarrow> ('a \<Rightarrow> ('s, apiResponse) hact) \<Rightarrow> ('s, apiResponse) hact" where
  "decodeBody d k =
     (case d of Decoded req \<Rightarrow> k req | BodyTooLarge \<Rightarrow> apiError 413 bodyTooLarge | BadBody \<Rightarrow> apiError 400 badRequestBody)"

abbreviation characters :: string where
  "characters \<equiv> '' caract'' @ [CHR 0xC3, CHR 0xA8] @ ''res''"

definition titleTooLong :: string where
  "titleTooLong = ''le titre ne doit pas d'' @ eacute @ ''passer '' @ Itoa maxTitleRunes @ characters"

definition contentTooLong :: string where
  "contentTooLong = ''le contenu ne doit pas d'' @ eacute @ ''passer '' @ Itoa maxContentRunes @ characters"

definition decodeTextPayload ::
    "('s, 'v) hostLib \<Rightarrow> textLib \<Rightarrow> apiRequest \<Rightarrow> (string \<Rightarrow> string \<Rightarrow> string list \<Rightarrow> ('s, apiResponse) hact) \<Rightarrow> ('s, apiResponse) hact" where
  "decodeTextPayload L T r k =
     decodeBody (tl_text T (limitedBody r)) (\<lambda>req.
       let title = TrimSpace (tp_title req) in
       if title = [] then apiError 400 ''le titre est obligatoire''
       else if RuneCountInString title > maxTitleRunes then apiError 400 titleTooLong
       else if RuneCountInString (tp_content req) > maxContentRunes then apiError 400 contentTooLong
       else k title (tp_content req) (ParseTags (hl_lower L) (tp_tags req)))"

definition apiCreateText :: "('s, 'v) apiHandler" where
  "apiCreateText L T r =
     (case ar_claims r of
        None \<Rightarrow> lacksRights
      | Some claims \<Rightarrow>
          if \<not> ClaimsAllows claims ActionCreateText then lacksRights
          else decodeTextPayload L T r (\<lambda>title content tags.
            onRepo (CreateText (hl_repo L) title content (cl_Subject claims) tags) (\<lambda>e. apiError 500 serverError) (\<lambda>t.
            hbind (callIndexText t) (\<lambda>_. apiJSON 201 (ATextID (text_id t))))))"

definition apiQueryTags :: "(rune \<Rightarrow> rune) \<Rightarrow> apiRequest \<Rightarrow> string list" where
  "apiQueryTags lower r =
     foldl (\<lambda>tags raw. foldl (\<lambda>tags tag. if tag \<in> set tags then tags else tags @ [tag]) tags (ParseTags lower raw))
       [] (QueryAll (ar_http r) ''tag'')"

definition paginate :: "Text list \<Rightarrow> int \<Rightarrow> int \<Rightarrow> Text list" where
  "paginate texts limit offset =
     (if offset \<ge> int (length texts) then []
      else let texts = drop (nat offset) texts
        in if int (length texts) > limit then take (nat limit) texts else texts)"

definition apiTags :: "('s, 'v) apiHandler" where
  "apiTags L T r = onRepo (getTags (hl_repo L)) (\<lambda>e. apiError 500 serverError) (\<lambda>tags. apiJSON 200 (ATags tags))"

definition apiListedText :: "('s, 'v) repository \<Rightarrow> string \<Rightarrow> Text \<Rightarrow> recentTextResult list \<Rightarrow> ('s, recentTextResult list) act" where
  "apiListedText R userID t results =
     bindE (IsSubscribed R userID (text_id t)) (\<lambda>subscribed.
     bindE (RoundCount R (text_id t)) (\<lambda>roundNumber.
     ret (results @ [\<lparr>rtr_text = t, rtr_roundNumber = roundNumber, rtr_subscribed = subscribed\<rparr>])))"

text \<open>\<open>limit\<close> and \<open>offset\<close> are read as queel reads them.\<close>

definition apiRecentTexts :: "('s, 'v) apiHandler" where
  "apiRecentTexts L T r =
     withClaims r (\<lambda>claims.
     case queryLimit (ar_http r) of
       None \<Rightarrow> apiError 400 ''limit invalide''
     | Some limit \<Rightarrow>
         (case queryOffset (ar_http r) of
            None \<Rightarrow> apiError 400 ''offset invalide''
          | Some offset \<Rightarrow>
              onRepo
                (let tags = apiQueryTags (hl_lower L) r
                 in if tags \<noteq> []
                    then bindE (TextsByTags (hl_lower L) (hl_repo L) tags) (\<lambda>texts. ret (paginate texts limit offset))
                    else RecentTexts (hl_repo L) limit offset)
                (\<lambda>e. apiError 500 serverError) (\<lambda>texts.
              onRepo (foldE (apiListedText (hl_repo L) (cl_Subject claims)) texts []) (\<lambda>e. apiError 500 serverError) (\<lambda>results.
              apiJSON 200 (ATexts results)))))"

text \<open>\<open>errors.Is(err, queel.ErrNotFound)\<close>: 404 with a message, and 500 for any other error.\<close>

definition notFoundOr500 :: "string \<Rightarrow> repoErr \<Rightarrow> ('s, apiResponse) hact" where
  "notFoundOr500 message e = (if e = ErrNotFound then apiError 404 message else apiError 500 serverError)"

definition apiGetText :: "('s, 'v) apiHandler" where
  "apiGetText L T r =
     onRepo (getText (hl_repo L) (apiPath r ''id'')) (notFoundOr500 ''texte introuvable'') (\<lambda>t. apiJSON 200 (AText t))"

definition apiTextWithSlots :: "('s, 'v) apiHandler" where
  "apiTextWithSlots L T r =
     onRepo (TextWithSlots (hl_repo L) (apiPath r ''id'')) (notFoundOr500 ''texte introuvable'') (\<lambda>x. apiJSON 200 (ATextWithSlots x))"

definition apiFragmentsForSlot :: "('s, 'v) apiHandler" where
  "apiFragmentsForSlot L T r =
     onRepo (Fragments (hl_repo L) (apiPath r ''id'') (apiPath r ''slotId'')) (notFoundOr500 ''texte introuvable'')
       (\<lambda>fs. apiJSON 200 (AFragments fs))"

definition apiDeleteText :: "('s, 'v) apiHandler" where
  "apiDeleteText L T r =
     (case ar_claims r of
        None \<Rightarrow> lacksRights
      | Some claims \<Rightarrow>
          if \<not> ClaimsAllows claims ActionCreateText then lacksRights
          else let i = apiPath r ''id'' in
            requireSubscription (hl_repo L) r i
              (onRepo (DeleteText (hl_repo L) i)
                 (\<lambda>e. if e \<noteq> ErrNotFound then apiError 500 serverError
                      else hbind (callIndex (RemoveText i)) (\<lambda>_. apiError 404 ''texte introuvable''))
                 (\<lambda>_. hbind (callIndex (RemoveText i)) (\<lambda>_. apiJSON 204 ANone))))"

section \<open>Rounds\<close>

definition overlapMessage :: string where
  "overlapMessage = ''cette s'' @ eacute @ ''lection empi'' @ [CHR 0xC3, CHR 0xA8] @ ''te sur une zone d'' @ eacute @ ''j''
     @ agrave @ '' ouverte dans ce tour : choisissez-en une autre, ou proposez sur la zone existante''"

definition supersededMessage :: string where
  "supersededMessage = ''ce texte a d'' @ eacute @ ''j'' @ agrave @ '' '' @ eacute @ ''t'' @ eacute @ '' remplac'' @ eacute
     @ '' par une version plus r'' @ eacute @ ''cente''"

text \<open>The title for the notification is read after the proposal and left empty when it cannot be.\<close>

definition apiProposeEdit :: "('s, 'v) apiHandler" where
  "apiProposeEdit L T r =
     (let textID = apiPath r ''id'' in
      withClaims r (\<lambda>claims.
      decodeBody (tl_edit T (limitedBody r)) (\<lambda>req.
      requireSubscription (hl_repo L) r textID
        (if ep_start req < 0 \<or> ep_end req \<le> ep_start req then apiError 400 (''plage de s'' @ eacute @ ''lection invalide'')
         else if RuneCountInString (ep_content req) > maxContentRunes then apiError 400 contentTooLong
         else requirePermission r ActionEditText
           (onRepo (ProposeEdit (hl_repo L) textID (ep_start req) (ep_end req) (ep_content req) (cl_Subject claims))
              (\<lambda>e. case e of
                 ErrNotFound \<Rightarrow> apiError 404 ''texte introuvable''
               | ErrTextSuperseded t by \<Rightarrow> apiJSON 409 (ASuperseded supersededMessage by)
               | ErrOverlappingSlot s \<Rightarrow> apiError 400 overlapMessage
               | _ \<Rightarrow> apiJSON 400 (ARepoError e))
              (\<lambda>fragment.
                 hbind (onRepo (getText (hl_repo L) textID) (\<lambda>e. hret []) (\<lambda>t. hret (text_title t))) (\<lambda>title.
                 hbind (EditProposed textID title (cl_Subject claims)) (\<lambda>_.
                 apiJSON 201 (AFragment fragment)))))))))"

text \<open>The errors of closing a round, now or later.\<close>

definition closeError :: "repoErr \<Rightarrow> ('s, apiResponse) hact" where
  "closeError e =
     (case e of
        ErrNoOpenRound \<Rightarrow> apiError 409 ''aucun tour de vote ouvert pour ce texte''
      | ErrEmptyRound \<Rightarrow> apiError 409 (''aucune modification n'' @ [CHR 0x27] @ ''a '' @ eacute @ ''t'' @ eacute @ '' propos'' @ eacute @ ''e dans ce tour'')
      | ErrNotFound \<Rightarrow> apiError 404 ''texte introuvable''
      | _ \<Rightarrow> apiError 500 serverError)"

definition apiCloseRound :: "('s, 'v) apiHandler" where
  "apiCloseRound L T r =
     withClaims r (\<lambda>claims.
     requirePermission r ActionCloseText
       (let textID = apiPath r ''id'' in
        requireSubscription (hl_repo L) r textID
          (onRepo (CloseRound (hl_repo L) textID) closeError (\<lambda>outcome.
             hbind (IndexFinalizedText T (outcome_text outcome)) (\<lambda>_.
             hbind (RoundClosed (outcome_text outcome) (cl_Subject claims)) (\<lambda>_.
             apiJSON 200 (AOutcome outcome)))))))"

definition maxScheduleCloseDays :: int where
  "maxScheduleCloseDays = 365"

definition apiScheduleClose :: "('s, 'v) apiHandler" where
  "apiScheduleClose L T r =
     withClaims r (\<lambda>claims.
     requirePermission r ActionCloseText
       (let textID = apiPath r ''id'' in
        requireSubscription (hl_repo L) r textID
          (decodeBody (tl_days T (limitedBody r)) (\<lambda>days.
             if days < 1 \<or> days > maxScheduleCloseDays
             then apiError 400 (''le nombre de jours doit '' @ [CHR 0xC3, CHR 0xAA] @ ''tre compris entre 1 et '' @ Itoa maxScheduleCloseDays)
             else hbind hostNow (\<lambda>now.
               onRepo (ScheduleRoundClose (hl_repo L) textID (now + days * (24 * 3600 * 10 ^ 9)) (cl_Subject claims)) closeError (\<lambda>round.
               case round_scheduledCloseAt round of
                 None \<Rightarrow> (\<lambda>h. (Inl ErrPanic, h))
               | Some at \<Rightarrow> apiJSON 200 (AScheduled at)))))))"

definition decoratedHit ::
    "('s, 'v) repository \<Rightarrow> string \<Rightarrow> string \<times> string \<Rightarrow> SearchResult list \<Rightarrow> ('s, SearchResult list) act" where
  "decoratedHit R userID hit current =
     bindE (IsSuperseded R (fst hit)) (\<lambda>superseded.
     if superseded then ret current
     else bindE (RoundCount R (fst hit)) (\<lambda>count.
       bindE (IsSubscribed R userID (fst hit)) (\<lambda>subscribed.
       ret (current @ [\<lparr>sr_TextID = fst hit, sr_Title = snd hit, sr_RoundNumber = count, sr_Subscribed = subscribed\<rparr>]))))"

definition apiSearchTexts :: "('s, 'v) apiHandler" where
  "apiSearchTexts L T r =
     withClaims r (\<lambda>claims.
       let q = QueryGet (ar_http r) ''q'' in
       if q = [] then apiError 400 (''le param'' @ [CHR 0xC3, CHR 0xA8] @ ''tre de recherche q est obligatoire'')
       else case tl_found T q 10 of
         None \<Rightarrow> apiError 500 serverError
       | Some hits \<Rightarrow>
           onRepo (foldE (decoratedHit (hl_repo L) (cl_Subject claims)) hits []) (\<lambda>e. apiError 500 serverError) (\<lambda>current.
           apiJSON 200 (ASearch current)))"

section \<open>Votes\<close>

definition apiGetFragment :: "('s, 'v) apiHandler" where
  "apiGetFragment L T r =
     onRepo (getFragment (hl_repo L) (apiPath r ''id'')) (notFoundOr500 ''fragment introuvable'') (\<lambda>f. apiJSON 200 (AFragment f))"

text \<open>The claims are there when \<open>requirePermission\<close> lets the call pass.\<close>

definition apiCastVote :: "('s, 'v) apiHandler" where
  "apiCastVote L T r =
     requirePermission r ActionVote
       (withClaims r (\<lambda>claims.
        onRepo (CastVote (hl_repo L) (apiPath r ''id'') (cl_Subject claims)) (notFoundOr500 ''fragment introuvable'') (\<lambda>_.
        hbind (VoteCast (apiPath r ''id'') (cl_Subject claims)) (\<lambda>_. apiJSON 204 ANone))))"

definition apiMyVotes :: "('s, 'v) apiHandler" where
  "apiMyVotes L T r =
     withClaims r (\<lambda>claims.
     onRepo (UserVotes (hl_repo L) (apiPath r ''id'') (cl_Subject claims)) (\<lambda>e. apiError 500 serverError) (\<lambda>votes.
     apiJSON 200 (AVotes votes)))"

section \<open>History\<close>

text \<open>\<open>resolveHistoryRound\<close> takes the slots as queel's own history does.\<close>

definition resolveHistoryRound ::
    "('s, 'v) repository \<Rightarrow> Text \<Rightarrow> Round \<Rightarrow> historyRound list \<Rightarrow> ('s, historyRound list) act" where
  "resolveHistoryRound R t round rounds =
     bindE (foldE (\<lambda>slot slots.
       bindE (orMissing (WinningFragment R (text_id t) (slot_id slot))) (\<lambda>found.
       case found of
         None \<Rightarrow> ret slots
       | Some winner \<Rightarrow>
           bindE (VoteCount R (fragment_id winner)) (\<lambda>votes.
           let runes = runesOf (text_content t) in
           ret (if slot_start slot < 0 \<or> slot_end slot > int (length runes) \<or> slot_start slot > slot_end slot then slots
                else slots @ [\<lparr>hs_slotID = slot_id slot,
                  hs_original = stringOf (take (nat (slot_end slot - slot_start slot)) (drop (nat (slot_start slot)) runes)),
                  hs_winner = fragment_content winner, hs_votes = votes, hs_authorID = fragment_authorID winner\<rparr>])))) (round_slots round) []) (\<lambda>slots.
     ret (rounds @ [\<lparr>hr_number = round_number round, hr_status = round_status round, hr_slots = slots\<rparr>]))"

definition apiVersion :: "('s, 'v) repository \<Rightarrow> Text \<Rightarrow> (historyVersion \<times> time) list \<Rightarrow> ('s, (historyVersion \<times> time) list) act" where
  "apiVersion R t versions =
     bindE (RoundsForText R (text_id t)) (\<lambda>rounds.
     bindE (foldE (resolveHistoryRound R t) rounds []) (\<lambda>resolved.
     ret (versions @ [(\<lparr>hv_textID = text_id t, hv_title = text_title t, hv_content = text_content t,
       hv_finalized = text_finalized t, hv_rounds = resolved\<rparr>, text_createdAt t)])))"

text \<open>Only the walk of the chain answers 404.\<close>

definition apiHistory :: "('s, 'v) apiHandler" where
  "apiHistory L T r =
     onRepo (TextChain (hl_fuel L) (hl_repo L) (apiPath r ''id'')) (notFoundOr500 ''texte introuvable'') (\<lambda>chain.
     onRepo (foldE (apiVersion (hl_repo L)) chain []) (\<lambda>e. apiError 500 serverError) (\<lambda>versions.
     apiJSON 200 (AHistory versions)))"

section \<open>Subscriptions\<close>

definition apiSubscribe :: "('s, 'v) apiHandler" where
  "apiSubscribe L T r =
     withClaims r (\<lambda>claims.
     requirePermission r ActionSubscribe
       (onRepo (Subscribe (hl_repo L) (cl_Subject claims) (apiPath r ''id'')) (notFoundOr500 ''texte introuvable'') (\<lambda>_.
        apiJSON 200 (ASubscribed True))))"

definition forgetNotifications :: "('s, 'v) hostLib \<Rightarrow> string \<Rightarrow> string \<Rightarrow> ('s, unit) hact" where
  "forgetNotifications L userID textID =
     hbind (onRepo (TextChain (hl_fuel L) (hl_repo L) textID) (\<lambda>e. hret [textID]) (\<lambda>chain. hret (map text_id chain))) (\<lambda>textIDs.
     onPg (DeleteNotificationsForTexts userID textIDs) (\<lambda>e. hret ()) (\<lambda>n. hret ()))"

definition apiUnsubscribe :: "('s, 'v) apiHandler" where
  "apiUnsubscribe L T r =
     withClaims r (\<lambda>claims.
       let textID = apiPath r ''id'' in
       onRepo (Unsubscribe (hl_repo L) (cl_Subject claims) textID) (\<lambda>e. apiError 500 serverError) (\<lambda>_.
       hbind (forgetNotifications L (cl_Subject claims) textID) (\<lambda>_. apiJSON 200 (ASubscribed False))))"

definition apiSubscriptions :: "('s, 'v) apiHandler" where
  "apiSubscriptions L T r =
     withClaims r (\<lambda>claims.
     onRepo (SubscriptionsForUser (hl_repo L) (cl_Subject claims)) (\<lambda>e. apiError 500 serverError) (\<lambda>textIDs.
     onRepo (foldE (\<lambda>i texts.
         bindE (orMissing (getText (hl_repo L) i)) (\<lambda>found.
         ret (case found of None \<Rightarrow> texts | Some t \<Rightarrow> texts @ [(text_id t, text_title t)]))) textIDs [])
       (\<lambda>e. apiError 500 serverError) (\<lambda>texts.
     apiJSON 200 (ASubscribedTexts texts))))"

section \<open>Scheduled closing\<close>

definition isScheduledCloseLeader :: "Membership \<Rightarrow> Node \<Rightarrow> bool" where
  "isScheduledCloseLeader m self = (let alive = AliveNodes m in alive \<noteq> [] \<and> alive ! 0 = self)"

definition closeDue :: "('s, 'v) hostLib \<Rightarrow> textLib \<Rightarrow> Round \<Rightarrow> unit \<Rightarrow> ('s, unit) hact" where
  "closeDue L T round u =
     onRepo (CloseRound (hl_repo L) (round_textID round)) (\<lambda>e. hret ()) (\<lambda>outcome.
       hbind (IndexFinalizedText T (outcome_text outcome)) (\<lambda>_.
       RoundClosed (outcome_text outcome) (round_scheduledCloseBy round)))"

text \<open>One tick of \<open>runScheduledCloseWorker\<close>; \<open>isLeader\<close> is absent in single-node mode.\<close>

definition scheduledCloseTick :: "('s, 'v) hostLib \<Rightarrow> textLib \<Rightarrow> bool option \<Rightarrow> ('s, unit) hact" where
  "scheduledCloseTick L T isLeader =
     (if isLeader = Some False then hret ()
      else hbind hostNow (\<lambda>now.
        onRepo (DueScheduledRounds (hl_repo L) now) (\<lambda>e. hret ()) (\<lambda>due. hfold (closeDue L T) due ())))"

end
