(* ===== verification/Inbox.thy ===== *)
theory Inbox
  imports TextApi
begin

text \<open>
  Telling followers: the fan-out of \<open>src/api/notifications.go\<close> over the channels of \<open>src/api/notify\<close>, the
  inbox of \<open>src/api/notifications_inbox.go\<close>, and the devices of \<open>src/api/devices.go\<close>. A background job
  is a step of its own, taken at any later time on the state it finds then.
\<close>

section \<open>The fan-out\<close>

record Recipient =
  rc_UserID :: string
  rc_Email :: string
  rc_DeviceTokens :: "string list"

definition actorName :: "string \<Rightarrow> ('s, string) hact" where
  "actorName actorID =
     (if actorID = [] then hret []
      else onPg (UserByID actorID) (\<lambda>e. hret []) (\<lambda>user.
        hret (case au_Pseudo user of
          Some (c # cs) \<Rightarrow> c # cs
        | _ \<Rightarrow> (case Cut (au_Email user) CHR ''@'' of
                  Some (lo, rest) \<Rightarrow> if lo \<noteq> [] then lo else au_Email user
                | None \<Rightarrow> au_Email user))))"

text \<open>The recipients, \<open>None\<close> when they cannot be resolved.\<close>

definition recipients :: "('s, 'v) repository \<Rightarrow> string \<Rightarrow> string \<Rightarrow> ('s, Recipient list option) hact" where
  "recipients R textID actorID =
     onRepo (SubscribersForText R textID) (\<lambda>e. hret None) (\<lambda>subscribers.
       let userIDs = filter (\<lambda>u. u \<noteq> actorID) subscribers in
       if userIDs = [] then hret (Some [])
       else onPg (EmailsForUsers userIDs) (\<lambda>e. hret None) (\<lambda>emails.
         onPg (DeviceTokensForUsers userIDs) (\<lambda>e. hret None) (\<lambda>deviceTokens.
         hret (Some (map (\<lambda>u. \<lparr>rc_UserID = u, rc_Email = emails u, rc_DeviceTokens = deviceTokens u\<rparr>) userIDs)))))"

definition dataOf :: "Notification \<Rightarrow> string \<Rightarrow> string" where
  "dataOf n k = (case map_of (no_Data n) k of None \<Rightarrow> [] | Some v \<Rightarrow> v)"

text \<open>The inbox channel, which every deployment has; a failed write is only logged. The channels that
  reach other services get the same list of recipients.\<close>

definition inboxSend :: "Notification \<Rightarrow> Recipient list \<Rightarrow> ('s, unit) hact" where
  "inboxSend n rs =
     onPg (SaveNotifications (map rc_UserID rs) (dataOf n ''type'') (dataOf n ''textId'') (no_Title n) (no_Body n) (dataOf n ''actor''))
       (\<lambda>e. hret ()) hret"

definition dispatch :: "Notification \<Rightarrow> Recipient list \<Rightarrow> ('s, unit) hact" where
  "dispatch n rs = (if rs = [] then hret () else inboxSend n rs)"

definition deliver :: "('s, 'v) repository \<Rightarrow> string \<Rightarrow> string \<Rightarrow> Notification \<Rightarrow> ('s, unit) hact" where
  "deliver R textID actorID n =
     hbind (recipients R textID actorID) (\<lambda>rs. case rs of None \<Rightarrow> hret () | Some rs \<Rightarrow> dispatch n rs)"

definition voteNotification :: "Text \<Rightarrow> string \<Rightarrow> Notification" where
  "voteNotification t actor =
     \<lparr>no_Title = ''Nouveau vote'',
      no_Body = (if actor \<noteq> [] then actor @ '' vient de voter sur '' @ quoted (text_title t) @ ''.''
        else ''Un vote vient d'' @ [CHR 0x27] @ [CHR 0xC3, CHR 0xAA] @ ''tre d'' @ eacute @ ''pos'' @ eacute @ '' sur ''
          @ quoted (text_title t) @ ''.''),
      no_Data = eventData ''text.vote-cast'' (text_id t) actor\<rparr>"

definition runJob :: "('s, 'v) repository \<Rightarrow> job \<Rightarrow> ('s, unit) hact" where
  "runJob R j =
     (case j of
        TextEvent textID actorID build \<Rightarrow> hbind (actorName actorID) (\<lambda>actor. deliver R textID actorID (build actor))
      | VoteEvent fragmentID actorID \<Rightarrow>
          onRepo (getFragment R fragmentID) (\<lambda>e. hret ()) (\<lambda>fragment.
          onRepo (getText R (fragment_textID fragment)) (\<lambda>e. hret ()) (\<lambda>t.
          hbind (actorName actorID) (\<lambda>actor. deliver R (text_id t) actorID (voteNotification t actor)))))"

section \<open>Listing the inbox\<close>

definition defaultNotificationLimit :: int where
  "defaultNotificationLimit = 50"

definition maxNotificationLimit :: int where
  "maxNotificationLimit = 200"

definition latestRoundOverfetch :: int where
  "latestRoundOverfetch = 3"

type_synonym marks = "(string \<times> bool) list"

text \<open>A Go map of booleans: an absent key reads as false.\<close>

definition marked :: "marks \<Rightarrow> string \<Rightarrow> bool" where
  "marked m k \<longleftrightarrow> map_of m k = Some True"

definition votedStep :: "('s, 'v) repository \<Rightarrow> string \<Rightarrow> string \<Rightarrow> marks \<Rightarrow> ('s, marks) act" where
  "votedStep R userID textID voted =
     (if textID = [] \<or> map_of voted textID \<noteq> None then ret voted
      else bindE (UserVotes R textID userID) (\<lambda>votes.
        if votes \<noteq> [] then ret (AList.update textID True voted)
        else bindE (catchE (bindE (getText R textID) (\<lambda>t. ret (text_previousTextID t)))
                           (\<lambda>e. if crash e then raise e else ret [])) (\<lambda>previousID.
          if previousID = [] then ret (AList.update textID False voted)
          else bindE (UserVotes R previousID userID) (\<lambda>previous. ret (AList.update textID (previous \<noteq> []) voted)))))"

definition votedOn :: "('s, 'v) repository \<Rightarrow> string \<Rightarrow> string list \<Rightarrow> ('s, marks) act" where
  "votedOn R userID textIDs = foldE (votedStep R userID) textIDs []"

definition latestStep :: "('s, 'v) repository \<Rightarrow> string \<Rightarrow> marks \<Rightarrow> ('s, marks) act" where
  "latestStep R textID current =
     (if textID = [] \<or> marked current textID then ret current
      else bindE (IsSuperseded R textID) (\<lambda>superseded. ret (AList.update textID (\<not> superseded) current)))"

definition keepLatestRound :: "('s, 'v) repository \<Rightarrow> string list \<Rightarrow> ('s, marks) act" where
  "keepLatestRound R textIDs = foldE (latestStep R) textIDs []"

text \<open>\<open>?types=a,b\<close>.\<close>

definition kindsOf :: "string \<Rightarrow> string list" where
  "kindsOf raw = (if raw = [] then [] else filter (\<lambda>k. k \<noteq> []) (map TrimSpace (SplitByte raw CHR '','')))"

definition inboxLimit :: "httpRequest \<Rightarrow> int option" where
  "inboxLimit r =
     (let raw = QueryGet r ''limit'' in
      if raw = [] then Some defaultNotificationLimit
      else case Atoi raw of None \<Rightarrow> None | Some parsed \<Rightarrow> if parsed \<le> 0 then None else Some (min parsed maxNotificationLimit))"

text \<open>The loop over what was read: what a later round has superseded is left out, and the page ends at the
  limit.\<close>

definition shownNotifications :: "marks \<Rightarrow> int \<Rightarrow> storedNotification list \<Rightarrow> storedNotification list" where
  "shownNotifications current limit stored =
     take (nat limit) (filter (\<lambda>n. sn_textID n = [] \<or> marked current (sn_textID n)) stored)"

definition apiListNotifications :: "('s, 'v) apiHandler" where
  "apiListNotifications L T r =
     withClaims r (\<lambda>claims.
     case inboxLimit (ar_http r) of
       None \<Rightarrow> apiError 400 ''limit invalide''
     | Some limit \<Rightarrow>
         let kinds = kindsOf (QueryGet (ar_http r) ''types'') in
         onPg (ListNotifications (cl_Subject claims) (limit * latestRoundOverfetch) kinds) (\<lambda>e. apiError 500 serverError) (\<lambda>stored.
         onPg (UnreadNotificationTexts (cl_Subject claims) kinds) (\<lambda>e. apiError 500 serverError) (\<lambda>unreadTexts.
         onRepo (keepLatestRound (hl_repo L) (map sn_textID stored @ unreadTexts)) (\<lambda>e. apiError 500 serverError) (\<lambda>current.
         let notifications = shownNotifications current limit stored in
         onRepo (votedOn (hl_repo L) (cl_Subject claims) (map sn_textID notifications)) (\<lambda>e. apiError 500 serverError) (\<lambda>voted.
         apiJSON 200 (AInbox (map (\<lambda>n. n\<lparr>sn_voted := marked voted (sn_textID n)\<rparr>) notifications)
           (int (length (filter (\<lambda>t. t = [] \<or> marked current t) unreadTexts))))))))) "

section \<open>Marking notifications\<close>

record inboxLib =
  il_read :: "bytes \<times> bool \<Rightarrow> bool decoded"
  il_device :: "bytes \<times> bool \<Rightarrow> (string \<times> string) decoded"

text \<open>\<open>strconv.ParseInt(..., 10, 64)\<close>; the 64-bit range is checked by the parser. A body over the limit
  is refused like any other that does not decode.\<close>

definition decodeOr400 :: "'a decoded \<Rightarrow> ('a \<Rightarrow> ('s, apiResponse) hact) \<Rightarrow> ('s, apiResponse) hact" where
  "decodeOr400 d k = (case d of Decoded req \<Rightarrow> k req | _ \<Rightarrow> apiError 400 badRequestBody)"

definition apiSetNotificationRead :: "inboxLib \<Rightarrow> ('s, 'v) apiHandler" where
  "apiSetNotificationRead I L T r =
     withClaims r (\<lambda>claims.
     case Atoi (apiPath r ''id'') of
       None \<Rightarrow> apiError 400 ''identifiant invalide''
     | Some i \<Rightarrow>
         decodeOr400 (il_read I (limitedBody r)) (\<lambda>isRead.
         hbind (if isRead then hostNow else hret 0) (\<lambda>readAt.
         onPg (SetNotificationRead (cl_Subject claims) i isRead readAt) (\<lambda>e. apiError 500 serverError) (\<lambda>found.
         if \<not> found then apiError 404 ''notification introuvable'' else apiJSON 204 ANone))))"

definition apiMarkAllNotificationsRead :: "('s, 'v) apiHandler" where
  "apiMarkAllNotificationsRead L T r =
     withClaims r (\<lambda>claims.
     onPg (MarkAllNotificationsRead (cl_Subject claims)) (\<lambda>e. apiError 500 serverError) (\<lambda>updated.
     apiJSON 200 (AUpdated updated)))"

section \<open>Devices\<close>

definition maxDeviceTokenRunes :: int where
  "maxDeviceTokenRunes = 4096"

definition missingDevice :: string where
  "missingDevice = ''jeton d'' @ [CHR 0x27] @ ''appareil manquant''"

definition apiRegisterDevice :: "inboxLib \<Rightarrow> ('s, 'v) apiHandler" where
  "apiRegisterDevice I L T r =
     withClaims r (\<lambda>claims.
     decodeOr400 (il_device I (limitedBody r)) (\<lambda>(rawToken, rawPlatform).
       let token = TrimSpace rawToken in
       if token = [] then apiError 400 missingDevice
       else if RuneCountInString token > maxDeviceTokenRunes then apiError 400 (''jeton d'' @ [CHR 0x27] @ ''appareil trop long'')
       else let platform = TrimSpace rawPlatform;
                platform = (if platform = [] then ''unknown'' else platform)
         in onPg (RegisterDeviceToken (cl_Subject claims) token platform) (\<lambda>e. apiError 500 serverError) (\<lambda>_. apiJSON 204 ANone)))"

definition apiUnregisterDevice :: "inboxLib \<Rightarrow> ('s, 'v) apiHandler" where
  "apiUnregisterDevice I L T r =
     withClaims r (\<lambda>claims.
     decodeOr400 (il_device I (limitedBody r)) (\<lambda>(rawToken, rawPlatform).
       let token = TrimSpace rawToken in
       if token = [] then apiError 400 missingDevice
       else onPg (DeleteUserDeviceToken (cl_Subject claims) token) (\<lambda>e. apiError 500 serverError) (\<lambda>_. apiJSON 204 ANone)))"

end
