(* ===== verification/AuthApi.thy ===== *)
theory AuthApi
  imports Inbox
begin

text \<open>
  Accounts and sessions of the host API: \<open>src/api/auth.go\<close>, \<open>src/api/admin.go\<close> and \<open>meHandler\<close> of
  \<open>src/api/main.go\<close>. Password hashing, the mail service and the parsing of addresses are parameters;
  what a handler draws at random is an argument.
\<close>

record credentialsRequest =
  cq_Email :: string
  cq_Password :: string
  cq_Pseudo :: string

record permissionsRequest =
  pq_root :: bool
  pq_permissions :: Permissions

record authLib =
  al_credentials :: "bytes \<times> bool \<Rightarrow> credentialsRequest decoded"
  al_googleAuth :: "bytes \<times> bool \<Rightarrow> (string \<times> string) decoded"
  al_confirm :: "bytes \<times> bool \<Rightarrow> (string \<times> int) decoded"
  al_permissions :: "bytes \<times> bool \<Rightarrow> permissionsRequest decoded"
  al_parseAddress :: "string \<Rightarrow> bool"
  al_hash :: "bytes \<Rightarrow> bytes \<Rightarrow> string option"
  al_matches :: "string \<Rightarrow> bytes \<Rightarrow> bool"
  al_mailSent :: "string \<Rightarrow> int \<Rightarrow> bool"
  al_google :: googleLib
  al_jwks :: "(string \<rightharpoonup> rsaKey) option"
  al_webClient :: string
  al_mobileClient :: string
  al_collation :: "string \<Rightarrow> string"

text \<open>The draws of one request: the salt of a hash, a validation code before its offset, the identifiers of
  a new account and of its directory entry, and the bytes of a password nobody knows.\<close>

record draws =
  dr_salt :: bytes
  dr_code :: int
  dr_id :: string
  dr_uuid :: "8 word list option"
  dr_secret :: "bytes option"

section \<open>Sessions\<close>

definition sessionTTL :: int where
  "sessionTTL = 3600 * 10 ^ 9"

definition maxPseudoRunes :: int where
  "maxPseudoRunes = 50"

definition defaultPermissions :: Permissions where
  "defaultPermissions = \<lparr>CanVote = True, CanCreateText = False, CanCloseText = False, CanEditText = False, CanSubscribe = True\<rparr>"

definition generateValidationCode :: "int \<Rightarrow> int" where
  "generateValidationCode n = n + 100000"

text \<open>The rights of the directory entry an account points to, none when there is no entry; an error of the
  directory stops the session.\<close>

definition accountRights ::
    "'s userBackend \<Rightarrow> ApiUser \<Rightarrow> ('s, 'b) hact \<Rightarrow> (Permissions \<Rightarrow> bool \<Rightarrow> ('s, 'b) hact) \<Rightarrow> ('s, 'b) hact" where
  "accountRights B user err k =
     (case au_RbacUUID user of
        None \<Rightarrow> k noPermissions False
      | Some uuid \<Rightarrow>
          onDir (beGet B uuid) (\<lambda>e. if e \<noteq> UserNotFound then err else k noPermissions False)
            (\<lambda>u. k (user_Permissions u) (user_Root u)))"

definition issueToken ::
    "('s, 'v) hostLib \<Rightarrow> ApiUser \<Rightarrow> ('s, 'b) hact \<Rightarrow> (string \<Rightarrow> int \<Rightarrow> Permissions \<Rightarrow> bool \<Rightarrow> ('s, 'b) hact) \<Rightarrow> ('s, 'b) hact" where
  "issueToken L user err k =
     accountRights (hl_dir L) user err (\<lambda>perms root h.
       (case hostNow h of
          (Inl e, h) \<Rightarrow> (Inl e, h)
        | (Inr now, h) \<Rightarrow>
            (let expiresAt = now + sessionTTL;
                 claims = \<lparr>cl_Subject = au_ID user, cl_Root = root, cl_Perms = Bits perms, cl_ExpiresAt = expiresAt div 10 ^ 9\<rparr>
             in case SignToken (hl_token L) claims (hl_secret L) of
                  None \<Rightarrow> err h
                | Some token \<Rightarrow> k token expiresAt perms root h)))"

definition openSession :: "('s, 'v) hostLib \<Rightarrow> ApiUser \<Rightarrow> ('s, apiResponse) hact" where
  "openSession L user =
     issueToken L user (apiError 500 serverError) (\<lambda>token expiresAt perms root.
       apiJSON 200 (ASession \<lparr>se_Token = token, se_ExpiresAt = expiresAt, se_UserID = au_ID user, se_Email = au_Email user,
         se_Pseudo = Coalesce (au_Pseudo user), se_Root = root, se_Permissions = perms\<rparr>))"

text \<open>The directory's \<open>DeleteUser\<close>, as a call with a value.\<close>

definition dirDelete :: "'s userBackend \<Rightarrow> string \<Rightarrow> 's \<Rightarrow> (rbacErr + unit) \<times> 's" where
  "dirDelete B i s = (case beDelete B i s of (None, s) \<Rightarrow> (Inr (), s) | (Some e, s) \<Rightarrow> (Inl e, s))"

section \<open>Registration\<close>

text \<open>\<open>_ = store.DeleteUser(...)\<close> and \<open>_ = rbacStore.DeleteUser(...)\<close>.\<close>

definition undoAccount :: "string \<Rightarrow> ('s, unit) hact" where
  "undoAccount i = onPg (pgDeleteUser i) (\<lambda>e. hret ()) hret"

definition undoEntry :: "'s userBackend \<Rightarrow> string \<Rightarrow> ('s, unit) hact" where
  "undoEntry B i = onDir (dirDelete B i) (\<lambda>e. hret ()) hret"

definition shortPassword :: string where
  "shortPassword = ''le mot de passe doit contenir au moins 8'' @ characters"

definition pseudoTooLong :: string where
  "pseudoTooLong = ''le pseudo ne doit pas d'' @ eacute @ ''passer '' @ Itoa maxPseudoRunes @ characters"

definition emailTaken :: string where
  "emailTaken = ''cet email est d'' @ eacute @ ''j'' @ agrave @ '' utilis'' @ eacute"

definition mailFailed :: string where
  "mailFailed = ''impossible d'' @ [CHR 0x27] @ ''envoyer l'' @ [CHR 0x27] @ ''email de confirmation, r'' @ eacute @ ''essayez''"

text \<open>The grant of the default rights and the mail, after the row is there: \<open>grant\<close> is what follows the
  entry's creation, undone step by step when a later step fails.\<close>

definition registerGrant :: "authLib \<Rightarrow> draws \<Rightarrow> ('s, 'v) hostLib \<Rightarrow> ApiUser \<Rightarrow> int \<Rightarrow> ('s, apiResponse) hact" where
  "registerGrant A D L user code =
     hbind hostNow (\<lambda>now.
     onDir (CreateUser (hl_dir L) (dr_uuid D) False defaultPermissions now)
       (\<lambda>e. hbind (undoAccount (au_ID user)) (\<lambda>_. apiError 500 serverError))
       (\<lambda>rbacUser. onPg (SetRbacUUID (au_ID user) (user_ID rbacUser))
          (\<lambda>e. hbind (undoEntry (hl_dir L) (user_ID rbacUser)) (\<lambda>_.
               hbind (undoAccount (au_ID user)) (\<lambda>_. apiError 500 serverError)))
          (\<lambda>_. if \<not> al_mailSent A (au_Email user) code
               then hbind (undoEntry (hl_dir L) (user_ID rbacUser)) (\<lambda>_.
                    hbind (undoAccount (au_ID user)) (\<lambda>_. apiError 500 mailFailed))
               else apiJSON 201 (ARegistered (au_Email user)))))"

definition apiRegister :: "authLib \<Rightarrow> draws \<Rightarrow> ('s, 'v) apiHandler" where
  "apiRegister A D L T r =
     decodeOr400 (al_credentials A (limitedBody r)) (\<lambda>req.
       let email = ToLower (hl_lower L) (TrimSpace (cq_Email req)) in
       if \<not> al_parseAddress A email then apiError 400 ''email invalide''
       else if int (length (cq_Password req)) < 8 then apiError 400 shortPassword
       else let pseudo = TrimSpace (cq_Pseudo req) in
       if RuneCountInString pseudo > maxPseudoRunes then apiError 400 pseudoTooLong
       else case al_hash A (dr_salt D) (cq_Password req) of
         None \<Rightarrow> apiError 500 serverError
       | Some hash \<Rightarrow>
           let code = generateValidationCode (dr_code D) in
           onPg (pgCreateUser (dr_id D) email hash code pseudo)
             (\<lambda>e. if e = ErrEmailTaken then apiError 409 emailTaken else apiError 500 serverError)
             (\<lambda>user. registerGrant A D L user code))"

definition apiConfirm :: "authLib \<Rightarrow> ('s, 'v) apiHandler" where
  "apiConfirm A L T r =
     decodeOr400 (al_confirm A (limitedBody r)) (\<lambda>(rawEmail, code).
       onPg (ConfirmUser (ToLower (hl_lower L) (TrimSpace rawEmail)) code)
         (\<lambda>e. apiError 400 (''code de validation invalide ou compte d'' @ eacute @ ''j'' @ agrave @ '' valid'' @ eacute))
         (\<lambda>_. apiJSON 200 AConfirmed))"

section \<open>Signing in\<close>

definition badCredentials :: string where
  "badCredentials = ''email ou mot de passe invalide''"

definition notConfirmed :: string where
  "notConfirmed = ''compte non valid'' @ eacute @ '' : v'' @ eacute @ ''rifiez votre bo'' @ [CHR 0xC3, CHR 0xAE]
     @ ''te mail pour confirmer votre inscription''"

definition apiLogin :: "authLib \<Rightarrow> ('s, 'v) apiHandler" where
  "apiLogin A L T r =
     decodeOr400 (al_credentials A (limitedBody r)) (\<lambda>req.
       onPg (UserByEmail (ToLower (hl_lower L) (TrimSpace (cq_Email req)))) (\<lambda>e. apiError 401 badCredentials) (\<lambda>user.
       if \<not> al_matches A (au_PasswordHash user) (cq_Password req) then apiError 401 badCredentials
       else if au_ValidationCode user \<noteq> None then apiError 403 notConfirmed
       else openSession L user))"

definition mobileClient :: string where
  "mobileClient = ''mobile''"

text \<open>\<open>strings.EqualFold\<close> on ASCII text.\<close>

definition googleAudience :: "(rune \<Rightarrow> rune) \<Rightarrow> apiRequest \<Rightarrow> string \<Rightarrow> string \<Rightarrow> string option" where
  "googleAudience lower r webClientID mobileClientID =
     (if ToLower lower (TrimSpace (ar_client r)) \<noteq> mobileClient then Some webClientID
      else if mobileClientID = [] then None else Some mobileClientID)"

definition randomUnusablePasswordHash :: "authLib \<Rightarrow> draws \<Rightarrow> string option" where
  "randomUnusablePasswordHash A D = Option.bind (dr_secret D) (al_hash A (dr_salt D))"

text \<open>The last part of \<open>createUserFromGoogleSignIn\<close>: an entry of the directory for the account. A failure
  leaves what is already there.\<close>

definition googleGrant ::
    "draws \<Rightarrow> ('s, 'v) hostLib \<Rightarrow> ApiUser \<Rightarrow> (ApiUser \<Rightarrow> ('s, apiResponse) hact) \<Rightarrow> ('s, apiResponse) hact" where
  "googleGrant D L created k =
     hbind hostNow (\<lambda>now.
     onDir (CreateUser (hl_dir L) (dr_uuid D) False defaultPermissions now) (\<lambda>e. apiError 500 serverError) (\<lambda>rbacUser.
     onPg (SetRbacUUID (au_ID created) (user_ID rbacUser)) (\<lambda>e. apiError 500 serverError) (\<lambda>_.
     k (created\<lparr>au_RbacUUID := Some (user_ID rbacUser)\<rparr>))))"

definition createUserFromGoogleSignIn ::
    "authLib \<Rightarrow> draws \<Rightarrow> ('s, 'v) hostLib \<Rightarrow> string \<Rightarrow> string \<Rightarrow> (ApiUser \<Rightarrow> ('s, apiResponse) hact) \<Rightarrow> ('s, apiResponse) hact" where
  "createUserFromGoogleSignIn A D L email rawPseudo k =
     (let pseudo = TrimSpace rawPseudo in
      if pseudo = [] then apiJSON 200 ANeedsPseudo
      else if RuneCountInString pseudo > maxPseudoRunes then apiError 400 pseudoTooLong
      else case randomUnusablePasswordHash A D of
        None \<Rightarrow> apiError 500 serverError
      | Some unusable \<Rightarrow>
          onPg (pgCreateUserFromGoogle (dr_id D) email unusable pseudo)
            (\<lambda>e. if e \<noteq> ErrEmailTaken then apiError 500 serverError
                 else onPg (UserByEmail email) (\<lambda>e. apiError 500 serverError) (\<lambda>created.
                   if au_RbacUUID created \<noteq> None then k created else googleGrant D L created k))
            (\<lambda>created. googleGrant D L created k))"

definition apiGoogleLogin :: "authLib \<Rightarrow> draws \<Rightarrow> ('s, 'v) apiHandler" where
  "apiGoogleLogin A D L T r =
     decodeOr400 (al_googleAuth A (limitedBody r)) (\<lambda>(idToken, rawPseudo).
     case googleAudience (hl_lower L) r (al_webClient A) (al_mobileClient A) of
       None \<Rightarrow> apiError 503 (''connexion Google non configur'' @ eacute @ ''e pour l'' @ [CHR 0x27] @ ''application mobile'')
     | Some clientID \<Rightarrow>
         hbind hostNow (\<lambda>now h.
         (case VerifyGoogleIDToken (al_google A) now (al_jwks A) idToken clientID (h_google h) of
            (Inl e, c) \<Rightarrow>
              apiError 401 (if e = ErrGoogleTokenExpired then ''jeton Google expir'' @ eacute else ''jeton Google invalide'') (h\<lparr>h_google := c\<rparr>)
          | (Inr identity, c) \<Rightarrow>
              (if \<not> gi_EmailVerified identity
               then apiError 403 (''l'' @ [CHR 0x27] @ ''email de ce compte Google n'' @ [CHR 0x27] @ ''est pas v'' @ eacute @ ''rifi'' @ eacute)
               else onPg (UserByEmail (gi_Email identity))
                 (\<lambda>e. if e = ErrUserNotFound then createUserFromGoogleSignIn A D L (gi_Email identity) rawPseudo (openSession L)
                      else apiError 500 serverError)
                 (openSession L)) (h\<lparr>h_google := c\<rparr>))))"

definition apiMe :: "('s, 'v) apiHandler" where
  "apiMe L T r =
     (case ar_claims r of
        None \<Rightarrow> apiError 401 (''token invalide ou expir'' @ eacute)
      | Some claims \<Rightarrow>
          onPg (UserByID (cl_Subject claims)) (\<lambda>e. apiError 500 serverError) (\<lambda>user.
          apiJSON 200 (AMe \<lparr>me_UserID = cl_Subject claims, me_Email = au_Email user, me_Pseudo = Coalesce (au_Pseudo user),
            me_Root = cl_Root claims, me_Permissions = PermissionsFromBits (cl_Perms claims)\<rparr>)))"

section \<open>Administration\<close>

definition adminsOnly :: "('s, apiResponse) hact" where
  "adminsOnly = apiError 403 (''r'' @ eacute @ ''serv'' @ eacute @ '' aux administrateurs'')"

definition requireRoot :: "apiRequest \<Rightarrow> (Claims \<Rightarrow> ('s, apiResponse) hact) \<Rightarrow> ('s, apiResponse) hact" where
  "requireRoot r k =
     (case ar_claims r of None \<Rightarrow> adminsOnly | Some claims \<Rightarrow> if \<not> cl_Root claims then adminsOnly else k claims)"

definition adminRow :: "'s userBackend \<Rightarrow> ApiUser \<Rightarrow> adminUserResponse list \<Rightarrow> ('s, adminUserResponse list) hact" where
  "adminRow B user result =
     (let resp = (\<lambda>root perms. hret (result @ [\<lparr>ad_ID = au_ID user, ad_Email = au_Email user, ad_Root = root, ad_Permissions = perms\<rparr>]))
      in case au_RbacUUID user of
           None \<Rightarrow> resp False noPermissions
         | Some uuid \<Rightarrow> onDir (beGet B uuid) (\<lambda>e. resp False noPermissions) (\<lambda>u. resp (user_Root u) (user_Permissions u)))"

definition apiListUsers :: "authLib \<Rightarrow> ('s, 'v) apiHandler" where
  "apiListUsers A L T r =
     requireRoot r (\<lambda>_.
     onPg (pgListUsers (al_collation A)) (\<lambda>e. apiError 500 serverError) (\<lambda>users.
     hbind (hfold (adminRow (hl_dir L)) users []) (\<lambda>result. apiJSON 200 (AAdminUsers result))))"

definition unknownUser :: "sqlErr \<Rightarrow> ('s, apiResponse) hact" where
  "unknownUser e = (if e = ErrUserNotFound then apiError 404 ''utilisateur introuvable'' else apiError 500 serverError)"

definition apiAssignPermissions :: "authLib \<Rightarrow> draws \<Rightarrow> ('s, 'v) apiHandler" where
  "apiAssignPermissions A D L T r =
     requireRoot r (\<lambda>_.
     onPg (UserByID (apiPath r ''id'')) unknownUser (\<lambda>user.
     decodeOr400 (al_permissions A (limitedBody r)) (\<lambda>req.
     case au_RbacUUID user of
       None \<Rightarrow>
         hbind hostNow (\<lambda>now.
         onDir (CreateUser (hl_dir L) (dr_uuid D) (pq_root req) (pq_permissions req) now) (\<lambda>e. apiError 500 serverError) (\<lambda>rbacUser.
         onPg (SetRbacUUID (au_ID user) (user_ID rbacUser)) (\<lambda>e. apiError 500 serverError) (\<lambda>_.
         apiJSON 200 (ARbacUser rbacUser))))
     | Some uuid \<Rightarrow>
         onDir (beUpdate (hl_dir L) uuid (pq_root req) (pq_permissions req)) (\<lambda>e. apiError 500 serverError) (\<lambda>rbacUser.
         apiJSON 200 (ARbacUser rbacUser)))))"

definition removeTexts :: "string list \<Rightarrow> ('s, unit) hact" where
  "removeTexts textIDs = hfold (\<lambda>i _. callIndex (RemoveText i)) textIDs ()"

text \<open>\<open>if err := ...; err != nil { 500 }\<close>.\<close>

definition stepRepo :: "('s, 'a) act \<Rightarrow> ('a \<Rightarrow> ('s, apiResponse) hact) \<Rightarrow> ('s, apiResponse) hact" where
  "stepRepo m k = onRepo m (\<lambda>e. apiError 500 serverError) k"

definition eraseUser :: "('s, 'v) hostLib \<Rightarrow> string \<Rightarrow> ('s, apiResponse) hact" where
  "eraseUser L i =
     stepRepo (DeleteUserTexts (hl_repo L) i) (\<lambda>deletedTextIDs.
     hbind (removeTexts deletedTextIDs) (\<lambda>_.
     stepRepo (DeleteUserFragments (hl_repo L) i) (\<lambda>_.
     stepRepo (DeleteUserVotes (hl_repo L) i) (\<lambda>_.
     stepRepo (DeleteUserSubscriptions (hl_repo L) i) (\<lambda>_.
     onPg (pgDeleteUser i) (\<lambda>e. apiError 500 serverError) (\<lambda>_. apiJSON 204 ANone))))))"

definition apiDeleteUser :: "('s, 'v) apiHandler" where
  "apiDeleteUser L T r =
     requireRoot r (\<lambda>claims.
       let i = apiPath r ''id'' in
       if i = cl_Subject claims then apiError 400 (''vous ne pouvez pas supprimer votre propre compte'')
       else onPg (UserByID i) unknownUser (\<lambda>user.
         case au_RbacUUID user of
           None \<Rightarrow> eraseUser L i
         | Some uuid \<Rightarrow>
             onDir (dirDelete (hl_dir L) uuid) (\<lambda>e. if e \<noteq> UserNotFound then apiError 500 serverError else eraseUser L i)
               (\<lambda>_. eraseUser L i)))"

end
