(* ===== verification/HostApi.thy ===== *)
theory HostApi
  imports AuthApi
begin

text \<open>
  The host API as one handler: the routes of \<open>main\<close> in \<open>src/api/main.go\<close>, the health check of
  \<open>src/api/health.go\<close> and \<open>withCORS\<close> of \<open>src/api/cors.go\<close> around the middleware. What the API lets
  through is stated as a policy of its own, over method and path.
\<close>

section \<open>The routes\<close>

record apiEnv =
  ev_text :: textLib
  ev_inbox :: inboxLib
  ev_auth :: authLib
  ev_draws :: draws
  ev_members :: "Membership option"

definition apiHealth :: "Membership option \<Rightarrow> ('s, 'v) apiHandler" where
  "apiHealth members L T r = (\<lambda>h.
     (let (ping, pg) = statement (\<lambda>now p. (Inr (), p)) (h_pg h);
          (got, s) = sGet (store (hl_repo L)) healthzKey (st (h_repo h));
          queel = (case got of Inl e \<Rightarrow> Some e | Inr _ \<Rightarrow> None);
          healthy = (ping = Inr () \<and> queel = None);
          (clustered, alive) = (case members of None \<Rightarrow> (False, 0) | Some m \<Rightarrow> (True, length (AliveNodes m)))
      in apiJSON (if healthy then 200 else 503)
           (AHealth (if healthy then ''ok'' else ''unhealthy'') queel (ping = Inr ()) clustered alive)
           (h\<lparr>h_pg := pg, h_repo := (h_repo h)\<lparr>st := s\<rparr>\<rparr>)))"

abbreviation apiSeg :: "seg list \<Rightarrow> seg list" where
  "apiSeg ps \<equiv> Lit ''api'' # ps"

text \<open>\<open>POST /api/auth/google\<close> is there when a client is configured.\<close>

definition apiRoutes :: "apiEnv \<Rightarrow> (string \<times> seg list \<times> ('s, 'v) apiHandler) list" where
  "apiRoutes V =
     (let A = ev_auth V; D = ev_draws V; I = ev_inbox V in
     [(''GET'', [Lit ''healthz''], apiHealth (ev_members V)),
      (''POST'', apiSeg [Lit ''auth'', Lit ''register''], apiRegister A D),
      (''POST'', apiSeg [Lit ''auth'', Lit ''login''], apiLogin A),
      (''POST'', apiSeg [Lit ''auth'', Lit ''confirm''], apiConfirm A)]
     @ (if al_webClient A \<noteq> [] then [(''POST'', apiSeg [Lit ''auth'', Lit ''google''], apiGoogleLogin A D)] else []) @
     [(''GET'', apiSeg [Lit ''me''], apiMe),
      (''GET'', apiSeg [Lit ''admin'', Lit ''users''], apiListUsers A),
      (''PUT'', apiSeg [Lit ''admin'', Lit ''users'', Var ''id'', Lit ''permissions''], apiAssignPermissions A D),
      (''DELETE'', apiSeg [Lit ''admin'', Lit ''users'', Var ''id''], apiDeleteUser),
      (''POST'', apiSeg [Lit ''texts''], apiCreateText),
      (''GET'', apiSeg [Lit ''texts''], apiRecentTexts),
      (''GET'', apiSeg [Lit ''tags''], apiTags),
      (''GET'', apiSeg [Lit ''texts'', Lit ''search''], apiSearchTexts),
      (''GET'', apiSeg [Lit ''texts'', Var ''id''], apiGetText),
      (''GET'', apiSeg [Lit ''texts'', Var ''id'', Lit ''with-slots''], apiTextWithSlots),
      (''GET'', apiSeg [Lit ''texts'', Var ''id'', Lit ''history''], apiHistory),
      (''DELETE'', apiSeg [Lit ''texts'', Var ''id''], apiDeleteText),
      (''POST'', apiSeg [Lit ''texts'', Var ''id'', Lit ''slots''], apiProposeEdit),
      (''GET'', apiSeg [Lit ''texts'', Var ''id'', Lit ''slots'', Var ''slotId'', Lit ''fragments''], apiFragmentsForSlot),
      (''GET'', apiSeg [Lit ''texts'', Var ''id'', Lit ''my-votes''], apiMyVotes),
      (''POST'', apiSeg [Lit ''texts'', Var ''id'', Lit ''close-round''], apiCloseRound),
      (''POST'', apiSeg [Lit ''texts'', Var ''id'', Lit ''schedule-close''], apiScheduleClose),
      (''POST'', apiSeg [Lit ''texts'', Var ''id'', Lit ''subscribe''], apiSubscribe),
      (''DELETE'', apiSeg [Lit ''texts'', Var ''id'', Lit ''subscribe''], apiUnsubscribe),
      (''GET'', apiSeg [Lit ''me'', Lit ''subscriptions''], apiSubscriptions),
      (''POST'', apiSeg [Lit ''me'', Lit ''devices''], apiRegisterDevice I),
      (''DELETE'', apiSeg [Lit ''me'', Lit ''devices''], apiUnregisterDevice I),
      (''GET'', apiSeg [Lit ''me'', Lit ''notifications''], apiListNotifications),
      (''PUT'', apiSeg [Lit ''me'', Lit ''notifications'', Var ''id'', Lit ''read''], apiSetNotificationRead I),
      (''POST'', apiSeg [Lit ''me'', Lit ''notifications'', Lit ''read-all''], apiMarkAllNotificationsRead),
      (''GET'', apiSeg [Lit ''fragments'', Var ''id''], apiGetFragment),
      (''POST'', apiSeg [Lit ''fragments'', Var ''id'', Lit ''vote''], apiCastVote)])"

definition apiMux :: "apiEnv \<Rightarrow> ('s, 'v) hostLib \<Rightarrow> string \<Rightarrow> string list \<Rightarrow> apiRequest \<Rightarrow> ('s, apiResponse) hact" where
  "apiMux V L m segs r =
     (case find (\<lambda>(p, path, h). methodMatches p m \<and> matchPath path segs \<noteq> None) (apiRoutes V) of
        Some (p, path, h) \<Rightarrow>
          h L (ev_text V) (r\<lparr>ar_http := (ar_http r)\<lparr>rq_path := \<lambda>v.
            case map_of (the (matchPath path segs)) v of None \<Rightarrow> [] | Some x \<Rightarrow> x\<rparr>\<rparr>)
      | None \<Rightarrow>
          if list_ex (\<lambda>(p, path, h). matchPath path segs \<noteq> None) (apiRoutes V :: (string \<times> seg list \<times> ('s, 'v) apiHandler) list)
          then apiError 405 ''Method Not Allowed'' else apiError 404 ''404 page not found'')"

definition withCORS :: "string \<Rightarrow> ('s, apiResponse) hact \<Rightarrow> ('s, apiResponse) hact" where
  "withCORS m next = (if m = ''OPTIONS'' then apiJSON 204 ANone else next)"

definition serveAPI :: "apiEnv \<Rightarrow> ('s, 'v) hostLib \<Rightarrow> string \<Rightarrow> string list \<Rightarrow> apiRequest \<Rightarrow> ('s, apiResponse) hact" where
  "serveAPI V L m segs r = withCORS m (requireToken L (apiMux V L m segs) segs r)"

end
