(* ===== verification/HostGate.thy ===== *)
theory HostGate
  imports HostApi
begin

text \<open>
  Authorization in the host API: which requests may change the store of the repository and of the
  directory of rights. The policy is a table of its own; the handlers are shown to follow it by rules
  for actions that leave the store alone.
\<close>

section \<open>Actions that leave the store alone\<close>

definition guarded :: "('v kvs host \<Rightarrow> bool) \<Rightarrow> ('v kvs, 'a) hact \<Rightarrow> bool" where
  "guarded P m \<longleftrightarrow> (\<forall>h r h'. m h = (r, h') \<longrightarrow> st (h_repo h') = st (h_repo h) \<or> P h)"

abbreviation quiet :: "('v kvs, 'a) hact \<Rightarrow> bool" where
  "quiet m \<equiv> guarded (\<lambda>_. False) m"

lemma guardedD: "guarded P m \<Longrightarrow> m h = (r, h') \<Longrightarrow> st (h_repo h') \<noteq> st (h_repo h) \<Longrightarrow> P h"
  by (auto simp: guarded_def)

lemma guarded_any: "guarded (\<lambda>_. True) m"
  by (simp add: guarded_def)

lemma guarded_mono: "guarded P m \<Longrightarrow> (\<And>h. P h \<Longrightarrow> Q h) \<Longrightarrow> guarded Q m"
  by (auto simp: guarded_def)

lemma guarded_conj: "guarded P m \<Longrightarrow> guarded Q m \<Longrightarrow> guarded (\<lambda>h. P h \<and> Q h) m"
  unfolding guarded_def by blast

lemma guarded_fixed: "(\<not> c \<Longrightarrow> quiet m) \<Longrightarrow> guarded (\<lambda>_. c) m"
  by (cases c) (auto simp: guarded_any)

lemma quietD: "quiet m \<Longrightarrow> m h = (r, h') \<Longrightarrow> st (h_repo h') = st (h_repo h)"
  by (auto simp: guarded_def)

lemma quietI: "(\<And>h r h'. m h = (r, h') \<Longrightarrow> st (h_repo h') = st (h_repo h)) \<Longrightarrow> quiet m"
  by (auto simp: guarded_def)

named_theorems quiet_intros \<open>rules that show an action to leave the store alone\<close>

lemma quiet_ret [quiet_intros]: "quiet (hret x)"
  by (rule quietI) (simp add: hret_def)

lemma quiet_json [quiet_intros]: "quiet (apiJSON n b)" "quiet (apiError n s)"
  by (simp_all add: apiJSON_def apiError_def quiet_ret)

lemma quiet_bind [quiet_intros]:
  assumes "quiet m" and "\<And>x. quiet (f x)" shows "quiet (hbind m f)"
proof (rule quietI)
  fix h r h' assume run: "hbind m f h = (r, h')"
  obtain q h1 where m: "m h = (q, h1)" by fastforce
  show "st (h_repo h') = st (h_repo h)"
    using run m quietD [OF assms(1) m] quietD [OF assms(2), of _ h1 r h'] by (auto simp: hbind_def split: sum.splits)
qed

lemma quiet_fold [quiet_intros]: "(\<And>x b. quiet (f x b)) \<Longrightarrow> quiet (hfold f xs b)"
  by (induction xs arbitrary: b) (simp_all add: quiet_intros)

lemma quiet_onRepo [quiet_intros]:
  assumes "readOnly m" and "\<And>e. quiet (err e)" and "\<And>x. quiet (k x)" shows "quiet (onRepo m err k)"
proof (rule quietI)
  fix h r h' assume run: "onRepo m err k h = (r, h')"
  obtain q w where m: "m (h_repo h) = (q, w)" by fastforce
  then have w: "st w = st (h_repo h)" using assms(1) unfolding readOnly_def by (metis snd_conv)
  show "st (h_repo h') = st (h_repo h)"
  proof (cases q)
    case (Inl e)
    then show ?thesis using run m w quietD [OF assms(2) [of e], of "h\<lparr>h_repo := w\<rparr>" r h'] by (auto simp: onRepo_def split: if_splits)
  next
    case (Inr x)
    then show ?thesis using run m w quietD [OF assms(3) [of x], of "h\<lparr>h_repo := w\<rparr>" r h'] by (simp add: onRepo_def)
  qed
qed

lemma quiet_onPg [quiet_intros]:
  assumes "\<And>e. quiet (err e)" and "\<And>x. quiet (k x)" shows "quiet (onPg q err k)"
proof (rule quietI)
  fix h r h' assume run: "onPg q err k h = (r, h')"
  obtain a p where m: "q (h_pg h) = (a, p)" by fastforce
  show "st (h_repo h') = st (h_repo h)"
    using run m quietD [OF assms(1), of _ "h\<lparr>h_pg := p\<rparr>" r h'] quietD [OF assms(2), of _ "h\<lparr>h_pg := p\<rparr>" r h']
    by (auto simp: onPg_def split: sum.splits)
qed

lemma quiet_onDir [quiet_intros]:
  assumes "\<And>s. snd (f s) = s" and "\<And>e. quiet (err e)" and "\<And>x. quiet (k x)" shows "quiet (onDir f err k)"
proof (rule quietI)
  fix h r h' assume run: "onDir f err k h = (r, h')"
  obtain a s where m: "f (st (h_repo h)) = (a, s)" by fastforce
  then have s: "s = st (h_repo h)" using assms(1) by (metis snd_conv)
  show "st (h_repo h') = st (h_repo h)"
    using run m s quietD [OF assms(2), of _ "h\<lparr>h_repo := (h_repo h)\<lparr>st := s\<rparr>\<rparr>" r h']
      quietD [OF assms(3), of _ "h\<lparr>h_repo := (h_repo h)\<lparr>st := s\<rparr>\<rparr>" r h']
    by (auto simp: onDir_def split: sum.splits)
qed

lemma quiet_cases [quiet_intros]:
  "quiet a \<Longrightarrow> quiet b \<Longrightarrow> quiet (if c then a else b)"
  "quiet a \<Longrightarrow> (\<And>x. quiet (f x)) \<Longrightarrow> quiet (case o' of None \<Rightarrow> a | Some x \<Rightarrow> f x)"
  "(\<And>x y. quiet (g x y)) \<Longrightarrow> quiet (case p of (x, y) \<Rightarrow> g x y)"
  by (auto split: option.split prod.split)

lemma quiet_hostNow [quiet_intros]: "quiet hostNow"
  by (rule quietI) (auto simp: hostNow_def onRepo_def timeNow_def hret_def)

lemma quiet_effects [quiet_intros]: "quiet (spawn j)" "quiet (callIndex c)"
  by (auto intro!: quietI simp: spawn_def callIndex_def)

lemma quiet_decode [quiet_intros]:
  "(\<And>x. quiet (k x)) \<Longrightarrow> quiet (decodeBody d k)" "(\<And>x. quiet (k x)) \<Longrightarrow> quiet (decodeOr400 d k)"
  by (auto simp: decodeBody_def decodeOr400_def quiet_intros split: decoded.split)

lemma quiet_withClaims [quiet_intros]: "(\<And>c. quiet (k c)) \<Longrightarrow> quiet (withClaims r k)"
  unfolding withClaims_def by (intro quiet_intros)

lemma quiet_events [quiet_intros]: "quiet (EditProposed t n a)" "quiet (RoundClosed x a)" "quiet (VoteCast f a)"
  "quiet (IndexFinalizedText T x)" "quiet (callIndexText x)"
  unfolding EditProposed_def RoundClosed_def VoteCast_def IndexFinalizedText_def callIndexText_def by (intro quiet_intros)+

lemma quiet_errors [quiet_intros]: "quiet (closeError e)" "quiet (notFoundOr500 s e)" "quiet (unknownUser q)" "quiet lacksRights" "quiet adminsOnly"
  by (auto simp: closeError_def notFoundOr500_def unknownUser_def lacksRights_def adminsOnly_def quiet_intros split: repoErr.split)

lemma quiet_requireSubscription: "quiet k \<Longrightarrow> quiet (requireSubscription (refRepo cd) r t k)"
  unfolding requireSubscription_def by (intro quiet_intros read_intros)

lemma dirGet_reads: "snd (beGet (kvBackend refOps uc) i s) = s"
  by (auto simp: kvBackend_def kvGetUser_def refOps_def split: option.splits)

section \<open>The policy\<close>

text \<open>What a request needs to change the store, by method and path.\<close>

datatype need = Anyone | SignedIn | Holds Action | Follows Action | RootOnly

definition apiNeed :: "string \<Rightarrow> string list \<Rightarrow> need option" where
  "apiNeed m segs =
     (if take 1 segs \<noteq> [''api''] then None
      else if segs \<in> {[''api'', ''auth'', ''register''], [''api'', ''auth'', ''google'']} \<and> m = ''POST'' then Some Anyone
      else if segs = [''api'', ''texts''] \<and> m = ''POST'' then Some (Holds ActionCreateText)
      else if length segs = 3 \<and> segs ! 1 = ''texts'' \<and> m = ''DELETE'' then Some (Follows ActionCreateText)
      else if length segs = 4 \<and> segs ! 1 = ''texts'' \<and> m = ''POST'' then
        (if segs ! 3 = ''slots'' then Some (Follows ActionEditText)
         else if segs ! 3 \<in> {''close-round'', ''schedule-close''} then Some (Follows ActionCloseText)
         else if segs ! 3 = ''subscribe'' then Some (Holds ActionSubscribe) else None)
      else if length segs = 4 \<and> segs ! 1 = ''texts'' \<and> m = ''DELETE'' then Some SignedIn
      else if length segs = 4 \<and> segs ! 1 = ''fragments'' \<and> m = ''POST'' then Some (Holds ActionVote)
      else if length segs \<ge> 4 \<and> segs ! 1 = ''admin'' \<and> m \<in> {''PUT'', ''DELETE''} then Some RootOnly
      else None)"

text \<open>The rights a caller has now: those of the directory, else the last ones read, else the token's.\<close>

definition rightsNow :: "'v userCodec \<Rightarrow> 'v kvs host \<Rightarrow> Claims \<Rightarrow> Permissions \<times> bool" where
  "rightsNow uc h claims =
     (let stale = (case recall (cl_Subject claims) (h_cache h) of
        Some rights \<Rightarrow> rights | None \<Rightarrow> (PermissionsFromBits (cl_Perms claims), cl_Root claims))
      in case fst (UserByID (cl_Subject claims) (h_pg h)) of
           Inl e \<Rightarrow> stale
         | Inr user \<Rightarrow>
             (case Option.bind (au_RbacUUID user) (\<lambda>uuid. case fst (kvGetUser refOps uc uuid (st (h_repo h))) of
                Inl e \<Rightarrow> None | Inr u \<Rightarrow> Some u) of
                None \<Rightarrow> stale | Some u \<Rightarrow> (user_Permissions u, user_Root u)))"

text \<open>\<open>t\<close> is the text a request is about.\<close>

definition meets :: "'v kvs host \<Rightarrow> Claims \<Rightarrow> Permissions \<times> bool \<Rightarrow> string \<Rightarrow> need \<Rightarrow> bool" where
  "meets h claims rights t n \<longleftrightarrow>
     (let live = claims\<lparr>cl_Perms := Bits (fst rights), cl_Root := snd rights\<rparr> in
      case n of
        Anyone \<Rightarrow> True
      | SignedIn \<Rightarrow> True
      | Holds a \<Rightarrow> ClaimsAllows live a
      | Follows a \<Rightarrow> ClaimsAllows live a \<and> (snd rights \<or> isSubscribed (h_repo h) (cl_Subject claims) t)
      | RootOnly \<Rightarrow> snd rights)"

section \<open>The handlers\<close>

abbreviation allowedBy :: "apiRequest \<Rightarrow> Action \<Rightarrow> bool" where
  "allowedBy r a \<equiv> (case ar_claims r of None \<Rightarrow> False | Some c \<Rightarrow> ClaimsAllows c a)"

abbreviation followedBy :: "'v kvs host \<Rightarrow> apiRequest \<Rightarrow> string \<Rightarrow> bool" where
  "followedBy h r t \<equiv> (case ar_claims r of None \<Rightarrow> False | Some c \<Rightarrow> cl_Root c \<or> isSubscribed (h_repo h) (cl_Subject c) t)"

lemma guarded_permission: "guarded (\<lambda>_. allowedBy r a) (requirePermission r a k)"
  by (rule guarded_fixed) (auto simp: requirePermission_def withClaims_def quiet_intros split: option.splits)

lemma IsSubscribed_run: "IsSubscribed (refRepo cd) u t w = (Inr (isSubscribed w u t), w)"
  by (simp add: IsSubscribed_def bindE_def ret_def storeGet_def refOps_def isSubscribed_def db_def)

lemma guarded_subscription: "guarded (\<lambda>h. followedBy h r t) (requireSubscription (refRepo cd) r t k)"
  by (auto simp: guarded_def requireSubscription_def withClaims_def onRepo_def IsSubscribed_run apiError_def apiJSON_def hret_def
      split: option.splits if_splits)

lemma guarded_claims: "(\<And>c. ar_claims r = Some c \<Longrightarrow> guarded P (k c)) \<Longrightarrow> guarded P (withClaims r k)"
  using guarded_mono [OF quiet_json(2)] by (fastforce simp: withClaims_def split: option.split)

lemmas read_defs = apiTags_def apiRecentTexts_def apiGetText_def apiTextWithSlots_def apiFragmentsForSlot_def apiSearchTexts_def
  apiGetFragment_def apiMyVotes_def apiHistory_def apiSubscriptions_def apiListNotifications_def apiSetNotificationRead_def
  apiMarkAllNotificationsRead_def apiRegisterDevice_def apiUnregisterDevice_def apiMe_def apiConfirm_def

lemma readOnly_parts [read_intros]:
  "readOnly (apiListedText (refRepo cd) u t x)" "readOnly (decoratedHit (refRepo cd) u hit y)"
  "readOnly (resolveHistoryRound (refRepo cd) t' round z)" "readOnly (votedStep (refRepo cd) u i v)"
  "readOnly (latestStep (refRepo cd) i v)"
  unfolding apiListedText_def decoratedHit_def resolveHistoryRound_def votedStep_def latestStep_def Let_def
  by (intro read_intros)+

lemma readOnly_parts2 [read_intros]:
  "readOnly (apiVersion (refRepo cd) t x)" "readOnly (votedOn (refRepo cd) u is)" "readOnly (keepLatestRound (refRepo cd) is)"
  unfolding apiVersion_def votedOn_def keepLatestRound_def by (intro read_intros)+


abbreviation reads :: "'v codec \<Rightarrow> 'v userCodec \<Rightarrow> ('v kvs, 'v) hostLib \<Rightarrow> bool" where
  "reads cd uc L \<equiv> hl_repo L = refRepo cd \<and> hl_dir L = kvBackend refOps uc"

lemma quiet_search: "hl_repo L = refRepo cd \<Longrightarrow> quiet (apiSearchTexts L T r)"
  unfolding apiSearchTexts_def Let_def by (auto intro!: quiet_intros read_intros)

lemma quiet_handlers:
  assumes "hl_repo L = refRepo cd"
  shows "quiet (apiTags L T r)" "quiet (apiRecentTexts L T r)" "quiet (apiGetText L T r)" "quiet (apiTextWithSlots L T r)"
    "quiet (apiFragmentsForSlot L T r)" "quiet (apiGetFragment L T r)" "quiet (apiMyVotes L T r)"
    "quiet (apiHistory L T r)" "quiet (apiSubscriptions L T r)" "quiet (apiListNotifications L T r)"
    "quiet (apiSetNotificationRead I L T r)" "quiet (apiMarkAllNotificationsRead L T r)"
    "quiet (apiRegisterDevice I L T r)" "quiet (apiUnregisterDevice I L T r)" "quiet (apiMe L T r)" "quiet (apiConfirm A L T r)"
  unfolding read_defs Let_def assms by (intro quiet_intros read_intros)+

lemma quiet_session: "hl_dir L = kvBackend refOps uc \<Longrightarrow> quiet (openSession L user)"
proof -
  assume dir: "hl_dir L = kvBackend refOps uc"
  have k: "quiet (\<lambda>h. case hostNow h of (Inl e, h) \<Rightarrow> (Inl e, h) | (Inr now, h) \<Rightarrow> f now h)"
    if "\<And>now. quiet (f now)" for f :: "int \<Rightarrow> ('a kvs, apiResponse) hact"
    using quiet_bind [OF quiet_hostNow that] unfolding hbind_def .
  have some: "quiet (\<lambda>h. case o' of None \<Rightarrow> a h | Some x \<Rightarrow> b x h)" if "quiet a" "\<And>x. quiet (b x)"
    for o' :: "string option" and a :: "('a kvs, apiResponse) hact" and b
    using that by (cases o') simp_all
  show ?thesis
    unfolding openSession_def issueToken_def accountRights_def dir Let_def
    by (intro quiet_intros dirGet_reads k some)
qed

lemma quiet_login: "hl_dir L = kvBackend refOps uc \<Longrightarrow> quiet (apiLogin A L T r)"
  unfolding apiLogin_def by (intro quiet_intros quiet_session)

lemma quiet_listUsers: "hl_dir L = kvBackend refOps uc \<Longrightarrow> quiet (apiListUsers A L T r)"
  unfolding apiListUsers_def requireRoot_def adminRow_def Let_def by (auto intro!: quiet_intros dirGet_reads)

lemma quiet_health: "hl_repo L = refRepo cd \<Longrightarrow> quiet (apiHealth ms L T r)"
  by (rule quietI) (auto simp: apiHealth_def refOps_def apiJSON_def hret_def Let_def split: prod.splits option.splits)

lemma guarded_root: "guarded (\<lambda>_. case ar_claims r of None \<Rightarrow> False | Some c \<Rightarrow> cl_Root c) (requireRoot r k)"
  by (rule guarded_fixed) (auto simp: requireRoot_def quiet_intros split: option.splits)

lemma guarded_holders:
  "guarded (\<lambda>_. allowedBy r ActionCreateText) (apiCreateText L T r)"
  "guarded (\<lambda>_. allowedBy r ActionSubscribe) (apiSubscribe L T r)"
  "guarded (\<lambda>_. allowedBy r ActionVote) (apiCastVote L T r)"
proof -
  show "guarded (\<lambda>_. allowedBy r ActionCreateText) (apiCreateText L T r)"
    by (rule guarded_fixed) (auto simp: apiCreateText_def quiet_intros split: option.splits)
  show "guarded (\<lambda>_. allowedBy r ActionSubscribe) (apiSubscribe L T r)"
    unfolding apiSubscribe_def by (rule guarded_claims) (rule guarded_permission)
  show "guarded (\<lambda>_. allowedBy r ActionVote) (apiCastVote L T r)"
    unfolding apiCastVote_def by (rule guarded_permission)
qed

lemma guarded_followers:
  assumes "hl_repo L = refRepo cd"
  shows "guarded (\<lambda>h. allowedBy r ActionCreateText \<and> followedBy h r (apiPath r ''id'')) (apiDeleteText L T r)"
    "guarded (\<lambda>h. allowedBy r ActionEditText \<and> followedBy h r (apiPath r ''id'')) (apiProposeEdit L T r)"
    "guarded (\<lambda>h. allowedBy r ActionCloseText \<and> followedBy h r (apiPath r ''id'')) (apiCloseRound L T r)"
    "guarded (\<lambda>h. allowedBy r ActionCloseText \<and> followedBy h r (apiPath r ''id'')) (apiScheduleClose L T r)"
proof -
  note sub = guarded_subscription [where r = r and cd = cd]
  have both: "guarded (\<lambda>h. allowedBy r a \<and> followedBy h r t) (requirePermission r a (requireSubscription (refRepo cd) r t k))"
    for a t and k :: "('a kvs, apiResponse) hact"
  proof (rule guarded_conj [OF guarded_permission])
    show "guarded (\<lambda>h. followedBy h r t) (requirePermission r a (requireSubscription (refRepo cd) r t k))"
      unfolding requirePermission_def using sub guarded_mono [OF quiet_errors(4)] by (intro guarded_claims) (auto split: if_splits)
  qed
  show "guarded (\<lambda>h. allowedBy r ActionCloseText \<and> followedBy h r (apiPath r ''id'')) (apiCloseRound L T r)"
    "guarded (\<lambda>h. allowedBy r ActionCloseText \<and> followedBy h r (apiPath r ''id'')) (apiScheduleClose L T r)"
    unfolding apiCloseRound_def apiScheduleClose_def Let_def assms by (rule guarded_claims, rule both)+
  show "guarded (\<lambda>h. allowedBy r ActionCreateText \<and> followedBy h r (apiPath r ''id'')) (apiDeleteText L T r)"
  proof (rule guarded_conj)
    show "guarded (\<lambda>_. allowedBy r ActionCreateText) (apiDeleteText L T r)"
      by (rule guarded_fixed) (auto simp: apiDeleteText_def quiet_intros split: option.splits)
    show "guarded (\<lambda>h. followedBy h r (apiPath r ''id'')) (apiDeleteText L T r)"
      unfolding apiDeleteText_def Let_def assms using sub guarded_mono [OF quiet_errors(4)]
      by (auto split: option.split if_splits)
  qed
  show "guarded (\<lambda>h. allowedBy r ActionEditText \<and> followedBy h r (apiPath r ''id'')) (apiProposeEdit L T r)"
  proof (rule guarded_conj)
    show "guarded (\<lambda>h. followedBy h r (apiPath r ''id'')) (apiProposeEdit L T r)"
    proof -
      have dec: "guarded P (decodeBody d k)" if "\<And>x. guarded P (k x)" for P d and k :: "_ \<Rightarrow> ('a kvs, apiResponse) hact"
        using that guarded_mono [OF quiet_json(2)] by (cases d) (auto simp: decodeBody_def)
      show ?thesis unfolding apiProposeEdit_def Let_def assms by (intro guarded_claims dec sub)
    qed
    show "guarded (\<lambda>_. allowedBy r ActionEditText) (apiProposeEdit L T r)"
    proof (rule guarded_fixed)
      assume "\<not> allowedBy r ActionEditText"
      then have deny: "quiet (requirePermission r ActionEditText k)" for k :: "('a kvs, apiResponse) hact"
        by (auto simp: requirePermission_def withClaims_def quiet_intros split: option.splits)
      show "quiet (apiProposeEdit L T r)"
        unfolding apiProposeEdit_def Let_def assms by (intro quiet_withClaims quiet_decode quiet_requireSubscription quiet_cases quiet_json deny)
    qed
  qed
qed

lemma guarded_admins:
  "guarded (\<lambda>_. case ar_claims r of None \<Rightarrow> False | Some c \<Rightarrow> cl_Root c) (apiAssignPermissions A D L T r)"
  "guarded (\<lambda>_. case ar_claims r of None \<Rightarrow> False | Some c \<Rightarrow> cl_Root c) (apiDeleteUser L T r)"
  unfolding apiAssignPermissions_def apiDeleteUser_def by (rule guarded_root)+

section \<open>The gate\<close>

lemma currentPermissions_run:
  assumes "currentPermissions (kvBackend refOps uc) claims h = (res, h')"
  shows "res = Inr (rightsNow uc h claims) \<and> (\<exists>n. h_repo h' = (h_repo h)\<lparr>ticks := n\<rparr>)"
proof -
  have tick: "\<exists>n. w = w\<lparr>ticks := n\<rparr>" for w :: "'a kvs world" by (rule exI [of _ "ticks w"]) simp
  have get: "beGet (kvBackend refOps uc) uuid s = (fst (kvGetUser refOps uc uuid s), s)" for uuid s
    using dirGet_reads [of uc uuid s] by (metis kvBackend_def prod.collapse userBackend.select_convs(2))
  show ?thesis using assms tick
    by (auto simp: currentPermissions_def onPg_def onDir_def recallRights_def hbind_def hostNow_def onRepo_def timeNow_def hret_def
        rightsNow_def Let_def get split: prod.splits sum.splits option.splits)
qed

lemma apiMux_cases:
  assumes "apiMux V L m segs r h = (res, h')"
  obtains (none) "st (h_repo h') = st (h_repo h)"
  | (found) p path hd vs where "(p, path, hd) \<in> set (apiRoutes V)" "methodMatches p m" "matchPath path segs = Some vs"
      "hd L (ev_text V) (r\<lparr>ar_http := (ar_http r)\<lparr>rq_path := \<lambda>v. case map_of vs v of None \<Rightarrow> [] | Some x \<Rightarrow> x\<rparr>\<rparr>) h = (res, h')"
proof (cases "find (\<lambda>(p, path, hd). methodMatches p m \<and> matchPath path segs \<noteq> None) (apiRoutes V :: (string \<times> seg list \<times> ('a, 'b) apiHandler) list)")
  case None
  then show ?thesis using assms none unfolding apiMux_def by (auto simp: apiError_def apiJSON_def hret_def split: if_splits)
next
  case (Some e)
  obtain p path hd where e: "e = (p, path, hd)" by (cases e)
  have mem: "(p, path, hd) \<in> set (apiRoutes V)" "methodMatches p m" "matchPath path segs \<noteq> None"
    using Some unfolding e find_Some_iff by (auto simp: in_set_conv_nth)
  then obtain vs where "matchPath path segs = Some vs" by auto
  then show ?thesis using assms found [OF mem(1,2)] Some unfolding apiMux_def e by simp
qed

text \<open>What the claims attached to a request let through.\<close>

definition passes :: "'v kvs host \<Rightarrow> apiRequest \<Rightarrow> string \<Rightarrow> need \<Rightarrow> bool" where
  "passes h r t n \<longleftrightarrow>
     (case n of
        Anyone \<Rightarrow> True
      | SignedIn \<Rightarrow> True
      | Holds a \<Rightarrow> allowedBy r a
      | Follows a \<Rightarrow> allowedBy r a \<and> followedBy h r t
      | RootOnly \<Rightarrow> (case ar_claims r of None \<Rightarrow> False | Some c \<Rightarrow> cl_Root c))"

lemmas route_facts = insert_iff empty_iff prod.inject list.set set_append Un_iff

lemma need_eqs:
  "apiNeed ''POST'' [''api'', ''auth'', ''register''] = Some Anyone"
  "apiNeed ''POST'' [''api'', ''auth'', ''google''] = Some Anyone"
  "apiNeed ''PUT'' [''api'', ''admin'', ''users'', i, ''permissions''] = Some RootOnly"
  "apiNeed ''DELETE'' [''api'', ''admin'', ''users'', i] = Some RootOnly"
  "apiNeed ''POST'' [''api'', ''texts''] = Some (Holds ActionCreateText)"
  "apiNeed ''DELETE'' [''api'', ''texts'', i] = Some (Follows ActionCreateText)"
  "apiNeed ''POST'' [''api'', ''texts'', i, ''slots''] = Some (Follows ActionEditText)"
  "apiNeed ''POST'' [''api'', ''texts'', i, ''close-round''] = Some (Follows ActionCloseText)"
  "apiNeed ''POST'' [''api'', ''texts'', i, ''schedule-close''] = Some (Follows ActionCloseText)"
  "apiNeed ''POST'' [''api'', ''texts'', i, ''subscribe''] = Some (Holds ActionSubscribe)"
  "apiNeed ''DELETE'' [''api'', ''texts'', i, ''subscribe''] = Some SignedIn"
  "apiNeed ''POST'' [''api'', ''fragments'', i, ''vote''] = Some (Holds ActionVote)"
  by (simp_all add: apiNeed_def)

lemma method_eqs: "methodMatches ''POST'' m \<longleftrightarrow> m = ''POST''" "methodMatches ''PUT'' m \<longleftrightarrow> m = ''PUT''"
  "methodMatches ''DELETE'' m \<longleftrightarrow> m = ''DELETE''"
  by (auto simp: methodMatches_def)

text \<open>A route of the table keeps to the policy: its handler changes the store only as the policy lets it.\<close>

definition routed :: "apiRequest \<Rightarrow> (string \<times> string) list \<Rightarrow> apiRequest" where
  "routed r vs = r\<lparr>ar_http := (ar_http r)\<lparr>rq_path := \<lambda>v. case map_of vs v of None \<Rightarrow> [] | Some x \<Rightarrow> x\<rparr>\<rparr>"

lemma routed_simps [simp]: "ar_claims (routed r vs) = ar_claims r"
  "apiPath (routed r vs) v = (case map_of vs v of None \<Rightarrow> [] | Some x \<Rightarrow> x)"
  by (simp_all add: routed_def)

definition routeOk :: "('v kvs, 'v) hostLib \<Rightarrow> string \<times> seg list \<times> ('v kvs, 'v) apiHandler \<Rightarrow> bool" where
  "routeOk L x \<longleftrightarrow> (case x of (p, path, f) \<Rightarrow> \<forall>m segs vs T r h res h'.
     methodMatches p m \<longrightarrow> matchPath path segs = Some vs \<longrightarrow> f L T (routed r vs) h = (res, h') \<longrightarrow> st (h_repo h') \<noteq> st (h_repo h) \<longrightarrow>
       (\<exists>n. apiNeed m segs = Some n \<and> passes h r (segs ! 2) n))"

lemma routeOk_quiet: "(\<And>T r. quiet (f L T r)) \<Longrightarrow> routeOk L (p, path, f)"
  unfolding routeOk_def using quietD by fastforce

lemma routeOk_need:
  assumes "\<And>m segs vs T r h. methodMatches p m \<Longrightarrow> matchPath path segs = Some vs \<Longrightarrow>
      \<exists>n. apiNeed m segs = Some n \<and> guarded (\<lambda>h. passes h r (segs ! 2) n) (f L T (routed r vs))"
  shows "routeOk L (p, path, f)"
  unfolding routeOk_def prod.case using assms guardedD by metis

lemma routeOk_anyone:
  assumes "\<And>m segs vs. methodMatches p m \<Longrightarrow> matchPath path segs = Some vs \<Longrightarrow> apiNeed m segs \<in> {Some Anyone, Some SignedIn}"
  shows "routeOk L (p, path, f)"
  by (rule routeOk_need) (use assms in \<open>fastforce simp: passes_def guarded_any\<close>)

lemma routes_open:
  "routeOk L (''POST'', apiSeg [Lit ''auth'', Lit ''register''], f)" "routeOk L (''POST'', apiSeg [Lit ''auth'', Lit ''google''], f)"
  "routeOk L (''DELETE'', apiSeg [Lit ''texts'', Var ''id'', Lit ''subscribe''], f)"
  by (rule routeOk_anyone, auto simp: method_eqs need_eqs)+

lemma guarded_passes:
  "guarded (\<lambda>_. case ar_claims (routed r vs) of None \<Rightarrow> False | Some c \<Rightarrow> cl_Root c) m \<Longrightarrow> guarded (\<lambda>h. passes h r t RootOnly) m"
  "guarded (\<lambda>_. allowedBy (routed r vs) a) m \<Longrightarrow> guarded (\<lambda>h. passes h r t (Holds a)) m"
  "guarded (\<lambda>h. allowedBy (routed r vs) a \<and> followedBy h (routed r vs) t) m \<Longrightarrow> guarded (\<lambda>h. passes h r t (Follows a)) m"
  unfolding passes_def need.case routed_simps by assumption+

lemma routes_admin:
  "routeOk L (''PUT'', apiSeg [Lit ''admin'', Lit ''users'', Var ''id'', Lit ''permissions''], apiAssignPermissions A D)"
  "routeOk L (''DELETE'', apiSeg [Lit ''admin'', Lit ''users'', Var ''id''], apiDeleteUser)"
  by (rule routeOk_need, auto simp: method_eqs need_eqs intro!: guarded_passes(1) [OF guarded_admins(1)] guarded_passes(1) [OF guarded_admins(2)])+

lemma routes_holders:
  "routeOk L (''POST'', apiSeg [Lit ''texts''], apiCreateText)"
  "routeOk L (''POST'', apiSeg [Lit ''texts'', Var ''id'', Lit ''subscribe''], apiSubscribe)"
  "routeOk L (''POST'', apiSeg [Lit ''fragments'', Var ''id'', Lit ''vote''], apiCastVote)"
  by (rule routeOk_need, auto simp: method_eqs need_eqs intro!: guarded_passes(2) [OF guarded_holders(1)]
      guarded_passes(2) [OF guarded_holders(2)] guarded_passes(2) [OF guarded_holders(3)])+

lemma routes_followers:
  assumes "hl_repo L = refRepo cd"
  shows "routeOk L (''DELETE'', apiSeg [Lit ''texts'', Var ''id''], apiDeleteText)"
    "routeOk L (''POST'', apiSeg [Lit ''texts'', Var ''id'', Lit ''slots''], apiProposeEdit)"
    "routeOk L (''POST'', apiSeg [Lit ''texts'', Var ''id'', Lit ''close-round''], apiCloseRound)"
    "routeOk L (''POST'', apiSeg [Lit ''texts'', Var ''id'', Lit ''schedule-close''], apiScheduleClose)"
proof -
  have g: "guarded (\<lambda>h. passes h r i (Follows ActionCreateText)) (apiDeleteText L T (routed r [(''id'', i)]))"
    "guarded (\<lambda>h. passes h r i (Follows ActionEditText)) (apiProposeEdit L T (routed r [(''id'', i)]))"
    "guarded (\<lambda>h. passes h r i (Follows ActionCloseText)) (apiCloseRound L T (routed r [(''id'', i)]))"
    "guarded (\<lambda>h. passes h r i (Follows ActionCloseText)) (apiScheduleClose L T (routed r [(''id'', i)]))" for r i T
  proof -
    have "apiPath (routed r [(''id'', i)]) ''id'' = i" by simp
    note f = guarded_followers [OF assms, of "routed r [(''id'', i)]" T, unfolded this]
    show "guarded (\<lambda>h. passes h r i (Follows ActionCreateText)) (apiDeleteText L T (routed r [(''id'', i)]))"
      "guarded (\<lambda>h. passes h r i (Follows ActionEditText)) (apiProposeEdit L T (routed r [(''id'', i)]))"
      "guarded (\<lambda>h. passes h r i (Follows ActionCloseText)) (apiCloseRound L T (routed r [(''id'', i)]))"
      "guarded (\<lambda>h. passes h r i (Follows ActionCloseText)) (apiScheduleClose L T (routed r [(''id'', i)]))"
      by (rule guarded_passes(3) [OF f(1)] guarded_passes(3) [OF f(2)] guarded_passes(3) [OF f(3)] guarded_passes(3) [OF f(4)])+
  qed
  show "routeOk L (''DELETE'', apiSeg [Lit ''texts'', Var ''id''], apiDeleteText)"
    "routeOk L (''POST'', apiSeg [Lit ''texts'', Var ''id'', Lit ''slots''], apiProposeEdit)"
    "routeOk L (''POST'', apiSeg [Lit ''texts'', Var ''id'', Lit ''close-round''], apiCloseRound)"
    "routeOk L (''POST'', apiSeg [Lit ''texts'', Var ''id'', Lit ''schedule-close''], apiScheduleClose)"
    by (rule routeOk_need, auto simp: method_eqs need_eqs g)+
qed

lemma routes_ok:
  assumes L: "hl_repo L = refRepo cd" "hl_dir L = kvBackend refOps uc"
  shows "list_all (routeOk L) (apiRoutes V)"
  unfolding apiRoutes_def Let_def
  by (simp add: routes_open routes_admin routes_holders routes_followers [OF L(1)] routeOk_quiet quiet_handlers [OF L(1)]
      quiet_search [OF L(1)] quiet_listUsers [OF L(2)] quiet_login [OF L(2)] quiet_health [OF L(1)])

lemma mux_gate:
  assumes L: "hl_repo L = refRepo cd" "hl_dir L = kvBackend refOps uc"
    and run: "apiMux V L m segs r h = (res, h')" and changed: "st (h_repo h') \<noteq> st (h_repo h)"
  shows "\<exists>n. apiNeed m segs = Some n \<and> passes h r (segs ! 2) n"
  using run
proof (cases rule: apiMux_cases)
  case (found p path f vs)
  then have "routeOk L (p, path, f)" using routes_ok [OF L] by (auto simp: list_all_iff)
  then show ?thesis using found(2-) changed unfolding routeOk_def routed_def by auto
qed (use changed in simp)


lemma gate_open:
  assumes "apiNeed m segs = Some n" and "\<not> (HasPrefix (pathOf segs) ''/api'' \<and> pathOf segs \<notin> set publicAPIPaths)"
  shows "n = Anyone"
proof (rule ccontr)
  assume n: "n \<noteq> Anyone"
  have "take 1 segs = [''api'']" using assms(1) by (simp add: apiNeed_def split: if_splits)
  then obtain rest where rest: "segs = ''api'' # rest" by (cases segs) simp_all
  then have "HasPrefix (pathOf segs) ''/api''" by (simp add: HasPrefix_def pathOf_def)
  then have open_path: "pathOf segs \<in> set publicAPIPaths" using assms(2) by simp
  obtain s more where "rest = s # more" "s \<in> {''texts'', ''fragments'', ''admin''}"
    using assms(1) n unfolding rest by (cases rest) (auto simp: apiNeed_def split: if_splits)
  then show False using open_path unfolding rest by (auto simp: pathOf_def publicAPIPaths_def)
qed

lemma requireToken_pass:
  assumes "requireToken L f segs r h = (res, h')" and "st (h_repo h') \<noteq> st (h_repo h)"
    and "HasPrefix (pathOf segs) ''/api''" and "pathOf segs \<notin> set publicAPIPaths"
  obtains claims where
    "VerifyToken (hl_token L) (clock (h_repo h) (ticks (h_repo h)) div 10 ^ 9) (bearerToken (ar_http r)) (hl_secret L) = Inr claims"
    "hbind (currentPermissions (hl_dir L) claims) (\<lambda>(perms, root).
       f (r\<lparr>ar_claims := Some (claims\<lparr>cl_Perms := Bits perms, cl_Root := root\<rparr>)\<rparr>))
       (h\<lparr>h_repo := (h_repo h)\<lparr>ticks := ticks (h_repo h) + 1\<rparr>\<rparr>) = (res, h')"
proof -
  define h1 where "h1 = h\<lparr>h_repo := (h_repo h)\<lparr>ticks := ticks (h_repo h) + 1\<rparr>\<rparr>"
  have now: "hostNow h = (Inr (clock (h_repo h) (ticks (h_repo h))), h1)"
    by (simp add: hostNow_def onRepo_def timeNow_def hret_def h1_def)
  have silent: "st (h_repo h') = st (h_repo h2)" if "apiError a b h2 = (res, h')" for a b h2
    using that by (simp add: apiError_def apiJSON_def hret_def)
  have st1: "st (h_repo h1) = st (h_repo h)" by (simp add: h1_def)
  define K where "K = (\<lambda>claims. hbind (currentPermissions (hl_dir L) claims) (\<lambda>(perms, root).
    f (r\<lparr>ar_claims := Some (claims\<lparr>cl_Perms := Bits perms, cl_Root := root\<rparr>)\<rparr>)))"
  have run: "(if bearerToken (ar_http r) = [] then apiError 401 missingToken
      else hbind hostNow (\<lambda>now. case VerifyToken (hl_token L) (now div 10 ^ 9) (bearerToken (ar_http r)) (hl_secret L) of
             Inl ErrExpiredToken \<Rightarrow> apiError 401 (''session expir'' @ eacute @ ''e'')
           | Inl e \<Rightarrow> apiError 401 (''token invalide ou expir'' @ eacute)
           | Inr claims \<Rightarrow> K claims)) h = (res, h')"
    using assms(1) unfolding requireToken_def Let_def K_def by (simp only: assms(3,4) if_False simp_thms)
  let ?v = "VerifyToken (hl_token L) (clock (h_repo h) (ticks (h_repo h)) div 10 ^ 9) (bearerToken (ar_http r)) (hl_secret L)"
  have tok: "bearerToken (ar_http r) \<noteq> []"
  proof
    assume none: "bearerToken (ar_http r) = []"
    have "apiError 401 missingToken h = (res, h')" using run unfolding none by (simp only: if_True simp_thms)
    then show False using silent assms(2) by blast
  qed
  have run1: "(case ?v of Inl ErrExpiredToken \<Rightarrow> apiError 401 (''session expir'' @ eacute @ ''e'')
           | Inl e \<Rightarrow> apiError 401 (''token invalide ou expir'' @ eacute) | Inr claims \<Rightarrow> K claims) h1 = (res, h')"
    using run tok unfolding hbind_def by (simp only: now if_False prod.case sum.case simp_thms)
  show ?thesis
  proof (cases ?v)
    case (Inl e)
    then obtain b where "apiError 401 b h1 = (res, h')" using run1 by (cases e) (simp_all only: sum.case tokenErr.case)
    from silent [OF this] show ?thesis using st1 assms(2) by simp
  next
    case (Inr claims)
    then show ?thesis using run1 that by (simp add: K_def h1_def)
  qed
qed

text \<open>C34: No request changes the store of the API, nor the directory of rights in it, unless its route may
  and its caller meets what the route needs: a token that verifies now, and the right, the
  subscription or the root rank the policy names. The rights of the caller are those that the directory
  grants the account at this moment, whatever the token says, when the account and its directory entry
  can be read; when they cannot, also because the account is gone, they are the last ones that were read
  for it and, failing those, what the token was issued with. Registering and signing in with Google are
  open to everyone.\<close>

theorem host_gate:
  assumes "hl_repo L = refRepo cd" and "hl_dir L = kvBackend refOps uc"
    and "serveAPI V L m segs r h = (res, h')" and "st (h_repo h') \<noteq> st (h_repo h)"
  shows "\<exists>n. apiNeed m segs = Some n \<and> (n = Anyone \<or> (\<exists>claims.
      VerifyToken (hl_token L) (clock (h_repo h) (ticks (h_repo h)) div 10 ^ 9) (bearerToken (ar_http r)) (hl_secret L) = Inr claims
    \<and> meets h claims (rightsNow uc h claims) (segs ! 2) n
    \<and> (\<forall>user uuid u. fst (UserByID (cl_Subject claims) (h_pg h)) = Inr user \<longrightarrow> au_RbacUUID user = Some uuid \<longrightarrow>
          fst (kvGetUser refOps uc uuid (st (h_repo h))) = Inr u \<longrightarrow> rightsNow uc h claims = (user_Permissions u, user_Root u))))"
proof -
  have "m \<noteq> ''OPTIONS''" using assms(3,4) by (auto simp: serveAPI_def withCORS_def apiJSON_def hret_def)
  then have run: "requireToken L (apiMux V L m segs) segs r h = (res, h')" using assms(3) by (simp add: serveAPI_def withCORS_def)
  show ?thesis
  proof (cases "HasPrefix (pathOf segs) ''/api'' \<and> pathOf segs \<notin> set publicAPIPaths")
    case False
    then have "apiMux V L m segs r h = (res, h')" using run unfolding requireToken_def by (simp split: if_splits)
    then obtain n where "apiNeed m segs = Some n" using mux_gate [OF assms(1,2) _ assms(4)] by blast
    then show ?thesis using gate_open False by blast
  next
    case True
    from requireToken_pass [OF run assms(4)] True obtain claims where
      claims: "VerifyToken (hl_token L) (clock (h_repo h) (ticks (h_repo h)) div 10 ^ 9) (bearerToken (ar_http r)) (hl_secret L) = Inr claims"
      and go: "hbind (currentPermissions (hl_dir L) claims) (\<lambda>(perms, root).
         apiMux V L m segs (r\<lparr>ar_claims := Some (claims\<lparr>cl_Perms := Bits perms, cl_Root := root\<rparr>)\<rparr>))
         (h\<lparr>h_repo := (h_repo h)\<lparr>ticks := ticks (h_repo h) + 1\<rparr>\<rparr>) = (res, h')" by blast
    define h1 where "h1 = h\<lparr>h_repo := (h_repo h)\<lparr>ticks := ticks (h_repo h) + 1\<rparr>\<rparr>"
    obtain q h2 where q: "currentPermissions (hl_dir L) claims h1 = (q, h2)" by fastforce
    have q': "q = Inr (rightsNow uc h1 claims)" "\<exists>n. h_repo h2 = (h_repo h1)\<lparr>ticks := n\<rparr>"
      using currentPermissions_run [of uc claims h1 q h2] q unfolding assms(2) by simp_all
    have "st (h_repo h1) = st (h_repo h)" "h_cache h1 = h_cache h" "h_pg h1 = h_pg h" by (simp_all add: h1_def)
    then have same: "rightsNow uc h1 claims = rightsNow uc h claims" by (auto simp: rightsNow_def Let_def split: sum.split)
    obtain perms root where rights: "rightsNow uc h claims = (perms, root)" by fastforce
    let ?r = "r\<lparr>ar_claims := Some (claims\<lparr>cl_Perms := Bits perms, cl_Root := root\<rparr>)\<rparr>"
    have mux: "apiMux V L m segs ?r h2 = (res, h')"
      using go q q'(1) unfolding h1_def [symmetric] hbind_def by (simp add: same rights)
    have st: "st (h_repo h2) = st (h_repo h)" using q'(2) by (auto simp: h1_def)
    then obtain n where n: "apiNeed m segs = Some n" "passes h2 ?r (segs ! 2) n"
      using mux_gate [OF assms(1,2) mux] assms(4) by auto
    have "isSubscribed (h_repo h2) u t = isSubscribed (h_repo h) u t" for u t
      using st by (simp add: isSubscribed_def db_def)
    then have "meets h claims (perms, root) (segs ! 2) n"
      using n(2) by (cases n) (simp_all add: passes_def meets_def)
    moreover have "rightsNow uc h claims = (user_Permissions u, user_Root u)"
      if "fst (UserByID (cl_Subject claims) (h_pg h)) = Inr user" "au_RbacUUID user = Some uuid"
        "fst (kvGetUser refOps uc uuid (st (h_repo h))) = Inr u" for user uuid u
      using that by (simp add: rightsNow_def)
    ultimately show ?thesis using n(1) claims unfolding rights [symmetric] by blast
  qed
qed

text \<open>A host for demonstrations: the account \<open>u\<close>, whose token grants nothing, has since been given the
  right to create texts in the directory.\<close>

definition payloadUsers :: "payload userCodec" where
  "payloadUsers = \<lparr>encUser = (\<lambda>u. map_option PRaw (encUser lineCodec u)),
     decUser = (\<lambda>p. case p of PRaw s \<Rightarrow> decUser lineCodec s | _ \<Rightarrow> None)\<rparr>"

definition bareClaims :: Claims where
  "bareClaims = \<lparr>cl_Subject = ''u'', cl_Root = False, cl_Perms = 0, cl_ExpiresAt = 9\<rparr>"

definition demoHostLib :: "(payload kvs, payload) hostLib" where
  "demoHostLib = \<lparr>hl_repo = refRepo payloadCodec, hl_dir = kvBackend refOps payloadUsers,
     hl_token = \<lparr>encClaims = (\<lambda>c. if c = bareClaims then Some ''c'' else None),
       decClaims = (\<lambda>v. if v = ''c'' then Some bareClaims else None), hmac = (\<lambda>k m. m @ k)\<rparr>,
     hl_secret = ''k'', hl_lower = asciiLower, hl_fuel = 3\<rparr>"

definition demoText :: textLib where
  "demoText = \<lparr>tl_text = (\<lambda>b. Decoded \<lparr>tp_title = fst b, tp_content = fst b, tp_tags = []\<rparr>), tl_edit = (\<lambda>b. BadBody),
     tl_days = (\<lambda>b. BadBody), tl_indexed = (\<lambda>t. True), tl_prune = False, tl_found = (\<lambda>q n. None)\<rparr>"

definition demoAuth :: authLib where
  "demoAuth = \<lparr>al_credentials = (\<lambda>b. Decoded \<lparr>cq_Email = ''e'', cq_Password = ''longpassword'', cq_Pseudo = []\<rparr>),
     al_googleAuth = (\<lambda>b. BadBody), al_confirm = (\<lambda>b. BadBody), al_permissions = (\<lambda>b. BadBody), al_parseAddress = (\<lambda>a. True),
     al_hash = (\<lambda>salt pw. Some (salt @ pw)), al_matches = (\<lambda>hash pw. suffix pw hash), al_mailSent = (\<lambda>a c. True),
     al_google = \<lparr>decHeader = (\<lambda>b. None), decGoogleClaims = (\<lambda>b. None), sha256 = (\<lambda>b. b), verifyPKCS1v15 = (\<lambda>k m s. False), toLower = (\<lambda>s. s)\<rparr>,
     al_jwks = None, al_webClient = [], al_mobileClient = [], al_collation = (\<lambda>s. s)\<rparr>"

definition demoEnv :: apiEnv where
  "demoEnv = \<lparr>ev_text = demoText, ev_inbox = \<lparr>il_read = (\<lambda>b. BadBody), il_device = (\<lambda>b. BadBody)\<rparr>, ev_auth = demoAuth,
     ev_draws = \<lparr>dr_salt = ''s'', dr_code = 7, dr_id = ''n'', dr_uuid = Some (replicate 16 0), dr_secret = None\<rparr>, ev_members = None\<rparr>"

definition authorEntry :: User where
  "authorEntry = \<lparr>user_ID = ''r'', user_Root = False, user_Permissions = noPermissions\<lparr>CanCreateText := True\<rparr>, user_CreatedAt = 0\<rparr>"

definition demoAccount :: ApiUser where
  "demoAccount = \<lparr>au_ID = ''u'', au_Email = ''u@x'', au_PasswordHash = ''longpassword'', au_ValidationCode = None,
     au_RbacUUID = Some ''r'', au_Pseudo = None\<rparr>"

definition demoPg :: postgres where
  "demoPg = \<lparr>pg_users = [demoAccount], pg_devices = [], pg_inbox = [], pg_serial = 1, pg_count = 0, pg_now = int, pg_down = (\<lambda>n. False)\<rparr>"

definition demoHost :: "payload kvs host" where
  "demoHost = \<lparr>h_repo = (freshWorld [''a'', ''b''] int)\<lparr>st := [(userKey ''r'', the (encUser payloadUsers authorEntry))]\<rparr>,
     h_pg = demoPg, h_cache = [], h_google = \<lparr>jc_keys = None, jc_fetched = 0\<rparr>, h_jobs = [], h_index = []\<rparr>"

definition bareRequest :: apiRequest where
  "bareRequest = \<lparr>ar_http = \<lparr>rq_path = (\<lambda>v. []), rq_query = [],
       rq_auth = ''Bearer '' @ the (SignToken (hl_token demoHostLib) bareClaims ''k''), rq_body = ''hi''\<rparr>,
     ar_client = [], ar_claims = None\<rparr>"

theorem host_gate_witness:
  "\<exists>res h'. serveAPI demoEnv demoHostLib ''POST'' [''api'', ''texts''] bareRequest demoHost = (res, h')
    \<and> st (h_repo h') \<noteq> st (h_repo demoHost) \<and> meets demoHost bareClaims (rightsNow payloadUsers demoHost bareClaims) [] (Holds ActionCreateText)
    \<and> \<not> ClaimsAllows bareClaims ActionCreateText"
proof -
  obtain res h' where run: "serveAPI demoEnv demoHostLib ''POST'' [''api'', ''texts''] bareRequest demoHost = (res, h')" by fastforce
  have "(case serveAPI demoEnv demoHostLib ''POST'' [''api'', ''texts''] bareRequest demoHost of (res, h') \<Rightarrow>
      st (h_repo h') = st (h_repo demoHost)) = False" by code_simp
  then have changed: "st (h_repo h') \<noteq> st (h_repo demoHost)" by (simp add: run)
  have tok: "VerifyToken (hl_token demoHostLib) (clock (h_repo demoHost) (ticks (h_repo demoHost)) div 10 ^ 9)
      (bearerToken (ar_http bareRequest)) (hl_secret demoHostLib) = Inr bareClaims" by code_simp
  have lib: "hl_repo demoHostLib = refRepo payloadCodec" "hl_dir demoHostLib = kvBackend refOps payloadUsers"
    by (simp_all add: demoHostLib_def)
  have need: "apiNeed ''POST'' [''api'', ''texts''] = Some (Holds ActionCreateText)" by (simp add: need_eqs)
  have "\<not> ClaimsAllows bareClaims ActionCreateText" by code_simp
  then show ?thesis using host_gate [OF lib run changed] run changed need tok by (auto simp: meets_def)
qed

end
