(* ===== verification/Accounting.thy ===== *)
theory Accounting
  imports HostGate
begin

text \<open>
  What registration and sessions guarantee: an account is created with its directory entry and its mail
  or not at all, and a session opened at sign-in is accepted by the middleware under the same
  identity.
\<close>

section \<open>The directory over the reference store\<close>

abbreviation dirOf :: "'v userCodec \<Rightarrow> 'v kvs host \<Rightarrow> string \<Rightarrow> User option" where
  "dirOf uc h \<equiv> usersOf uc (map_of (st (h_repo h)))"

lemma refDelete_refPut: "refInv s \<Longrightarrow> map_of s k = None \<Longrightarrow> map_of (refDelete k (refPut k v s)) = map_of s"
  by (auto simp: map_of_refDelete map_of_refPut)

lemma ref_create:
  assumes "userCodecOk uc" and "refInv s" and "CreateUser (kvBackend refOps uc) random root p now s = (r, s')"
  shows "case r of
      Inl e \<Rightarrow> s' = s
    | Inr u \<Rightarrow> \<exists>v. newUUID random = Some (user_ID u) \<and> user_Root u = root \<and> user_Permissions u = p \<and> map_of s (userKey (user_ID u)) = None
        \<and> s' = refPut (userKey (user_ID u)) v s \<and> decUser uc v = Some u"
  using assms
  by (auto simp: CreateUser_def kvBackend_def kvCreateUser_def refOps_def userCodecOk_def Let_def split: option.splits) blast

lemma ref_delete:
  assumes "map_of s (userKey i) = Some v"
  shows "dirDelete (kvBackend refOps uc) i s = (Inr (), refDelete (userKey i) s)"
  using assms by (simp add: dirDelete_def kvBackend_def kvDeleteUser_def refOps_def)

section \<open>Registration\<close>

text \<open>The database answers every statement.\<close>

definition pgUp :: "postgres \<Rightarrow> bool" where
  "pgUp p \<longleftrightarrow> (\<forall>n. \<not> pg_down p n)"

lemma statement_up: "pgUp p \<Longrightarrow> statement f p = f (pg_now p (pg_count p)) (p\<lparr>pg_count := pg_count p + 1\<rparr>)"
  by (simp add: statement_def pgUp_def Let_def)

lemma registerGrant_law:
  assumes uc: "userCodecOk uc" and dir: "hl_dir L = kvBackend refOps uc" and s: "refInv (st (h_repo h))"
    and up: "pgUp (h_pg h)" and users: "pg_users (h_pg h) = us @ [u]" "au_ID u \<notin> au_ID ` set us"
    and run: "registerGrant A D L u code h = (Inr resp, h')"
  shows "if as_status resp = 201
    then \<exists>e. pg_users (h_pg h') = us @ [u\<lparr>au_RbacUUID := Some (user_ID e)\<rparr>] \<and> al_mailSent A (au_Email u) code
      \<and> user_Permissions e = defaultPermissions \<and> \<not> user_Root e \<and> dirOf uc h (user_ID e) = None
      \<and> dirOf uc h' = (dirOf uc h)(user_ID e \<mapsto> e) \<and> othersOf (map_of (st (h_repo h'))) = othersOf (map_of (st (h_repo h)))
    else pg_users (h_pg h') = us \<and> map_of (st (h_repo h')) = map_of (st (h_repo h))"
proof -
  define now where "now = clock (h_repo h) (ticks (h_repo h))"
  define h1 where "h1 = h\<lparr>h_repo := (h_repo h)\<lparr>ticks := ticks (h_repo h) + 1\<rparr>\<rparr>"
  have h1: "hostNow h = (Inr now, h1)" "st (h_repo h1) = st (h_repo h)" "h_pg h1 = h_pg h"
    by (simp_all add: hostNow_def onRepo_def timeNow_def hret_def h1_def now_def)
  obtain q s1 where c: "CreateUser (kvBackend refOps uc) (dr_uuid D) False defaultPermissions now (st (h_repo h)) = (q, s1)" by fastforce
  have keep: "filter (\<lambda>u'. au_ID u' \<noteq> au_ID u) us = us" using users(2) by (metis (mono_tags, lifting) filter_True imageI)
  have undo: "undoAccount (au_ID u) g = (Inr (), g\<lparr>h_pg := p\<rparr>) \<and> pg_users p = us"
    if "p = snd (pgDeleteUser (au_ID u) (h_pg g))" "pgUp (h_pg g)" "\<exists>u'. au_ID u' = au_ID u \<and> pg_users (h_pg g) = us @ [u']" for g p
    using that keep by (auto simp: undoAccount_def onPg_def pgDeleteUser_def statement_up hret_def)
  show ?thesis
  proof (cases q)
    case (Inl e)
    then have "s1 = st (h_repo h)" using ref_create [OF uc s c] by simp
    then show ?thesis using run Inl c h1 dir undo [OF refl, of "h1\<lparr>h_repo := (h_repo h1)\<lparr>st := s1\<rparr>\<rparr>"] up users
      by (auto simp: registerGrant_def hbind_def onDir_def apiError_def apiJSON_def hret_def)
  next
    case (Inr e)
    obtain v where e: "user_Permissions e = defaultPermissions" "\<not> user_Root e" "map_of (st (h_repo h)) (userKey (user_ID e)) = None"
        "s1 = refPut (userKey (user_ID e)) v (st (h_repo h))" "decUser uc v = Some e"
      using ref_create [OF uc s c] Inr by auto
    have m1: "map_of s1 = (map_of (st (h_repo h)))(userKey (user_ID e) \<mapsto> v)" by (simp add: e(4) map_of_refPut)
    define h2 where "h2 = h1\<lparr>h_repo := (h_repo h1)\<lparr>st := s1\<rparr>\<rparr>"
    define p where "p = (h_pg h)\<lparr>pg_count := pg_count (h_pg h) + 1, pg_users := us @ [u\<lparr>au_RbacUUID := Some (user_ID e)\<rparr>]\<rparr>"
    have "map (\<lambda>u'. if au_ID u' = au_ID u then u'\<lparr>au_RbacUUID := Some (user_ID e)\<rparr> else u') us = us"
      using users(2) by (intro map_idI) (metis imageI)
    then have set: "SetRbacUUID (au_ID u) (user_ID e) (h_pg h2) = (Inr (), p)"
      using users(1) up by (simp add: SetRbacUUID_def updateUsers_def statement_up h2_def h1 p_def)
    have sub: "registerGrant A D L u code h =
        (if \<not> al_mailSent A (au_Email u) code
         then hbind (undoEntry (hl_dir L) (user_ID e)) (\<lambda>_. hbind (undoAccount (au_ID u)) (\<lambda>_. apiError 500 mailFailed))
         else apiJSON 201 (ARegistered (au_Email u))) (h2\<lparr>h_pg := p\<rparr>)"
      using c h1 Inr set by (simp add: registerGrant_def hbind_def onDir_def onPg_def dir h2_def)
    show ?thesis
    proof (cases "al_mailSent A (au_Email u) code")
      case True
      have "dirOf uc h (user_ID e) = None" using e(3) by (simp add: usersOf_def)
      then show ?thesis using run sub True e m1
        by (auto simp: apiJSON_def hret_def p_def h2_def users_upd)
    next
      case False
      have "dirDelete (kvBackend refOps uc) (user_ID e) s1 = (Inr (), refDelete (userKey (user_ID e)) s1)"
        by (rule ref_delete) (simp add: m1)
      then have gone: "undoEntry (hl_dir L) (user_ID e) (h2\<lparr>h_pg := p\<rparr>)
          = (Inr (), h2\<lparr>h_pg := p, h_repo := (h_repo h2)\<lparr>st := refDelete (userKey (user_ID e)) s1\<rparr>\<rparr>)"
        by (simp add: undoEntry_def onDir_def dir h2_def hret_def)
      have restored: "map_of (refDelete (userKey (user_ID e)) s1) = map_of (st (h_repo h))"
        using refDelete_refPut [OF s e(3)] e(4) by simp
      show ?thesis using run sub False gone restored undo [OF refl, of "h2\<lparr>h_pg := p, h_repo := (h_repo h2)\<lparr>st := refDelete (userKey (user_ID e)) s1\<rparr>\<rparr>"] up
        by (auto simp: hbind_def apiError_def apiJSON_def hret_def p_def pgUp_def)
    qed
  qed
qed

text \<open>\<open>enrolled\<close>: one account more, waiting for the code that was mailed, linked to a new directory entry with
  the default rights. \<open>untouched\<close>: the accounts, the directory and the rest of the store are as before.\<close>

definition enrolled :: "'v userCodec \<Rightarrow> authLib \<Rightarrow> draws \<Rightarrow> 'v kvs host \<Rightarrow> 'v kvs host \<Rightarrow> bool" where
  "enrolled uc A D h h' \<longleftrightarrow> (\<exists>u e. pg_users (h_pg h') = pg_users (h_pg h) @ [u] \<and> au_RbacUUID u = Some (user_ID e)
      \<and> au_ValidationCode u = Some (generateValidationCode (dr_code D)) \<and> al_mailSent A (au_Email u) (generateValidationCode (dr_code D))
      \<and> au_Email u \<notin> au_Email ` set (pg_users (h_pg h))
      \<and> user_Permissions e = defaultPermissions \<and> \<not> user_Root e \<and> dirOf uc h (user_ID e) = None
      \<and> dirOf uc h' = (dirOf uc h)(user_ID e \<mapsto> e) \<and> othersOf (map_of (st (h_repo h'))) = othersOf (map_of (st (h_repo h))))"

definition untouched :: "'v kvs host \<Rightarrow> 'v kvs host \<Rightarrow> bool" where
  "untouched h h' \<longleftrightarrow> pg_users (h_pg h') = pg_users (h_pg h) \<and> map_of (st (h_repo h')) = map_of (st (h_repo h))"

lemma register_created:
  assumes "userCodecOk uc" and "hl_dir L = kvBackend refOps uc" and "refInv (st (h_repo h))" and up: "pgUp (h_pg h)"
    and run: "onPg (pgCreateUser (dr_id D) email hash (generateValidationCode (dr_code D)) pseudo)
       (\<lambda>e. if e = ErrEmailTaken then apiError 409 emailTaken else apiError 500 serverError)
       (\<lambda>user. registerGrant A D L user (generateValidationCode (dr_code D))) h = (Inr resp, h')"
  shows "if as_status resp = 201 then enrolled uc A D h h' else untouched h h'"
proof -
  let ?code = "generateValidationCode (dr_code D)"
  define u where "u = \<lparr>au_ID = dr_id D, au_Email = email, au_PasswordHash = hash, au_ValidationCode = Some ?code, au_RbacUUID = None,
    au_Pseudo = if pseudo \<noteq> [] then Some pseudo else None\<rparr>"
  have u: "au_ID u = dr_id D" "au_Email u = email" "au_ValidationCode u = Some ?code" by (simp_all add: u_def)
  show ?thesis
  proof (cases "list_ex (\<lambda>u. au_ID u = dr_id D \<or> au_Email u = email) (pg_users (h_pg h))")
    case True
    then show ?thesis using run up
      by (auto simp: onPg_def pgCreateUser_def statement_up Let_def apiError_def apiJSON_def hret_def untouched_def)
  next
    case False
    define h1 where "h1 = h\<lparr>h_pg := (h_pg h)\<lparr>pg_count := pg_count (h_pg h) + 1, pg_users := pg_users (h_pg h) @ [u]\<rparr>\<rparr>"
    have h1: "h_repo h1 = h_repo h" "pg_users (h_pg h1) = pg_users (h_pg h) @ [u]" "pgUp (h_pg h1)"
      using up by (simp_all add: h1_def pgUp_def)
    have grant: "registerGrant A D L u ?code h1 = (Inr resp, h')"
      using run False up by (simp add: onPg_def pgCreateUser_def statement_up Let_def h1_def u_def)
    have fresh: "au_ID u \<notin> au_ID ` set (pg_users (h_pg h))" "email \<notin> au_Email ` set (pg_users (h_pg h))"
      using False by (auto simp: list_ex_iff u)
    note law = registerGrant_law [OF assms(1,2) _ h1(3,2) fresh(1) grant, unfolded h1(1), OF assms(3)]
    show ?thesis
    proof (cases "as_status resp = 201")
      case True
      from law [unfolded if_P [OF True]] obtain e where e: "pg_users (h_pg h') = pg_users (h_pg h) @ [u\<lparr>au_RbacUUID := Some (user_ID e)\<rparr>]"
          "al_mailSent A (au_Email u) ?code" "user_Permissions e = defaultPermissions" "\<not> user_Root e" "dirOf uc h (user_ID e) = None"
          "dirOf uc h' = (dirOf uc h)(user_ID e \<mapsto> e)" "othersOf (map_of (st (h_repo h'))) = othersOf (map_of (st (h_repo h)))"
        by blast
      show ?thesis unfolding if_P [OF True] enrolled_def
        by (rule exI [of _ "u\<lparr>au_RbacUUID := Some (user_ID e)\<rparr>"], rule exI [of _ e]) (use e u fresh(2) in simp)
    qed (use law in \<open>simp add: untouched_def\<close>)
  qed
qed

text \<open>C35: A registration is all or nothing: answered with 201 it has added one account, to be confirmed with
  the code that was mailed, linked to a new directory entry with the default rights; answered in any
  other way, a taken address or a mail that cannot be sent included, it leaves the accounts, the
  directory and the rest of the store as they were. The database and the store answer throughout.\<close>

theorem registration:
  assumes "userCodecOk uc" and "hl_dir L = kvBackend refOps uc" and "refInv (st (h_repo h))" and "pgUp (h_pg h)"
    and run: "apiRegister A D L T r h = (Inr resp, h')"
  shows "if as_status resp = 201 then enrolled uc A D h h' else untouched h h'"
proof -
  have refused: "as_status resp = n \<and> untouched h h'" if "apiError n m h = (Inr resp, h')" for n m
    using that by (auto simp: apiError_def apiJSON_def hret_def untouched_def)
  show ?thesis
  proof (cases "al_credentials A (limitedBody r)")
    case (Decoded req)
    note steps = run [unfolded apiRegister_def Decoded decodeOr400_def decoded.case Let_def]
    show ?thesis
    proof (cases "al_parseAddress A (ToLower (hl_lower L) (TrimSpace (cq_Email req))) \<and> \<not> int (length (cq_Password req)) < 8
        \<and> \<not> RuneCountInString (TrimSpace (cq_Pseudo req)) > maxPseudoRunes \<and> al_hash A (dr_salt D) (cq_Password req) \<noteq> None")
      case True
      then obtain hash where hash: "al_hash A (dr_salt D) (cq_Password req) = Some hash" by auto
      show ?thesis by (rule register_created [OF assms(1-4)]) (use steps True hash in simp)
    qed (use steps in \<open>auto split: if_splits dest: refused\<close>)
  qed (use run in \<open>auto simp: apiRegister_def decodeOr400_def dest: refused\<close>)
qed

theorem registration_witness:
  "\<exists>resp h'. apiRegister demoAuth (ev_draws demoEnv) demoHostLib demoText bareRequest demoHost = (Inr resp, h') \<and> as_status resp = 201
    \<and> length (pg_users (h_pg h')) = 2"
proof -
  have "case fst (apiRegister demoAuth (ev_draws demoEnv) demoHostLib demoText bareRequest demoHost) of
      Inl e \<Rightarrow> False | Inr resp \<Rightarrow> as_status resp = 201" by code_simp
  then obtain resp h' where run: "apiRegister demoAuth (ev_draws demoEnv) demoHostLib demoText bareRequest demoHost = (Inr resp, h')"
    and ok: "as_status resp = 201" by (cases "apiRegister demoAuth (ev_draws demoEnv) demoHostLib demoText bareRequest demoHost") (auto split: sum.splits)
  have uc: "userCodecOk payloadUsers" using lineCodec_ok by (auto simp: userCodecOk_def payloadUsers_def)
  have "hl_dir demoHostLib = kvBackend refOps payloadUsers" "refInv (st (h_repo demoHost))" "pgUp (h_pg demoHost)"
    by (simp_all add: demoHostLib_def demoHost_def refInv_def pgUp_def demoPg_def)
  from registration [OF uc this run] ok show ?thesis using run by (auto simp: enrolled_def demoHost_def demoPg_def)
qed

section \<open>Sessions\<close>

text \<open>What a sign-in that answers a session has checked, and the token it has signed.\<close>

lemma openSession_token:
  assumes "openSession L u h = (Inr \<lparr>as_status = 200, as_body = ASession s\<rparr>, h')"
  shows "se_UserID s = au_ID u \<and> SignToken (hl_token L) \<lparr>cl_Subject = au_ID u, cl_Root = se_Root s, cl_Perms = Bits (se_Permissions s),
      cl_ExpiresAt = se_ExpiresAt s div 10 ^ 9\<rparr> (hl_secret L) = Some (se_Token s)
    \<and> se_ExpiresAt s = clock (h_repo h) (ticks (h_repo h)) + sessionTTL"
  using assms
  by (auto simp: openSession_def issueToken_def accountRights_def onDir_def hostNow_def onRepo_def timeNow_def hret_def Let_def apiError_def
      apiJSON_def simp del: power_numeral split: option.splits prod.splits sum.splits if_splits)

lemma apiLogin_session:
  assumes "apiLogin A L T r h = (Inr \<lparr>as_status = 200, as_body = ASession s\<rparr>, h')"
  obtains u g req where "u \<in> set (pg_users (h_pg h))" "al_credentials A (limitedBody r) = Decoded req"
    "al_matches A (au_PasswordHash u) (cq_Password req)" "au_ValidationCode u = None"
    "openSession L u g = (Inr \<lparr>as_status = 200, as_body = ASession s\<rparr>, h')" "h_repo g = h_repo h"
    "au_Email u = ToLower (hl_lower L) (TrimSpace (cq_Email req))"
proof -
  obtain req where req: "al_credentials A (limitedBody r) = Decoded req"
    using assms by (cases "al_credentials A (limitedBody r)") (auto simp: apiLogin_def decodeOr400_def apiError_def apiJSON_def hret_def)
  obtain q p where q: "UserByEmail (ToLower (hl_lower L) (TrimSpace (cq_Email req))) (h_pg h) = (q, p)" by fastforce
  obtain u where u: "q = Inr u" using assms req q
    by (cases q) (auto simp: apiLogin_def decodeOr400_def onPg_def apiError_def apiJSON_def hret_def)
  have "u \<in> set (pg_users (h_pg h))" "au_Email u = ToLower (hl_lower L) (TrimSpace (cq_Email req))" using q u
    by (auto simp: UserByEmail_def scanUser_def statement_def Let_def find_Some_iff split: if_splits option.splits)
  moreover have "al_matches A (au_PasswordHash u) (cq_Password req)" "au_ValidationCode u = None"
      "openSession L u (h\<lparr>h_pg := p\<rparr>) = (Inr \<lparr>as_status = 200, as_body = ASession s\<rparr>, h')"
    using assms req q u by (auto simp: apiLogin_def decodeOr400_def onPg_def apiError_def apiJSON_def hret_def split: if_splits)
  ultimately show ?thesis using that req by simp
qed

text \<open>C36: Signing in opens a session that the middleware accepts. A session is answered only to a confirmed
  account with the address of the request and a matching password. Any request on a protected path that
  carries its token is, in any state of the host, refused as expired once the clock has passed the
  second in which the session expires (one \<open>sessionTTL\<close> after the sign-in), and until then runs under that
  account with the rights that \<open>currentPermissions\<close> finds (those of the directory; when they cannot be
  read, the last ones read, else those the session was opened with). The token functions are taken to
  invert each other (\<open>tokenLibOk\<close>).\<close>

theorem session_roundtrip:
  assumes tok: "tokenLibOk (hl_token L)"
    and login: "apiLogin A L T r h = (Inr \<lparr>as_status = 200, as_body = ASession s\<rparr>, h')"
    and path: "HasPrefix (pathOf segs) ''/api''" "pathOf segs \<notin> set publicAPIPaths"
    and bearer: "bearerToken (ar_http q) = se_Token s"
  shows "(\<exists>u req. u \<in> set (pg_users (h_pg h)) \<and> al_credentials A (limitedBody r) = Decoded req \<and> au_ID u = se_UserID s
        \<and> au_Email u = ToLower (hl_lower L) (TrimSpace (cq_Email req)) \<and> al_matches A (au_PasswordHash u) (cq_Password req) \<and> au_ValidationCode u = None)
    \<and> se_ExpiresAt s = clock (h_repo h) (ticks (h_repo h)) + sessionTTL
    \<and> (let claims = \<lparr>cl_Subject = se_UserID s, cl_Root = se_Root s, cl_Perms = Bits (se_Permissions s), cl_ExpiresAt = se_ExpiresAt s div 10 ^ 9\<rparr>
       in requireToken L next segs q = hbind hostNow (\<lambda>now.
         if now div 10 ^ 9 > se_ExpiresAt s div 10 ^ 9 then apiError 401 (''session expir'' @ eacute @ ''e'')
         else hbind (currentPermissions (hl_dir L) claims) (\<lambda>(perms, root).
           next (q\<lparr>ar_claims := Some (claims\<lparr>cl_Perms := Bits perms, cl_Root := root\<rparr>)\<rparr>))))"
proof -
  from apiLogin_session [OF login] obtain u g req where u: "u \<in> set (pg_users (h_pg h))" "al_credentials A (limitedBody r) = Decoded req"
    "al_matches A (au_PasswordHash u) (cq_Password req)" "au_ValidationCode u = None"
    "openSession L u g = (Inr \<lparr>as_status = 200, as_body = ASession s\<rparr>, h')" "h_repo g = h_repo h" "au_Email u = ToLower (hl_lower L) (TrimSpace (cq_Email req))" by metis
  define claims where "claims = \<lparr>cl_Subject = se_UserID s, cl_Root = se_Root s, cl_Perms = Bits (se_Permissions s), cl_ExpiresAt = se_ExpiresAt s div 10 ^ 9\<rparr>"
  note s = openSession_token [OF u(5)]
  have sign: "SignToken (hl_token L) claims (hl_secret L) = Some (se_Token s)" unfolding claims_def using s by metis
  then have "se_Token s \<noteq> []" by (auto simp: SignToken_def Let_def split: option.splits)
  moreover have "VerifyToken (hl_token L) (now div 10 ^ 9) (se_Token s) (hl_secret L)
      = (if now div 10 ^ 9 > se_ExpiresAt s div 10 ^ 9 then Inl ErrExpiredToken else Inr claims)" for now
    unfolding Verify_Sign [OF tok sign] by (simp only: claims_def Claims.simps)
  ultimately have "requireToken L next segs q = hbind hostNow (\<lambda>now.
         if now div 10 ^ 9 > se_ExpiresAt s div 10 ^ 9 then apiError 401 (''session expir'' @ eacute @ ''e'')
         else hbind (currentPermissions (hl_dir L) claims) (\<lambda>(perms, root).
           next (q\<lparr>ar_claims := Some (claims\<lparr>cl_Perms := Bits perms, cl_Root := root\<rparr>)\<rparr>)))"
    unfolding requireToken_def Let_def bearer using path by (simp cong: if_cong del: power_numeral) (rule arg_cong [of _ _ "hbind hostNow"], rule ext, simp del: power_numeral)
  then show ?thesis unfolding claims_def Let_def using s u by auto
qed

text \<open>The account of the demonstration signs in with its password.\<close>

definition sessionClaims :: Claims where
  "sessionClaims = \<lparr>cl_Subject = ''u'', cl_Root = False, cl_Perms = Bits (user_Permissions authorEntry), cl_ExpiresAt = 3600\<rparr>"

definition sessionLib :: "(payload kvs, payload) hostLib" where
  "sessionLib = demoHostLib\<lparr>hl_token := \<lparr>encClaims = (\<lambda>c. if c = sessionClaims then Some ''c'' else None),
     decClaims = (\<lambda>v. if v = ''c'' then Some sessionClaims else None), hmac = (\<lambda>k m. m @ k)\<rparr>\<rparr>"

definition sessionAuth :: authLib where
  "sessionAuth = demoAuth\<lparr>al_credentials := (\<lambda>b. Decoded \<lparr>cq_Email = ''u@x'', cq_Password = ''longpassword'', cq_Pseudo = []\<rparr>)\<rparr>"

definition sessionRequest :: apiRequest where
  "sessionRequest = bareRequest\<lparr>ar_http := (ar_http bareRequest)\<lparr>rq_auth :=
     ''Bearer '' @ the (SignToken (hl_token sessionLib) sessionClaims (hl_secret sessionLib))\<rparr>\<rparr>"

theorem session_roundtrip_witness:
  "\<exists>s h'. apiLogin sessionAuth sessionLib demoText bareRequest demoHost = (Inr \<lparr>as_status = 200, as_body = ASession s\<rparr>, h')
    \<and> se_UserID s = ''u'' \<and> se_ExpiresAt s = sessionTTL
    \<and> requireToken sessionLib (apiMe sessionLib demoText) [''api'', ''me''] sessionRequest = hbind hostNow (\<lambda>now.
        if now div 10 ^ 9 > se_ExpiresAt s div 10 ^ 9 then apiError 401 (''session expir'' @ eacute @ ''e'')
        else hbind (currentPermissions (hl_dir sessionLib) sessionClaims) (\<lambda>(perms, root).
          apiMe sessionLib demoText (sessionRequest\<lparr>ar_claims := Some (sessionClaims\<lparr>cl_Perms := Bits perms, cl_Root := root\<rparr>)\<rparr>)))"
proof -
  have "case fst (apiLogin sessionAuth sessionLib demoText bareRequest demoHost) of Inl e \<Rightarrow> False | Inr resp \<Rightarrow>
      as_status resp = 200 \<and> (case as_body resp of ASession s \<Rightarrow> bearerToken (ar_http sessionRequest) = se_Token s
        \<and> \<lparr>cl_Subject = se_UserID s, cl_Root = se_Root s, cl_Perms = Bits (se_Permissions s), cl_ExpiresAt = se_ExpiresAt s div 10 ^ 9\<rparr>
          = sessionClaims | _ \<Rightarrow> False)" by code_simp
  then obtain s h' where run: "apiLogin sessionAuth sessionLib demoText bareRequest demoHost = (Inr \<lparr>as_status = 200, as_body = ASession s\<rparr>, h')"
    and s: "bearerToken (ar_http sessionRequest) = se_Token s"
      "\<lparr>cl_Subject = se_UserID s, cl_Root = se_Root s, cl_Perms = Bits (se_Permissions s), cl_ExpiresAt = se_ExpiresAt s div 10 ^ 9\<rparr> = sessionClaims"
    by (cases "apiLogin sessionAuth sessionLib demoText bareRequest demoHost")
      (auto split: sum.splits apiBody.splits simp del: power_numeral, metis (full_types) apiResponse.surjective old.unit.exhaust)
  have tok: "tokenLibOk (hl_token sessionLib)" by (simp add: tokenLibOk_def sessionLib_def)
  have path: "HasPrefix (pathOf [''api'', ''me'']) ''/api''" "pathOf [''api'', ''me''] \<notin> set publicAPIPaths" by code_simp+
  have "clock (h_repo demoHost) (ticks (h_repo demoHost)) = 0" by (simp add: demoHost_def freshWorld_def)
  moreover have "se_UserID s = ''u''" using s(2) unfolding sessionClaims_def by simp
  ultimately show ?thesis
    using session_roundtrip [OF tok run path s(1), of "apiMe sessionLib demoText", unfolded s(2) Let_def] run by fastforce
qed

end
