(* ===== verification/Lineage.thy ===== *)
theory Lineage
  imports Domain
begin

text \<open>
  The versions of a text: \<open>TextChain\<close> walks the links between versions without a bound. The links
  follow the order in which texts were created, whatever has been deleted since, so the walks end.
  Operations other than the two that create texts only take links away, which is shown for them by
  the structure of their definitions.
\<close>

section \<open>Operations that add no link\<close>

text \<open>An operation that adds neither a text nor a successor, nor an identifier.\<close>

definition shrunk :: "'v kvs world \<Rightarrow> 'v kvs world \<Rightarrow> bool" where
  "shrunk w w' \<longleftrightarrow> refInv (st w') \<and> fam ''text'' (db w') \<subseteq>\<^sub>m fam ''text'' (db w)
     \<and> fam ''supersededby'' (db w') \<subseteq>\<^sub>m fam ''supersededby'' (db w) \<and> set (ids w') \<subseteq> set (ids w)"

lemma shrunk_refl: "refInv (st w) \<Longrightarrow> shrunk w w"
  by (simp add: shrunk_def)

lemma shrunk_trans: "shrunk w w' \<Longrightarrow> shrunk w' w'' \<Longrightarrow> shrunk w w''"
  unfolding shrunk_def using map_le_trans by blast

definition addsNone :: "('a \<Rightarrow> bool) \<Rightarrow> ('v kvs, 'a) act \<Rightarrow> bool" where
  "addsNone P m \<longleftrightarrow> (\<forall>w. refInv (st w) \<longrightarrow> wp m (\<lambda>x w'. P x \<and> shrunk w w') (\<lambda>e. shrunk w) w)"

lemma addsNoneI: "(\<And>w. refInv (st w) \<Longrightarrow> wp m (\<lambda>x w'. P x \<and> shrunk w w') (\<lambda>e. shrunk w) w) \<Longrightarrow> addsNone P m"
  by (simp add: addsNone_def)

abbreviation linkless :: "('v kvs, 'a) act \<Rightarrow> bool" where
  "linkless \<equiv> addsNone (\<lambda>_. True)"

named_theorems link_intros \<open>rules that show an operation to add no link\<close>

lemma addsNone_read: "readOnly m \<Longrightarrow> linkless m"
  by (auto simp: addsNone_def shrunk_refl intro!: wp_readOnlyI)

lemma addsNone_ret: "P x \<Longrightarrow> addsNone P (ret x)"
  by (simp add: addsNone_def wp_simps shrunk_refl)

lemma addsNone_raise [link_intros]: "addsNone P (raise e)"
  by (simp add: addsNone_def wp_simps shrunk_refl)

lemma addsNone_mono: "addsNone P m \<Longrightarrow> (\<And>x. P x \<Longrightarrow> Q x) \<Longrightarrow> addsNone Q m"
  by (auto simp: addsNone_def elim!: wp_mono)

lemma addsNone_seq:
  fixes m :: "('v kvs, 'a) act"
  assumes "addsNone P m" and "\<And>x. P x \<Longrightarrow> addsNone Q (f x)"
  shows "addsNone Q (bindE m f)"
proof (rule addsNoneI)
  fix w :: "'v kvs world" assume "refInv (st w)"
  then have "wp m (\<lambda>x w'. P x \<and> shrunk w w') (\<lambda>e. shrunk w) w" using assms(1) by (simp add: addsNone_def)
  then show "wp (bindE m f) (\<lambda>x w'. Q x \<and> shrunk w w') (\<lambda>e. shrunk w) w" unfolding wp_bind
  proof (rule wp_mono)
    fix x w' assume x: "P x \<and> shrunk w w'"
    then have "refInv (st w')" by (simp add: shrunk_def)
    with assms(2) x have "wp (f x) (\<lambda>y w''. Q y \<and> shrunk w' w'') (\<lambda>e. shrunk w') w'" by (simp add: addsNone_def)
    then show "wp (f x) (\<lambda>x w'. Q x \<and> shrunk w w') (\<lambda>e. shrunk w) w'"
      using x by (auto elim!: wp_mono intro: shrunk_trans)
  qed
qed

lemma addsNone_bind: "linkless m \<Longrightarrow> (\<And>x. addsNone Q (f x)) \<Longrightarrow> addsNone Q (bindE m f)"
  by (rule addsNone_seq)

lemma addsNone_catch [link_intros]:
  fixes m :: "('v kvs, 'a) act"
  assumes "addsNone P m" and "\<And>e. addsNone P (h e)"
  shows "addsNone P (catchE m h)"
proof (rule addsNoneI)
  fix w :: "'v kvs world" assume "refInv (st w)"
  then have "wp m (\<lambda>x w'. P x \<and> shrunk w w') (\<lambda>e. shrunk w) w" using assms(1) by (simp add: addsNone_def)
  then show "wp (catchE m h) (\<lambda>x w'. P x \<and> shrunk w w') (\<lambda>e. shrunk w) w" unfolding wp_catch
  proof (rule wp_mono)
    fix e w' assume e: "shrunk w w'"
    then have "refInv (st w')" by (simp add: shrunk_def)
    with assms(2) have "wp (h e) (\<lambda>y w''. P y \<and> shrunk w' w'') (\<lambda>e. shrunk w') w'" by (simp add: addsNone_def)
    then show "wp (h e) (\<lambda>x w'. P x \<and> shrunk w w') (\<lambda>e. shrunk w) w'"
      using e by (auto elim!: wp_mono intro: shrunk_trans)
  qed
qed

lemma addsNone_fold: "(\<And>x b. P b \<Longrightarrow> addsNone P (f x b)) \<Longrightarrow> P b \<Longrightarrow> addsNone P (foldE f xs b)"
proof (induction xs arbitrary: b)
  case Nil
  then show ?case by (simp add: addsNone_ret)
next
  case (Cons x xs)
  have "addsNone P (bindE (f x b) (foldE f xs))" by (rule addsNone_seq [of P]) (use Cons in auto)
  then show ?case by simp
qed

lemma addsNone_cases [link_intros]:
  "addsNone P a \<Longrightarrow> addsNone P b \<Longrightarrow> addsNone P (if c then a else b)"
  "addsNone P a \<Longrightarrow> (\<And>y. addsNone P (g y)) \<Longrightarrow> addsNone P (case x of None \<Rightarrow> a | Some y \<Rightarrow> g y)"
  "(\<And>y z. addsNone P (h y z)) \<Longrightarrow> addsNone P (case q of (y, z) \<Rightarrow> h y z)"
  by (simp_all split: option.split prod.split)

lemma linkless_ret [link_intros]: "linkless (ret x)"
  by (simp add: addsNone_ret)

lemma linkless_supply [link_intros]: "linkless newID" "linkless timeNow"
  by (auto simp: addsNone_def wp_simps shrunk_def split: list.split)

lemma linkless_orRaise [link_intros]: "linkless (orRaise e r)"
  by (rule addsNone_read) (intro read_intros)

lemma linkless_reads [link_intros]:
  "linkless (storeGet (refRepo cd) k)" "linkless (storeScan (refRepo cd) p)" "linkless (getText (refRepo cd) t)"
  "linkless (getRound (refRepo cd) r)" "linkless (getFragment (refRepo cd) f)" "linkless (CurrentRound (refRepo cd) t)"
  by (auto intro!: addsNone_read read_intros)

text \<open>A batch without new links: deletions, and writes under other kinds of keys.\<close>

definition unlinking :: "'v wop \<Rightarrow> bool" where
  "unlinking x \<longleftrightarrow> isDel x \<or> space (opKey x) \<notin> {''text'', ''supersededby''}"

lemma unlinking_simps [simp]:
  "unlinking (DelOp k)" "unlinking (PutOp k v) \<longleftrightarrow> space k \<notin> {''text'', ''supersededby''}"
  by (simp_all add: unlinking_def)

lemma fam_unlinking:
  assumes "list_all unlinking ws" and "p \<in> {''text'', ''supersededby''}"
  shows "fam p (foldl wopMap m ws) \<subseteq>\<^sub>m fam p m"
  using assms(1)
proof (induction ws arbitrary: m)
  case (Cons x ws)
  have p: "plainID p" using assms(2) by auto
  have "fam p (wopMap m x) \<subseteq>\<^sub>m fam p m"
  proof (cases x)
    case (PutOp k v)
    then have "space k \<noteq> p" using Cons.prems assms(2) by auto
    then show ?thesis by (simp add: PutOp fam_upd_other [OF p])
  qed (auto simp: map_le_def fam_def)
  then show ?case using Cons map_le_trans by fastforce
qed simp

lemma shrunk_wrote: "refInv (st w) \<Longrightarrow> list_all unlinking ws \<Longrightarrow> shrunk w (wrote ws w)"
  by (simp add: shrunk_def refInv_wrote db_wrote fam_unlinking)

lemma linkless_writes:
  "list_all unlinking ws \<Longrightarrow> linkless (storeBatch (refRepo cd) ws)"
  "list_all unlinking ws \<Longrightarrow> linkless (batchUnlessEmpty (refRepo cd) ws)"
  "unlinking (PutOp k v) \<Longrightarrow> linkless (storePut (refRepo cd) k v)"
  by (simp_all add: addsNone_def wp_simps shrunk_wrote)

text \<open>The operations of the repository.\<close>

lemma linkless_votes:
  "linkless (CastVote (refRepo cd) f u)" "linkless (Subscribe (refRepo cd) u t)" "linkless (Unsubscribe (refRepo cd) u t)"
  "linkless (DeleteUserVotes (refRepo cd) u)" "linkless (DeleteUserSubscriptions (refRepo cd) u)"
  "linkless (ScheduleRoundClose (refRepo cd) t at u)"
  unfolding CastVote_def Subscribe_def Unsubscribe_def DeleteUserVotes_def DeleteUserSubscriptions_def ScheduleRoundClose_def Let_def
  by (auto intro!: link_intros addsNone_bind linkless_writes simp: list_all_iff split: option.splits)

lemma addsNone_openRoundOps: "addsNone (\<lambda>(ops, _). list_all unlinking ops) (openRoundOps cd t n)"
  unfolding openRoundOps_def Let_def by (intro addsNone_bind link_intros addsNone_ret) simp

lemma linkless_resolveSlot: "linkless (resolveSlot ss a b)"
  by (induction ss) (auto intro!: link_intros addsNone_bind)

lemma linkless_ProposeEdit: "linkless (ProposeEdit (refRepo cd) t a b c u)"
proof -
  have "linkless (openRound (refRepo cd) t)"
  proof -
    have opened: "linkless (bindE (openRoundOps cd t n) (\<lambda>(ops, round). bindE (storeBatch (refRepo cd) ops) (\<lambda>_. ret round)))" for n
      by (rule addsNone_seq [OF addsNone_openRoundOps]) (auto intro!: addsNone_bind linkless_writes link_intros)
    have "linkless (nextRoundNumber (refRepo cd) t)"
      unfolding nextRoundNumber_def by (auto intro!: addsNone_bind link_intros)
    then have "linkless (bindE (nextRoundNumber (refRepo cd) t) (\<lambda>number. bindE (openRoundOps cd t number)
        (\<lambda>(ops, round). bindE (storeBatch (refRepo cd) ops) (\<lambda>_. ret round))))" by (rule addsNone_bind) (rule opened)
    then show ?thesis
      unfolding openRound_def by (intro addsNone_bind [OF linkless_reads(1)] addsNone_cases(2) addsNone_raise) simp
  qed
  moreover have "linkless (seedSlot (refRepo cd) t x r s a b)" for x r s
    unfolding seedSlot_def Let_def by (auto intro!: addsNone_bind link_intros linkless_writes)
  moreover have "linkless (addFragment (refRepo cd) t s c u)" for s
    unfolding addFragment_def Let_def by (auto intro!: addsNone_bind link_intros linkless_writes)
  ultimately show ?thesis
    unfolding ProposeEdit_def Let_def by (intro addsNone_bind link_intros linkless_resolveSlot)
qed

lemma collects_addsNone:
  fixes m :: "('v kvs, 'v wop list) act"
  assumes "\<And>w. \<exists>D. collects w m ops D" and "list_all isDel ops"
  shows "addsNone (list_all isDel) m"
proof (rule addsNoneI)
  fix w :: "'v kvs world" assume w: "refInv (st w)"
  obtain D where "collects w m ops D" using assms(1) by blast
  then show "wp m (\<lambda>x w'. list_all isDel x \<and> shrunk w w') (\<lambda>e. shrunk w) w"
    unfolding collects_def by (rule wp_mono) (use assms(2) w shrunk_refl in auto)
qed

lemma addsNone_loops:
  "list_all isDel ops \<Longrightarrow> addsNone (list_all isDel) (roundDeletions (refRepo cd) target ops)"
  "list_all isDel ops \<Longrightarrow> addsNone (list_all isDel) (fragmentDeletions (refRepo cd) t ops)"
  by (rule collects_addsNone, use collects_roundDeletions collects_fragmentDeletions in blast, assumption)+

lemma linkless_DeleteText: "linkless (DeleteText (refRepo cd) t)"
proof -
  have "linkless (bindE (roundDeletions (refRepo cd) (\<lambda>i. i = t) ops) (\<lambda>ops. bindE (fragmentDeletions (refRepo cd) t ops) (\<lambda>ops.
      bindE (storeScan (refRepo cd) p) (\<lambda>subs. storeBatch (refRepo cd) (ops @ concat (map (\<lambda>(k, v).
          [DelOp k, DelOp (g k)]) subs))))))" if "list_all isDel ops" for ops p g
    by (rule addsNone_seq [OF addsNone_loops(1) [OF that]], rule addsNone_seq [OF addsNone_loops(2)])
      (auto intro!: addsNone_bind link_intros linkless_writes simp: list_all_iff unlinking_def)
  then show ?thesis unfolding DeleteText_def Let_def
    by (rule addsNone_bind [OF linkless_reads(3)]) (simp add: list_all_iff)
qed

lemma linkless_DeleteUserTexts: "linkless (DeleteUserTexts (refRepo cd) u)"
proof -
  have collect: "addsNone (\<lambda>r. list_all isDel (snd r)) (foldE (ownText cd u) kvs ([], []))" for kvs
  proof (rule addsNone_fold)
    fix kv and r :: "string list \<times> 'a wop list" assume "list_all isDel (snd r)"
    then show "addsNone (\<lambda>r. list_all isDel (snd r)) (ownText cd u kv r)"
      by (cases kv; cases r) (auto simp: ownText_def intro!: addsNone_bind link_intros addsNone_ret)
  qed simp
  have "linkless (bindE (roundDeletions (refRepo cd) (\<lambda>i. i \<in> set ts) ops) (\<lambda>ops.
           bindE (foldE (fragmentDeletions (refRepo cd)) ts ops) (\<lambda>ops. bindE (storeBatch (refRepo cd) ops) (\<lambda>_. ret ts))))"
    if "list_all isDel ops" for ts ops
    by (rule addsNone_seq [OF addsNone_loops(1) [OF that]], rule addsNone_seq [OF addsNone_fold [OF addsNone_loops(2)]])
      (auto intro!: addsNone_bind link_intros linkless_writes simp: list_all_iff unlinking_def)
  then have "linkless (bindE (foldE (ownText cd u) kvs ([], [])) (\<lambda>(ts, ops). if ts = [] then ret []
      else bindE (roundDeletions (refRepo cd) (\<lambda>i. i \<in> set ts) ops) (\<lambda>ops.
           bindE (foldE (fragmentDeletions (refRepo cd)) ts ops) (\<lambda>ops. bindE (storeBatch (refRepo cd) ops) (\<lambda>_. ret ts)))))" for kvs
    by (intro addsNone_seq [OF collect]) (auto intro!: link_intros)
  then show ?thesis unfolding DeleteUserTexts_def ownText_def mkRepo_simps by (rule addsNone_bind [OF linkless_reads(2)])
qed

lemma linkless_DeleteUserFragments: "linkless (DeleteUserFragments (refRepo cd) u)"
proof -
  have votes: "addsNone (list_all isDel) (foldE (fragmentVoteOps (refRepo cd) x) kvs ops)" if "list_all isDel ops" for x kvs ops
    by (rule addsNone_fold [where P = "list_all isDel", OF _ that])
      (auto simp: fragmentVoteOps_def Let_def intro!: addsNone_bind link_intros addsNone_ret split: option.split)
  have "addsNone (list_all isDel) (foldE (\<lambda>(k, v) ops.
       bindE (orRaise ErrDecode (decFragment cd v)) (\<lambda>fragment.
       if fragment_authorID fragment \<noteq> u then ret ops
       else bindE (storeScan (refRepo cd) (votePrefix (fragment_id fragment))) (\<lambda>votes.
            foldE (fragmentVoteOps (refRepo cd) fragment) votes
              (ops @ [DelOp (fragmentKey (fragment_id fragment)),
                      DelOp (fragmentIndexKey (fragment_textID fragment) (fragment_slotID fragment)
                              (fragment_id fragment))])))) kvs [])" for kvs
    by (rule addsNone_fold) (auto intro!: addsNone_bind link_intros addsNone_ret votes)
  then have "linkless (bindE (foldE (\<lambda>(k, v) ops.
       bindE (orRaise ErrDecode (decFragment cd v)) (\<lambda>fragment.
       if fragment_authorID fragment \<noteq> u then ret ops
       else bindE (storeScan (refRepo cd) (votePrefix (fragment_id fragment))) (\<lambda>votes.
            foldE (fragmentVoteOps (refRepo cd) fragment) votes
              (ops @ [DelOp (fragmentKey (fragment_id fragment)),
                      DelOp (fragmentIndexKey (fragment_textID fragment) (fragment_slotID fragment)
                              (fragment_id fragment))])))) kvs []) (batchUnlessEmpty (refRepo cd)))" for kvs
    by (rule addsNone_seq) (auto intro!: linkless_writes simp: list_all_iff unlinking_def)
  then show ?thesis unfolding DeleteUserFragments_def mkRepo_simps by (rule addsNone_bind [OF linkless_reads(2)])
qed

section \<open>The order of the versions\<close>

text \<open>\<open>age\<close> is such an order: a text comes after its predecessor and before its successor.\<close>

definition ranked :: "'v codec \<Rightarrow> (string \<Rightarrow> 'v option) \<Rightarrow> (string \<Rightarrow> 'v option) \<Rightarrow> (string \<Rightarrow> nat) \<Rightarrow> bool" where
  "ranked cd T S age \<longleftrightarrow>
     (\<forall>t v x. T t = Some v \<longrightarrow> decText cd v = Some x \<longrightarrow> text_previousTextID x \<noteq> [] \<longrightarrow> age (text_previousTextID x) < age t)
   \<and> (\<forall>t v. S t = Some v \<longrightarrow> age t < age (decRaw cd v))"

definition linkFree :: "'v codec \<Rightarrow> (string \<Rightarrow> 'v option) \<Rightarrow> (string \<Rightarrow> 'v option) \<Rightarrow> string \<Rightarrow> bool" where
  "linkFree cd T S i \<longleftrightarrow> S i = None
   \<and> (\<forall>t v x. T t = Some v \<longrightarrow> decText cd v = Some x \<longrightarrow> text_previousTextID x \<noteq> [] \<longrightarrow> text_previousTextID x \<noteq> i)
   \<and> (\<forall>t v. S t = Some v \<longrightarrow> decRaw cd v \<noteq> i)"

definition linked :: "'v codec \<Rightarrow> 'v kvs world \<Rightarrow> bool" where
  "linked cd w \<longleftrightarrow> (\<exists>age. ranked cd (fam ''text'' (db w)) (fam ''supersededby'' (db w)) age)
     \<and> (\<forall>i \<in> set (ids w). linkFree cd (fam ''text'' (db w)) (fam ''supersededby'' (db w)) i)"

lemma map_le_Some: "f \<subseteq>\<^sub>m g \<Longrightarrow> f x = Some y \<Longrightarrow> g x = Some y"
  by (metis domI map_le_def)

lemma ranked_less: "ranked cd T S age \<Longrightarrow> T' \<subseteq>\<^sub>m T \<Longrightarrow> S' \<subseteq>\<^sub>m S \<Longrightarrow> ranked cd T' S' age"
  unfolding ranked_def using map_le_Some by metis

lemma linkFree_less: "linkFree cd T S i \<Longrightarrow> T' \<subseteq>\<^sub>m T \<Longrightarrow> S' \<subseteq>\<^sub>m S \<Longrightarrow> linkFree cd T' S' i"
  unfolding linkFree_def by (metis map_le_Some not_None_eq)

lemma linked_shrunk: "linked cd w \<Longrightarrow> shrunk w w' \<Longrightarrow> linked cd w'"
  unfolding linked_def shrunk_def by (auto dest: ranked_less linkFree_less)

text \<open>A new text, with or without a predecessor that it succeeds.\<close>

lemma ranked_child:
  assumes cd: "codecOk cd" and r: "ranked cd T S age" and i: "linkFree cd T S i" and p: "text_previousTextID x = p" "p \<noteq> i"
  shows "ranked cd (T(i \<mapsto> encText cd x)) (S(p \<mapsto> encRaw cd i)) (age(i := Suc (age p)))"
  using r i p unfolding ranked_def linkFree_def by (auto simp: codec_eqs [OF cd])

lemma ranked_root:
  assumes "codecOk cd" and "ranked cd T S age" and "text_previousTextID x = []"
  shows "ranked cd (T(i \<mapsto> encText cd x)) S age"
  using assms unfolding ranked_def by (auto simp: codec_eqs)

lemma linkFree_child:
  assumes "codecOk cd" and "linkFree cd T S j" and "j \<noteq> i" and "j \<noteq> p" and "text_previousTextID x = p"
  shows "linkFree cd (T(i \<mapsto> encText cd x)) (S(p \<mapsto> encRaw cd i)) j"
  using assms unfolding linkFree_def by (auto simp: codec_eqs)

lemma linkFree_root:
  assumes "codecOk cd" and "linkFree cd T S j" and "text_previousTextID x = []"
  shows "linkFree cd (T(i \<mapsto> encText cd x)) S j"
  using assms unfolding linkFree_def by (auto simp: codec_eqs)

text \<open>Every operation keeps the versions in order.\<close>

definition keepsLinked :: "'v codec \<Rightarrow> ('v kvs, 'a) act \<Rightarrow> bool" where
  "keepsLinked cd m \<longleftrightarrow> (\<forall>w. good cd w \<and> linked cd w \<longrightarrow> linked cd (snd (m w)))"

lemma wp_keepsLinked:
  assumes "\<And>w. good cd w \<Longrightarrow> linked cd w \<Longrightarrow> wp m (\<lambda>_. linked cd) (\<lambda>_. linked cd) w"
  shows "keepsLinked cd m"
  unfolding keepsLinked_def
proof (intro allI impI)
  fix w assume "good cd w \<and> linked cd w"
  then have "wp m (\<lambda>_. linked cd) (\<lambda>_. linked cd) w" using assms by blast
  then show "linked cd (snd (m w))" by (cases "m w") (auto simp: wp_def split: sum.splits)
qed

lemma keepsLinked_linkless: "linkless m \<Longrightarrow> keepsLinked cd m"
  unfolding addsNone_def
  by (rule wp_keepsLinked, rule wp_mono [where Q = "\<lambda>x w'. True \<and> shrunk _ w'" and E = "\<lambda>e. shrunk _"]) (auto dest: good_refInv intro: linked_shrunk)

lemma linked_pop: "linked cd w \<Longrightarrow> set is \<subseteq> set (ids w) \<Longrightarrow> linked cd (w\<lparr>ids := is, ticks := n\<rparr>)"
  by (auto simp: linked_def)

text \<open>The batch that stores a text under \<open>i\<close>, and notes it as successor of \<open>p\<close>, beside other kinds of
  records.\<close>

lemma fam_newText:
  assumes "list_all (\<lambda>y. space (opKey y) \<notin> {''text'', ''supersededby''}) ws"
  shows "fam ''text'' (foldl wopMap m (PutOp (textKey i) v # ws)) = (fam ''text'' m)(i \<mapsto> v)"
    and "fam ''supersededby'' (foldl wopMap m (PutOp (textKey i) v # ws)) = fam ''supersededby'' m"
  using fam_other [of "''text''" ws] fam_other [of "''supersededby''" ws] assms
  by (simp_all add: list_all_iff fam_simps)

lemma linked_newText:
  assumes cd: "codecOk cd" and good: "good cd w" and l: "linked cd w" and w: "ids w = i # j # rest"
    and x: "text_previousTextID x = []"
    and ws: "list_all (\<lambda>y. space (opKey y) \<notin> {''text'', ''supersededby''}) ws"
  shows "linked cd (wrote (PutOp (textKey i) (encText cd x) # ws) (w\<lparr>ids := rest, ticks := n\<rparr>))"
proof -
  have db: "db (wrote (PutOp (textKey i) (encText cd x) # ws) (w\<lparr>ids := rest, ticks := n\<rparr>))
      = foldl wopMap (db w) (PutOp (textKey i) (encText cd x) # ws)" using good_refInv [OF good] by (simp add: db_wrote)
  show ?thesis
    using l w unfolding linked_def db fam_newText [OF ws] by (auto intro!: ranked_root [OF cd _ x] linkFree_root [OF cd _ x])
qed

lemma keepsLinked_CreateText:
  assumes cd: "codecOk cd"
  shows "keepsLinked cd (CreateText (refRepo cd) title content u tags)"
proof (rule wp_keepsLinked)
  fix w assume good: "good cd w" and l: "linked cd w"
  show "wp (CreateText (refRepo cd) title content u tags) (\<lambda>_. linked cd) (\<lambda>_. linked cd) w"
  proof (cases "\<exists>i j rest. ids w = i # j # rest")
    case False
    then consider "ids w = []" | i where "ids w = [i]" by (metis neq_Nil_conv)
    then show ?thesis using l by cases (auto simp: CreateText_def Let_def wp_simps linked_def)
  next
    case True
    then obtain i j rest where w: "ids w = i # j # rest" by blast
    then show ?thesis
      by (auto simp: CreateText_def Let_def wp_simps roundWrites_def list_all_iff intro!: linked_newText [OF cd good l w, simplified])
  qed
qed

lemma fam_successor:
  fixes ws :: "'v wop list" and v v' v'' :: 'v and i t :: string
  assumes "list_all (\<lambda>y. space (opKey y) \<notin> {''text'', ''supersededby''}) ws"
    and "space k \<notin> {''text'', ''supersededby''}" "space k' \<notin> {''text'', ''supersededby''}"
  defines "ops \<equiv> [PutOp (textKey i) v, PutOp k v', DelOp k', PutOp (supersededByKey t) v''] @ ws"
  shows "fam ''text'' (foldl wopMap m ops) = (fam ''text'' m)(i \<mapsto> v)"
    and "fam ''supersededby'' (foldl wopMap m ops) = (fam ''supersededby'' m)(t \<mapsto> v'')"
proof -
  have sup: "fam p (m(supersededByKey t := y)) = (if p = ''supersededby'' then (fam p m)(t := y) else fam p m)" if "plainID p" for p m and y :: "'v option"
    using that unfolding key_forms by (simp add: fam_upd)
  have "fam p (foldl wopMap m ops) = fam p (foldl wopMap m [PutOp (textKey i) v, PutOp k v', DelOp k', PutOp (supersededByKey t) v''])"
    if "p \<in> {''text'', ''supersededby''}" for p
    unfolding ops_def by (rule fam_append_other) (use that assms(1) in \<open>auto simp: list_all_iff\<close>)
  then show "fam ''text'' (foldl wopMap m ops) = (fam ''text'' m)(i \<mapsto> v)"
    and "fam ''supersededby'' (foldl wopMap m ops) = (fam ''supersededby'' m)(t \<mapsto> v'')"
    using assms(2,3) by (simp_all add: fam_simps fam_upd_other sup)
qed

lemma linked_successor:
  assumes cd: "codecOk cd" and good: "good cd w" and l: "linked cd w" and w: "ids w = i # j # rest"
    and t: "db w (textKey t) \<noteq> None" and x: "text_previousTextID x = t" "text_id x = i"
    and subs: "\<forall>kv \<in> set subs. space (fst kv) = ''subscription''"
  shows "linked cd (wrote (closeOps cd t x r (roundWrites cd nx) now subs) (w\<lparr>ids := rest\<rparr>))" (is "linked cd ?w")
proof -
  define ws where "ws = roundWrites cd nx
     @ concat (map (\<lambda>tag. [DelOp (tagIndexKey tag t), PutOp (tagIndexKey tag i) (encRaw cd i)]) (text_tags x))
     @ concat (map (\<lambda>(k, v). migrateOps cd t i now k) subs)"
  have "list_all (\<lambda>y. space (opKey y) \<notin> {''text'', ''supersededby''}) ws"
    using subs by (fastforce simp: ws_def roundWrites_def list_all_iff migrateOps_def Let_def)
  note fams = fam_successor [OF this, of "roundKey (round_id r)" "currentRoundKey t" "db w" i "encText cd x" "encRound cd r" t "encRaw cd i"]
  have ops: "closeOps cd t x r (roundWrites cd nx) now subs = [PutOp (textKey i) (encText cd x), PutOp (roundKey (round_id r)) (encRound cd r),
      DelOp (currentRoundKey t), PutOp (supersededByKey t) (encRaw cd i)] @ ws" by (simp add: closeOps_def ws_def x)
  have db: "db ?w = foldl wopMap (db w) (closeOps cd t x r (roundWrites cd nx) now subs)" using good_refInv [OF good] by (simp add: db_wrote)
  have fams: "fam ''text'' (db ?w) = (fam ''text'' (db w))(i \<mapsto> encText cd x)"
    "fam ''supersededby'' (db ?w) = (fam ''supersededby'' (db w))(t \<mapsto> encRaw cd i)" unfolding db unfolding ops by (rule fams; simp)+
  have "freshID cd (db w) k" if "k \<in> set (ids w)" for k using good that by (simp add: good_def)
  then have apart: "k \<noteq> t" if "k \<in> set (ids w)" for k using that t by (auto simp: freshID_def unused_def fam_get)
  have i: "linkFree cd (fam ''text'' (db w)) (fam ''supersededby'' (db w)) i" "t \<noteq> i" using l apart w by (auto simp: linked_def)
  have rest: "k \<noteq> i \<and> k \<noteq> t" if "k \<in> set rest" for k using that apart w good by (auto simp: good_def)
  have "\<exists>age. ranked cd (fam ''text'' (db ?w)) (fam ''supersededby'' (db ?w)) age"
    using l ranked_child [OF cd _ i(1) x(1) i(2)] unfolding linked_def fams by blast
  moreover have "linkFree cd (fam ''text'' (db ?w)) (fam ''supersededby'' (db ?w)) k" if "k \<in> set rest" for k
    using l w that rest [OF that] linkFree_child [OF cd _ _ _ x(1), of _ _ k i] unfolding linked_def fams by simp
  ultimately show ?thesis by (simp add: linked_def del: wrote_simps)
qed

lemma keepsLinked_CloseRound:
  assumes cd: "codecOk cd"
  shows "keepsLinked cd (CloseRound (refRepo cd) t)"
proof (rule wp_keepsLinked)
  fix w assume good: "good cd w" and l: "linked cd w"
  have subs: "\<forall>kv \<in> set (scanned (subscriptionPrefix t) w). space (fst kv) = ''subscription''"
    unfolding subscriptionPrefix_form by (metis plain_spaces(8) prod.collapse space_scanned)
  have read: "wp (getText (refRepo cd) t) Q (\<lambda>_. linked cd) w"
    if "\<And>tx. db w (textKey t) \<noteq> None \<Longrightarrow> text_id tx = t \<Longrightarrow> Q tx w" for Q
  proof (cases "db w (textKey t)")
    case (Some v)
    obtain tx where "decText cd v = Some tx" "text_id tx = t" by (rule good_textAt [OF good Some])
    then show ?thesis using that [of tx] Some by (simp add: getText_def wp_simps)
  qed (simp add: getText_def wp_simps l)
  have closed: "linked cd (wrote (closeOps cd (text_id tx) \<lparr>text_id = i, text_title = text_title tx, text_content = content,
        text_finalized = True, text_createdAt = n1, text_previousTextID = text_id tx, text_tags = text_tags tx,
        text_createdBy = text_createdBy tx\<rparr> (r\<lparr>round_status := RoundStatusClosed, round_closedAt := Some n2\<rparr>)
        (roundWrites cd (newRound j i (round_number r + 1) n3)) n2 (scanned (subscriptionPrefix (text_id tx)) w)) (w\<lparr>ids := rest\<rparr>))"
    if "ids w = i # j # rest" "db w (textKey (text_id tx)) \<noteq> None" "t = text_id tx" for i j rest tx content n1 n2 n3 r
    by (rule linked_successor [OF cd good l that(1,2) _ _ subs [unfolded that(3)]]) (simp_all add: that(3))
  have popped: "linked cd (w\<lparr>ids := rest\<rparr>)" if "ids w = i # rest" for i rest using l that by (auto simp: linked_def)
  have ticked: "linked cd (w\<lparr>ticks := n\<rparr>) = linked cd w" for n w by (simp add: linked_def)
  show "wp (CloseRound (refRepo cd) t) (\<lambda>_. linked cd) (\<lambda>_. linked cd) w"
    unfolding CloseRound_def wp_bind wp_catch
    by (auto intro!: wp_readOnlyI [OF readOnly_CurrentRound] read wp_readOnlyI [OF readOnly_resolveSlots]
        closed [unfolded closeOps_def, simplified]
      simp: wp_simps l popped ticked Let_def split: list.splits option.splits)
qed

lemma keepsLinked_answering: "keepsLinked cd m \<Longrightarrow> keepsLinked cd (answering c m)"
  by (auto simp: keepsLinked_def answering_def bindE_def ret_def split: sum.split prod.split)

lemma keepsLinked_serve:
  assumes "codecOk cd"
  shows "keepsLinked cd (serve n lower (refRepo cd) q)"
  using assms
  by (cases q)
    (simp_all add: keepsLinked_answering keepsLinked_CreateText keepsLinked_CloseRound keepsLinked_linkless addsNone_read read_intros
      linkless_votes linkless_ProposeEdit linkless_DeleteText linkless_DeleteUserTexts linkless_DeleteUserFragments)

lemma linked_serveAll:
  assumes "codecOk cd" and "list_all requestOk qs" and "good cd w" and "linked cd w"
  shows "linked cd (snd (serveAll n lower (refRepo cd) qs w))"
  using assms(2-4)
proof (induction qs arbitrary: w)
  case (Cons q qs)
  obtain r w1 where q: "serve n lower (refRepo cd) q w = (r, w1)" by fastforce
  have "good cd w1" using good_step [OF keepsGood_serve [OF assms(1)] Cons.prems(2) q] Cons.prems(1) by simp
  moreover have "linked cd w1"
    using keepsLinked_serve [OF assms(1), of n lower q] Cons.prems(2,3) q unfolding keepsLinked_def by (metis snd_conv)
  ultimately show ?case using Cons.IH [of w1] Cons.prems(1) q by (auto split: prod.splits)
qed simp

lemma reachable_linked:
  assumes "codecOk cd" and "reachable cd w"
  shows "linked cd w"
proof -
  have "linked cd (freshWorld is c :: 'a kvs world)" for "is" c
    by (simp add: linked_def freshWorld_def db_def fam_def ranked_def linkFree_def)
  then show ?thesis using assms linked_serveAll good_freshWorld unfolding reachable_def by blast
qed

section \<open>Walking the versions\<close>

lemma getText_run:
  assumes "good cd w"
  shows "getText (refRepo cd) t w = (case textOf cd w t of None \<Rightarrow> Inl ErrNotFound | Some x \<Rightarrow> Inr x, w)"
proof (cases "db w (textKey t)")
  case None
  then show ?thesis by (simp add: getText_def bindE_def storeGet_def refOps_def raise_def db_def textOf_def)
next
  case (Some v)
  obtain x where "decText cd v = Some x" by (rule good_textAt [OF assms Some])
  then show ?thesis using Some by (simp add: getText_def bindE_def storeGet_def refOps_def ret_def orRaise_def db_def textOf_def)
qed

lemma textOf_id: "good cd w \<Longrightarrow> textOf cd w t = Some x \<Longrightarrow> text_id x = t"
  by (auto simp: textOf_def bind_eq_Some_conv elim!: good_textAt)

text \<open>Two texts in succession, and the texts at which the walks stop.\<close>

definition succeeds :: "'v codec \<Rightarrow> 'v kvs world \<Rightarrow> Text \<Rightarrow> Text \<Rightarrow> bool" where
  "succeeds cd w a b \<longleftrightarrow> text_previousTextID b = text_id a \<and> text_id a \<noteq> []
     \<or> map_option (decRaw cd) (db w (supersededByKey (text_id a))) = Some (text_id b)"

definition isRoot :: "'v codec \<Rightarrow> 'v kvs world \<Rightarrow> Text \<Rightarrow> bool" where
  "isRoot cd w x \<longleftrightarrow> text_previousTextID x = [] \<or> textOf cd w (text_previousTextID x) = None"

definition isTip :: "'v codec \<Rightarrow> 'v kvs world \<Rightarrow> Text \<Rightarrow> bool" where
  "isTip cd w x \<longleftrightarrow> (case db w (supersededByKey (text_id x)) of None \<Rightarrow> True | Some v \<Rightarrow> textOf cd w (decRaw cd v) = None)"

definition versions :: "'v codec \<Rightarrow> 'v kvs world \<Rightarrow> Text list \<Rightarrow> bool" where
  "versions cd w xs \<longleftrightarrow> successively (succeeds cd w) xs \<and> (\<forall>x \<in> set xs. textOf cd w (text_id x) = Some x)"

definition aged :: "'v codec \<Rightarrow> 'v kvs world \<Rightarrow> (string \<Rightarrow> nat) \<Rightarrow> bool" where
  "aged cd w age \<longleftrightarrow> ranked cd (fam ''text'' (db w)) (fam ''supersededby'' (db w)) age"

lemma aged_previous:
  "aged cd w age \<Longrightarrow> textOf cd w t = Some x \<Longrightarrow> text_previousTextID x \<noteq> [] \<Longrightarrow> age (text_previousTextID x) < age t"
  by (auto simp: aged_def ranked_def textOf_def fam_get bind_eq_Some_conv)

lemma aged_next: "aged cd w age \<Longrightarrow> db w (supersededByKey t) = Some v \<Longrightarrow> age t < age (decRaw cd v)"
  by (simp add: aged_def ranked_def fam_def key_forms)

lemma aged_succeeds:
  assumes "aged cd w age" and "textOf cd w (text_id b) = Some b" and "succeeds cd w a b"
  shows "age (text_id a) < age (text_id b)"
  using assms(3) aged_previous [OF assms(1,2)] aged_next [OF assms(1), of "text_id a"]
  by (auto simp: succeeds_def)

definition stored :: "'v codec \<Rightarrow> 'v kvs world \<Rightarrow> string set" where
  "stored cd w = {t. textOf cd w t \<noteq> None}"

lemma finite_stored: "finite (stored cd w)"
proof (rule finite_subset)
  show "stored cd w \<subseteq> {t. textKey t \<in> fst ` set (st w)}"
    by (auto simp: stored_def textOf_def db_def bind_eq_Some_conv dest: map_of_SomeD intro!: rev_image_eqI)
  show "finite {t. textKey t \<in> fst ` set (st w)}"
    by (rule finite_vimageI [of "fst ` set (st w)" textKey, unfolded vimage_def]) (auto simp: inj_def key_defs)
qed

lemma card_stored: "card (stored cd w) \<le> length (st w)"
proof -
  have "card (stored cd w) = card (textKey ` stored cd w)" by (rule card_image [symmetric]) (auto simp: inj_on_def key_defs)
  also have "\<dots> \<le> card (set (map fst (st w)))"
    by (rule card_mono) (auto simp: stored_def textOf_def db_def bind_eq_Some_conv dest: map_of_SomeD intro!: rev_image_eqI)
  also have "\<dots> \<le> length (st w)" using card_length [of "map fst (st w)"] by simp
  finally show ?thesis .
qed

lemma versions_append:
  "versions cd w (xs @ [x]) \<Longrightarrow> versions cd w (x # ys) \<Longrightarrow> versions cd w (xs @ x # ys)"
  by (auto simp: versions_def successively_append_iff)

lemma versions_distinct:
  assumes "aged cd w age" and "versions cd w xs"
  shows "distinct (map text_id xs)"
proof -
  have "sorted_wrt (\<lambda>a b. age (text_id a) < age (text_id b)) xs"
    using assms(2) unfolding versions_def
    by (subst successively_conv_sorted_wrt [symmetric])
      (auto simp: transp_def elim!: successively_mono intro: aged_succeeds [OF assms(1)])
  then show ?thesis by (induction xs) auto
qed

lemma card_younger: "t \<in> stored cd w \<Longrightarrow> P t \<Longrightarrow> \<not> Q t \<Longrightarrow> (\<And>s. Q s \<Longrightarrow> P s) \<Longrightarrow>
    card {s \<in> stored cd w. Q s} < card {s \<in> stored cd w. P s}"
  by (rule psubset_card_mono) (auto simp: finite_stored)

lemma chainBack_walk:
  assumes good: "good cd w" and age: "aged cd w age"
  shows "textOf cd w (text_id x) = Some x \<Longrightarrow> card {t \<in> stored cd w. age t < age (text_id x)} < n \<Longrightarrow>
    \<exists>xs. chainBack n (refRepo cd) x acc w = (Inr (xs @ acc), w) \<and> versions cd w (xs @ [x]) \<and> isRoot cd w (hd (xs @ [x]))"
proof (induction n arbitrary: x acc)
  case (Suc n)
  let ?p = "text_previousTextID x"
  have single: "versions cd w [x]" using Suc.prems(1) by (simp add: versions_def)
  show ?case
  proof (cases "?p = []")
    case True
    then show ?thesis using single by (intro exI [of _ "[]"]) (simp add: isRoot_def ret_def)
  next
    case False
    show ?thesis
    proof (cases "textOf cd w ?p")
      case None
      then have "chainBack (Suc n) (refRepo cd) x acc w = (Inr acc, w)"
        using False by (simp add: bindE_def catchE_def getText_run [OF good] ret_def)
      then show ?thesis using single None by (intro exI [of _ "[]"]) (simp add: isRoot_def)
    next
      case (Some y)
      have y: "text_id y = ?p" using textOf_id [OF good Some] .
      have less: "age (text_id y) < age (text_id x)" using aged_previous [OF age Suc.prems(1) False] y by simp
      have "card {t \<in> stored cd w. age t < age (text_id y)} < card {t \<in> stored cd w. age t < age (text_id x)}"
        by (rule card_younger [of "text_id y"]) (use Some y less in \<open>auto simp: stored_def\<close>)
      then obtain ys where ys: "chainBack n (refRepo cd) y (y # acc) w = (Inr (ys @ y # acc), w)" "versions cd w (ys @ [y])"
          "isRoot cd w (hd (ys @ [y]))" using Suc.IH [of y "y # acc"] Suc.prems(2) Some y by auto
      have "chainBack (Suc n) (refRepo cd) x acc w = (Inr ((ys @ [y]) @ acc), w)"
        using False Some ys(1) by (simp add: bindE_def catchE_def getText_run [OF good] ret_def)
      moreover have "versions cd w [y, x]"
        using Suc.prems(1) Some y False by (auto simp: versions_def succeeds_def)
      ultimately show ?thesis using ys(2,3) versions_append [OF ys(2), of "[x]"] by (intro exI [of _ "ys @ [y]"]) (cases ys; simp)
    qed
  qed
qed simp

lemma chainForward_walk:
  assumes good: "good cd w" and age: "aged cd w age"
  shows "textOf cd w (text_id x) = Some x \<Longrightarrow> card {t \<in> stored cd w. age (text_id x) < age t} < n \<Longrightarrow>
    \<exists>ys. chainForward n (refRepo cd) x acc w = (Inr (acc @ ys), w) \<and> versions cd w (x # ys) \<and> isTip cd w (last (x # ys))"
proof (induction n arbitrary: x acc)
  case (Suc n)
  have single: "versions cd w [x]" using Suc.prems(1) by (simp add: versions_def)
  have get: "storeGet (refRepo cd) k w = (Inr (db w k), w)" for k by (simp add: storeGet_def refOps_def db_def)
  show ?case
  proof (cases "db w (supersededByKey (text_id x))")
    case None
    then show ?thesis using single by (intro exI [of _ "[]"]) (simp add: isTip_def ret_def bindE_def get)
  next
    case (Some v)
    show ?thesis
    proof (cases "textOf cd w (decRaw cd v)")
      case None
      then have "chainForward (Suc n) (refRepo cd) x acc w = (Inr acc, w)"
        using Some by (simp add: bindE_def catchE_def get getText_run [OF good] ret_def)
      then show ?thesis using single Some None by (intro exI [of _ "[]"]) (simp add: isTip_def)
    next
      case s: (Some y)
      have y: "text_id y = decRaw cd v" using textOf_id [OF good s] .
      have less: "age (text_id x) < age (text_id y)" using aged_next [OF age Some] y by simp
      have "card {t \<in> stored cd w. age (text_id y) < age t} < card {t \<in> stored cd w. age (text_id x) < age t}"
        by (rule card_younger [of "text_id y"]) (use s y less in \<open>auto simp: stored_def\<close>)
      then obtain ys where ys: "chainForward n (refRepo cd) y (acc @ [y]) w = (Inr ((acc @ [y]) @ ys), w)" "versions cd w (y # ys)"
          "isTip cd w (last (y # ys))" using Suc.IH [of y "acc @ [y]"] Suc.prems(2) s y by auto
      have "chainForward (Suc n) (refRepo cd) x acc w = (Inr (acc @ y # ys), w)"
        using Some s ys(1) by (simp add: bindE_def catchE_def get getText_run [OF good] ret_def)
      moreover have "versions cd w [x, y]"
        using Suc.prems(1) Some s y by (auto simp: versions_def succeeds_def)
      ultimately show ?thesis using ys(2,3) versions_append [of cd w "[x]" y ys] by (intro exI [of _ "y # ys"]) simp
    qed
  qed
qed simp

lemma TextChain_walk:
  assumes good: "good cd w" and "linked cd w" and n: "card (stored cd w) < n"
  shows "case textOf cd w t of None \<Rightarrow> TextChain n (refRepo cd) t w = (Inl ErrNotFound, w)
    | Some x \<Rightarrow> \<exists>vs. TextChain n (refRepo cd) t w = (Inr vs, w) \<and> x \<in> set vs \<and> versions cd w vs
        \<and> distinct (map text_id vs) \<and> isRoot cd w (hd vs) \<and> isTip cd w (last vs)"
proof (cases "textOf cd w t")
  case None
  then show ?thesis using getText_run [OF good] by (simp add: TextChain_def bindE_def)
next
  case (Some x)
  obtain age where age: "aged cd w age" using assms(2) by (auto simp: linked_def aged_def)
  have x: "textOf cd w (text_id x) = Some x" using textOf_id [OF good Some] Some by simp
  have few: "card {t \<in> stored cd w. P t} < n" for P using card_mono [OF finite_stored, of "{t \<in> stored cd w. P t}" cd w] n by simp
  obtain xs where xs: "chainBack n (refRepo cd) x [x] w = (Inr (xs @ [x]), w)" "versions cd w (xs @ [x])" "isRoot cd w (hd (xs @ [x]))"
    using chainBack_walk [OF good age x few] by blast
  obtain ys where ys: "chainForward n (refRepo cd) x (xs @ [x]) w = (Inr ((xs @ [x]) @ ys), w)" "versions cd w (x # ys)"
      "isTip cd w (last (x # ys))" using chainForward_walk [OF good age x few] by blast
  have "TextChain n (refRepo cd) t w = (Inr (xs @ x # ys), w)"
    using Some xs(1) ys(1) by (simp add: TextChain_def bindE_def getText_run [OF good])
  moreover have "versions cd w (xs @ x # ys)" by (rule versions_append [OF xs(2) ys(2)])
  moreover have "isRoot cd w (hd (xs @ x # ys))" using xs(3) by (cases xs) auto
  moreover have "distinct (map text_id (xs @ x # ys))" by (rule versions_distinct [OF age versions_append [OF xs(2) ys(2)]])
  ultimately show ?thesis unfolding Some option.case using ys(3) by (intro exI [of _ "xs @ x # ys"] conjI) simp_all
qed

text \<open>C7: The chain of the versions of a text ends, whatever was created, closed and deleted before (by a
  history that deletes no votes of a user whose identifier has a slash): with more steps than there are texts, \<open>TextChain\<close> answers the whole chain, each version once and in
  succession, from one without a stored predecessor to one without a stored successor, or that the
  text is not there. So the fuel of the model is no bound on the code.\<close>

theorem chain_ends:
  assumes "codecOk cd" and "reachable cd w" and "card (stored cd w) < n"
  shows "case textOf cd w t of None \<Rightarrow> TextChain n (refRepo cd) t w = (Inl ErrNotFound, w)
    | Some x \<Rightarrow> \<exists>vs. TextChain n (refRepo cd) t w = (Inr vs, w) \<and> x \<in> set vs \<and> versions cd w vs
        \<and> distinct (map text_id vs) \<and> isRoot cd w (hd vs) \<and> isTip cd w (last vs)"
  by (rule TextChain_walk [OF reachable_good [OF assms(1,2)] reachable_linked [OF assms(1,2)] assms(3)])

definition twoVersions :: "payload kvs world" where
  "twoVersions = snd (serveAll 5 asciiLower (refRepo payloadCodec)
     [QCreateText ''T'' ''hello'' ''u'' [], QProposeEdit ''a'' 0 2 ''J'' ''v'', QCloseRound ''a''] demoStart)"

lemma twoVersions_reachable: "reachable payloadCodec twoVersions"
proof -
  let ?qs = "[QCreateText ''T'' ''hello'' ''u'' [], QProposeEdit ''a'' 0 2 ''J'' ''v'', QCloseRound ''a'']"
  have "distinct [''a'', ''b'', ''c'', ''d'', ''e'', ''f'', ''g'', ''h'']" by simp
  moreover have "list_all plainID [''a'', ''b'', ''c'', ''d'', ''e'', ''f'', ''g'', ''h'']" by (simp add: plainID_def)
  moreover have "list_all requestOk ?qs" by (simp add: requestOk_def)
  ultimately show ?thesis unfolding reachable_def twoVersions_def demoStart_def by blast
qed

theorem chain_ends_witness:
  "\<exists>vs. TextChain 30 (refRepo payloadCodec) ''a'' twoVersions = (Inr vs, twoVersions) \<and> length vs = 2
    \<and> distinct (map text_id vs) \<and> isTip payloadCodec twoVersions (last vs)"
proof -
  have "length (st twoVersions) < 30" by code_simp
  then have n: "card (stored payloadCodec twoVersions) < 30" using card_stored [of payloadCodec twoVersions] by simp
  have "textOf payloadCodec twoVersions ''a'' \<noteq> None" by code_simp
  moreover have "case fst (TextChain 30 (refRepo payloadCodec) ''a'' twoVersions) of Inl e \<Rightarrow> False | Inr vs \<Rightarrow> length vs = 2" by code_simp
  ultimately show ?thesis
    using chain_ends [OF payloadCodec_ok twoVersions_reachable n, of "''a''"] by (auto split: option.splits)
qed

end
