(* ===== verification/Responses.thy ===== *)
theory Responses
  imports Lineage Server
begin

text \<open>
  The answers of the HTTP server of queel: every request is answered, by a response whose status and
  body agree, and leaves a database in order. What the handlers call either succeeds or stops with an
  error value; the panics of the model are never reached.
\<close>

section \<open>Operations that do not crash\<close>

definition calm :: "('s, 'a) act \<Rightarrow> bool" where
  "calm m \<longleftrightarrow> (\<forall>w e w'. m w = (Inl e, w') \<longrightarrow> \<not> crash e)"

named_theorems calm_intros \<open>rules that show an operation not to crash\<close>

lemma calm_ret [calm_intros]: "calm (ret x)"
  by (simp add: calm_def ret_def)

lemma calm_raise [calm_intros]: "\<not> crash e \<Longrightarrow> calm (raise e)"
  by (simp add: calm_def raise_def)

lemma calm_bind [calm_intros]: "calm m \<Longrightarrow> (\<And>x. calm (f x)) \<Longrightarrow> calm (bindE m f)"
  by (auto simp: calm_def bindE_def split: sum.splits prod.splits)

lemma calm_catch [calm_intros]: "calm m \<Longrightarrow> (\<And>e. \<not> crash e \<Longrightarrow> calm (h e)) \<Longrightarrow> calm (catchE m h)"
  unfolding calm_def catchE_def by (auto split: sum.splits prod.splits) blast

lemma calm_fold [calm_intros]: "(\<And>x b. calm (f x b)) \<Longrightarrow> calm (foldE f xs b)"
  by (induction xs arbitrary: b) (auto intro: calm_intros)

lemma calm_cases [calm_intros]:
  "calm a \<Longrightarrow> calm b \<Longrightarrow> calm (if c then a else b)"
  "calm a \<Longrightarrow> (\<And>y. calm (g y)) \<Longrightarrow> calm (case x of None \<Rightarrow> a | Some y \<Rightarrow> g y)"
  "(\<And>y z. calm (h y z)) \<Longrightarrow> calm (case q of (y, z) \<Rightarrow> h y z)"
  "(\<And>y z. calm (h' y z c')) \<Longrightarrow> calm ((case q of (y, z) \<Rightarrow> h' y z) c')"
  "calm a \<Longrightarrow> (\<And>y ys. calm (l y ys)) \<Longrightarrow> calm (case ls of [] \<Rightarrow> a | y # ys \<Rightarrow> l y ys)"
  by (simp_all split: option.split prod.split list.split)

lemma crash_simps [simp]:
  "\<not> crash ErrNotFound" "\<not> crash ErrDecode" "\<not> crash ErrAtoi" "\<not> crash ErrRand" "\<not> crash ErrNoOpenRound" "\<not> crash ErrEmptyRound"
  "\<not> crash (ErrOverlappingSlot sl)" "\<not> crash (ErrTextSuperseded t by)" "\<not> crash (ErrInvalidRange a b c)"
  by (simp_all add: crash_def)

lemma calm_orRaise [calm_intros]: "\<not> crash e \<Longrightarrow> calm (orRaise e r)"
  by (cases r) (auto simp: orRaise_def intro: calm_intros)

lemma calm_prims [calm_intros]:
  "calm newID" "calm timeNow" "calm (storeGet (refRepo cd) k)" "calm (storeScan (refRepo cd) p)"
  "calm (storeBatch (refRepo cd) ws)" "calm (storePut (refRepo cd) k v)"
  by (auto simp: calm_def newID_def timeNow_def storeGet_def storeScan_def storeBatch_def storePut_def refOps_def split: list.splits)

lemma calm_reads [calm_intros]:
  "calm (getText (refRepo cd) t)" "calm (getRound (refRepo cd) i)" "calm (CurrentRound (refRepo cd) t)" "calm (IsSuperseded (refRepo cd) t)"
  "calm (RoundCount (refRepo cd) t)" "calm (getFragment (refRepo cd) f)" "calm (Fragments (refRepo cd) t s)" "calm (VoteCount (refRepo cd) f)"
  "calm (IsSubscribed (refRepo cd) u t)"
  unfolding getText_def getRound_def CurrentRound_def IsSuperseded_def RoundCount_def getFragment_def Fragments_def VoteCount_def IsSubscribed_def
  by (intro calm_intros crash_simps)+

lemma calm_lists [calm_intros]:
  "calm (RecentTexts (refRepo cd) n k)" "calm (TextWithSlots (refRepo cd) t)" "calm (UserVotes (refRepo cd) t u)"
  "calm (RoundsForText (refRepo cd) t)" "calm (SubscriptionsForUser (refRepo cd) u)" "calm (WinningFragment (refRepo cd) t s)"
  "calm (resolveTag lower (refRepo cd) tag)" "calm (TextsByTags lower (refRepo cd) tags)" "calm (getTags (refRepo cd))"
  unfolding RecentTexts_def TextWithSlots_def UserVotes_def RoundsForText_def SubscriptionsForUser_def WinningFragment_def TextsByTags_def
    resolveTag_def getTags_def Let_def
  by (intro calm_intros crash_simps | simp)+

lemma calm_batch [calm_intros]: "calm (batchUnlessEmpty (refRepo cd) ops)"
  unfolding batchUnlessEmpty_def by (intro calm_intros)

lemma calm_deletions [calm_intros]:
  "calm (roundDeletions (refRepo cd) target ops)" "calm (fragmentDeletions (refRepo cd) t ops)" "calm (DeleteText (refRepo cd) t)"
  unfolding roundDeletions_def fragmentDeletions_def DeleteText_def Let_def by (intro calm_intros crash_simps | simp)+

lemma calm_resolveSlot [calm_intros]: "calm (resolveSlot ss a b)"
  by (induction ss) (auto intro!: calm_intros)

lemma calm_writes [calm_intros]:
  "calm (openRoundOps cd t n)" "calm (CreateText (refRepo cd) title content u tags)" "calm (openRound (refRepo cd) t)"
  "calm (ScheduleRoundClose (refRepo cd) t at u)" "calm (ProposeEdit (refRepo cd) t a b c u)" "calm (CastVote (refRepo cd) f u)"
  "calm (Subscribe (refRepo cd) u t)" "calm (Unsubscribe (refRepo cd) u t)"
  unfolding openRoundOps_def CreateText_def openRound_def nextRoundNumber_def ScheduleRoundClose_def ProposeEdit_def seedSlot_def addFragment_def
    CastVote_def Subscribe_def Unsubscribe_def Let_def
  by (intro calm_intros crash_simps | simp)+

lemma calm_CloseRound:
  assumes "codecOk cd" and "good cd w" and "CloseRound (refRepo cd) t w = (Inl e, w')"
  shows "\<not> crash e"
  using wp_error [OF wp_CloseRound [OF assms(1,2)] assms(3)] by (auto simp: closeFails_def)

section \<open>Responses\<close>

text \<open>A response is data, nothing, or an error, as its status says.\<close>

definition errorStatus :: "int set" where
  "errorStatus = {400, 401, 403, 404, 405, 409, 500}"

definition responseOk :: "response \<Rightarrow> bool" where
  "responseOk resp \<longleftrightarrow> (case rs_body resp of
       BError e \<Rightarrow> rs_status resp \<in> errorStatus
     | BSuperseded e by \<Rightarrow> rs_status resp = 409
     | NoContent \<Rightarrow> rs_status resp = 204
     | BText t \<Rightarrow> rs_status resp \<in> {200, 201}
     | BFragment f \<Rightarrow> rs_status resp \<in> {200, 201}
     | _ \<Rightarrow> rs_status resp = 200)"

text \<open>A database in order: the invariant of the voting domain and the order of the versions.\<close>

definition inOrder :: "'v codec \<Rightarrow> 'v kvs world \<Rightarrow> bool" where
  "inOrder cd w \<longleftrightarrow> good cd w \<and> linked cd w"

definition answers :: "'v codec \<Rightarrow> 'v kvs world \<Rightarrow> ('v kvs, response) act \<Rightarrow> bool" where
  "answers cd w m \<longleftrightarrow> (\<exists>resp w'. m w = (Inr resp, w') \<and> responseOk resp \<and> inOrder cd w')"

text \<open>An operation that keeps the database in order and does not crash on it.\<close>

definition serves :: "'v codec \<Rightarrow> ('a \<Rightarrow> bool) \<Rightarrow> 'v kvs world \<Rightarrow> ('v kvs, 'a) act \<Rightarrow> bool" where
  "serves cd P w m \<longleftrightarrow> (case m w of (Inl e, w') \<Rightarrow> \<not> crash e \<and> inOrder cd w' | (Inr x, w') \<Rightarrow> P x \<and> inOrder cd w')"

lemma servesI:
  assumes "inOrder cd w" and "keepsGood cd m" and "keepsLinked cd m" and "\<And>e w'. m w = (Inl e, w') \<Longrightarrow> \<not> crash e"
  shows "serves cd (\<lambda>_. True) w m"
proof -
  obtain r w' where m: "m w = (r, w')" by fastforce
  have "good cd w'" using good_step [OF assms(2) _ m] assms(1) by (simp add: inOrder_def)
  moreover have "linked cd w'" using assms(1,3) m unfolding inOrder_def keepsLinked_def by (metis snd_conv)
  ultimately show ?thesis using assms(4) m by (auto simp: serves_def inOrder_def split: sum.split)
qed

lemma serves_read:
  assumes "inOrder cd w" and "readOnly m" and "\<And>e w'. m w = (Inl e, w') \<Longrightarrow> \<not> crash e"
  shows "serves cd (\<lambda>_. True) w m"
proof -
  obtain r where "m w = (r, w)" using assms(2) unfolding readOnly_def by (metis surjective_pairing)
  then show ?thesis using assms(1,3) by (auto simp: serves_def split: sum.split)
qed

named_theorems answer_intros \<open>rules for handlers that answer\<close>

lemma responseOk_error [simp]: "n \<in> errorStatus \<Longrightarrow> responseOk (writeError n m)"
  by (simp add: responseOk_def writeError_def writeJSON_def)

lemma responseOk_repo [simp]: "responseOk (writeRepositoryError e)"
  by (cases e) (simp_all add: writeRepositoryError_def errorStatus_def responseOk_def writeError_def writeJSON_def)

lemma answers_ret: "inOrder cd w \<Longrightarrow> responseOk resp \<Longrightarrow> answers cd w (ret resp)"
  by (simp add: answers_def ret_def)

lemma answers_json [answer_intros]:
  "inOrder cd w \<Longrightarrow> n \<in> errorStatus \<Longrightarrow> answers cd w (ret (writeError n e))"
  "inOrder cd w \<Longrightarrow> answers cd w (repoError e')"
  "inOrder cd w \<Longrightarrow> answers cd w badBody"
  "inOrder cd w \<Longrightarrow> answers cd w internalError"
  by (auto intro!: answers_ret simp: badBody_def internalError_def errorStatus_def)

lemma answers_attempt:
  assumes "serves cd P w m" and "\<And>e w'. inOrder cd w' \<Longrightarrow> answers cd w' (h e)" and "\<And>x w'. P x \<Longrightarrow> inOrder cd w' \<Longrightarrow> answers cd w' (k x)"
  shows "answers cd w (attempt m h k)"
proof -
  obtain r w' where m: "m w = (r, w')" by fastforce
  show ?thesis
  proof (cases r)
    case (Inl e)
    then show ?thesis using assms(1) assms(2) [of w' e] m by (simp add: serves_def answers_def attempt_def)
  next
    case (Inr x)
    then show ?thesis using assms(1) assms(3) [of x w'] m by (simp add: serves_def answers_def attempt_def)
  qed
qed

lemma inOrder_tick: "inOrder cd w \<Longrightarrow> inOrder cd (w\<lparr>ticks := n\<rparr>)"
  by (simp add: inOrder_def linked_def)

lemma answers_timeNow [answer_intros]:
  "inOrder cd w \<Longrightarrow> (\<And>now n. inOrder cd (w\<lparr>ticks := n\<rparr>) \<Longrightarrow> answers cd (w\<lparr>ticks := n\<rparr>) (f now)) \<Longrightarrow> answers cd w (bindE timeNow f)"
  using inOrder_tick [of cd w "ticks w + 1"] by (simp add: bindE_def timeNow_def answers_def)

lemma answers_checkAction [answer_intros]:
  assumes "inOrder cd w" and "\<And>n. inOrder cd (w\<lparr>ticks := n\<rparr>) \<Longrightarrow> answers cd (w\<lparr>ticks := n\<rparr>) k"
  shows "answers cd w (unlessRefused (checkAction L s a r) k)"
proof -
  have k: "answers cd w k" using assms(2) [of "ticks w"] assms(1) by simp
  have k': "answers cd (w\<lparr>ticks := Suc (ticks w)\<rparr>) k" using assms(2) [of "Suc (ticks w)"] inOrder_tick [OF assms(1)] by blast
  show ?thesis using k k' inOrder_tick [OF assms(1), of "Suc (ticks w)"] assms(1)
    by (auto simp: unlessRefused_def checkAction_def Let_def bindE_def timeNow_def ret_def answers_def errorStatus_def split: sum.split)
qed

lemma answers_checkSubscription [answer_intros]:
  assumes "inOrder cd w" and "answers cd w k"
  shows "answers cd w (unlessRefused (checkSubscription (refRepo cd) t u) k)"
proof -
  have "IsSubscribed (refRepo cd) u t w = (Inr (isSubscribed w u t), w)"
    by (simp add: IsSubscribed_def bindE_def ret_def storeGet_def refOps_def isSubscribed_def db_def)
  then show ?thesis using assms
    by (auto simp: unlessRefused_def checkSubscription_def bindE_def ret_def attempt_def answers_def errorStatus_def)
qed

section \<open>The handlers\<close>

lemma calmD: "calm m \<Longrightarrow> m w = (Inl e, w') \<Longrightarrow> \<not> crash e"
  unfolding calm_def by blast

lemmas write_facts = keepsGood_CreateText keepsGood_ScheduleRoundClose keepsGood_ProposeEdit keepsGood_CastVote keepsGood_CloseRound
  keepsGood_Subscribe keepsGood_Unsubscribe keepsGood_DeleteText keepsLinked_CreateText keepsLinked_CloseRound
  keepsLinked_linkless linkless_votes linkless_ProposeEdit linkless_DeleteText

lemma serves_writes:
  assumes cd: "codecOk cd" and w: "inOrder cd w"
  shows "serves cd (\<lambda>_. True) w (CreateText (refRepo cd) title content u tags)" "serves cd (\<lambda>_. True) w (ProposeEdit (refRepo cd) t a b c u)"
    "serves cd (\<lambda>_. True) w (CastVote (refRepo cd) f u)" "serves cd (\<lambda>_. True) w (Subscribe (refRepo cd) u t)"
    "serves cd (\<lambda>_. True) w (Unsubscribe (refRepo cd) u t)" "serves cd (\<lambda>_. True) w (DeleteText (refRepo cd) t)"
    "serves cd (\<lambda>_. True) w (CloseRound (refRepo cd) t)" "serves cd (\<lambda>_. True) w (ScheduleRoundClose (refRepo cd) t at u)"
proof -
  show "serves cd (\<lambda>_. True) w (CreateText (refRepo cd) title content u tags)" "serves cd (\<lambda>_. True) w (ProposeEdit (refRepo cd) t a b c u)"
    "serves cd (\<lambda>_. True) w (CastVote (refRepo cd) f u)" "serves cd (\<lambda>_. True) w (Subscribe (refRepo cd) u t)"
    "serves cd (\<lambda>_. True) w (Unsubscribe (refRepo cd) u t)" "serves cd (\<lambda>_. True) w (DeleteText (refRepo cd) t)"
    "serves cd (\<lambda>_. True) w (ScheduleRoundClose (refRepo cd) t at u)"
    by (rule servesI [OF w]; (rule calmD [OF calm_writes(2)] calmD [OF calm_writes(4)] calmD [OF calm_writes(5)] calmD [OF calm_writes(6)]
        calmD [OF calm_writes(7)] calmD [OF calm_writes(8)] calmD [OF calm_deletions(3)], assumption | simp add: write_facts cd))+
  show "serves cd (\<lambda>_. True) w (CloseRound (refRepo cd) t)"
    by (rule servesI [OF w]) (use cd w calm_CloseRound [OF cd] in \<open>auto simp: write_facts inOrder_def\<close>)
qed

lemma ScheduleRoundClose_at:
  "ScheduleRoundClose (refRepo cd) t at u w = (Inr round, w') \<Longrightarrow> round_scheduledCloseAt round = Some at"
  by (auto simp: ScheduleRoundClose_def bindE_def ret_def raise_def Let_def split: sum.splits prod.splits if_splits)

lemma serves_schedule:
  assumes "codecOk cd" and "inOrder cd w"
  shows "serves cd (\<lambda>round. round_scheduledCloseAt round = Some at) w (ScheduleRoundClose (refRepo cd) t at u)"
  using serves_writes(8) [OF assms, of t at u] ScheduleRoundClose_at [of cd t at u w]
  by (auto simp: serves_def split: prod.splits sum.splits)

lemma calm_orMissing [calm_intros]: "calm m \<Longrightarrow> calm (orMissing m)"
  unfolding orMissing_def by (intro calm_intros)

lemma calm_listings:
  "calm (listedText (refRepo cd) u t x)" "calm (versionOf (refRepo cd) t y)" "calm (subscribedText (refRepo cd) i z)"
  unfolding listedText_def versionOf_def resolvedRound_def resolvedSlot_def subscribedText_def
  by (intro calm_intros crash_simps)+

text \<open>The readers: what they call neither writes nor crashes.\<close>

lemma serves_calm: "inOrder cd w \<Longrightarrow> readOnly m \<Longrightarrow> calm m \<Longrightarrow> serves cd (\<lambda>_. True) w m"
  by (rule serves_read) (auto dest: calmD)

lemma calm_tagged: "calm (let tags = queryTags L r in if tags \<noteq> []
     then bindE (TextsByTags (lib_lower L) (refRepo cd) tags) (\<lambda>texts. ret (taggedPage limit offset texts))
     else RecentTexts (refRepo cd) limit offset)"
  unfolding Let_def by (intro calm_intros)

lemma readOnly_tagged: "readOnly (let tags = queryTags L r in if tags \<noteq> []
     then bindE (TextsByTags (lib_lower L) (refRepo cd) tags) (\<lambda>texts. ret (taggedPage limit offset texts))
     else RecentTexts (refRepo cd) limit offset)"
  unfolding Let_def by (intro read_intros)

lemma answers_data [answer_intros]:
  "inOrder cd w \<Longrightarrow> answers cd w (ret (writeJSON 200 (BTexts a)))" "inOrder cd w \<Longrightarrow> answers cd w (ret (writeJSON 200 (BTags b)))"
  "inOrder cd w \<Longrightarrow> answers cd w (ret (writeJSON 200 (BText c)))" "inOrder cd w \<Longrightarrow> answers cd w (ret (writeJSON 201 (BText c)))"
  "inOrder cd w \<Longrightarrow> answers cd w (ret (writeJSON 200 (BTextWithSlots d)))" "inOrder cd w \<Longrightarrow> answers cd w (ret (writeJSON 200 (BFragment e)))"
  "inOrder cd w \<Longrightarrow> answers cd w (ret (writeJSON 201 (BFragment e)))" "inOrder cd w \<Longrightarrow> answers cd w (ret (writeJSON 200 (BFragments f)))"
  "inOrder cd w \<Longrightarrow> answers cd w (ret (writeJSON 200 (BRound g)))" "inOrder cd w \<Longrightarrow> answers cd w (ret (writeJSON 200 (BOutcome h)))"
  "inOrder cd w \<Longrightarrow> answers cd w (ret (writeJSON 200 (BScheduled i)))" "inOrder cd w \<Longrightarrow> answers cd w (ret (writeJSON 200 (BSubscribed j)))"
  "inOrder cd w \<Longrightarrow> answers cd w (ret (writeJSON 200 (BVotes k)))" "inOrder cd w \<Longrightarrow> answers cd w (ret (writeJSON 200 (BHistory l)))"
  "inOrder cd w \<Longrightarrow> answers cd w (ret (writeJSON 200 (BSubscribedTexts m)))" "inOrder cd w \<Longrightarrow> answers cd w (ret (writeJSON 200 (BVoteCount n)))"
  "inOrder cd w \<Longrightarrow> answers cd w (ret (writeJSON 204 NoContent))"
  by (auto intro!: answers_ret simp: responseOk_def writeJSON_def)

lemma answers_option [answer_intros]:
  "(x = None \<Longrightarrow> answers cd w a) \<Longrightarrow> (\<And>y. x = Some y \<Longrightarrow> answers cd w (b y)) \<Longrightarrow> answers cd w (case x of None \<Rightarrow> a | Some y \<Rightarrow> b y)"
  by (cases x) auto

lemma answers_if [answer_intros]:
  "answers cd w a \<Longrightarrow> answers cd w b \<Longrightarrow> answers cd w (if c then a else b)"
  by simp

lemma status_codes [simp]: "400 \<in> errorStatus" "404 \<in> errorStatus" "405 \<in> errorStatus" "500 \<in> errorStatus"
  by (simp_all add: errorStatus_def)

lemma answers_reader:
  assumes "inOrder cd w" and "readOnly m" and "calm m" and "\<And>x w'. inOrder cd w' \<Longrightarrow> answers cd w' (k x)"
  shows "answers cd w (attempt m repoError k)" "answers cd w (attempt m (\<lambda>e. internalError) k)"
  by (rule answers_attempt [OF serves_calm [OF assms(1-3)]]; (rule answers_json; assumption | rule assms(4); assumption))+

lemma reader_answers:
  assumes w: "inOrder cd w"
  shows "answers cd w (recentTextsHandler L s (refRepo cd) r)" "answers cd w (tagsHandler L s (refRepo cd) r)"
    "answers cd w (getTextHandler L s (refRepo cd) r)" "answers cd w (textWithSlotsHandler L s (refRepo cd) r)"
    "answers cd w (currentRoundHandler L s (refRepo cd) r)" "answers cd w (subscriptionsHandler L s (refRepo cd) r)"
    "answers cd w (fragmentsHandler L s (refRepo cd) r)" "answers cd w (userVotesHandler L s (refRepo cd) r)"
    "answers cd w (getFragmentHandler L s (refRepo cd) r)" "answers cd w (voteCountHandler L s (refRepo cd) r)"
  unfolding recentTextsHandler_def tagsHandler_def getTextHandler_def textWithSlotsHandler_def currentRoundHandler_def
    subscriptionsHandler_def fragmentsHandler_def userVotesHandler_def getFragmentHandler_def voteCountHandler_def
  by (intro answers_option answers_json answers_reader answers_data calm_tagged readOnly_tagged calm_intros calm_listings
      read_intros readOnly_listed readOnly_subscribedText w status_codes | assumption)+

lemma writer_answers:
  assumes cd: "codecOk cd" and w: "inOrder cd w"
  shows "answers cd w (createTextHandler L s (refRepo cd) r)" "answers cd w (deleteTextHandler L s (refRepo cd) r)"
    "answers cd w (proposeEditHandler L s (refRepo cd) r)" "answers cd w (closeRoundHandler L s (refRepo cd) r)"
    "answers cd w (subscribeHandler L s (refRepo cd) r)" "answers cd w (unsubscribeHandler L s (refRepo cd) r)"
    "answers cd w (castVoteHandler L s (refRepo cd) r)"
  unfolding createTextHandler_def deleteTextHandler_def proposeEditHandler_def closeRoundHandler_def subscribeHandler_def
    unsubscribeHandler_def castVoteHandler_def Let_def
  by (intro answer_intros answers_attempt [where P = "\<lambda>_. True"] serves_writes cd w | assumption)+

lemma schedule_answers:
  assumes cd: "codecOk cd" and w: "inOrder cd w"
  shows "answers cd w (scheduleCloseHandler L s (refRepo cd) r)"
  unfolding scheduleCloseHandler_def
  by (intro answer_intros answers_attempt [OF serves_schedule] cd w status_codes | assumption)+ simp_all

lemma history_answers:
  assumes w: "inOrder cd w" and n: "card (stored cd w) < lib_fuel L"
  shows "answers cd w (historyHandler L s (refRepo cd) r)"
proof -
  have "serves cd (\<lambda>_. True) w (bindE (TextChain (lib_fuel L) (refRepo cd) (rq_path r ''id'')) (\<lambda>chain. foldE (versionOf (refRepo cd)) chain []))"
  proof (rule serves_read [OF w])
    show "readOnly (bindE (TextChain (lib_fuel L) (refRepo cd) (rq_path r ''id'')) (\<lambda>chain. foldE (versionOf (refRepo cd)) chain []))"
      by (intro read_intros readOnly_version)
    fix e w' assume run: "bindE (TextChain (lib_fuel L) (refRepo cd) (rq_path r ''id'')) (\<lambda>chain. foldE (versionOf (refRepo cd)) chain []) w = (Inl e, w')"
    have calm: "calm (foldE (versionOf (refRepo cd)) chain [])" for chain by (intro calm_intros calm_listings)
    show "\<not> crash e"
      using TextChain_walk [of cd w, OF _ _ n, of "rq_path r ''id''"] w run calmD [OF calm, of _ w e w']
      by (auto simp: inOrder_def bindE_def split: option.splits)
  qed
  then show ?thesis unfolding historyHandler_def
    by (rule answers_attempt) (intro answer_intros | assumption)+
qed

lemma handler_answers:
  assumes cd: "codecOk cd" and w: "inOrder cd w" and n: "card (stored cd w) < lib_fuel L" and h: "(p, path, h) \<in> set routes"
  shows "answers cd w (h L s (refRepo cd) r)"
  using h unfolding routes_def list.set insert_iff empty_iff prod.inject
  by (elim disjE conjE FalseE) (simp_all only: reader_answers [OF w] writer_answers [OF cd w] schedule_answers [OF cd w] history_answers [OF w n])

text \<open>C33: Every request to the server of queel, whatever its method, path, token and body, is answered, in
  any database that a history of calls leaves (one that deletes no votes of a user whose identifier has a
  slash) and with more fuel for the walk along the versions than there are texts: the handler panics on
  none, and the status of the response says what its body is, data, nothing or an error. The database
  stays in order.\<close>

theorem server_responds:
  assumes cd: "codecOk cd" and "reachable cd w" and "card (stored cd w) < lib_fuel L"
  shows "\<exists>resp w'. NewHandler L s (refRepo cd) m segs r w = (Inr resp, w') \<and> responseOk resp \<and> inOrder cd w'"
proof -
  have w: "inOrder cd w" using reachable_good [OF assms(1,2)] reachable_linked [OF assms(1,2)] by (simp add: inOrder_def)
  obtain res w' where run: "serveRoutes routes L s (refRepo cd) m segs r w = (res, w')" by fastforce
  then have "\<exists>resp. res = Inr resp \<and> responseOk resp \<and> inOrder cd w'"
  proof (cases rule: serveRoutes_cases)
    case (none status message)
    then show ?thesis using w by (auto simp: errorStatus_def)
  next
    case (found p path h vs)
    show ?thesis using handler_answers [OF cd w assms(3) found(1)] found(4) unfolding answers_def by (metis prod.inject)
  qed
  then show ?thesis using run by (simp add: NewHandler_def)
qed

theorem server_responds_witness:
  "\<exists>resp w'. NewHandler (demoServer\<lparr>lib_fuel := 30\<rparr>) ''k'' (refRepo payloadCodec) ''GET'' [''texts'', ''a'', ''history''] authorRequest twoVersions
      = (Inr resp, w') \<and> responseOk resp \<and> rs_status resp = 200 \<and> inOrder payloadCodec w'"
proof -
  let ?run = "NewHandler (demoServer\<lparr>lib_fuel := 30\<rparr>) ''k'' (refRepo payloadCodec) ''GET'' [''texts'', ''a'', ''history''] authorRequest twoVersions"
  have "length (st twoVersions) < 30" by code_simp
  then have "card (stored payloadCodec twoVersions) < lib_fuel (demoServer\<lparr>lib_fuel := 30\<rparr>)"
    using card_stored [of payloadCodec twoVersions] by simp
  then obtain resp w' where run: "?run = (Inr resp, w')" "responseOk resp" "inOrder payloadCodec w'"
    using server_responds [OF payloadCodec_ok twoVersions_reachable, of "demoServer\<lparr>lib_fuel := 30\<rparr>"] by blast
  have "case fst ?run of Inl e \<Rightarrow> False | Inr resp \<Rightarrow> rs_status resp = 200" by code_simp
  then show ?thesis using run by simp
qed

end
