(* ===== verification/Scheduling.thy ===== *)
theory Scheduling
  imports Responses HostGate
begin

text \<open>
  The scheduled closing of rounds: a tick of the leader's worker closes every round that is due and can
  be closed, one after the other, each on the database the one before has left.
\<close>

section \<open>Closing one round leaves the others\<close>

definition ready :: "'v codec \<Rightarrow> 'v kvs world \<Rightarrow> string \<Rightarrow> bool" where
  "ready cd w t \<longleftrightarrow> textOf cd w t \<noteq> None \<and> (\<exists>r. currentRoundOf cd w t r \<and> round_slots r \<noteq> []
     \<and> (\<forall>s \<in> set (round_slots r). slotFragments cd w t (slot_id s) \<noteq> {}))"

definition superseded :: "'v kvs world \<Rightarrow> string \<Rightarrow> bool" where
  "superseded w t \<longleftrightarrow> db w (supersededByKey t) \<noteq> None"

text \<open>What a closing does to the families: a text and a round are new, the round that was open is rewritten
  and is no longer the current one.\<close>

definition closeFrame :: "'v codec \<Rightarrow> string \<Rightarrow> 'v kvs world \<Rightarrow> 'v kvs world \<Rightarrow> bool" where
  "closeFrame cd t w w' \<longleftrightarrow> (\<exists>r i j x r' nx.
     roundIs cd (fam ''round'' (db w)) r \<and> round_textID r = t \<and> freshID cd (db w) i \<and> freshID cd (db w) j
   \<and> fam ''text'' (db w') = (fam ''text'' (db w))(i \<mapsto> x)
   \<and> fam ''round'' (db w') = (fam ''round'' (db w))(round_id r \<mapsto> r', j \<mapsto> nx)
   \<and> fam ''currentround'' (db w') = (fam ''currentround'' (db w))(t := None, i \<mapsto> encRaw cd j)
   \<and> fam ''fragment'' (db w') = fam ''fragment'' (db w)
   \<and> fam ''supersededby'' (db w') = (fam ''supersededby'' (db w))(t \<mapsto> encRaw cd i))"

lemma fam_roundSpaces:
  assumes "p \<in> {''text'', ''round'', ''currentround'', ''fragment''}"
    and "\<forall>kv \<in> set subs. space (fst kv) = ''subscription''" and "text_id x = i"
  shows "fam p (foldl wopMap m (closeOps cd t x r' (roundWrites cd nx) now subs)) =
    (if p = ''text'' then (fam p m)(i \<mapsto> encText cd x)
     else if p = ''round'' then (fam p m)(round_id r' \<mapsto> encRound cd r', round_id nx \<mapsto> encRound cd nx)
     else if p = ''currentround'' then (fam p m)(t := None, round_textID nx \<mapsto> encRaw cd (round_id nx)) else fam p m)"
proof -
  have p: "p \<in> watched" "plainID p" using assms(1) by (auto simp: watched_def)
  show ?thesis unfolding fam_closeOps [OF p assms(2)]
    using p(2) watched_cases [OF p(1)] by (simp add: fam_roundWrites fam_simps fam_upd_other assms(3))
qed

lemma fam_superseded:
  assumes "\<forall>kv \<in> set subs. space (fst kv) = ''subscription''"
  shows "fam ''supersededby'' (foldl wopMap m (closeOps cd t x r (roundWrites cd nx) now subs))
    = (fam ''supersededby'' m)(t \<mapsto> encRaw cd (text_id x))"
proof -
  define ws where "ws = roundWrites cd nx
     @ concat (map (\<lambda>tag. [DelOp (tagIndexKey tag t), PutOp (tagIndexKey tag (text_id x)) (encRaw cd (text_id x))]) (text_tags x))
     @ concat (map (\<lambda>(k, v). migrateOps cd t (text_id x) now k) subs)"
  have "list_all (\<lambda>y. space (opKey y) \<notin> {''text'', ''supersededby''}) ws"
    using assms by (fastforce simp: ws_def roundWrites_def list_all_iff migrateOps_def Let_def)
  note fams = fam_successor(2) [OF this, of "roundKey (round_id r)" "currentRoundKey t" m "text_id x" "encText cd x" "encRound cd r" t]
  have "closeOps cd t x r (roundWrites cd nx) now subs = [PutOp (textKey (text_id x)) (encText cd x), PutOp (roundKey (round_id r)) (encRound cd r),
      DelOp (currentRoundKey t), PutOp (supersededByKey t) (encRaw cd (text_id x))] @ ws" by (simp add: closeOps_def ws_def)
  then show ?thesis using fams by simp
qed

lemma wp_CloseRound_frame:
  assumes cd: "codecOk cd" and good: "good cd w"
  shows "wp (CloseRound (refRepo cd) t) (\<lambda>out. closeFrame cd t w) (\<lambda>e w'. db w' = db w) w"
proof -
  have subs: "\<forall>kv \<in> set (scanned (subscriptionPrefix t) w). space (fst kv) = ''subscription''"
    unfolding subscriptionPrefix_form by (metis plain_spaces(8) prod.collapse space_scanned)
  have framed: "closeFrame cd t w (wrote (closeOps cd t x (r\<lparr>round_status := RoundStatusClosed, round_closedAt := c\<rparr>)
      (roundWrites cd (newRound j i n now')) now (scanned (subscriptionPrefix t) w)) (w\<lparr>ids := rest\<rparr>))"
    if "ids w = i # j # rest" "roundIs cd (fam ''round'' (db w)) r" "round_textID r = t" "text_id x = i" for i j rest r x c n now now'
  proof -
    let ?r = "r\<lparr>round_status := RoundStatusClosed, round_closedAt := c\<rparr>"
    let ?ops = "closeOps cd t x ?r (roundWrites cd (newRound j i n now')) now (scanned (subscriptionPrefix t) w)"
    have fresh: "freshID cd (db w) i" "freshID cd (db w) j" using good that(1) by (auto simp: good_def)
    have db: "db (wrote ?ops (w\<lparr>ids := rest\<rparr>)) = foldl wopMap (db w) ?ops" using good_refInv [OF good] by (simp add: db_wrote)
    have fams: "fam ''text'' (foldl wopMap (db w) ?ops) = (fam ''text'' (db w))(i \<mapsto> encText cd x)"
      "fam ''round'' (foldl wopMap (db w) ?ops) = (fam ''round'' (db w))(round_id r \<mapsto> encRound cd ?r, j \<mapsto> encRound cd (newRound j i n now'))"
      "fam ''currentround'' (foldl wopMap (db w) ?ops) = (fam ''currentround'' (db w))(t := None, i \<mapsto> encRaw cd j)"
      "fam ''fragment'' (foldl wopMap (db w) ?ops) = fam ''fragment'' (db w)"
      "fam ''supersededby'' (foldl wopMap (db w) ?ops) = (fam ''supersededby'' (db w))(t \<mapsto> encRaw cd i)"
      unfolding fam_superseded [OF subs] that(4)
      by (simp_all add: fam_roundSpaces [OF _ subs that(4)] newRound_def)
    show ?thesis unfolding closeFrame_def db using that(2,3) fresh fams by blast
  qed
  show ?thesis
    unfolding CloseRound_def wp_bind wp_catch
  proof (rule wp_CurrentRound_of [OF good], goal_cases)
    case (1 r)
    have "\<forall>i j rest tx content n1 n2 n3. ids w = i # j # rest \<longrightarrow>
      closeFrame cd t w (wrote (closeOps cd t \<lparr>text_id = i, text_title = text_title tx, text_content = content,
        text_finalized = True, text_createdAt = n1, text_previousTextID = text_id tx, text_tags = text_tags tx,
        text_createdBy = text_createdBy tx\<rparr> (r\<lparr>round_status := RoundStatusClosed, round_closedAt := Some n2\<rparr>)
        (roundWrites cd (newRound j i (round_number r + 1) n3)) n2 (scanned (subscriptionPrefix t) w)) (w\<lparr>ids := rest\<rparr>))"
      by (intro allI impI framed [OF _ 1(1,2)]) simp_all
    moreover have "closeFrame cd t w (v\<lparr>ticks := n\<rparr>) = closeFrame cd t w v" for n v by (simp add: closeFrame_def)
    ultimately show ?case
      by (auto intro!: wp_readOnlyI [OF readOnly_getText] wp_readOnlyI [OF readOnly_resolveSlots]
          simp: wp_simps closeOps_def Let_def split: list.splits option.splits) ((erule allE)+, assumption)
  qed (simp add: wp_simps)
qed

lemma wp_CloseRound_supply:
  "wp (CloseRound (refRepo cd) t) (\<lambda>out w'. length (ids w) \<le> length (ids w') + 2) (\<lambda>e w'. length (ids w) \<le> length (ids w') + 2) w"
  unfolding CloseRound_def wp_bind wp_catch
  by (auto intro!: wp_readOnlyI [OF readOnly_CurrentRound] wp_readOnlyI [OF readOnly_getText] wp_readOnlyI [OF readOnly_resolveSlots]
      simp: wp_simps Let_def split: list.splits option.splits)

text \<open>What the others keep: what is superseded stays so, and what can be closed still can be.\<close>

lemma superseded_stays: "closeFrame cd t w w' \<Longrightarrow> superseded w s \<Longrightarrow> superseded w' s"
  by (auto simp: closeFrame_def superseded_def fam_def key_forms fun_eq_iff)

lemma superseded_now: "closeFrame cd t w w' \<Longrightarrow> superseded w' t"
  by (auto simp: closeFrame_def superseded_def fam_def key_forms fun_eq_iff)

lemma ready_stays:
  assumes good: "good cd w" and frame: "closeFrame cd t w w'" and ready: "ready cd w s" and s: "s \<noteq> t"
  shows "ready cd w' s"
proof -
  obtain r i j x r' nx where r: "roundIs cd (fam ''round'' (db w)) r" "round_textID r = t" "freshID cd (db w) i" "freshID cd (db w) j"
    and fams: "fam ''text'' (db w') = (fam ''text'' (db w))(i \<mapsto> x)"
      "fam ''round'' (db w') = (fam ''round'' (db w))(round_id r \<mapsto> r', j \<mapsto> nx)"
      "fam ''currentround'' (db w') = (fam ''currentround'' (db w))(t := None, i \<mapsto> encRaw cd j)"
      "fam ''fragment'' (db w') = fam ''fragment'' (db w)"
    using frame unfolding closeFrame_def by blast
  obtain q where q: "currentRoundOf cd w s q" "round_slots q \<noteq> []" "\<forall>a \<in> set (round_slots q). slotFragments cd w s (slot_id a) \<noteq> {}"
    and tx: "textOf cd w s \<noteq> None" using ready by (auto simp: ready_def)
  have i: "i \<noteq> s" using tx r(3) by (auto simp: textOf_def freshID_def unused_def fam_get)
  have j: "j \<noteq> round_id q" using q(1) r(4) by (auto simp: currentRoundOf_def freshID_def unused_def fam_get bind_eq_Some_conv)
  have "round_textID q = s"
    using good_parts(3) [OF good] q(1) by (auto simp: currentOk_def currentRoundOf_def fam_get bind_eq_Some_conv)
  then have "round_id q \<noteq> round_id r"
    using q(1) r(1,2) s by (auto simp: currentRoundOf_def roundIs_def fam_get bind_eq_Some_conv)
  then have "currentRoundOf cd w' s q" using q(1) i j s by (simp add: currentRoundOf_def fam_get fams)
  moreover have "textOf cd w' s = textOf cd w s" using i by (simp add: textOf_def fam_get fams)
  moreover have "slotFragments cd w' s a = slotFragments cd w s a" for a by (simp add: slotFragments_def fam_get fams)
  ultimately show ?thesis using q tx unfolding ready_def by auto
qed

lemma ready_closes:
  assumes cd: "codecOk cd" and good: "good cd w" and ready: "ready cd w t" and enough: "2 \<le> length (ids w)"
  shows "superseded (snd (CloseRound (refRepo cd) t w)) t"
proof -
  obtain q w' where run: "CloseRound (refRepo cd) t w = (q, w')" by fastforce
  obtain r where r: "currentRoundOf cd w t r" "round_slots r \<noteq> []" "\<forall>a \<in> set (round_slots r). slotFragments cd w t (slot_id a) \<noteq> {}"
    and tx: "textOf cd w t \<noteq> None" using ready unfolding ready_def by blast
  have one: "r' = r" if "currentRoundOf cd w t r'" for r' using that r(1) unfolding currentRoundOf_def by (metis option.inject)
  show ?thesis
  proof (cases q)
    case (Inl e)
    have "closeFails cd w t e" using wp_error [OF wp_CloseRound [OF cd good] run [unfolded Inl]] by (rule conjunct1)
    moreover have "\<not> (\<exists>r'. currentRoundOf cd w t r' \<and> round_slots r' = [])"
      "\<not> (\<exists>r' s. currentRoundOf cd w t r' \<and> s \<in> set (round_slots r') \<and> slotFragments cd w t (slot_id s) = {})"
      "\<not> length (ids w) < 2" using one r(2,3) enough by (blast, blast, simp)
    ultimately have False using r(1) tx unfolding closeFails_def by blast
    then show ?thesis ..
  next
    case (Inr out)
    have "closeFrame cd t w w'" using wp_value [OF wp_CloseRound_frame [OF cd good] run [unfolded Inr]] .
    then show ?thesis using superseded_now run by simp
  qed
qed

section \<open>The worker\<close>

text \<open>The databases that a list of closings goes through.\<close>

definition closeNext :: "'v codec \<Rightarrow> 'v kvs world \<Rightarrow> Round \<Rightarrow> 'v kvs world" where
  "closeNext cd w r = snd (CloseRound (refRepo cd) (round_textID r) w)"

lemma inOrder_closeNext: "codecOk cd \<Longrightarrow> inOrder cd w \<Longrightarrow> inOrder cd (closeNext cd w r)"
  using serves_writes(7) [of cd w "round_textID r"]
  by (auto simp: serves_def closeNext_def split: prod.splits sum.splits)

lemma closeNext_step:
  assumes cd: "codecOk cd" and w: "inOrder cd w"
  shows "closeFrame cd (round_textID r) w (closeNext cd w r) \<or> db (closeNext cd w r) = db w"
    and "length (ids w) \<le> length (ids (closeNext cd w r)) + 2"
proof -
  obtain q w' where run: "CloseRound (refRepo cd) (round_textID r) w = (q, w')" by fastforce
  have good: "good cd w" using w by (simp add: inOrder_def)
  show "closeFrame cd (round_textID r) w (closeNext cd w r) \<or> db (closeNext cd w r) = db w"
    using wp_CloseRound_frame [OF cd good, of "round_textID r"] by (cases q) (auto simp: closeNext_def run wp_def)
  show "length (ids w) \<le> length (ids (closeNext cd w r)) + 2"
    using wp_CloseRound_supply [of cd "round_textID r" w] by (cases q) (auto simp: closeNext_def run wp_def)
qed

lemma ready_db: "db w' = db w \<Longrightarrow> ready cd w' t = ready cd w t"
  by (simp add: ready_def textOf_def currentRoundOf_def slotFragments_def)

lemma closings_supersede:
  assumes cd: "codecOk cd"
  shows "inOrder cd w \<Longrightarrow> 2 * length due \<le> length (ids w) \<Longrightarrow> superseded w t \<or> ready cd w t \<and> t \<in> round_textID ` set due \<Longrightarrow>
    superseded (foldl (closeNext cd) w due) t"
proof (induction due arbitrary: w)
  case (Cons r due)
  note step = closeNext_step [OF cd Cons.prems(1), of r]
  have good: "good cd w" using Cons.prems(1) by (simp add: inOrder_def)
  have "superseded (closeNext cd w r) t \<or> ready cd (closeNext cd w r) t \<and> t \<in> round_textID ` set due"
  proof (cases "superseded w t")
    case True
    then show ?thesis using step(1) superseded_stays [OF _ True] by (metis superseded_def)
  next
    case False
    then have t: "ready cd w t" "t = round_textID r \<or> t \<in> round_textID ` set due" using Cons.prems(3) by auto
    show ?thesis
    proof (cases "t = round_textID r")
      case True
      then show ?thesis using ready_closes [OF cd good t(1)] Cons.prems(2) by (simp add: closeNext_def)
    next
      case False
      then show ?thesis using step(1) ready_stays [OF good _ t(1)] t ready_db by blast
    qed
  qed
  moreover have "2 * length due \<le> length (ids (closeNext cd w r))" using step(2) Cons.prems(2) by simp
  ultimately show ?case using Cons.IH inOrder_closeNext [OF cd Cons.prems(1)] by simp
qed simp

lemma closeDue_run:
  assumes cd: "codecOk cd" and L: "hl_repo L = refRepo cd" and h: "inOrder cd (h_repo h)"
  shows "\<exists>h'. closeDue L T r u h = (Inr (), h') \<and> h_repo h' = closeNext cd (h_repo h) r"
proof -
  obtain q w' where run: "CloseRound (refRepo cd) (round_textID r) (h_repo h) = (q, w')" by fastforce
  have "\<not> crash e" if "q = Inl e" for e using calm_CloseRound [OF cd] h run that by (auto simp: inOrder_def)
  then show ?thesis
    by (cases q) (auto simp: closeDue_def onRepo_def L run closeNext_def hret_def hbind_def IndexFinalizedText_def callIndex_def
        RoundClosed_def spawn_def)
qed

lemma closeDue_all:
  assumes cd: "codecOk cd" and L: "hl_repo L = refRepo cd"
  shows "inOrder cd (h_repo h) \<Longrightarrow> \<exists>h'. hfold (closeDue L T) due () h = (Inr (), h') \<and> h_repo h' = foldl (closeNext cd) (h_repo h) due"
proof (induction due arbitrary: h)
  case Nil
  then show ?case by (simp add: hret_def)
next
  case (Cons r due)
  obtain h1 where h1: "closeDue L T r () h = (Inr (), h1)" "h_repo h1 = closeNext cd (h_repo h) r"
    using closeDue_run [OF cd L Cons.prems] by blast
  then show ?case using Cons.IH [of h1] inOrder_closeNext [OF cd Cons.prems] by (simp add: hbind_def)
qed

text \<open>Every open round whose time has come is listed.\<close>

definition isDue :: "time \<Rightarrow> Round \<Rightarrow> bool" where
  "isDue now r \<longleftrightarrow> round_status r = RoundStatusOpen \<and> (\<exists>at. round_scheduledCloseAt r = Some at \<and> at \<le> now)"

definition dueListed :: "'v codec \<Rightarrow> 'v kvs world \<Rightarrow> time \<Rightarrow> 'v \<Rightarrow> Round list \<Rightarrow> bool" where
  "dueListed cd w now v due \<longleftrightarrow>
     (\<forall>r. Option.bind (db w (roundKey (decRaw cd v))) (decRound cd) = Some r \<longrightarrow> isDue now r \<longrightarrow> r \<in> set due)"

lemma wp_DueScheduledRounds:
  assumes good: "good cd w"
  shows "wp (DueScheduledRounds (refRepo cd) now)
    (\<lambda>due w'. \<forall>t r. currentRoundOf cd w t r \<longrightarrow> isDue now r \<longrightarrow> r \<in> set due) (\<lambda>e w'. True) w"
proof -
  let ?kvs = "scanned currentRoundPrefix w"
  let ?I = "\<lambda>xs due w'. w' = w \<and> (\<forall>kv \<in> set ?kvs. kv \<in> set xs \<or> dueListed cd w now (snd kv) due)"
  have step: "wp (bindE (getRound (refRepo cd) (decRaw (codec (refRepo cd)) v)) (\<lambda>round.
        ret (if round_status round = RoundStatusOpen
               \<and> (case round_scheduledCloseAt round of None \<Rightarrow> False | Some at \<Rightarrow> \<not> now < at)
             then due @ [round] else due)))
      (\<lambda>due' w'. w' = w \<and> set due \<subseteq> set due' \<and> dueListed cd w now v due') (\<lambda>e w'. True) w" for v due
    by (simp add: getRound_def wp_simps dueListed_def isDue_def split: option.splits) force
  show ?thesis
    unfolding DueScheduledRounds_def wp_bind wp_storeScan
  proof (rule wp_fold [where I = ?I], goal_cases)
    case (2 x xs due w')
    obtain k v where x: "x = (k, v)" by fastforce
    have w': "w' = w" and I: "\<forall>kv \<in> set ?kvs. kv = (k, v) \<or> kv \<in> set xs \<or> dueListed cd w now (snd kv) due"
      using 2 unfolding x by auto
    have more: "dueListed cd w now u due'" if "dueListed cd w now u due" "set due \<subseteq> set due'" for u due'
      using that by (auto simp: dueListed_def)
    show ?case unfolding x prod.case w' by (rule wp_mono [OF step]) (use I more in fastforce)+
  next
    case (3 due w')
    have "r \<in> set due" if r: "currentRoundOf cd w t r" "isDue now r" for t r
    proof -
      obtain v where v: "db w (currentRoundKey t) = Some v" "decRaw cd v = round_id r"
        "Option.bind (db w (roundKey (round_id r))) (decRound cd) = Some r" using r(1) by (auto simp: currentRoundOf_def)
      have "HasPrefix (currentRoundKey t) currentRoundPrefix" by (simp add: key_defs HasPrefix_def currentRoundPrefix_def)
      then have "(currentRoundKey t, v) \<in> set ?kvs" using v(1) scanned_iff [OF good_refInv [OF good]] by blast
      then have "dueListed cd w now v due" using 3 by auto
      then show ?thesis using v r by (simp add: dueListed_def)
    qed
    then show ?case by blast
  qed simp
qed

text \<open>C37: A tick of the worker on the leader closes the rounds that are due. Take any state of the repository
  that a history of calls leaves (one that deletes no votes of a user whose identifier has a slash), and
  a text whose current round is open, is scheduled for now or earlier, and has slots with a fragment in
  each. If the list of due rounds can be read and two random identifiers are left for each round on it,
  then the text has been superseded by a new version when the tick is over, whatever the other rounds on
  the list are and whether or not they could be closed.\<close>

theorem due_rounds_close:
  assumes cd: "codecOk cd" and L: "hl_repo L = refRepo cd" and "reachable cd (h_repo h)" and leader: "isLeader \<noteq> Some False"
    and now: "hostNow h = (Inr now, h1)" and due: "DueScheduledRounds (refRepo cd) now (h_repo h1) = (Inr due, w1)"
    and enough: "2 * length due \<le> length (ids (h_repo h))" and t: "ready cd (h_repo h) t"
    and r: "currentRoundOf cd (h_repo h) t r" "isDue now r"
  shows "\<exists>h'. scheduledCloseTick L T isLeader h = (Inr (), h') \<and> superseded (h_repo h') t"
proof -
  have h: "inOrder cd (h_repo h)" using reachable_good [OF cd assms(3)] reachable_linked [OF cd assms(3)] by (simp add: inOrder_def)
  have h1: "h_repo h1 = (h_repo h)\<lparr>ticks := ticks (h_repo h) + 1\<rparr>" using now by (auto simp: hostNow_def onRepo_def timeNow_def hret_def)
  have o1: "inOrder cd (h_repo h1)" unfolding h1 by (rule inOrder_tick [OF h])
  have w1: "w1 = h_repo h1" using readOnly_DueScheduledRounds [of cd now] due by (auto simp: readOnly_def) (metis snd_conv)
  have r1: "currentRoundOf cd (h_repo h1) t r" using r(1) by (simp add: h1 currentRoundOf_def)
  have listed: "r \<in> set due" using wp_value [OF wp_DueScheduledRounds due] o1 r1 r(2) by (auto simp: inOrder_def)
  have "round_textID r = t"
    using h r(1) good_parts(3) [of cd "h_repo h"] by (auto simp: inOrder_def currentOk_def currentRoundOf_def fam_get bind_eq_Some_conv)
  then have "t \<in> round_textID ` set due" using listed by blast
  obtain h' where h': "hfold (closeDue L T) due () h1 = (Inr (), h')" "h_repo h' = foldl (closeNext cd) (h_repo h1) due"
    using closeDue_all [OF cd L o1] by blast
  have same: "h1\<lparr>h_repo := h_repo h1\<rparr> = h1" by simp
  have "scheduledCloseTick L T isLeader h = (Inr (), h')"
    using leader h'(1) by (simp add: scheduledCloseTick_def hbind_def now onRepo_def L due w1)
  moreover have "superseded (h_repo h') t" unfolding h'(2)
    by (rule closings_supersede [OF cd o1])
      (use enough t \<open>t \<in> round_textID ` set due\<close> ready_db [of "h_repo h1" "h_repo h" cd t] in \<open>simp_all add: h1\<close>)
  ultimately show ?thesis by blast
qed

text \<open>A text with one proposal, its round scheduled for the time 1.\<close>

definition dueWorld :: "payload kvs world" where
  "dueWorld = snd (serveAll 5 asciiLower (refRepo payloadCodec)
     [QCreateText ''T'' ''hello'' ''u'' [], QProposeEdit ''a'' 0 2 ''J'' ''v'', QScheduleRoundClose ''a'' 1 ''u'']
     (freshWorld [''a'', ''b'', ''c'', ''d'', ''e'', ''f'', ''g'', ''h''] int))"

definition dueHost :: "payload kvs host" where
  "dueHost = demoHost\<lparr>h_repo := dueWorld\<rparr>"

lemma dueWorld_reachable: "reachable payloadCodec dueWorld"
proof -
  let ?qs = "[QCreateText ''T'' ''hello'' ''u'' [], QProposeEdit ''a'' 0 2 ''J'' ''v'', QScheduleRoundClose ''a'' 1 ''u'']"
  have "distinct [''a'', ''b'', ''c'', ''d'', ''e'', ''f'', ''g'', ''h'']" by simp
  moreover have "list_all plainID [''a'', ''b'', ''c'', ''d'', ''e'', ''f'', ''g'', ''h'']" by (simp add: plainID_def)
  moreover have "list_all requestOk ?qs" by (simp add: requestOk_def)
  ultimately show ?thesis unfolding reachable_def dueWorld_def by blast
qed

definition dueRound :: Round where
  "dueRound = the (Option.bind (db dueWorld (roundKey ''b'')) (decRound payloadCodec))"

lemma dueRound_current: "currentRoundOf payloadCodec dueWorld ''a'' dueRound"
proof -
  have "map_option (decRaw payloadCodec) (db dueWorld (currentRoundKey ''a'')) = Some ''b''" by code_simp
  moreover have "Option.is_none (Option.bind (db dueWorld (roundKey ''b'')) (decRound payloadCodec)) = False" by code_simp
  moreover have "round_id dueRound = ''b''" by code_simp
  ultimately show ?thesis by (auto simp: currentRoundOf_def dueRound_def Option.is_none_def)
qed

lemma dueWorld_ready: "ready payloadCodec dueWorld ''a''"
proof -
  have "map_option (\<lambda>x. (fragment_id x, fragment_textID x, fragment_slotID x))
      (Option.bind (db dueWorld (fragmentKey ''d'')) (decFragment payloadCodec)) = Some (''d'', ''a'', ''c'')" by code_simp
  then obtain x where "Option.bind (db dueWorld (fragmentKey ''d'')) (decFragment payloadCodec) = Some x" "fragment_id x = ''d''"
    "fragment_textID x = ''a''" "fragment_slotID x = ''c''" by auto
  then have "x \<in> slotFragments payloadCodec dueWorld ''a'' ''c''" by (simp add: slotFragments_def)
  then have frags: "slotFragments payloadCodec dueWorld ''a'' ''c'' \<noteq> {}" by blast
  have slots: "map slot_id (round_slots dueRound) = [''c'']" by code_simp
  have "round_slots dueRound \<noteq> []" using slots by (metis list.distinct(1) list.map_disc_iff)
  moreover have "slotFragments payloadCodec dueWorld ''a'' (slot_id s) \<noteq> {}" if "s \<in> set (round_slots dueRound)" for s
  proof -
    have "slot_id s \<in> set (map slot_id (round_slots dueRound))" using that by simp
    then have "slot_id s = ''c''" unfolding slots by simp
    then show ?thesis using frags by simp
  qed
  moreover have "Option.is_none (textOf payloadCodec dueWorld ''a'') = False" by code_simp
  then have "textOf payloadCodec dueWorld ''a'' \<noteq> None" by (metis Option.is_none_def)
  ultimately show ?thesis unfolding ready_def using dueRound_current by blast
qed

theorem due_rounds_close_witness:
  "db dueWorld (supersededByKey ''a'') = None
    \<and> (\<exists>h'. scheduledCloseTick demoHostLib demoText None dueHost = (Inr (), h') \<and> superseded (h_repo h') ''a'')"
proof -
  obtain h1 where now: "hostNow dueHost = (Inr 4, h1)" and h1: "h1 = snd (hostNow dueHost)"
  proof -
    have "fst (hostNow dueHost) = Inr 4" by code_simp
    then show ?thesis using that by (metis prod.collapse)
  qed
  obtain q w1 where run: "DueScheduledRounds (refRepo payloadCodec) 4 (h_repo h1) = (q, w1)" by fastforce
  have "map_sum (\<lambda>e. ()) length (fst (DueScheduledRounds (refRepo payloadCodec) 4 (h_repo (snd (hostNow dueHost))))) = Inr 1"
    by code_simp
  then obtain due where due: "q = Inr due" "length due = 1" using run by (cases q) (auto simp: h1)
  have "length (ids dueWorld) = 3" "Option.is_none (db dueWorld (supersededByKey ''a'')) = True" by code_simp+
  moreover have "isDue 4 dueRound"
  proof -
    have "round_status dueRound = RoundStatusOpen" "round_scheduledCloseAt dueRound = Some 1" by code_simp+
    then show ?thesis by (simp add: isDue_def)
  qed
  moreover have "hl_repo demoHostLib = refRepo payloadCodec" "h_repo dueHost = dueWorld" by (simp_all add: demoHostLib_def dueHost_def)
  ultimately show ?thesis
    using due_rounds_close [OF payloadCodec_ok, of demoHostLib dueHost None 4 h1 due w1 "''a''" dueRound demoText] now run due
      dueWorld_reachable dueWorld_ready dueRound_current by (simp add: Option.is_none_def)
qed

end
