(* ===== verification/Spec2Isabelle.thy ===== *)
theory Spec2Isabelle
  imports EngineTraces AntiEntropy Accounting Scheduling
begin

text \<open>
  A model of the Go program of this repository: queel, a replicated store for texts that people amend
  and vote on (under \<open>src/api/queel\<close>), and the public API in front of it (the Go files of
  \<open>src/api\<close>).

  \<^bold>\<open>The parts of the program and how they interact.\<close> A storage engine keeps keys and values in a
  log-structured directory: a write goes to a log and a memtable, a full memtable becomes a sorted
  table, a compaction merges the tables. The voting domain, the \<open>Repository\<close>, keeps texts, rounds,
  fragments, votes and subscriptions as JSON records under structured keys of such a store; closing a
  round splices the winning fragments into a new text. In a cluster the store is a coordinator that
  writes to and reads from a quorum of nodes found on a hash ring; the nodes learn of each other by
  gossip and repair their differences by Merkle trees. The queel server and the host API are two HTTP
  front ends over the repository and over a directory of users and rights; the host API adds accounts,
  sessions, devices and an inbox in a relational database, a search index, and notifications.

  \<^bold>\<open>Theories and sources.\<close>
  \<^item> \<open>Prelude\<close>, \<open>Binary\<close>, \<open>Utf8\<close>: bytes, Go strings, \<open>encoding/binary\<close>, conversion of strings to runes.
  \<^item> Storage engine: \<open>Wal\<close> (\<open>wal.go\<close>), \<open>Memtable\<close> (\<open>memtable.go\<close>), \<open>SSTable\<close> (\<open>sstable.go\<close>), \<open>Engine\<close>
    (\<open>engine.go\<close>, \<open>compaction.go\<close>), \<open>EngineTraces\<close> (histories of operations and restarts). A file is a
    list of bytes, the directory an association list of names and files, the skip list a list of
    nodes with forward indices. The random levels of the skip list are an argument.
  \<^item> Voting domain: \<open>Model\<close> (\<open>model.go\<close>, keys, errors), \<open>Tags\<close> (\<open>tags.go\<close>), \<open>Store\<close> (the interface
    \<open>Store\<close> of \<open>repository.go\<close> as the locales \<open>KVStore\<close> and below), \<open>Repository\<close> (\<open>repository.go\<close>, one
    definition per method, as actions on a world made of the store, the clock and the supply of random
    bytes). \<open>RepoSim\<close> shows that the repository does not depend on the store it runs on, \<open>WeakestPre\<close>
    gives the rules to reason about its actions, \<open>Splice\<close>, \<open>Voting\<close>, \<open>Deletion\<close>, \<open>Closing\<close> hold the
    invariant and its preservation, \<open>History\<close> lifts all of this to histories of calls, \<open>Domain\<close> holds the
    properties, \<open>Lineage\<close> those of the versions of a text.
  \<^item> Cluster: \<open>Ring\<close> (\<open>ring.go\<close>), \<open>Membership\<close> (\<open>membership.go\<close>), \<open>Merkle\<close> (\<open>merkle/tree.go\<close>), \<open>Peer\<close>
    (\<open>entry.go\<close>, \<open>peer_client.go\<close>, \<open>server/internal.go\<close>), \<open>Coordinator\<close> (\<open>coordinator.go\<close>, \<open>store.go\<close>),
    \<open>AntiEntropy\<close> (\<open>antientropy.go\<close>, \<open>decommission.go\<close>). What the network does with a request is an
    argument of the call, so a lost request, a lost answer and a slow peer are all runs of the model.
  \<^item> Rights and tokens: \<open>Rbac\<close> (\<open>rbac/model.go\<close>, \<open>uuid.go\<close>, \<open>store.go\<close>, \<open>store_kv.go\<close>, \<open>socket.go\<close>),
    \<open>Token\<close> (\<open>rbac/jwt.go\<close>, \<open>google.go\<close>).
  \<^item> \<open>Server\<close>: the HTTP server of queel (\<open>server/server.go\<close>, \<open>gossip.go\<close>, \<open>health.go\<close>) and its routes;
    \<open>Responses\<close> shows that every request is answered.
  \<^item> The host API: \<open>Accounts\<close> (\<open>store.go\<close> and the statements of \<open>devices.go\<close> and
    \<open>notifications_inbox.go\<close>, over tables of records), \<open>Access\<close> (\<open>permission_cache.go\<close>, \<open>middleware.go\<close>,
    \<open>http.go\<close>, and the state of the process), \<open>TextApi\<close> (\<open>texts.go\<close>, \<open>slots.go\<close>, \<open>votes.go\<close>,
    \<open>history.go\<close>, \<open>subscriptions.go\<close>, \<open>scheduled_close.go\<close>, \<open>search.go\<close>), \<open>Inbox\<close> (\<open>notifications.go\<close>,
    \<open>notify\<close>, the handlers of \<open>notifications_inbox.go\<close> and \<open>devices.go\<close>), \<open>AuthApi\<close> (\<open>auth.go\<close>,
    \<open>admin.go\<close>), \<open>HostApi\<close> (the routes of \<open>main.go\<close>, \<open>health.go\<close>, \<open>cors.go\<close>),
    \<open>HostGate\<close> (who may change what), \<open>Accounting\<close> (registration and sessions) and \<open>Scheduling\<close> (the
    worker that closes due rounds) hold its properties.

  \<^bold>\<open>State and errors.\<close> A method of the program is a function from its arguments and the state to a sum
  (an error on the left, the result on the right) and the new state. The repository and the queel
  server act on \<open>world\<close>: the store, the clock and the random bytes still to be drawn. The host API acts
  on \<open>host\<close>: that world, the tables, the cache of rights, the keys of Google, the jobs started and the
  calls made to the search index. A goroutine that delivers notifications is a job in the state which
  \<open>runJob\<close> takes up later, so what happens between a request and its notification is part of a run.

  \<^bold>\<open>What the lemmas show.\<close> The engine refines a map, over any history of writes and restarts, and keeps
  a write when it is stopped after any file operation; the theorems at the end of \<open>EngineTraces\<close> show
  where a compaction breaks this. For these the engine carries the field \<open>stops\<close>, the directories its
  file operations have left, which is not in the code and which no operation reads; in the same way
  \<open>diffNode\<close> counts its calls beside its result.
  \<open>Engine\<close> interprets the interface of the repository, so that the domain theorems, proved over a
  reference map, hold on the engine. In the domain an invariant over the families of records is kept
  by every operation, also by those that fail; on it rest the theorems on votes, slots, deletions and the
  closing of a round. The histories are of any calls but one: \<open>requestOk\<close> leaves out a deletion of the
  votes of a user whose identifier has a slash, which breaks the invariant. In the cluster, quorums overlap,
  the merge of views does not depend on the order, reconciliation never loses the newer entry and
  converges. At the two front ends, a request changes the store only if its token, its live rights and its subscription allow it; when the live
  rights cannot be read they are the last ones read, else those of the token, as the code has it.

  \<^bold>\<open>Bounds and fuel.\<close> Machine integers that can overflow are words (lengths in files, Merkle and
  SHA-1 words, permission masks, \<open>int64\<close> clocks of members); Go's \<open>int\<close> for counts and rune offsets is
  \<open>int\<close>, since these count data in memory. \<open>TextChain\<close> walks links between texts without a bound, and
  its model has fuel for both directions, and \<open>Lineage\<close> proves that any fuel above the number of stored
  texts gives the whole chain. A negative replication factor, on which the code panics when a key is
  placed, is read as zero. The store over the engine refuses keys and values of 4 GiB and more
  (\<open>TooLarge\<close>), whose lengths the code would truncate in its files. Readers of files are total functions whose measure is the rest of the file.

  \<^bold>\<open>Parameters.\<close> Cryptographic functions (SHA-1, SHA-256, HMAC, RSA, bcrypt), JSON encoders, the Unicode
  case table, random bytes, the clock, the collation of the database and remote services are arguments
  of the definitions. The hypotheses made about them are named: \<open>codecOk\<close> and \<open>userCodecOk\<close> (a value
  decodes to what was encoded; in Go this needs strings of valid UTF-8), \<open>tokenLibOk\<close>, and injectivity of a hash where a theorem on Merkle
  trees or rings needs it.

  \<^bold>\<open>Not modelled.\<close> The SQLite backend of the directory (\<open>rbac/store_sqlite.go\<close>, SQL over a third-party
  driver; the same interface is modelled over a queel store), the sockets and listeners, the reading
  of flags and the start of processes (\<open>cmd/queeld\<close>, \<open>bootstrap\<close>, \<open>main\<close> but for its routes, signal
  handling in \<open>graceful_shutdown.go\<close>), the HTTP client of \<open>client/client.go\<close>, mail and push delivery,
  the embedding and vector services behind \<open>search.go\<close>: all of them I/O or calls of other programs. A
  data race between goroutines is not modelled: the locks of the program are taken to work, and
  operations under one lock are single steps. The methods of \<open>Repository\<close>, which holds no lock across
  its calls of the store, are single steps too, so two of them at once are not modelled. The front ends in other languages are out of scope.
\<close>

end
